(* ===== verification/Prelude.thy ===== *)
theory Prelude
  imports Main "HOL-Library.Word" "HOL-Library.Monad_Syntax"
begin

unbundle bit_operations_syntax

text \<open>
  Shared vocabulary of the development: the machine integer types of the Rust
  sources, the integer methods of Rust's standard library that \<^verbatim>\<open>src/src/core.rs\<close>
  calls, the split of a 64-bit word into its two halves, and the generic list,
  map and word lemmas that the component theories use. Two collections gather
  the facts that the component proofs unfold together: \<open>halves\<close> for the
  packing of 32-bit fields into one word, \<open>rust_int\<close> for the integer methods.
\<close>

named_theorems halves \<open>reading back the halves of a packed 64-bit word\<close>
named_theorems rust_int \<open>unsigned readings of the integer methods of Rust\<close>

type_synonym u32 = "32 word"
type_synonym u64 = "64 word"
type_synonym i32 = int

subsection \<open>Integer methods of Rust\<close>

definition checked_add :: "u32 \<Rightarrow> u32 \<Rightarrow> u32 option" where
  "checked_add a b = (if unat a + unat b < 2 ^ 32 then Some (a + b) else None)"

definition saturating_sub :: "u64 \<Rightarrow> u64 \<Rightarrow> u64" where
  "saturating_sub a b = (if b \<le> a then a - b else 0)"

definition saturating_add :: "u64 \<Rightarrow> u64 \<Rightarrow> u64" where
  "saturating_add a b = (if unat a + unat b < 2 ^ 64 then a + b else 0xFFFFFFFFFFFFFFFF)"

definition saturating_mul :: "u64 \<Rightarrow> u64 \<Rightarrow> u64" where
  "saturating_mul a b = (if unat a * unat b < 2 ^ 64 then a * b else 0xFFFFFFFFFFFFFFFF)"

definition option_filter :: "('a \<Rightarrow> bool) \<Rightarrow> 'a option \<Rightarrow> 'a option" where
  "option_filter p x = (case x of Some a \<Rightarrow> if p a then Some a else None | None \<Rightarrow> None)"

definition ok_or :: "'e \<Rightarrow> 'a option \<Rightarrow> 'e + 'a" where
  "ok_or e x = (case x of Some a \<Rightarrow> Inr a | None \<Rightarrow> Inl e)"

lemma checked_add_Some [rust_int]:
  "checked_add a b = Some c \<longleftrightarrow> unat a + unat b < 2 ^ 32 \<and> c = a + b"
  by (auto simp: checked_add_def)

lemma unat_u32_lt: "unat x < 2 ^ 32" for x :: u32
  using unsigned_less [of x, where ?'a = nat] by simp

lemma unat_u64_lt: "unat x < 2 ^ 64" for x :: u64
  using unsigned_less [of x, where ?'a = nat] by simp

lemma unat_add_u32: "unat a + unat b < 2 ^ 32 \<Longrightarrow> unat (a + b) = unat a + unat b"
  for a b :: u32
  by (simp add: unat_word_ariths)

lemma unat_saturating_sub [rust_int]: "unat (saturating_sub a b) = unat a - unat b"
  by (simp add: saturating_sub_def unat_sub word_le_nat_alt)

lemma unat_saturating_add [rust_int]:
  "unat (saturating_add a b) = min (unat a + unat b) (2 ^ 64 - 1)"
  by (simp add: saturating_add_def unat_word_ariths)

lemma unat_saturating_mul [rust_int]:
  "unat (saturating_mul a b) = min (unat a * unat b) (2 ^ 64 - 1)"
  by (simp add: saturating_mul_def unat_word_ariths)

lemma option_filter_Some [simp]: "option_filter p x = Some a \<longleftrightarrow> x = Some a \<and> p a"
  by (auto simp: option_filter_def split: option.splits)

lemma option_filter_simps [simp]:
  "option_filter p None = None"
  "option_filter p (Some a) = (if p a then Some a else None)"
  by (simp_all add: option_filter_def)

lemma ok_or_simps [simp]:
  "ok_or e (Some a) = Inr a" "ok_or e None = Inl e"
  by (simp_all add: ok_or_def)

lemma ok_or_Inr [simp]: "ok_or e x = Inr a \<longleftrightarrow> x = Some a"
  by (auto simp: ok_or_def split: option.splits)

subsection \<open>Halves of a 64-bit word\<close>

text \<open>
  \<open>lo32 w\<close> is \<^verbatim>\<open>w as u32\<close>, \<open>hi32 w\<close> is \<^verbatim>\<open>(w >> 32) as u32\<close>, and
  \<open>join32 hi lo\<close> is \<^verbatim>\<open>((hi as u64) << 32) | lo as u64\<close>.
\<close>

definition lo32 :: "u64 \<Rightarrow> u32" where
  "lo32 w = ucast w"

definition hi32 :: "u64 \<Rightarrow> u32" where
  "hi32 w = ucast (drop_bit 32 w)"

definition join32 :: "u32 \<Rightarrow> u32 \<Rightarrow> u64" where
  "join32 hi lo = push_bit 32 (ucast hi) OR ucast lo"

lemma lo32_join32 [simp, halves]: "lo32 (join32 h l) = l"
  unfolding lo32_def join32_def
  by (rule bit_word_eqI) (auto simp: bit_simps)

lemma hi32_join32 [simp, halves]: "hi32 (join32 h l) = h"
  unfolding hi32_def join32_def
  by (rule bit_word_eqI) (auto simp: bit_simps dest: bit_imp_le_length)

lemma join32_halves [simp, halves]: "join32 (hi32 w) (lo32 w) = w"
  unfolding hi32_def lo32_def join32_def
  by (rule bit_word_eqI) (auto simp: bit_simps)

lemma join32_inject [simp]: "join32 h l = join32 h' l' \<longleftrightarrow> h = h' \<and> l = l'"
  by (metis lo32_join32 hi32_join32)

lemma halves_eqI: "hi32 w = hi32 v \<Longrightarrow> lo32 w = lo32 v \<Longrightarrow> w = v"
  by (metis join32_halves)

text \<open>\<open>set_low w\<close> is \<^verbatim>\<open>w | 1\<close> and \<open>clear_low w\<close> is \<^verbatim>\<open>w & !1\<close>.\<close>

definition set_low :: "u64 \<Rightarrow> u64" where
  "set_low w = w OR 1"

definition clear_low :: "u64 \<Rightarrow> u64" where
  "clear_low w = w AND NOT 1"

lemma lo32_set_low [halves]: "lo32 (set_low w) = lo32 w OR 1"
  unfolding lo32_def set_low_def by (rule bit_word_eqI) (auto simp: bit_simps)

lemma hi32_set_low [simp, halves]: "hi32 (set_low w) = hi32 w"
  unfolding hi32_def set_low_def by (rule bit_word_eqI) (auto simp: bit_simps)

lemma lo32_clear_low [halves]: "lo32 (clear_low w) = lo32 w AND NOT 1"
  unfolding lo32_def clear_low_def
  by (rule bit_word_eqI) (simp add: bit_simps del: not_one_eq)

lemma hi32_clear_low [simp, halves]: "hi32 (clear_low w) = hi32 w"
  unfolding hi32_def clear_low_def
  by (rule bit_word_eqI) (simp only: bit_unsigned_iff bit_drop_bit_eq comp_apply bit_and_iff
      bit_not_iff bit_1_iff, auto simp: bit_imp_le_length)

lemma drop32_eq_0: "drop_bit 32 w = 0 \<longleftrightarrow> hi32 w = 0" for w :: u64
proof
  assume z: "hi32 w = 0"
  have "drop_bit 32 w = ucast (hi32 w)"
    unfolding hi32_def by (rule bit_word_eqI) (auto simp: bit_simps dest: bit_imp_le_length)
  with z show "drop_bit 32 w = 0" by simp
qed (simp add: hi32_def)

lemma zero_join32: "(0 :: u64) = join32 0 0"
  by (simp add: join32_def)

lemma hi32_0 [simp]: "hi32 0 = 0" and lo32_0 [simp]: "lo32 0 = 0"
  by (simp_all add: hi32_def lo32_def)

subsection \<open>Counting in 32 bits\<close>

lemma unat_Suc_u32: "x \<noteq> - 1 \<Longrightarrow> unat (x + 1) = Suc (unat x)" for x :: u32
  by (metis add.commute add_eq_0_iff unatSuc)

lemma unat_less_Suc: "x < y \<Longrightarrow> unat (x + 1) = Suc (unat x)" for x y :: u32
proof -
  assume "x < y"
  then have "x \<noteq> - 1" by (metis word_order.extremum_strict)
  then show ?thesis by (rule unat_Suc_u32)
qed

lemma unat_u32_eq_1: "unat w = Suc 0 \<longleftrightarrow> w = 1" for w :: u32
  by (metis One_nat_def unat_1 word_unat_eq_iff)

lemma unat_dec: "x \<noteq> 0 \<Longrightarrow> unat (x - 1) = unat x - 1" for x :: u32
  by (simp add: unat_minus_one)

subsection \<open>Lists\<close>

lemma distinct_remove1_set: "distinct xs \<Longrightarrow> set (remove1 x xs) = set xs - {x}"
  by (rule set_remove1_eq)

lemma filter_neq_remove1: "distinct xs \<Longrightarrow> filter (\<lambda>y. y \<noteq> x) xs = remove1 x xs"
  by (simp add: distinct_remove1_removeAll removeAll_filter_not_eq eq_commute)

end
