(* ===== verification/Shm_Region.thy ===== *)
theory Shm_Region
  imports Prelude
begin

text \<open>
  The shared region of \<^verbatim>\<open>src/src/core.rs\<close>: layout constants, the records
  \<open>Slot\<close>, \<open>WaitNode\<close> and \<open>Header\<close>, the region as header plus slot table plus
  waiter-node pool, the packing of the object state into one word, handles, and
  the region lock. A pointer into the table or the pool is the index it is
  computed from (\<^verbatim>\<open>slot_ptr\<close>, \<^verbatim>\<open>node_ptr\<close>), so the two memories are functions
  on 32-bit indices. What the operating system and the other threads do is the
  record \<open>Os\<close>, an argument of every operation that can observe it.
\<close>

subsection \<open>Layout constants\<close>

definition MAX_WAIT_COUNT :: nat where "MAX_WAIT_COUNT = 64"
definition MAGIC :: u64 where "MAGIC = 0x6E7473796E635F75"
definition VERSION :: u32 where "VERSION = 10"
definition SLOT_COUNT :: u32 where "SLOT_COUNT = 16384"
definition NODE_COUNT :: u32 where "NODE_COUNT = 8192"
definition INDEX_BITS :: nat where "INDEX_BITS = 14"
definition INDEX_MASK :: u32 where "INDEX_MASK = push_bit INDEX_BITS 1 - 1"
definition NIL :: u32 where "NIL = 0xFFFFFFFF"

definition SLOT_FREE :: u32 where "SLOT_FREE = 0"
definition SLOT_USED :: u32 where "SLOT_USED = 1"

definition MAX_HOLDERS :: nat where "MAX_HOLDERS = 8"
definition HOLDER_OVERFLOW :: u32 where "HOLDER_OVERFLOW = 0x80000000"

definition SCAN_WRAPPED :: u32 where "SCAN_WRAPPED = 0x80000000"

definition TYPE_SEM :: u32 where "TYPE_SEM = 1"
definition TYPE_MUTEX :: u32 where "TYPE_MUTEX = 2"
definition TYPE_EVENT :: u32 where "TYPE_EVENT = 3"
definition TYPE_RESERVED :: u32 where "TYPE_RESERVED = 4"

text \<open>Error numbers of the C library that the code compares with or returns.\<close>

definition EPERM :: int where "EPERM = 1"
definition EINTR :: int where "EINTR = 4"
definition ESRCH :: int where "ESRCH = 3"
definition EAGAIN :: int where "EAGAIN = 11"
definition ENOMEM :: int where "ENOMEM = 12"
definition EFAULT :: int where "EFAULT = 14"
definition EINVAL :: int where "EINVAL = 22"
definition EOVERFLOW :: int where "EOVERFLOW = 75"
definition ETIMEDOUT :: int where "ETIMEDOUT = 110"
definition ESTALE :: int where "ESTALE = 116"
definition EOWNERDEAD :: int where "EOWNERDEAD = 130"

lemmas type_consts = TYPE_SEM_def TYPE_MUTEX_def TYPE_EVENT_def TYPE_RESERVED_def
lemmas state_consts = SLOT_FREE_def SLOT_USED_def
lemmas errno_consts = EPERM_def EINTR_def ESRCH_def EAGAIN_def ENOMEM_def EFAULT_def
  EINVAL_def EOVERFLOW_def ETIMEDOUT_def ESTALE_def EOWNERDEAD_def

datatype Error = Invalid | Perm | Overflow | Init i32

datatype WaitOutcome = Signaled u32 bool | Timeout | InvalidWait

subsection \<open>Records of the region\<close>

record Slot =
  state :: u32
  generation :: u32
  obj_type :: u32
  slot_pid :: u32
  waiter_head :: u32
  holders_len :: u32
  w0 :: u64
  pulse_seq :: u64
  holders :: "u32 list"

record WaitNode =
  seq :: u32
  registered :: u32
  obj :: u32
  wait_word :: u32
  obj_prev :: u32
  obj_next :: u32
  waiter_next :: u32
  node_pid :: u32
  wake_ts :: u64

record Header =
  magic :: u64
  version :: u32
  capacity :: u32
  node_capacity :: u32
  node_free_head :: u32
  node_fresh :: u32
  next_scan :: u32
  sweep_ns :: u64
  lock_owner_pid :: u32
  lock_owner_tid :: u32

text \<open>
  \<open>futex_log\<close> is the sequence of \<^verbatim>\<open>FUTEX_WAKE\<close> system calls issued so far, each
  by the index of the node whose \<open>seq\<close> word it names.
\<close>

record Region =
  header :: Header
  slots :: "u32 \<Rightarrow> Slot"
  nodes :: "u32 \<Rightarrow> WaitNode"
  futex_log :: "u32 list"

definition upd_slot :: "Region \<Rightarrow> u32 \<Rightarrow> (Slot \<Rightarrow> Slot) \<Rightarrow> Region" where
  "upd_slot r i f = r\<lparr>slots := (slots r)(i := f (slots r i))\<rparr>"

definition upd_node :: "Region \<Rightarrow> u32 \<Rightarrow> (WaitNode \<Rightarrow> WaitNode) \<Rightarrow> Region" where
  "upd_node r i f = r\<lparr>nodes := (nodes r)(i := f (nodes r i))\<rparr>"

definition upd_header :: "Region \<Rightarrow> (Header \<Rightarrow> Header) \<Rightarrow> Region" where
  "upd_header r f = r\<lparr>header := f (header r)\<rparr>"

lemma upd_slot_sel [simp]:
  "header (upd_slot r i f) = header r"
  "slots (upd_slot r i f) = (slots r)(i := f (slots r i))"
  "nodes (upd_slot r i f) = nodes r"
  "futex_log (upd_slot r i f) = futex_log r"
  by (simp_all add: upd_slot_def)

lemma upd_node_sel [simp]:
  "header (upd_node r i f) = header r"
  "slots (upd_node r i f) = slots r"
  "nodes (upd_node r i f) = (nodes r)(i := f (nodes r i))"
  "futex_log (upd_node r i f) = futex_log r"
  by (simp_all add: upd_node_def)

lemma upd_header_sel [simp]:
  "header (upd_header r f) = f (header r)"
  "slots (upd_header r f) = slots r"
  "nodes (upd_header r f) = nodes r"
  "futex_log (upd_header r f) = futex_log r"
  by (simp_all add: upd_header_def)

lemma Region_eqI:
  "header r = header s \<Longrightarrow> slots r = slots s \<Longrightarrow> nodes r = nodes s \<Longrightarrow>
   futex_log r = futex_log s \<Longrightarrow> r = s" for r s :: Region
  by simp

subsection \<open>A freshly created region\<close>

text \<open>
  A file that was just extended reads as zeros; creating the region writes the header and
  reserves slot 0.
\<close>

definition zero_slot :: Slot where
  "zero_slot = \<lparr>state = 0, generation = 0, obj_type = 0, slot_pid = 0, waiter_head = 0,
     holders_len = 0, w0 = 0, pulse_seq = 0, holders = replicate MAX_HOLDERS 0\<rparr>"

definition zero_node :: WaitNode where
  "zero_node = \<lparr>seq = 0, registered = 0, obj = 0, wait_word = 0, obj_prev = 0, obj_next = 0,
     waiter_next = 0, node_pid = 0, wake_ts = 0\<rparr>"

definition zero_region :: Region where
  "zero_region = \<lparr>header = \<lparr>magic = 0, version = 0, capacity = 0, node_capacity = 0,
       node_free_head = 0, node_fresh = 0, next_scan = 0, sweep_ns = 0,
       lock_owner_pid = 0, lock_owner_tid = 0\<rparr>,
     slots = (\<lambda>_. zero_slot), nodes = (\<lambda>_. zero_node), futex_log = []\<rparr>"

definition init_region :: "Region \<Rightarrow> Region" where
  "init_region r =
     upd_slot (upd_header r (\<lambda>h. h\<lparr>magic := MAGIC, version := VERSION, capacity := SLOT_COUNT,
         node_capacity := NODE_COUNT, node_free_head := NIL, node_fresh := 0, next_scan := 0,
         sweep_ns := 0\<rparr>))
       0 (\<lambda>s. s\<lparr>waiter_head := NIL, obj_type := TYPE_RESERVED, slot_pid := 0, state := SLOT_USED\<rparr>)"

definition fresh_region :: Region where
  "fresh_region = init_region zero_region"

text \<open>What the header must say for the file to be this version's region.\<close>

definition header_ok :: "Header \<Rightarrow> bool" where
  "header_ok h \<longleftrightarrow> magic h = MAGIC \<and> version h = VERSION \<and> capacity h = SLOT_COUNT \<and> node_capacity h = NODE_COUNT"

lemma header_ok_upd [simp]:
  "header_ok (h\<lparr>node_free_head := x\<rparr>) = header_ok h" "header_ok (h\<lparr>node_fresh := x\<rparr>) = header_ok h"
  "header_ok (h\<lparr>next_scan := x\<rparr>) = header_ok h" "header_ok (h\<lparr>sweep_ns := t\<rparr>) = header_ok h"
  "header_ok (h\<lparr>lock_owner_pid := x\<rparr>) = header_ok h" "header_ok (h\<lparr>lock_owner_tid := x\<rparr>) = header_ok h"
  by (simp_all add: header_ok_def)

lemma header_ok_init [simp]: "header_ok (header (init_region r))"
  by (simp add: header_ok_def init_region_def)

subsection \<open>Packed object state\<close>

definition pack_sem :: "u32 \<Rightarrow> u32 \<Rightarrow> u64" where
  "pack_sem count limit = push_bit 32 (ucast limit) OR ucast count"

definition pack_mutex :: "u32 \<Rightarrow> u32 \<Rightarrow> bool \<Rightarrow> u64" where
  "pack_mutex owner count ownerdead =
     push_bit 32 ((ucast count AND 0x7fffffff) OR push_bit 31 (of_bool ownerdead)) OR ucast owner"

definition pack_event :: "bool \<Rightarrow> bool \<Rightarrow> u64" where
  "pack_event signaled manual = push_bit 32 (of_bool manual) OR of_bool signaled"

text \<open>Readings of a packed mutex word: \<open>count\<close> is the low 31 bits of the high half.\<close>

definition mutex_count :: "u64 \<Rightarrow> u32" where
  "mutex_count w = hi32 w AND 0x7fffffff"

definition mutex_dead :: "u64 \<Rightarrow> bool" where
  "mutex_dead w \<longleftrightarrow> drop_bit 31 (hi32 w) \<noteq> 0"

lemma pack_sem_join: "pack_sem count limit = join32 limit count"
  by (simp add: pack_sem_def join32_def)

lemma low31_mask: "(0x7fffffff :: 'a::len word) = mask 31"
  by (simp add: mask_eq_exp_minus_1)

lemma pack_mutex_join:
  "pack_mutex owner count od =
     join32 ((count AND 0x7fffffff) OR push_bit 31 (of_bool od)) owner"
proof -
  have "ucast ((count AND 0x7fffffff) OR push_bit 31 (of_bool od)) =
      ((ucast count AND 0x7fffffff) OR push_bit 31 (of_bool od) :: u64)"
    unfolding low31_mask by (rule bit_word_eqI) (auto simp: bit_simps of_bool_def)
  then show ?thesis by (simp add: pack_mutex_def join32_def)
qed

lemma pack_event_join: "pack_event signaled manual = join32 (of_bool manual) (of_bool signaled)"
  by (simp add: pack_event_def join32_def)

lemma low31_id: "count \<le> 0x7fffffff \<Longrightarrow> count AND 0x7fffffff = count" for count :: u32
  unfolding low31_mask
  by (rule less_mask_eq) (simp add: word_less_nat_alt word_le_nat_alt mask_eq_exp_minus_1)

lemma lo32_pack_mutex [simp, halves]: "lo32 (pack_mutex owner count od) = owner"
  by (simp add: pack_mutex_join)

lemma mutex_count_pack [simp, halves]:
  "mutex_count (pack_mutex owner count od) = count AND 0x7fffffff"
  unfolding mutex_count_def pack_mutex_join hi32_join32 low31_mask
  by (rule bit_word_eqI) (auto simp: bit_simps of_bool_def)

lemma mutex_dead_pack [simp, halves]: "mutex_dead (pack_mutex owner count od) \<longleftrightarrow> od"
proof -
  have "drop_bit 31 ((count AND 0x7fffffff) OR push_bit 31 (of_bool od)) = (of_bool od :: u32)"
    unfolding low31_mask by (rule bit_word_eqI) (auto simp: bit_simps of_bool_def)
  then show ?thesis by (simp add: mutex_dead_def pack_mutex_join)
qed

lemma mutex_count_le: "mutex_count w \<le> 0x7fffffff"
  by (simp add: mutex_count_def word_and_le1)

subsection \<open>Handles\<close>

definition handle_of :: "u32 \<Rightarrow> u32 \<Rightarrow> u32" where
  "handle_of gen index = push_bit INDEX_BITS gen OR index"

text \<open>\<open>slot r handle\<close> is the index of the used slot that the handle names, if any.\<close>

definition slot :: "Region \<Rightarrow> u32 \<Rightarrow> u32 option" where
  "slot r handle =
     (let index = handle AND INDEX_MASK; gen = drop_bit INDEX_BITS handle in
      if index \<ge> SLOT_COUNT then None
      else if state (slots r index) = SLOT_USED \<and> generation (slots r index) = gen
      then Some index
      else None)"

lemma INDEX_MASK_mask: "INDEX_MASK = mask 14"
  by (simp add: INDEX_MASK_def INDEX_BITS_def mask_eq_exp_minus_1)

lemma INDEX_MASK_num: "INDEX_MASK = 16383"
  by (simp add: INDEX_MASK_def INDEX_BITS_def)

lemma index_lt: "h AND INDEX_MASK < SLOT_COUNT"
proof -
  have "h AND INDEX_MASK \<le> INDEX_MASK" by (rule word_and_le1)
  also have "\<dots> < SLOT_COUNT" by (simp add: INDEX_MASK_num SLOT_COUNT_def)
  finally show ?thesis .
qed

lemma slot_Some_iff:
  "slot r h = Some i \<longleftrightarrow>
     i = h AND INDEX_MASK \<and> state (slots r i) = SLOT_USED \<and>
     generation (slots r i) = drop_bit INDEX_BITS h"
  using index_lt [of h] by (auto simp: slot_def Let_def)

lemma slot_index: "slot r h = Some i \<Longrightarrow> i < SLOT_COUNT"
  using index_lt by (auto simp: slot_Some_iff)

lemma slot_cong:
  "state (slots r (h AND INDEX_MASK)) = state (slots r' (h AND INDEX_MASK)) \<Longrightarrow>
   generation (slots r (h AND INDEX_MASK)) = generation (slots r' (h AND INDEX_MASK)) \<Longrightarrow>
   slot r h = slot r' h"
  by (simp add: slot_def Let_def)

lemma handle_index: "i < SLOT_COUNT \<Longrightarrow> handle_of g i AND INDEX_MASK = i"
proof -
  assume "i < SLOT_COUNT"
  then have "i < 2 ^ 14" by (simp add: SLOT_COUNT_def)
  then have i: "i AND mask 14 = i" by (rule less_mask_eq)
  have "(push_bit 14 g OR i) AND mask 14 = i AND mask 14"
    by (rule bit_word_eqI) (auto simp: bit_simps)
  with i show ?thesis by (simp add: handle_of_def INDEX_BITS_def INDEX_MASK_mask)
qed

lemma handle_generation: "i < SLOT_COUNT \<Longrightarrow> drop_bit INDEX_BITS (handle_of g i) = take_bit 18 g"
proof -
  assume "i < SLOT_COUNT"
  then have "i < 2 ^ 14" by (simp add: SLOT_COUNT_def)
  then have i: "i AND mask 14 = i" by (rule less_mask_eq)
  have "drop_bit 14 (push_bit 14 g OR (i AND mask 14)) = take_bit 18 g"
    by (rule bit_word_eqI) (auto simp: bit_simps)
  with i show ?thesis by (simp add: handle_of_def INDEX_BITS_def)
qed

lemma handle_of_eq_0: "i < SLOT_COUNT \<Longrightarrow> i \<noteq> 0 \<Longrightarrow> handle_of g i \<noteq> 0"
  using handle_index [of i g] by auto

subsection \<open>The operating system and the other threads\<close>

text \<open>
  One value of \<open>Os\<close> describes what one call can observe from outside.
  \<open>clock_ns\<close> is what \<^verbatim>\<open>monotonic_ns()\<close> reads during the call, and \<open>locked_clock_ns\<close>
  what it reads once a sweep has taken the lock;
  \<open>kill_ret pid\<close> is 0 when \<^verbatim>\<open>kill(pid, 0)\<close> succeeds and the error number
  otherwise; \<open>lock_ret n\<close> is what the \<open>n\<close>-th call of \<^verbatim>\<open>pthread_mutex_lock\<close>
  (or \<^verbatim>\<open>pthread_mutex_timedlock\<close>) returns. The \<open>on_\<close> fields are the changes
  that other threads make to the region at the points where the call can be
  overtaken: after its handle check, between its \<open>n\<close>-th load and the following
  compare-exchange, between its \<open>n\<close>-th failed compare-exchange and the reload,
  after its successful compare-exchange, while it waits for the lock, and before it
  turns to the \<open>n\<close>-th object of a multiple wait to acquire it or to give it back
  (\<open>on_step\<close> also stands for what happens while a sweep has dropped the lock to probe
  its \<open>n\<close>-th chunk of candidates).
\<close>

record Os =
  getpid :: u32
  gettid :: u32
  debug_enabled :: bool
  clock_ns :: u64
  locked_clock_ns :: u64
  kill_ret :: "u32 \<Rightarrow> int"
  lock_ret :: "nat \<Rightarrow> int"
  on_check :: "Region \<Rightarrow> Region"
  on_load :: "nat \<Rightarrow> Region \<Rightarrow> Region"
  on_retry :: "nat \<Rightarrow> Region \<Rightarrow> Region"
  on_cas :: "Region \<Rightarrow> Region"
  on_lock :: "Region \<Rightarrow> Region"
  on_step :: "nat \<Rightarrow> Region \<Rightarrow> Region"
  on_undo :: "nat \<Rightarrow> Region \<Rightarrow> Region"

text \<open>A call that nobody overtakes, of process \<open>pid\<close>, when all processes live.\<close>

definition quiet_os :: "u32 \<Rightarrow> Os" where
  "quiet_os pid = \<lparr>getpid = pid, gettid = pid, debug_enabled = False, clock_ns = 0,
     locked_clock_ns = 0,
     kill_ret = (\<lambda>_. 0), lock_ret = (\<lambda>_. 0), on_check = id,
     on_load = (\<lambda>_. id), on_retry = (\<lambda>_. id), on_cas = id, on_lock = id,
     on_step = (\<lambda>_. id), on_undo = (\<lambda>_. id)\<rparr>"

definition undisturbed :: "Os \<Rightarrow> bool" where
  "undisturbed os \<longleftrightarrow> on_check os = id \<and> on_load os = (\<lambda>_. id) \<and> on_retry os = (\<lambda>_. id) \<and>
     on_cas os = id \<and> on_lock os = id \<and> on_step os = (\<lambda>_. id) \<and> on_undo os = (\<lambda>_. id) \<and>
     lock_ret os 0 = 0"

lemma undisturbed_quiet [simp]: "undisturbed (quiet_os pid)"
  by (simp add: undisturbed_def quiet_os_def)

definition pid_alive :: "Os \<Rightarrow> u32 \<Rightarrow> bool" where
  "pid_alive os pid = (if pid = 0 then False else \<not> (kill_ret os pid = ESRCH))"

subsection \<open>The region lock\<close>

definition lock_mark :: "Os \<Rightarrow> Region \<Rightarrow> Region" where
  "lock_mark os r = (if debug_enabled os
     then upd_header r (\<lambda>h. h\<lparr>lock_owner_pid := getpid os, lock_owner_tid := gettid os\<rparr>) else r)"

partial_function (option) lock_guard :: "Os \<Rightarrow> nat \<Rightarrow> Region \<Rightarrow> (i32 + Region) option" where
  "lock_guard os tries r =
     (let ret = lock_ret os tries in
      if ret = 0 \<or> ret = EOWNERDEAD then
        Some (Inr (lock_mark os r))
      else if ret = ETIMEDOUT then lock_guard os (Suc tries) r
      else if ret \<noteq> EINTR then Some (Inl (- ret))
      else lock_guard os (Suc tries) r)"

definition guard_drop :: "Region \<Rightarrow> Region" where
  "guard_drop r = upd_header r (\<lambda>h. h\<lparr>lock_owner_pid := 0, lock_owner_tid := 0\<rparr>)"

text \<open>
  \<open>with_lock\<close> is the shape of every locked section: take the guard, run the body,
  drop the guard at the end of the scope.
\<close>

definition with_lock ::
  "Os \<Rightarrow> Region \<Rightarrow> (i32 \<Rightarrow> 'a) \<Rightarrow> (Region \<Rightarrow> ('a \<times> Region) option) \<Rightarrow> ('a \<times> Region) option" where
  "with_lock os r err body =
     (case lock_guard os 0 (on_lock os r) of
        None \<Rightarrow> None
      | Some (Inl e) \<Rightarrow> Some (err e, on_lock os r)
      | Some (Inr r1) \<Rightarrow>
          (case body r1 of None \<Rightarrow> None | Some (a, r2) \<Rightarrow> Some (a, guard_drop r2)))"

text \<open>
  The number of the first call of the lock function that does not ask for another try
  decides the outcome; calls before it that were interrupted or timed out only retry.
\<close>

lemma lock_guard_retry:
  "lock_ret os n \<in> {ETIMEDOUT, EINTR} \<Longrightarrow> lock_guard os n r = lock_guard os (Suc n) r"
  by (subst lock_guard.simps) (auto simp: Let_def errno_consts)

lemma lock_guard_ok:
  "lock_ret os n = 0 \<or> lock_ret os n = EOWNERDEAD \<Longrightarrow>
   lock_guard os n r = Some (Inr (lock_mark os r))"
  by (subst lock_guard.simps) (auto simp: Let_def)

lemma lock_guard_err:
  "lock_ret os n \<notin> {0, EOWNERDEAD, ETIMEDOUT, EINTR} \<Longrightarrow>
   lock_guard os n r = Some (Inl (- lock_ret os n))"
  by (subst lock_guard.simps) (simp add: Let_def)

lemma lock_guard_after_retries:
  assumes "n \<le> m" "\<forall>k. n \<le> k \<and> k < m \<longrightarrow> lock_ret os k \<in> {ETIMEDOUT, EINTR}"
  shows "lock_guard os n r = lock_guard os m r"
  using assms
proof (induction "m - n" arbitrary: n)
  case 0
  then show ?case by simp
next
  case (Suc k)
  then have "lock_guard os n r = lock_guard os (Suc n) r"
    by (intro lock_guard_retry) auto
  also have "\<dots> = lock_guard os m r"
    using Suc by (intro Suc.hyps(1)) auto
  finally show ?case .
qed

lemma lock_mark_sel [simp]:
  "slots (lock_mark os r) = slots r" "nodes (lock_mark os r) = nodes r"
  "futex_log (lock_mark os r) = futex_log r"
  "node_fresh (header (lock_mark os r)) = node_fresh (header r)"
  "node_free_head (header (lock_mark os r)) = node_free_head (header r)"
  "next_scan (header (lock_mark os r)) = next_scan (header r)"
  "sweep_ns (header (lock_mark os r)) = sweep_ns (header r)"
  "header_ok (header (lock_mark os r)) = header_ok (header r)"
  by (simp_all add: lock_mark_def)

lemma guard_drop_sel [simp]:
  "slots (guard_drop r) = slots r" "nodes (guard_drop r) = nodes r"
  "futex_log (guard_drop r) = futex_log r"
  "node_fresh (header (guard_drop r)) = node_fresh (header r)"
  "node_free_head (header (guard_drop r)) = node_free_head (header r)"
  "next_scan (header (guard_drop r)) = next_scan (header r)"
  "sweep_ns (header (guard_drop r)) = sweep_ns (header r)"
  "header_ok (header (guard_drop r)) = header_ok (header r)"
  by (simp_all add: guard_drop_def)

lemma slot_lock_mark [simp]: "slot (lock_mark os r) h = slot r h"
  by (rule slot_cong) simp_all

lemma slot_guard_drop [simp]: "slot (guard_drop r) h = slot r h"
  by (rule slot_cong) simp_all

text \<open>The header without the diagnostic record of who holds the lock.\<close>

definition core :: "Region \<Rightarrow> Header" where
  "core r = (header r)\<lparr>lock_owner_pid := 0, lock_owner_tid := 0\<rparr>"

lemma core_lock [simp]: "core (lock_mark os r) = core r" "core (guard_drop r) = core r"
  by (simp_all add: core_def lock_mark_def guard_drop_def)

lemma core_sel:
  "magic (core r) = magic (header r)" "version (core r) = version (header r)"
  "capacity (core r) = capacity (header r)" "node_capacity (core r) = node_capacity (header r)"
  "node_free_head (core r) = node_free_head (header r)" "node_fresh (core r) = node_fresh (header r)"
  "next_scan (core r) = next_scan (header r)" "sweep_ns (core r) = sweep_ns (header r)"
  by (simp_all add: core_def)

lemma header_ok_core: "header_ok (core r) = header_ok (header r)"
  by (simp add: core_def)

lemma coreD:
  assumes "core r' = core r"
  shows "node_free_head (header r') = node_free_head (header r)"
    "node_fresh (header r') = node_fresh (header r)"
    "next_scan (header r') = next_scan (header r)" "sweep_ns (header r') = sweep_ns (header r)"
    "header_ok (header r') = header_ok (header r)"
  by (simp_all add: assms flip: core_sel header_ok_core)

lemma core_cong: "header r' = header r \<Longrightarrow> core r' = core r"
  by (simp add: core_def)

lemma lock_guard_Inr:
  assumes "lock_guard os n r = Some g"
  shows "g = Inr (lock_mark os r) \<or> (\<exists>e. g = Inl e)"
proof (rule lock_guard.raw_induct
    [where P = "\<lambda>os n r g. g = Inr (lock_mark os r) \<or> (\<exists>e. g = Inl e)", OF _ assms])
  fix f os n r g
  assume "\<And>os n r g. f os n r = Some g \<Longrightarrow> g = Inr (lock_mark os r) \<or> (\<exists>e. g = Inl e)"
    and "(let ret = lock_ret os n in
      if ret = 0 \<or> ret = EOWNERDEAD then
        Some (Inr (lock_mark os r))
      else if ret = ETIMEDOUT then f os (Suc n) r
      else if ret \<noteq> EINTR then Some (Inl (- ret))
      else f os (Suc n) r) = Some g"
  then show "g = Inr (lock_mark os r) \<or> (\<exists>e. g = Inl e)"
    by (auto simp: Let_def split: if_splits)
qed

text \<open>What a finished locked section did: it failed to lock, or it ran its body once.\<close>

lemma with_lock_cases [consumes 1, case_names failed ran]:
  assumes "with_lock os r err body = Some (a, r')"
  obtains e where "a = err e" "r' = on_lock os r"
  | r2 where "body (lock_mark os (on_lock os r)) = Some (a, r2)" "r' = guard_drop r2"
proof -
  from assms obtain g where g: "lock_guard os 0 (on_lock os r) = Some g"
    by (auto simp: with_lock_def split: option.splits)
  from lock_guard_Inr [OF g] consider (i) "g = Inr (lock_mark os (on_lock os r))" | (e) e where "g = Inl e"
    by blast
  then show ?thesis
  proof cases
    case i
    with assms g show ?thesis
      by (auto simp: with_lock_def split: option.splits intro: that(2))
  next
    case e
    with assms g show ?thesis
      by (auto simp: with_lock_def intro: that(1))
  qed
qed

lemma with_lock_undisturbed:
  "undisturbed os \<Longrightarrow> with_lock os r err body =
     (case body (lock_mark os r) of None \<Rightarrow> None | Some (a, r2) \<Rightarrow> Some (a, guard_drop r2))"
  by (simp add: with_lock_def undisturbed_def lock_guard_ok)

end
