(* ===== verification/Wait_Nodes.thy ===== *)
theory Wait_Nodes
  imports Shm_Region
begin

text \<open>
  The waiter-node pool and the per-object waiter lists of \<^verbatim>\<open>src/src/core.rs\<close>
  (\<open>node_alloc\<close>, \<open>node_free\<close>, \<open>node_detach\<close>, \<open>node_register\<close>, \<open>wake_object\<close>,
  \<open>wake_waiters_if_any\<close>). The doubly linked lists through \<open>obj_prev\<close> and
  \<open>obj_next\<close> and the free list through \<open>waiter_next\<close> are related to plain lists
  by \<open>pool_rep\<close>; each operation is shown to have its list effect, and a wake
  walk is shown to end, to empty the object's list and to wake every waiter on
  it. The interface that the waiting and sweeping code relies on is the locale
  \<open>waiter_pool\<close>, interpreted at the end on these definitions.
\<close>

subsection \<open>Operations\<close>

definition node_alloc :: "Os \<Rightarrow> Region \<Rightarrow> u32 option \<times> Region" where
  "node_alloc os r =
     (let head = node_free_head (header r);
          picked =
            (if head \<noteq> NIL then
               Some (head, upd_header r (\<lambda>h. h\<lparr>node_free_head := waiter_next (nodes r head)\<rparr>))
             else
               let fresh = node_fresh (header r) in
               if fresh \<ge> NODE_COUNT then None
               else Some (fresh, upd_header r (\<lambda>h. h\<lparr>node_fresh := fresh + 1\<rparr>)))
      in case picked of
           None \<Rightarrow> (None, r)
         | Some (idx, r1) \<Rightarrow>
             (Some idx, upd_node r1 idx (\<lambda>n. n\<lparr>registered := 0, obj := NIL, wait_word := NIL,
                obj_prev := NIL, obj_next := NIL, waiter_next := NIL, node_pid := getpid os\<rparr>)))"

definition node_free :: "Region \<Rightarrow> u32 \<Rightarrow> Region" where
  "node_free r idx =
     upd_header (upd_node r idx (\<lambda>n. n\<lparr>waiter_next := node_free_head (header r)\<rparr>))
       (\<lambda>h. h\<lparr>node_free_head := idx\<rparr>)"

definition node_detach :: "Region \<Rightarrow> u32 \<Rightarrow> Region" where
  "node_detach r idx =
     (if registered (nodes r idx) = 0 then r
      else
        let r1 = (if obj_prev (nodes r idx) = NIL
              then upd_slot r (obj (nodes r idx)) (\<lambda>s. s\<lparr>waiter_head := obj_next (nodes r idx)\<rparr>)
              else upd_node r (obj_prev (nodes r idx)) (\<lambda>n. n\<lparr>obj_next := obj_next (nodes r idx)\<rparr>));
            r2 = (if obj_next (nodes r1 idx) \<noteq> NIL
              then upd_node r1 (obj_next (nodes r1 idx)) (\<lambda>n. n\<lparr>obj_prev := obj_prev (nodes r1 idx)\<rparr>)
              else r1)
        in upd_node r2 idx (\<lambda>n. n\<lparr>registered := 0, obj := NIL, obj_prev := NIL, obj_next := NIL\<rparr>))"

definition node_register :: "Region \<Rightarrow> u32 \<Rightarrow> u32 \<Rightarrow> u32 \<Rightarrow> Region" where
  "node_register r idx obj_idx word =
     (let old_head = waiter_head (slots r obj_idx);
          r1 = upd_node r idx (\<lambda>n. n\<lparr>registered := 1, obj := obj_idx, wait_word := word,
                 obj_prev := NIL, obj_next := old_head\<rparr>);
          r2 = (if old_head \<noteq> NIL then upd_node r1 old_head (\<lambda>n. n\<lparr>obj_prev := idx\<rparr>) else r1)
      in upd_slot r2 obj_idx (\<lambda>s. s\<lparr>waiter_head := idx\<rparr>))"

text \<open>
  One round of the wake walk: detach the node, stamp its head node (only with
  diagnostics on), bump the head node's futex word and wake its sleeper.
\<close>

definition wake_node :: "Os \<Rightarrow> Region \<Rightarrow> u32 \<Rightarrow> Region" where
  "wake_node os r idx =
     (let word = wait_word (nodes r idx);
          r1 = node_detach r idx;
          r2 = (if debug_enabled os then upd_node r1 word (\<lambda>n. n\<lparr>wake_ts := clock_ns os\<rparr>) else r1);
          r3 = upd_node r2 word (\<lambda>n. n\<lparr>seq := seq n + 1\<rparr>)
      in r3\<lparr>futex_log := futex_log r3 @ [word]\<rparr>)"

partial_function (option) wake_walk :: "Os \<Rightarrow> u32 \<Rightarrow> Region \<Rightarrow> Region option" where
  "wake_walk os idx r =
     (if idx = NIL then Some r
      else wake_walk os (obj_next (nodes r idx)) (wake_node os r idx))"

definition wake_object :: "Os \<Rightarrow> Region \<Rightarrow> u32 \<Rightarrow> Region option" where
  "wake_object os r obj_idx = wake_walk os (waiter_head (slots r obj_idx)) r"

definition wake_waiters_if_any :: "Os \<Rightarrow> Region \<Rightarrow> u32 \<Rightarrow> Region option" where
  "wake_waiters_if_any os r obj_idx =
     (if waiter_head (slots r obj_idx) = NIL then Some r
      else map_option snd (with_lock os r (\<lambda>_. ())
             (\<lambda>r1. map_option (\<lambda>r2. ((), r2)) (wake_object os r1 obj_idx))))"

subsection \<open>Linked lists in the node memory\<close>

primrec dseg :: "(u32 \<Rightarrow> WaitNode) \<Rightarrow> u32 \<Rightarrow> u32 \<Rightarrow> u32 list \<Rightarrow> u32 \<Rightarrow> bool" where
  "dseg m p c [] q \<longleftrightarrow> c = q"
| "dseg m p c (x # xs) q \<longleftrightarrow>
     c = x \<and> x \<noteq> NIL \<and> obj_prev (m x) = p \<and> dseg m x (obj_next (m x)) xs q"

primrec fseg :: "(u32 \<Rightarrow> WaitNode) \<Rightarrow> u32 \<Rightarrow> u32 list \<Rightarrow> bool" where
  "fseg m c [] \<longleftrightarrow> c = NIL"
| "fseg m c (x # xs) \<longleftrightarrow> c = x \<and> x \<noteq> NIL \<and> fseg m (waiter_next (m x)) xs"

lemma dseg_append:
  "dseg m p c (as @ bs) q \<longleftrightarrow> (\<exists>k. dseg m p c as k \<and> dseg m (last (p # as)) k bs q)"
  by (induction as arbitrary: p c) auto

lemma dseg_cong:
  "(\<And>x. x \<in> set xs \<Longrightarrow> obj_prev (m' x) = obj_prev (m x) \<and> obj_next (m' x) = obj_next (m x)) \<Longrightarrow>
   dseg m' p c xs q = dseg m p c xs q"
  by (induction xs arbitrary: p c) auto

lemma fseg_cong:
  "(\<And>x. x \<in> set xs \<Longrightarrow> waiter_next (m' x) = waiter_next (m x)) \<Longrightarrow> fseg m' c xs = fseg m c xs"
  by (induction xs arbitrary: c) auto

lemma dseg_NIL_head: "dseg m p NIL xs NIL \<Longrightarrow> xs = []"
  by (cases xs) auto

lemma dseg_not_NIL: "dseg m p c xs q \<Longrightarrow> x \<in> set xs \<Longrightarrow> x \<noteq> NIL"
  by (induction xs arbitrary: p c) auto

lemma dseg_relink_last:
  assumes "dseg m p c xs k" "xs \<noteq> []" "distinct xs"
    and "\<And>y. y \<in> set xs \<Longrightarrow> obj_prev (m' y) = obj_prev (m y)"
    and "\<And>y. y \<in> set xs \<Longrightarrow> obj_next (m' y) = (if y = last xs then k' else obj_next (m y))"
  shows "dseg m' p c xs k'"
  using assms
proof (induction xs arbitrary: p c)
  case (Cons x xs)
  show ?case
  proof (cases "xs = []")
    case False
    with Cons.prems have "dseg m' x (obj_next (m x)) xs k'"
      by (intro Cons.IH) auto
    with False Cons.prems show ?thesis by auto
  qed (use Cons.prems in auto)
qed simp

lemma dseg_relink_first:
  assumes "dseg m p c xs q" "distinct xs"
    and "\<And>y. y \<in> set xs \<Longrightarrow> obj_next (m' y) = obj_next (m y)"
    and "\<And>y. y \<in> set xs \<Longrightarrow> obj_prev (m' y) = (if y = c then p' else obj_prev (m y))"
  shows "dseg m' p' c xs q"
proof (cases xs)
  case (Cons x ys)
  with assms have "dseg m' x (obj_next (m x)) ys q = dseg m x (obj_next (m x)) ys q"
    by (intro dseg_cong) auto
  with Cons assms show ?thesis by auto
qed (use assms in simp)

text \<open>Unlinking one node: the neighbours are linked to each other.\<close>

lemma dseg_unlink:
  assumes l: "dseg m NIL h (as @ x # bs) NIL" and d: "distinct (as @ x # bs)"
    and nx: "\<And>y. y \<in> set as \<union> set bs \<Longrightarrow>
      obj_next (m' y) = (if y = obj_prev (m x) then obj_next (m x) else obj_next (m y))"
    and pv: "\<And>y. y \<in> set as \<union> set bs \<Longrightarrow>
      obj_prev (m' y) = (if y = obj_next (m x) then obj_prev (m x) else obj_prev (m y))"
  shows "dseg m' NIL (if obj_prev (m x) = NIL then obj_next (m x) else h) (as @ bs) NIL"
proof -
  let ?p = "last (NIL # as)" and ?n = "obj_next (m x)"
  from l have a: "dseg m NIL h as x" and px: "obj_prev (m x) = ?p" and b: "dseg m x ?n bs NIL"
    by (auto simp: dseg_append)
  have n: "?n \<in> set bs \<or> (?n = NIL \<and> bs = [])" using b by (cases bs) auto
  have nN: "y \<noteq> NIL" if "y \<in> set as \<union> set bs" for y
    using that dseg_not_NIL [OF l] by auto
  have "dseg m' ?p ?n bs NIL"
  proof (rule dseg_relink_first [OF b])
    show "obj_next (m' y) = obj_next (m y)" if "y \<in> set bs" for y
    proof -
      have "last (NIL # as) \<in> insert NIL (set as)" by (cases as rule: rev_cases) auto
      with that d nN [of y] have "y \<noteq> ?p" by auto
      with that nx [of y] px show ?thesis by simp
    qed
  qed (use d px pv in auto)
  moreover have "dseg m' NIL (if as = [] then ?n else h) as ?n"
  proof (cases "as = []")
    case False
    then have "dseg m' NIL h as ?n"
    proof (intro dseg_relink_last [OF a])
      show "obj_prev (m' y) = obj_prev (m y)" if "y \<in> set as" for y
        using that d n nN [of y] pv [of y] by auto
      show "obj_next (m' y) = (if y = last as then ?n else obj_next (m y))" if "y \<in> set as" for y
        using that False px nx [of y] by auto
    qed (use d in auto)
    with False show ?thesis by simp
  qed simp
  moreover have "?p = NIL \<longleftrightarrow> as = []"
    using nN [of "last as"] by auto
  ultimately show ?thesis
    by (auto simp: dseg_append px)
qed

subsection \<open>The pool as lists\<close>

text \<open>
  \<open>pool_rep r Q F\<close>: the waiter list of object \<open>i\<close> holds the nodes \<open>Q i\<close> from
  head to tail, the free list holds the nodes \<open>F\<close>, and exactly the nodes of the
  waiter lists are marked as registered, each on the object it names. A slot
  that was never handed out may hold zero bytes instead of an empty list.
\<close>

definition pool_rep :: "Region \<Rightarrow> (u32 \<Rightarrow> u32 list) \<Rightarrow> u32 list \<Rightarrow> bool" where
  "pool_rep r Q F \<longleftrightarrow>
     node_fresh (header r) \<le> NODE_COUNT \<and>
     (\<forall>i. dseg (nodes r) NIL (waiter_head (slots r i)) (Q i) NIL \<or>
          Q i = [] \<and> state (slots r i) \<noteq> SLOT_USED) \<and>
     (\<forall>i. distinct (Q i)) \<and>
     (\<forall>i x. x \<in> set (Q i) \<longleftrightarrow> registered (nodes r x) \<noteq> 0 \<and> obj (nodes r x) = i) \<and>
     (\<forall>x. registered (nodes r x) \<noteq> 0 \<longrightarrow>
          x < node_fresh (header r) \<and> obj (nodes r x) < SLOT_COUNT \<and>
          wait_word (nodes r x) < node_fresh (header r)) \<and>
     fseg (nodes r) (node_free_head (header r)) F \<and> distinct F \<and>
     (\<forall>x \<in> set F. x < node_fresh (header r) \<and> registered (nodes r x) = 0)"

text \<open>A node that a waiter holds: handed out and not on the free list.\<close>

definition node_held :: "Region \<Rightarrow> u32 list \<Rightarrow> u32 \<Rightarrow> bool" where
  "node_held r F x \<longleftrightarrow> x < node_fresh (header r) \<and> x \<notin> set F"

text \<open>The same without naming the free list, which the region determines.\<close>

definition held :: "Region \<Rightarrow> u32 \<Rightarrow> bool" where
  "held r x \<longleftrightarrow> x < node_fresh (header r) \<and> (\<exists>F. fseg (nodes r) (node_free_head (header r)) F \<and> x \<notin> set F)"

lemma fseg_unique: "fseg m c F \<Longrightarrow> fseg m c F' \<Longrightarrow> F = F'"
  by (induction F arbitrary: c F') (case_tac F'; auto)+

lemma held_iff: "pool_rep r Q F \<Longrightarrow> held r x \<longleftrightarrow> node_held r F x"
  unfolding held_def node_held_def pool_rep_def by (blast dest: fseg_unique)

text \<open>Everything in a slot except the list head, which the node operations leave alone.\<close>

definition bare :: "Region \<Rightarrow> u32 \<Rightarrow> Slot" where
  "bare r i = (slots r i)\<lparr>waiter_head := NIL\<rparr>"

lemma bare_sel:
  "state (bare r i) = state (slots r i)" "generation (bare r i) = generation (slots r i)"
  "obj_type (bare r i) = obj_type (slots r i)" "slot_pid (bare r i) = slot_pid (slots r i)"
  "holders_len (bare r i) = holders_len (slots r i)" "w0 (bare r i) = w0 (slots r i)"
  "pulse_seq (bare r i) = pulse_seq (slots r i)" "holders (bare r i) = holders (slots r i)"
  by (simp_all add: bare_def)

lemma bareD:
  assumes "bare r' = bare r"
  shows "state (slots r' i) = state (slots r i)" "generation (slots r' i) = generation (slots r i)"
    "obj_type (slots r' i) = obj_type (slots r i)" "slot_pid (slots r' i) = slot_pid (slots r i)"
    "holders_len (slots r' i) = holders_len (slots r i)" "w0 (slots r' i) = w0 (slots r i)"
    "pulse_seq (slots r' i) = pulse_seq (slots r i)" "holders (slots r' i) = holders (slots r i)"
  by (simp_all add: assms flip: bare_sel)

lemma slot_bare: "bare r' = bare r \<Longrightarrow> slot r' h = slot r h"
  by (rule slot_cong) (rule bareD, assumption)+

lemma NODE_COUNT_NIL: "x < y \<Longrightarrow> y \<le> NODE_COUNT \<Longrightarrow> x \<noteq> NIL"
  by (auto simp: NODE_COUNT_def NIL_def word_less_nat_alt word_le_nat_alt)

lemma pool_repD:
  assumes "pool_rep r Q F"
  shows pool_fresh: "node_fresh (header r) \<le> NODE_COUNT"
    and pool_list: "dseg (nodes r) NIL (waiter_head (slots r i)) (Q i) NIL \<or>
          Q i = [] \<and> state (slots r i) \<noteq> SLOT_USED"
    and pool_distinct: "distinct (Q i)"
    and pool_member: "x \<in> set (Q i) \<longleftrightarrow> registered (nodes r x) \<noteq> 0 \<and> obj (nodes r x) = i"
    and pool_bounds: "registered (nodes r x) \<noteq> 0 \<Longrightarrow>
          x < node_fresh (header r) \<and> obj (nodes r x) < SLOT_COUNT \<and>
          wait_word (nodes r x) < node_fresh (header r)"
    and pool_free: "fseg (nodes r) (node_free_head (header r)) F" "distinct F"
    and pool_free_node: "x \<in> set F \<Longrightarrow> x < node_fresh (header r) \<and> registered (nodes r x) = 0"
  using assms unfolding pool_rep_def by blast+

lemma pool_not_NIL:
  assumes "pool_rep r Q F"
  shows "x < node_fresh (header r) \<Longrightarrow> x \<noteq> NIL" "x \<in> set (Q i) \<Longrightarrow> x \<noteq> NIL"
    "x \<in> set F \<Longrightarrow> x \<noteq> NIL"
  using pool_member [OF assms] pool_bounds [OF assms] pool_free_node [OF assms]
    NODE_COUNT_NIL [OF _ pool_fresh [OF assms]] by blast+

lemma pool_queued_list:
  "pool_rep r Q F \<Longrightarrow> x \<in> set (Q i) \<Longrightarrow> dseg (nodes r) NIL (waiter_head (slots r i)) (Q i) NIL"
  using pool_list by fastforce

lemma pool_repI:
  assumes "node_fresh (header r) \<le> NODE_COUNT"
    and "\<And>i. dseg (nodes r) NIL (waiter_head (slots r i)) (Q i) NIL \<or>
          Q i = [] \<and> state (slots r i) \<noteq> SLOT_USED"
    and "\<And>i. distinct (Q i)"
    and "\<And>i x. x \<in> set (Q i) \<longleftrightarrow> registered (nodes r x) \<noteq> 0 \<and> obj (nodes r x) = i"
    and "\<And>x. registered (nodes r x) \<noteq> 0 \<Longrightarrow>
          x < node_fresh (header r) \<and> obj (nodes r x) < SLOT_COUNT \<and>
          wait_word (nodes r x) < node_fresh (header r)"
    and "fseg (nodes r) (node_free_head (header r)) F" "distinct F"
    and "\<And>x. x \<in> set F \<Longrightarrow> x < node_fresh (header r) \<and> registered (nodes r x) = 0"
  shows "pool_rep r Q F"
  using assms unfolding pool_rep_def by blast

subsection \<open>Detaching a node\<close>

lemma node_detach_sel [simp]:
  "header (node_detach r x) = header r"
  "futex_log (node_detach r x) = futex_log r"
  "registered (nodes (node_detach r x) y) = (if y = x then 0 else registered (nodes r y))"
  "seq (nodes (node_detach r x) y) = seq (nodes r y)"
  "wait_word (nodes (node_detach r x) y) = wait_word (nodes r y)"
  "waiter_next (nodes (node_detach r x) y) = waiter_next (nodes r y)"
  "node_pid (nodes (node_detach r x) y) = node_pid (nodes r y)"
  "y \<noteq> x \<Longrightarrow> obj (nodes (node_detach r x) y) = obj (nodes r y)"
  by (auto simp: node_detach_def Let_def)

lemma bare_node_detach [simp]: "bare (node_detach r x) = bare r"
  by (rule ext) (auto simp: node_detach_def Let_def bare_def)

lemma node_detach_links:
  assumes "registered (nodes r x) \<noteq> 0" "obj_prev (nodes r x) \<noteq> x" "obj_next (nodes r x) \<noteq> x"
  shows "y \<noteq> x \<Longrightarrow> obj_next (nodes (node_detach r x) y) =
      (if y = obj_prev (nodes r x) \<and> y \<noteq> NIL then obj_next (nodes r x) else obj_next (nodes r y))"
    and "y \<noteq> x \<Longrightarrow> obj_prev (nodes (node_detach r x) y) =
      (if y = obj_next (nodes r x) \<and> y \<noteq> NIL then obj_prev (nodes r x) else obj_prev (nodes r y))"
    and "waiter_head (slots (node_detach r x) i) =
      (if i = obj (nodes r x) \<and> obj_prev (nodes r x) = NIL then obj_next (nodes r x)
       else waiter_head (slots r i))"
  using assms by (auto simp: node_detach_def Let_def)

lemma dseg_no_self_link:
  assumes "dseg m NIL h (as @ x # bs) NIL" "distinct (as @ x # bs)"
  shows "obj_prev (m x) \<noteq> x" "obj_next (m x) \<noteq> x"
    and "obj_prev (m x) = NIL \<or> obj_prev (m x) \<in> set as"
    and "obj_next (m x) = NIL \<or> obj_next (m x) \<in> set bs"
proof -
  from assms have p: "obj_prev (m x) = last (NIL # as)" and b: "dseg m x (obj_next (m x)) bs NIL"
    and xN: "x \<noteq> NIL" by (auto simp: dseg_append)
  show p': "obj_prev (m x) = NIL \<or> obj_prev (m x) \<in> set as"
    using p by (cases as rule: rev_cases) auto
  show n': "obj_next (m x) = NIL \<or> obj_next (m x) \<in> set bs"
    using b by (cases bs) auto
  show "obj_prev (m x) \<noteq> x" "obj_next (m x) \<noteq> x"
    using p' n' xN assms(2) by auto
qed

lemma pool_disjoint: "pool_rep r Q F \<Longrightarrow> x \<in> set (Q i) \<Longrightarrow> x \<in> set (Q j) \<Longrightarrow> i = j"
  by (metis pool_member)

lemma node_detach_rep_registered:
  assumes R: "pool_rep r Q F" and x: "registered (nodes r x) \<noteq> 0"
  shows "pool_rep (node_detach r x) (\<lambda>i. remove1 x (Q i)) F"
proof -
  let ?i = "obj (nodes r x)" and ?r = "node_detach r x"
  from x have xQ: "x \<in> set (Q ?i)" by (simp add: pool_member [OF R])
  then obtain as bs where Q: "Q ?i = as @ x # bs" by (meson split_list)
  note l = pool_queued_list [OF R xQ, unfolded Q]
  have d: "distinct (as @ x # bs)" using pool_distinct [OF R, of ?i] Q by simp
  note self = dseg_no_self_link [OF l d]
  note links = node_detach_links [OF x self(1,2)]
  have nN: "y \<noteq> NIL" if "y \<in> set (Q j)" for y j using pool_not_NIL(2) [OF R that] .
  have rm: "remove1 x (Q ?i) = as @ bs" using Q d by (simp add: remove1_append)
  have other: "remove1 x (Q j) = Q j" if "j \<noteq> ?i" for j
    using pool_disjoint [OF R xQ, of j] that by (metis remove1_idem)
  have at: "dseg (nodes ?r) NIL (waiter_head (slots ?r ?i)) (as @ bs) NIL"
  proof -
    have "dseg (nodes ?r) NIL (if obj_prev (nodes r x) = NIL then obj_next (nodes r x)
        else waiter_head (slots r ?i)) (as @ bs) NIL"
    proof (rule dseg_unlink [OF l d])
      fix y assume y: "y \<in> set as \<union> set bs"
      with d Q nN [of y ?i] have "y \<noteq> x" "y \<noteq> NIL" by auto
      then show "obj_next (nodes ?r y) = (if y = obj_prev (nodes r x) then obj_next (nodes r x)
          else obj_next (nodes r y))"
        and "obj_prev (nodes ?r y) = (if y = obj_next (nodes r x) then obj_prev (nodes r x)
          else obj_prev (nodes r y))" by (auto simp: links)
    qed
    then show ?thesis by (simp add: links)
  qed
  have elsewhere: "dseg (nodes ?r) NIL (waiter_head (slots ?r j)) (Q j) NIL =
      dseg (nodes r) NIL (waiter_head (slots r j)) (Q j) NIL" if "j \<noteq> ?i" for j
  proof -
    have "obj_prev (nodes ?r y) = obj_prev (nodes r y) \<and> obj_next (nodes ?r y) = obj_next (nodes r y)"
      if "y \<in> set (Q j)" for y
    proof -
      from that \<open>j \<noteq> ?i\<close> have "y \<notin> set (Q ?i)" using pool_disjoint [OF R] by blast
      with Q self nN [OF that] have "y \<noteq> x" "y \<noteq> obj_prev (nodes r x)" "y \<noteq> obj_next (nodes r x)"
        by auto
      then show ?thesis by (simp add: links)
    qed
    then have "dseg (nodes ?r) NIL h (Q j) NIL = dseg (nodes r) NIL h (Q j) NIL" for h
      by (rule dseg_cong)
    then show ?thesis using \<open>j \<noteq> ?i\<close> by (simp add: links(3))
  qed
  show ?thesis
  proof (rule pool_repI)
    fix i
    show "dseg (nodes ?r) NIL (waiter_head (slots ?r i)) (remove1 x (Q i)) NIL \<or>
        remove1 x (Q i) = [] \<and> state (slots ?r i) \<noteq> SLOT_USED"
    proof (cases "i = ?i")
      case False
      then show ?thesis
        using pool_list [OF R, of i] by (simp add: other elsewhere bareD(1) [OF bare_node_detach])
    qed (use at rm in simp)
  next
    fix i y
    show "y \<in> set (remove1 x (Q i)) \<longleftrightarrow> registered (nodes ?r y) \<noteq> 0 \<and> obj (nodes ?r y) = i"
      using pool_distinct [OF R, of i] pool_member [OF R, of y i] by auto
  next
    fix y assume "registered (nodes ?r y) \<noteq> 0"
    then show "y < node_fresh (header ?r) \<and> obj (nodes ?r y) < SLOT_COUNT \<and>
          wait_word (nodes ?r y) < node_fresh (header ?r)"
      using pool_bounds [OF R, of y] by (auto split: if_splits)
  next
    show "fseg (nodes ?r) (node_free_head (header ?r)) F"
      using pool_free(1) [OF R] by (simp add: fseg_cong [of F "nodes ?r" "nodes r"])
  qed (use pool_fresh [OF R] pool_distinct [OF R] pool_free(2) [OF R] pool_free_node [OF R] in auto)
qed

lemma node_detach_rep:
  assumes "pool_rep r Q F"
  shows "pool_rep (node_detach r x) (\<lambda>i. remove1 x (Q i)) F"
proof (cases "registered (nodes r x) = 0")
  case True
  then have "node_detach r x = r" by (simp add: node_detach_def)
  moreover have "(\<lambda>i. remove1 x (Q i)) = Q"
    using True pool_member [OF assms, of x] by (intro ext remove1_idem) simp
  ultimately show ?thesis using assms by simp
qed (rule node_detach_rep_registered [OF assms])

subsection \<open>Registering a node\<close>

lemma node_register_sel [simp]:
  "header (node_register r x i word) = header r"
  "futex_log (node_register r x i word) = futex_log r"
  "registered (nodes (node_register r x i word) y) = (if y = x then 1 else registered (nodes r y))"
  "seq (nodes (node_register r x i word) y) = seq (nodes r y)"
  "wait_word (nodes (node_register r x i word) y) = (if y = x then word else wait_word (nodes r y))"
  "waiter_next (nodes (node_register r x i word) y) = waiter_next (nodes r y)"
  "node_pid (nodes (node_register r x i word) y) = node_pid (nodes r y)"
  "obj (nodes (node_register r x i word) y) = (if y = x then i else obj (nodes r y))"
  "waiter_head (slots (node_register r x i word) j) = (if j = i then x else waiter_head (slots r j))"
  by (auto simp: node_register_def Let_def)

lemma bare_node_register [simp]: "bare (node_register r x i word) = bare r"
  by (rule ext) (auto simp: node_register_def Let_def bare_def)

lemma node_register_links:
  assumes "waiter_head (slots r i) \<noteq> x"
  shows "obj_next (nodes (node_register r x i word) y) =
      (if y = x then waiter_head (slots r i) else obj_next (nodes r y))"
    and "obj_prev (nodes (node_register r x i word) y) =
      (if y = x then NIL else if y = waiter_head (slots r i) \<and> y \<noteq> NIL then x
       else obj_prev (nodes r y))"
  using assms by (auto simp: node_register_def Let_def)

lemma node_register_rep:
  assumes R: "pool_rep r Q F" and x: "node_held r F x" "registered (nodes r x) = 0"
    and i: "i < SLOT_COUNT" "state (slots r i) = SLOT_USED"
    and word: "word < node_fresh (header r)"
  shows "pool_rep (node_register r x i word) (Q(i := x # Q i)) F"
proof -
  let ?r = "node_register r x i word"
  have l: "dseg (nodes r) NIL (waiter_head (slots r i)) (Q i) NIL"
    using pool_list [OF R, of i] i by auto
  have xQ: "x \<notin> set (Q j)" for j using x(2) by (simp add: pool_member [OF R])
  have xN: "x \<noteq> NIL" using x(1) pool_not_NIL(1) [OF R] by (simp add: node_held_def)
  have head: "waiter_head (slots r i) = NIL \<or> waiter_head (slots r i) \<in> set (Q i)"
    using l by (cases "Q i") auto
  then have hx: "waiter_head (slots r i) \<noteq> x" using xQ xN by auto
  note links = node_register_links [OF hx, of word]
  have at: "dseg (nodes ?r) x (waiter_head (slots r i)) (Q i) NIL"
    by (rule dseg_relink_first [OF l pool_distinct [OF R]])
      (use xQ [of i] pool_not_NIL(2) [OF R, of _ i] in \<open>auto simp: links\<close>)
  have elsewhere: "dseg (nodes ?r) NIL h (Q j) NIL = dseg (nodes r) NIL h (Q j) NIL"
    if "j \<noteq> i" for j h
  proof (rule dseg_cong)
    fix y assume y: "y \<in> set (Q j)"
    with that have "y \<notin> set (Q i)" using pool_disjoint [OF R] by blast
    with y head pool_not_NIL(2) [OF R y] xQ [of j]
    show "obj_prev (nodes ?r y) = obj_prev (nodes r y) \<and> obj_next (nodes ?r y) = obj_next (nodes r y)"
      by (auto simp: links)
  qed
  show ?thesis
  proof (rule pool_repI)
    fix j
    show "dseg (nodes ?r) NIL (waiter_head (slots ?r j)) ((Q(i := x # Q i)) j) NIL \<or>
        (Q(i := x # Q i)) j = [] \<and> state (slots ?r j) \<noteq> SLOT_USED"
    proof (cases "j = i")
      case False
      then show ?thesis
        using pool_list [OF R, of j] by (simp add: elsewhere bareD(1) [OF bare_node_register])
    qed (use at xN in \<open>simp add: links\<close>)
  next
    fix y assume "registered (nodes ?r y) \<noteq> 0"
    then show "y < node_fresh (header ?r) \<and> obj (nodes ?r y) < SLOT_COUNT \<and>
          wait_word (nodes ?r y) < node_fresh (header ?r)"
      using pool_bounds [OF R, of y] x(1) i(1) word by (auto simp: node_held_def split: if_splits)
  next
    show "fseg (nodes ?r) (node_free_head (header ?r)) F"
      using pool_free(1) [OF R] by (simp add: fseg_cong [of F "nodes ?r" "nodes r"])
  next
    fix j y
    show "y \<in> set ((Q(i := x # Q i)) j) \<longleftrightarrow> registered (nodes ?r y) \<noteq> 0 \<and> obj (nodes ?r y) = j"
      using pool_member [OF R, of y j] xQ [of j] by auto
  qed (use pool_fresh [OF R] pool_distinct [OF R] pool_free(2) [OF R] pool_free_node [OF R] xQ x(1)
      in \<open>auto simp: node_held_def\<close>)
qed

subsection \<open>Allocating and freeing nodes\<close>

lemma node_free_sel [simp]:
  "slots (node_free r x) = slots r"
  "futex_log (node_free r x) = futex_log r"
  "node_fresh (header (node_free r x)) = node_fresh (header r)"
  "next_scan (header (node_free r x)) = next_scan (header r)"
  "sweep_ns (header (node_free r x)) = sweep_ns (header r)"
  "header_ok (header (node_free r x)) = header_ok (header r)"
  "node_free_head (header (node_free r x)) = x"
  "registered (nodes (node_free r x) y) = registered (nodes r y)"
  "obj (nodes (node_free r x) y) = obj (nodes r y)"
  "seq (nodes (node_free r x) y) = seq (nodes r y)"
  "wait_word (nodes (node_free r x) y) = wait_word (nodes r y)"
  "obj_prev (nodes (node_free r x) y) = obj_prev (nodes r y)"
  "obj_next (nodes (node_free r x) y) = obj_next (nodes r y)"
  "node_pid (nodes (node_free r x) y) = node_pid (nodes r y)"
  "waiter_next (nodes (node_free r x) y) =
     (if y = x then node_free_head (header r) else waiter_next (nodes r y))"
  by (auto simp: node_free_def)

lemma bare_node_free [simp]: "bare (node_free r x) = bare r"
  by (rule ext) (simp add: bare_def)

lemma node_free_rep:
  assumes R: "pool_rep r Q F" and x: "node_held r F x" "registered (nodes r x) = 0"
  shows "pool_rep (node_free r x) Q (x # F)"
proof (rule pool_repI)
  have "fseg (nodes (node_free r x)) h F = fseg (nodes r) h F" for h
    using x(1) by (intro fseg_cong) (auto simp: node_held_def)
  then show "fseg (nodes (node_free r x)) (node_free_head (header (node_free r x))) (x # F)"
    using pool_free(1) [OF R] x(1) pool_not_NIL(1) [OF R, of x] by (simp add: node_held_def)
next
  fix i
  have "dseg (nodes (node_free r x)) NIL h (Q i) NIL = dseg (nodes r) NIL h (Q i) NIL" for h
    by (rule dseg_cong) simp
  then show "dseg (nodes (node_free r x)) NIL (waiter_head (slots (node_free r x) i)) (Q i) NIL \<or>
        Q i = [] \<and> state (slots (node_free r x) i) \<noteq> SLOT_USED"
    using pool_list [OF R, of i] by simp
qed (use pool_fresh [OF R] pool_distinct [OF R] pool_member [OF R] pool_bounds [OF R] pool_free(2) [OF R]
    pool_free_node [OF R] x in \<open>auto simp: node_held_def\<close>)

lemma node_alloc_None:
  assumes "pool_rep r Q F"
  shows "fst (node_alloc os r) = None \<longleftrightarrow> F = [] \<and> node_fresh (header r) = NODE_COUNT"
    and "fst (node_alloc os r) = None \<Longrightarrow> snd (node_alloc os r) = r"
  using pool_free(1) [OF assms] pool_fresh [OF assms]
  by (cases F; auto simp: node_alloc_def Let_def)+

lemma node_alloc_sel [simp]:
  "slots (snd (node_alloc os r)) = slots r"
  "futex_log (snd (node_alloc os r)) = futex_log r"
  "next_scan (header (snd (node_alloc os r))) = next_scan (header r)"
  "sweep_ns (header (snd (node_alloc os r))) = sweep_ns (header r)"
  "header_ok (header (snd (node_alloc os r))) = header_ok (header r)"
  by (simp_all add: node_alloc_def Let_def)

lemma bare_node_alloc [simp]: "bare (snd (node_alloc os r)) = bare r"
  by (rule ext) (simp add: bare_def)

lemma node_alloc_Some:
  assumes R: "pool_rep r Q F" and a: "node_alloc os r = (Some x, r')"
  obtains (reuse) xs where "F = x # xs" "node_fresh (header r') = node_fresh (header r)"
      "node_free_head (header r') = waiter_next (nodes r x)"
  | (fresh) "F = []" "x = node_fresh (header r)" "node_fresh (header r) < NODE_COUNT"
      "node_fresh (header r') = node_fresh (header r) + 1" "node_free_head (header r') = NIL"
  using pool_free(1) [OF R] a
  by (cases F) (auto simp: node_alloc_def Let_def split: if_splits)

lemma node_alloc_nodes:
  assumes "node_alloc os r = (Some x, r')"
  shows "nodes r' = (nodes r)(x := (nodes r x)\<lparr>registered := 0, obj := NIL, wait_word := NIL,
    obj_prev := NIL, obj_next := NIL, waiter_next := NIL, node_pid := getpid os\<rparr>)"
  using assms by (auto simp: node_alloc_def Let_def split: if_splits)

lemma node_alloc_frame:
  assumes "node_alloc os r = (a, r')"
  shows "slots r' = slots r" "futex_log r' = futex_log r" "bare r' = bare r"
    "next_scan (header r') = next_scan (header r)" "sweep_ns (header r') = sweep_ns (header r)"
    "header_ok (header r') = header_ok (header r)"
  using node_alloc_sel [of os r] bare_node_alloc [of os r] by (simp_all add: assms)

lemma node_alloc_rep:
  assumes R: "pool_rep r Q F" and a: "node_alloc os r = (Some x, r')"
  shows "pool_rep r' Q (remove1 x F)" and "node_held r' (remove1 x F) x"
    and "registered (nodes r' x) = 0" and "x \<notin> set (Q i)" and "node_pid (nodes r' x) = getpid os"
    and "node_held r F y \<Longrightarrow> y \<noteq> x \<and> node_held r' (remove1 x F) y"
    and "node_fresh (header r) \<le> node_fresh (header r')"
proof -
  note nds = node_alloc_nodes [OF a] and frame = node_alloc_frame [OF a]
  show reg: "registered (nodes r' x) = 0" and "node_pid (nodes r' x) = getpid os"
    by (simp_all add: nds)
  have fresh: "node_fresh (header r') \<le> NODE_COUNT \<and> node_fresh (header r) \<le> node_fresh (header r') \<and>
      x < node_fresh (header r') \<and> (y < node_fresh (header r) \<longrightarrow> y < node_fresh (header r'))" for y
  proof (cases rule: node_alloc_Some [OF R a])
    case 1
    with pool_fresh [OF R] pool_free_node [OF R, of x] show ?thesis by auto
  next
    case 2
    then show ?thesis
      by (auto simp: word_less_nat_alt word_le_nat_alt unat_less_Suc [of _ NODE_COUNT])
  qed
  then show "node_fresh (header r) \<le> node_fresh (header r')" by blast
  have xreg: "registered (nodes r x) = 0"
    by (cases rule: node_alloc_Some [OF R a]) (use pool_free_node [OF R, of x] pool_bounds [OF R, of x] in auto)
  then show xQ: "x \<notin> set (Q i)" for i by (simp add: pool_member [OF R])
  have xF: "x \<notin> set (remove1 x F)" using pool_free(2) [OF R] by simp
  then show "node_held r' (remove1 x F) x" using fresh by (simp add: node_held_def)
  show "node_held r F y \<Longrightarrow> y \<noteq> x \<and> node_held r' (remove1 x F) y"
    by (cases rule: node_alloc_Some [OF R a]) (use fresh [of y] in \<open>auto simp: node_held_def\<close>)
  show "pool_rep r' Q (remove1 x F)"
  proof (rule pool_repI)
    have "fseg (nodes r') (node_free_head (header r')) (remove1 x F) =
        fseg (nodes r) (node_free_head (header r')) (remove1 x F)"
      by (rule fseg_cong) (use xF in \<open>auto simp: nds\<close>)
    then show "fseg (nodes r') (node_free_head (header r')) (remove1 x F)"
      by (cases rule: node_alloc_Some [OF R a]) (use pool_free(1) [OF R] in auto)
  next
    fix i
    have "dseg (nodes r') NIL h (Q i) NIL = dseg (nodes r) NIL h (Q i) NIL" for h
      by (rule dseg_cong) (use xQ [of i] in \<open>auto simp: nds\<close>)
    then show "dseg (nodes r') NIL (waiter_head (slots r' i)) (Q i) NIL \<or>
        Q i = [] \<and> state (slots r' i) \<noteq> SLOT_USED"
      using pool_list [OF R, of i] by (simp add: frame)
  next
    fix y assume "registered (nodes r' y) \<noteq> 0"
    then show "y < node_fresh (header r') \<and> obj (nodes r' y) < SLOT_COUNT \<and>
        wait_word (nodes r' y) < node_fresh (header r')"
      using pool_bounds [OF R, of y] fresh by (auto simp: nds split: if_splits)
  next
    fix y assume "y \<in> set (remove1 x F)"
    then show "y < node_fresh (header r') \<and> registered (nodes r' y) = 0"
      using pool_free_node [OF R, of y] pool_free(2) [OF R] fresh [of y] by (auto simp: nds)
  qed (use fresh pool_distinct [OF R] pool_free(2) [OF R] pool_member [OF R] xQ xreg in \<open>auto simp: nds\<close>)
qed

subsection \<open>The wake walk\<close>

lemma wake_node_sel [simp]:
  "header (wake_node os r x) = header r"
  "slots (wake_node os r x) = slots (node_detach r x)"
  "futex_log (wake_node os r x) = futex_log r @ [wait_word (nodes r x)]"
  "registered (nodes (wake_node os r x) y) = (if y = x then 0 else registered (nodes r y))"
  "wait_word (nodes (wake_node os r x) y) = wait_word (nodes r y)"
  "waiter_next (nodes (wake_node os r x) y) = waiter_next (nodes r y)"
  "node_pid (nodes (wake_node os r x) y) = node_pid (nodes r y)"
  "obj (nodes (wake_node os r x) y) = obj (nodes (node_detach r x) y)"
  "obj_prev (nodes (wake_node os r x) y) = obj_prev (nodes (node_detach r x) y)"
  "obj_next (nodes (wake_node os r x) y) = obj_next (nodes (node_detach r x) y)"
  "seq (nodes (wake_node os r x) y) =
     (if y = wait_word (nodes r x) then seq (nodes r y) + 1 else seq (nodes r y))"
  by (auto simp: wake_node_def Let_def)

lemma pool_rep_cong:
  assumes "node_fresh (header r') = node_fresh (header r)"
    "node_free_head (header r') = node_free_head (header r)"
    "\<And>i. waiter_head (slots r' i) = waiter_head (slots r i)"
    "\<And>i. state (slots r' i) = SLOT_USED \<Longrightarrow> state (slots r i) = SLOT_USED"
    "\<And>x. registered (nodes r' x) = registered (nodes r x)"
    "\<And>x. obj (nodes r' x) = obj (nodes r x)"
    "\<And>x. wait_word (nodes r' x) = wait_word (nodes r x)"
    "\<And>x. waiter_next (nodes r' x) = waiter_next (nodes r x)"
    "\<And>x. obj_prev (nodes r' x) = obj_prev (nodes r x)"
    "\<And>x. obj_next (nodes r' x) = obj_next (nodes r x)"
    and R: "pool_rep r Q F"
  shows "pool_rep r' Q F"
proof -
  have "dseg (nodes r') NIL h xs NIL = dseg (nodes r) NIL h xs NIL"
    "fseg (nodes r') h xs = fseg (nodes r) h xs" for h xs
    using assms by (auto intro!: dseg_cong fseg_cong)
  with assms R show ?thesis
    by (intro pool_repI) (auto simp: pool_rep_def)
qed

lemma bare_wake_node [simp]: "bare (wake_node os r x) = bare r"
proof -
  have "bare (wake_node os r x) = bare (node_detach r x)"
    by (rule ext) (simp add: bare_def del: bare_node_detach)
  then show ?thesis by simp
qed

lemma wake_node_rep: "pool_rep r Q F \<Longrightarrow> pool_rep (wake_node os r x) (\<lambda>i. remove1 x (Q i)) F"
  by (rule pool_rep_cong [OF _ _ _ _ _ _ _ _ _ _ node_detach_rep]) simp_all

lemma wake_walk_NIL [simp]: "wake_walk os NIL r = Some r"
  by (simp add: wake_walk.simps)

lemma wake_walk_step:
  "c \<noteq> NIL \<Longrightarrow> wake_walk os c r = wake_walk os (obj_next (nodes r c)) (wake_node os r c)"
  by (simp add: wake_walk.simps [of os c])

text \<open>
  A walk over a well-formed list ends. It takes every node off the list, bumps the futex
  word of a waiter once per node of that waiter, wakes them in list order and changes
  no slot field but the list head.
\<close>

definition woken :: "Region \<Rightarrow> u32 list \<Rightarrow> Region \<Rightarrow> bool" where
  "woken r xs r' \<longleftrightarrow>
     core r' = core r \<and> bare r' = bare r \<and>
     futex_log r' = futex_log r @ map (\<lambda>x. wait_word (nodes r x)) xs \<and>
     (\<forall>y. seq (nodes r' y) =
        seq (nodes r y) + of_nat (count_list (map (\<lambda>x. wait_word (nodes r x)) xs) y)) \<and>
     (\<forall>y. registered (nodes r' y) = (if y \<in> set xs then 0 else registered (nodes r y))) \<and>
     (\<forall>y. node_pid (nodes r' y) = node_pid (nodes r y) \<and> wait_word (nodes r' y) = wait_word (nodes r y))"

lemma woken_Nil [simp]: "woken r [] r"
  by (simp add: woken_def)

lemma woken_Cons: "woken (wake_node os r x) xs r' \<Longrightarrow> woken r (x # xs) r'"
  by (auto simp: woken_def core_def)

lemma wake_walk_list:
  assumes "pool_rep r Q F" "dseg (nodes r) NIL (waiter_head (slots r i)) (Q i) NIL" "Q i = xs"
  shows "\<exists>r'. wake_walk os (waiter_head (slots r i)) r = Some r' \<and>
    pool_rep r' (Q(i := [])) F \<and> woken r xs r' \<and> waiter_head (slots r' i) = NIL"
  using assms
proof (induction xs arbitrary: r Q)
  case Nil
  then have "waiter_head (slots r i) = NIL" "Q(i := []) = Q" by auto
  with Nil.prems show ?case by simp
next
  case (Cons x xs)
  let ?r = "wake_node os r x" and ?Q = "\<lambda>j. remove1 x (Q j)"
  have R: "pool_rep ?r ?Q F" by (rule wake_node_rep [OF Cons.prems(1)])
  from Cons.prems have h: "waiter_head (slots r i) = x" "x \<noteq> NIL" "obj_prev (nodes r x) = NIL"
    and x: "registered (nodes r x) \<noteq> 0" "obj (nodes r x) = i"
    using pool_member [OF Cons.prems(1), of x i] by auto
  have d: "distinct ([] @ x # xs)" using pool_distinct [OF Cons.prems(1), of i] Cons.prems(3) by simp
  have l: "dseg (nodes r) NIL x ([] @ x # xs) NIL" using Cons.prems h by simp
  note links = node_detach_links [OF x(1) dseg_no_self_link(1,2) [OF l d]]
  have head: "waiter_head (slots ?r i) = obj_next (nodes r x)" by (simp add: links h x)
  have Qi: "?Q i = xs" using Cons.prems(3) by simp
  have "dseg (nodes ?r) NIL (waiter_head (slots ?r i)) (?Q i) NIL"
  proof (cases "xs = []")
    case False
    then obtain z where "z \<in> set (?Q i)" using Qi by (cases xs) auto
    then show ?thesis by (rule pool_queued_list [OF R])
  qed (use l head Qi in simp)
  from Cons.IH [OF R this Qi] obtain r' where r':
    "wake_walk os (waiter_head (slots ?r i)) ?r = Some r'" "pool_rep r' (?Q(i := [])) F"
    "woken ?r xs r'" "waiter_head (slots r' i) = NIL" by blast
  have Q': "?Q(i := []) = Q(i := [])"
    using pool_disjoint [OF Cons.prems(1), of x i] Cons.prems(3)
    by (intro ext) (auto intro!: remove1_idem)
  have "wake_walk os (waiter_head (slots r i)) r = Some r'"
    using r'(1) h head by (simp add: wake_walk_step)
  then show ?case
    using r'(2,4) woken_Cons [OF r'(3)] unfolding Q' by blast
qed

lemma wake_object_rep:
  assumes "pool_rep r Q F" "dseg (nodes r) NIL (waiter_head (slots r i)) (Q i) NIL"
  obtains r' where "wake_object os r i = Some r'" "pool_rep r' (Q(i := [])) F"
    "woken r (Q i) r'" "waiter_head (slots r' i) = NIL"
  using wake_walk_list [OF assms refl] unfolding wake_object_def by blast

lemma bare_lock [simp]: "bare (lock_mark os r) = bare r" "bare (guard_drop r) = bare r"
  by (simp_all add: bare_def fun_eq_iff)

lemma pool_rep_lock [simp]:
  "pool_rep (lock_mark os r) Q F = pool_rep r Q F" "pool_rep (guard_drop r) Q F = pool_rep r Q F"
  by (simp_all add: pool_rep_def)

lemma woken_lock: "woken (lock_mark os r) xs r' \<Longrightarrow> woken r xs (guard_drop r')"
  by (simp add: woken_def)

text \<open>
  The wake that follows a signal, when the lock is free: every node registered on the object
  is taken off its list and its waiter is woken, whether the walk is needed or skipped.
\<close>

lemma wake_waiters_undisturbed:
  assumes "undisturbed os" "pool_rep r Q F" "dseg (nodes r) NIL (waiter_head (slots r i)) (Q i) NIL"
  obtains r' where "wake_waiters_if_any os r i = Some r'" "pool_rep r' (Q(i := [])) F"
    "woken r (Q i) r'" "waiter_head (slots r' i) = NIL"
proof (cases "waiter_head (slots r i) = NIL")
  case True
  with assms have "Q i = []" by (auto dest: dseg_NIL_head)
  with True assms that [of r] show ?thesis
    by (simp add: wake_waiters_if_any_def fun_upd_idem)
next
  case False
  obtain r2 where "wake_object os (lock_mark os r) i = Some r2" "pool_rep r2 (Q(i := [])) F"
    "woken (lock_mark os r) (Q i) r2" "waiter_head (slots r2 i) = NIL"
    using wake_object_rep [of "lock_mark os r" Q F i os] assms by auto
  with False assms(1) that [of "guard_drop r2"] show ?thesis
    by (simp add: wake_waiters_if_any_def with_lock_undisturbed woken_lock)
qed

subsection \<open>The interface of the pool\<close>

text \<open>
  What the clients of the pool rely on: detaching takes a node off whatever list it is on,
  freeing hands an unregistered node back, and neither touches the other nodes. From these
  laws follow the two ways in which nodes are given back: a waiter that returns all of its
  nodes, and a sweep that recycles the node of a dead waiter.
\<close>

locale waiter_pool =
  fixes rep :: "'r \<Rightarrow> ('o \<Rightarrow> 'n list) \<Rightarrow> 'n list \<Rightarrow> bool"
    and held :: "'r \<Rightarrow> 'n list \<Rightarrow> 'n \<Rightarrow> bool"
    and on_list :: "'r \<Rightarrow> 'n \<Rightarrow> bool"
    and detach :: "'r \<Rightarrow> 'n \<Rightarrow> 'r"
    and free :: "'r \<Rightarrow> 'n \<Rightarrow> 'r"
  assumes rep_distinct: "rep r Q F \<Longrightarrow> distinct (Q i)"
    and detach_rep: "rep r Q F \<Longrightarrow> rep (detach r x) (\<lambda>i. remove1 x (Q i)) F"
    and detach_held: "held (detach r x) F y \<longleftrightarrow> held r F y"
    and detach_on_list: "on_list (detach r x) y \<longleftrightarrow> y \<noteq> x \<and> on_list r y"
    and free_rep: "rep r Q F \<Longrightarrow> held r F x \<Longrightarrow> \<not> on_list r x \<Longrightarrow> rep (free r x) Q (x # F)"
    and free_held: "held (free r x) (x # F) y \<longleftrightarrow> y \<noteq> x \<and> held r F y"
    and free_on_list: "on_list (free r x) y \<longleftrightarrow> on_list r y"
begin

definition detach_all :: "'n list \<Rightarrow> 'r \<Rightarrow> 'r" where
  "detach_all xs r = fold (\<lambda>x r. detach r x) xs r"

definition free_all :: "'n list \<Rightarrow> 'r \<Rightarrow> 'r" where
  "free_all xs r = fold (\<lambda>x r. free r x) xs r"

lemma detach_all_rep:
  "rep r Q F \<Longrightarrow> rep (detach_all xs r) (\<lambda>i. filter (\<lambda>y. y \<notin> set xs) (Q i)) F"
proof (induction xs arbitrary: r Q)
  case (Cons x xs)
  have "filter (\<lambda>y. y \<notin> set xs) (remove1 x (Q i)) = filter (\<lambda>y. y \<notin> set (x # xs)) (Q i)" for i
    using rep_distinct [OF Cons.prems]
    by (simp add: conj_commute flip: filter_neq_remove1)
  with Cons.IH [OF detach_rep [OF Cons.prems, of x]] show ?case
    by (simp add: detach_all_def)
qed (simp add: detach_all_def)

lemma detach_all_held: "held (detach_all xs r) F y \<longleftrightarrow> held r F y"
  by (induction xs arbitrary: r) (simp_all add: detach_all_def detach_held)

lemma detach_all_on_list: "on_list (detach_all xs r) y \<longleftrightarrow> y \<notin> set xs \<and> on_list r y"
  by (induction xs arbitrary: r) (auto simp: detach_all_def detach_on_list)

lemma free_all_rep:
  "rep r Q F \<Longrightarrow> distinct xs \<Longrightarrow> (\<And>x. x \<in> set xs \<Longrightarrow> held r F x \<and> \<not> on_list r x) \<Longrightarrow>
   rep (free_all xs r) Q (rev xs @ F)"
proof (induction xs arbitrary: r F)
  case (Cons x xs)
  have "rep (free_all xs (free r x)) Q (rev xs @ x # F)"
    using Cons.prems by (intro Cons.IH free_rep) (auto simp: free_held free_on_list)
  then show ?case by (simp add: free_all_def)
qed (simp add: free_all_def)

text \<open>A waiter that gives up all of its nodes leaves the other waiters where they were.\<close>

lemma give_back:
  assumes "rep r Q F" "distinct xs" "\<And>x. x \<in> set xs \<Longrightarrow> held r F x"
  shows "rep (free_all xs (detach_all xs r)) (\<lambda>i. filter (\<lambda>y. y \<notin> set xs) (Q i)) (rev xs @ F)"
  using assms
  by (intro free_all_rep detach_all_rep) (auto simp: detach_all_held detach_all_on_list)

lemma recycle:
  "rep r Q F \<Longrightarrow> held r F x \<Longrightarrow> rep (free (detach r x) x) (\<lambda>i. remove1 x (Q i)) (x # F)"
  by (intro free_rep detach_rep) (simp_all add: detach_held detach_on_list)

end

lemma node_held_detach: "node_held (node_detach r x) F y \<longleftrightarrow> node_held r F y"
  by (simp add: node_held_def)

lemma node_held_free: "node_held (node_free r x) (x # F) y \<longleftrightarrow> y \<noteq> x \<and> node_held r F y"
  by (auto simp: node_held_def)

interpretation pool: waiter_pool pool_rep node_held "\<lambda>r x. registered (nodes r x) \<noteq> 0"
  node_detach node_free
  by unfold_locales
    (auto simp: node_held_detach node_held_free intro: node_detach_rep node_free_rep pool_distinct)

lemma pool_registered_held:
  "pool_rep r Q F \<Longrightarrow> registered (nodes r x) \<noteq> 0 \<Longrightarrow> node_held r F x"
  using pool_bounds pool_free_node by (fastforce simp: node_held_def)

end
