(* ===== verification/Objects.thy ===== *)
theory Objects
  imports Wait_Nodes
begin

text \<open>
  The lock-free part of \<^verbatim>\<open>src/src/core.rs\<close>: the compare-exchange loop on an
  object's packed word, the decision that each operation takes from the word it
  loaded, and the NT object that the word stands for. Every loop of the source
  is \<open>cas_loop\<close> at one decision function. A loop may be overtaken by other
  threads between its load and its compare-exchange; \<open>cas_loop\<close> returns
  \<open>None\<close> when that happens for ever. The locale \<open>word_update\<close> is the contract
  of a decision function: it keeps the well-formedness of the word.
\<close>

subsection \<open>Compare and exchange\<close>

datatype 'a decision = Ret 'a | Swap u64 'a

definition put_word :: "Region \<Rightarrow> u32 \<Rightarrow> u64 \<Rightarrow> Region" where
  "put_word r i w = upd_slot r i (\<lambda>s. s\<lparr>w0 := w\<rparr>)"

definition cas64 :: "Region \<Rightarrow> u32 \<Rightarrow> u64 \<Rightarrow> u64 \<Rightarrow> bool \<times> Region" where
  "cas64 r i old new =
     (if w0 (slots r i) = old then (True, put_word r i new) else (False, r))"

partial_function (option) cas_loop ::
  "Os \<Rightarrow> nat \<Rightarrow> u32 \<Rightarrow> (u64 \<Rightarrow> 'a decision) \<Rightarrow> Region \<Rightarrow> ('a \<times> Region) option" where
  "cas_loop os n i body r =
     (case body (w0 (slots r i)) of
        Ret a \<Rightarrow> Some (a, r)
      | Swap new a \<Rightarrow>
          (case cas64 (on_load os n r) i (w0 (slots r i)) new of
             (ok, r') \<Rightarrow>
               if ok then Some (a, r') else cas_loop os (Suc n) i body (on_retry os n r')))"

subsection \<open>Decisions of the operations\<close>

text \<open>
  A decision of a signalling operation carries the result and whether the waiters of the
  object have to be woken after the exchange.
\<close>

type_synonym signal_result = "(Error + u32) \<times> bool"

definition sem_release_body :: "u32 \<Rightarrow> u64 \<Rightarrow> signal_result decision" where
  "sem_release_body count w =
     (let cur = lo32 w; limit = hi32 w in
      case option_filter (\<lambda>s. s \<le> limit) (checked_add cur count) of
        None \<Rightarrow> Ret (Inl Overflow, False)
      | Some s \<Rightarrow> Swap (pack_sem s limit) (Inr cur, True))"

definition event_set_body :: "u64 \<Rightarrow> signal_result decision" where
  "event_set_body w =
     (let prev = lo32 w in
      if prev \<noteq> 0 then Ret (Inr prev, False) else Swap (set_low w) (Inr 0, True))"

definition event_reset_body :: "u64 \<Rightarrow> signal_result decision" where
  "event_reset_body w =
     (let prev = lo32 w in
      if prev = 0 then Ret (Inr 0, False) else Swap (clear_low w) (Inr prev, False))"

definition mutex_unlock_body :: "u32 \<Rightarrow> u64 \<Rightarrow> signal_result decision" where
  "mutex_unlock_body owner w =
     (let cur_owner = lo32 w; count = mutex_count w; ownerdead = mutex_dead w in
      if cur_owner \<noteq> owner then Ret (Inl Perm, False)
      else
        let freed = (count = 1) in
        Swap (pack_mutex (if freed then 0 else owner) (count - 1) ownerdead) (Inr count, freed))"

definition mutex_kill_body :: "u32 \<Rightarrow> u64 \<Rightarrow> signal_result decision" where
  "mutex_kill_body owner w =
     (if lo32 w \<noteq> owner then Ret (Inl Perm, False)
      else Swap (pack_mutex 0 0 True) (Inr 0, True))"

text \<open>Decisions of an acquiring operation: \<open>None\<close> when the object is not acquirable.\<close>

definition sem_acquire_body :: "u64 \<Rightarrow> bool option decision" where
  "sem_acquire_body w =
     (let count = lo32 w in
      if count = 0 then Ret None
      else Swap (pack_sem (count - 1) (hi32 w)) (Some False))"

definition mutex_acquire_body :: "u32 \<Rightarrow> u64 \<Rightarrow> bool option decision" where
  "mutex_acquire_body owner w =
     (let cur_owner = lo32 w; count = mutex_count w; ownerdead = mutex_dead w in
      if count \<ge> 0x7fffffff then Ret None
      else if cur_owner = 0 then Swap (pack_mutex owner (count + 1) False) (Some ownerdead)
      else if cur_owner = owner then Swap (pack_mutex owner (count + 1) ownerdead) (Some False)
      else Ret None)"

definition event_claim_body :: "u64 \<Rightarrow> bool option decision" where
  "event_claim_body w = (if lo32 w = 0 then Ret None else Swap (clear_low w) (Some False))"

text \<open>Decisions of the rollback of an acquisition.\<close>

definition sem_rollback_body :: "u64 \<Rightarrow> unit decision" where
  "sem_rollback_body w = Swap (pack_sem (lo32 w + 1) (hi32 w)) ()"

definition mutex_rollback_body :: "u32 \<Rightarrow> bool \<Rightarrow> u64 \<Rightarrow> unit decision" where
  "mutex_rollback_body owner owner_dead_was w =
     (let count = mutex_count w in
      if count = 1 then Swap (pack_mutex 0 0 owner_dead_was) ()
      else Swap (pack_mutex owner (count - 1) (mutex_dead w)) ())"

definition event_rollback_body :: "u64 \<Rightarrow> unit decision" where
  "event_rollback_body w =
     (if drop_bit 32 w = 0 \<and> lo32 w = 0 then Swap (set_low w) () else Ret ())"

subsection \<open>The loop under interference\<close>

lemma put_word_sel [simp]:
  "header (put_word r i w) = header r" "nodes (put_word r i w) = nodes r"
  "futex_log (put_word r i w) = futex_log r"
  "w0 (slots (put_word r i w) j) = (if j = i then w else w0 (slots r j))"
  "state (slots (put_word r i w) j) = state (slots r j)"
  "generation (slots (put_word r i w) j) = generation (slots r j)"
  "obj_type (slots (put_word r i w) j) = obj_type (slots r j)"
  "slot_pid (slots (put_word r i w) j) = slot_pid (slots r j)"
  "waiter_head (slots (put_word r i w) j) = waiter_head (slots r j)"
  "holders_len (slots (put_word r i w) j) = holders_len (slots r j)"
  "holders (slots (put_word r i w) j) = holders (slots r j)"
  "pulse_seq (slots (put_word r i w) j) = pulse_seq (slots r j)"
  by (auto simp: put_word_def)

lemma slot_put_word [simp]: "slot (put_word r i w) h = slot r h"
  by (rule slot_cong) simp_all

lemma put_word_rep [simp]: "pool_rep r Q F \<Longrightarrow> pool_rep (put_word r i w) Q F"
  by (rule pool_rep_cong) simp_all

text \<open>
  \<open>overtaken os i r r1\<close>: the region changed from \<open>r\<close> to \<open>r1\<close> by steps of other threads only,
  at the points where a loop lets them in.
\<close>

inductive overtaken :: "Os \<Rightarrow> Region \<Rightarrow> Region \<Rightarrow> bool" for os where
  start: "overtaken os r r"
| load: "overtaken os r r1 \<Longrightarrow> overtaken os r (on_load os n r1)"
| retry: "overtaken os r r1 \<Longrightarrow> overtaken os r (on_retry os n r1)"

lemma overtaken_trans: "overtaken os r2 r3 \<Longrightarrow> overtaken os r1 r2 \<Longrightarrow> overtaken os r1 r3"
  by (induction rule: overtaken.induct) (auto intro: overtaken.intros)

text \<open>
  What one run of a loop amounts to: other threads take their steps, and then the decision
  taken from the word that is in memory at that very moment is carried out in one step.
\<close>

definition atomically :: "(u64 \<Rightarrow> 'a decision) \<Rightarrow> u32 \<Rightarrow> Region \<Rightarrow> 'a \<times> Region" where
  "atomically body i r =
     (case body (w0 (slots r i)) of Ret a \<Rightarrow> (a, r) | Swap new a \<Rightarrow> (a, put_word r i new))"

lemma cas_loop_unfold:
  "cas_loop os n i body r =
     (case body (w0 (slots r i)) of
        Ret a \<Rightarrow> Some (a, r)
      | Swap new a \<Rightarrow>
          if w0 (slots (on_load os n r) i) = w0 (slots r i)
          then Some (a, put_word (on_load os n r) i new)
          else cas_loop os (Suc n) i body (on_retry os n (on_load os n r)))"
  by (subst cas_loop.simps) (simp add: cas64_def split: decision.split)

lemma cas_loop_atomic:
  assumes "cas_loop os n i body r = Some (a, r')"
  shows "\<exists>r1. overtaken os r r1 \<and> (a, r') = atomically body i r1"
proof -
  have "\<exists>r1. overtaken os r r1 \<and> x = atomically body i r1" if "cas_loop os n i body r = Some x" for x
  proof (rule cas_loop.raw_induct [where
        P = "\<lambda>os n i body r x. \<exists>r1. overtaken os r r1 \<and> x = atomically body i r1", OF _ that])
    fix f os n i body r x
    assume IH: "\<And>os n i body r x. f os n i body r = Some x \<Longrightarrow>
        \<exists>r1. overtaken os r r1 \<and> x = atomically body i r1"
      and eq: "(case body (w0 (slots r i)) of Ret a \<Rightarrow> Some (a, r)
        | Swap new a \<Rightarrow> (case cas64 (on_load os n r) i (w0 (slots r i)) new of
             (ok, r') \<Rightarrow> if ok then Some (a, r')
               else f os (Suc n) i body (on_retry os n r'))) = Some x"
    let ?r = "on_load os n r"
    show "\<exists>r1. overtaken os r r1 \<and> x = atomically body i r1"
    proof (cases "body (w0 (slots r i))")
      case (Ret a)
      with eq show ?thesis by (intro exI [of _ r]) (auto simp: atomically_def intro: overtaken.start)
    next
      case (Swap new a)
      show ?thesis
      proof (cases "w0 (slots ?r i) = w0 (slots r i)")
        case True
        with eq Swap show ?thesis
          by (intro exI [of _ ?r]) (auto simp: atomically_def cas64_def intro: overtaken.intros)
      next
        case False
        with eq Swap obtain r1 where "overtaken os (on_retry os n ?r) r1" "x = atomically body i r1"
          using IH [of os "Suc n" i body "on_retry os n ?r" x] by (auto simp: cas64_def)
        moreover have "overtaken os r (on_retry os n ?r)"
          by (intro overtaken.retry overtaken.load overtaken.start)
        ultimately show ?thesis using overtaken_trans by blast
      qed
    qed
  qed
  from this [OF assms] show ?thesis .
qed

text \<open>The loop ends as soon as one of its attempts is not overtaken on the object's word.\<close>

lemma cas_loop_returns:
  assumes "n \<le> m" "\<And>r. w0 (slots (on_load os m r) i) = w0 (slots r i)"
  shows "\<exists>a r'. cas_loop os n i body r = Some (a, r')"
  using assms(1)
proof (induction "m - n" arbitrary: n r)
  case 0
  then have "n = m" by simp
  then show ?case using assms(2) by (subst cas_loop_unfold) (auto split: decision.split)
next
  case (Suc k)
  then have "\<exists>a r'. cas_loop os (Suc n) i body (on_retry os n (on_load os n r)) = Some (a, r')"
    by (intro Suc.hyps(1)) auto
  then show ?case by (subst cas_loop_unfold) (auto split: decision.split)
qed

lemma cas_loop_undisturbed:
  "undisturbed os \<Longrightarrow> cas_loop os n i body r = Some (atomically body i r)"
  by (subst cas_loop_unfold) (auto simp: undisturbed_def atomically_def split: decision.split)

subsection \<open>The NT objects\<close>

text \<open>
  The abstract objects that the packed words stand for, with natural-number counts and an
  optional owner, and what the NT semantics says each operation does to them.
\<close>

datatype nt_object =
    NtSem nat nat
  | NtMutex "u32 option" nat bool
  | NtEvent bool bool

definition abs_sem :: "u64 \<Rightarrow> nt_object" where
  "abs_sem w = NtSem (unat (lo32 w)) (unat (hi32 w))"

definition abs_mutex :: "u64 \<Rightarrow> nt_object" where
  "abs_mutex w =
     NtMutex (if lo32 w = 0 then None else Some (lo32 w)) (unat (mutex_count w)) (mutex_dead w)"

definition abs_event :: "u64 \<Rightarrow> nt_object" where
  "abs_event w = NtEvent (hi32 w \<noteq> 0) (lo32 w \<noteq> 0)"

fun nt_release :: "nat \<Rightarrow> nt_object \<Rightarrow> (nat \<times> nt_object) option" where
  "nt_release n (NtSem c m) = (if c + n \<le> m then Some (c, NtSem (c + n) m) else None)"
| "nt_release n _ = None"

fun nt_acquire :: "u32 \<Rightarrow> nt_object \<Rightarrow> (bool \<times> nt_object) option" where
  "nt_acquire me (NtSem c m) = (if 0 < c then Some (False, NtSem (c - 1) m) else None)"
| "nt_acquire me (NtMutex None c dead) = Some (dead, NtMutex (Some me) 1 False)"
| "nt_acquire me (NtMutex (Some t) c dead) =
     (if t = me \<and> c < 2 ^ 31 - 1 then Some (False, NtMutex (Some t) (c + 1) dead) else None)"
| "nt_acquire me (NtEvent manual s) = (if s then Some (False, NtEvent manual manual) else None)"

fun nt_unlock :: "u32 \<Rightarrow> nt_object \<Rightarrow> (nat \<times> nt_object) option" where
  "nt_unlock me (NtMutex (Some t) c dead) =
     (if t = me then Some (c, if c = 1 then NtMutex None 0 dead else NtMutex (Some t) (c - 1) dead)
      else None)"
| "nt_unlock me _ = None"

fun nt_kill :: "u32 \<Rightarrow> nt_object \<Rightarrow> nt_object option" where
  "nt_kill me (NtMutex (Some t) c dead) = (if t = me then Some (NtMutex None 0 True) else None)"
| "nt_kill me _ = None"

fun nt_set :: "bool \<Rightarrow> nt_object \<Rightarrow> nt_object" where
  "nt_set s (NtEvent manual _) = NtEvent manual s"
| "nt_set s ob = ob"

subsection \<open>Well-formed words\<close>

definition sem_ok :: "u64 \<Rightarrow> bool" where
  "sem_ok w \<longleftrightarrow> lo32 w \<le> hi32 w"

definition mutex_ok :: "u64 \<Rightarrow> bool" where
  "mutex_ok w \<longleftrightarrow> (lo32 w = 0 \<longleftrightarrow> mutex_count w = 0) \<and> (mutex_dead w \<longrightarrow> lo32 w = 0)"

definition event_ok :: "u64 \<Rightarrow> bool" where
  "event_ok w \<longleftrightarrow> (lo32 w = 0 \<or> lo32 w = 1) \<and> (hi32 w = 0 \<or> hi32 w = 1)"

definition word_ok :: "u32 \<Rightarrow> u64 \<Rightarrow> bool" where
  "word_ok ty w \<longleftrightarrow>
     (ty = TYPE_SEM \<longrightarrow> sem_ok w) \<and> (ty = TYPE_MUTEX \<longrightarrow> mutex_ok w) \<and> (ty = TYPE_EVENT \<longrightarrow> event_ok w)"

locale word_update =
  fixes ok :: "u64 \<Rightarrow> bool"
    and body :: "u64 \<Rightarrow> 'a decision"
  assumes keeps: "ok w \<Longrightarrow> body w = Swap w' a \<Longrightarrow> ok w'"
begin

lemma atomically_ok: "ok (w0 (slots r i)) \<Longrightarrow> ok (w0 (slots (snd (atomically body i r)) i))"
  by (auto simp: atomically_def keeps split: decision.split)

text \<open>A loop keeps the word well formed when the other threads do.\<close>

lemma loop_ok:
  assumes "\<And>n s. ok (w0 (slots s i)) \<Longrightarrow> ok (w0 (slots (on_load os n s) i))"
    and "\<And>n s. ok (w0 (slots s i)) \<Longrightarrow> ok (w0 (slots (on_retry os n s) i))"
    and "ok (w0 (slots r i))" "cas_loop os n i body r = Some (a, r')"
  shows "ok (w0 (slots r' i))"
proof -
  from cas_loop_atomic [OF assms(4)] obtain r1
    where o: "overtaken os r r1" and e: "(a, r') = atomically body i r1" by blast
  from o assms(1-3) have "ok (w0 (slots r1 i))"
    by (induction rule: overtaken.induct) auto
  then have "ok (w0 (slots (snd (atomically body i r1)) i))" by (rule atomically_ok)
  with e show ?thesis by (metis snd_conv)
qed

end

subsection \<open>The decisions implement the NT operations\<close>

lemma sem_release_body_eq:
  "sem_release_body n w =
     (if unat (lo32 w) + unat n \<le> unat (hi32 w)
      then Swap (join32 (hi32 w) (lo32 w + n)) (Inr (lo32 w), True) else Ret (Inl Overflow, False))"
proof -
  have h: "unat (hi32 w) < 2 ^ 32" by (rule unat_u32_lt)
  show ?thesis
  proof (cases "unat (lo32 w) + unat n < 2 ^ 32")
    case True
    then show ?thesis
      by (simp add: sem_release_body_def Let_def checked_add_def pack_sem_join word_le_nat_alt
          unat_add_u32)
  next
    case False
    with h show ?thesis by (simp add: sem_release_body_def Let_def checked_add_def)
  qed
qed

lemma abs_sem_join [simp]: "abs_sem (join32 h l) = NtSem (unat l) (unat h)"
  by (simp add: abs_sem_def)

lemma sem_acquire_body_eq:
  "sem_acquire_body w =
     (if lo32 w = 0 then Ret None else Swap (join32 (hi32 w) (lo32 w - 1)) (Some False))"
  by (simp add: sem_acquire_body_def Let_def pack_sem_join)

lemma mutex_count_lt: "mutex_count w < 0x7fffffff \<longleftrightarrow> unat (mutex_count w) < 2 ^ 31 - 1"
  by (simp add: word_less_nat_alt)

lemma mutex_count_inc:
  assumes "mutex_count w < 0x7fffffff"
  shows "mutex_count (pack_mutex me (mutex_count w + 1) od) = mutex_count w + 1"
    and "unat (mutex_count w + 1) = Suc (unat (mutex_count w))"
proof -
  show u: "unat (mutex_count w + 1) = Suc (unat (mutex_count w))"
    using assms by (rule unat_less_Suc)
  have "mutex_count w + 1 \<le> 0x7fffffff" using assms u by (simp add: word_le_nat_alt word_less_nat_alt)
  then show "mutex_count (pack_mutex me (mutex_count w + 1) od) = mutex_count w + 1"
    by (simp add: low31_id)
qed

lemma mutex_count_dec:
  assumes "mutex_count w \<noteq> 0"
  shows "mutex_count (pack_mutex me (mutex_count w - 1) od) = mutex_count w - 1"
    and "unat (mutex_count w - 1) = unat (mutex_count w) - 1"
proof -
  show u: "unat (mutex_count w - 1) = unat (mutex_count w) - 1" using assms by (rule unat_dec)
  have "mutex_count w - 1 \<le> 0x7fffffff"
    using mutex_count_le [of w] u by (simp add: word_le_nat_alt)
  then show "mutex_count (pack_mutex me (mutex_count w - 1) od) = mutex_count w - 1"
    by (simp add: low31_id)
qed

lemma lo32_set_low_0: "lo32 w = 0 \<Longrightarrow> lo32 (set_low w) = 1"
  by (simp add: lo32_set_low)

lemma lo32_clear_low_bit: "event_ok w \<Longrightarrow> lo32 (clear_low w) = 0"
  by (auto simp: event_ok_def lo32_clear_low)

lemmas event_bits = lo32_set_low_0 lo32_clear_low_bit

subsection \<open>Every decision keeps its word well formed\<close>

lemma unat_release:
  "unat (lo32 w) + unat n \<le> unat (hi32 w) \<Longrightarrow> unat (lo32 w + n) = unat (lo32 w) + unat n"
  by (rule unat_add_u32, rule le_less_trans [OF _ unat_u32_lt])

interpretation sem_release: word_update sem_ok "sem_release_body n" for n
  by unfold_locales (auto simp: sem_release_body_eq sem_ok_def word_le_nat_alt unat_release
      split: if_splits)

interpretation sem_acquire: word_update sem_ok sem_acquire_body
  by unfold_locales (auto simp: sem_acquire_body_eq sem_ok_def word_le_nat_alt unat_dec
      split: if_splits)

interpretation event_set: word_update event_ok event_set_body
  by unfold_locales (auto simp: event_set_body_def Let_def event_ok_def lo32_set_low_0
      split: if_splits)

interpretation event_reset: word_update event_ok event_reset_body
  by unfold_locales (auto simp: event_reset_body_def Let_def lo32_clear_low event_ok_def
      split: if_splits)

interpretation event_claim: word_update event_ok event_claim_body
  by unfold_locales (auto simp: event_claim_body_def lo32_clear_low event_ok_def split: if_splits)

interpretation event_rollback: word_update event_ok event_rollback_body
  by unfold_locales (auto simp: event_rollback_body_def event_ok_def lo32_set_low_0
      split: if_splits)

lemma mutex_unlock_keeps: "me \<noteq> 0 \<Longrightarrow> word_update mutex_ok (mutex_unlock_body me)"
proof
  fix w w' a assume "me \<noteq> 0" "mutex_ok w" "mutex_unlock_body me w = Swap w' a"
  then have "lo32 w = me" "mutex_count w \<noteq> 0" "\<not> mutex_dead w"
    and w': "w' = pack_mutex (if mutex_count w = 1 then 0 else me) (mutex_count w - 1) (mutex_dead w)"
    by (auto simp: mutex_unlock_body_def Let_def mutex_ok_def split: if_splits)
  with \<open>me \<noteq> 0\<close> show "mutex_ok w'"
    unfolding w' mutex_ok_def mutex_count_dec(1) [OF \<open>mutex_count w \<noteq> 0\<close>] by auto
qed

lemma mutex_acquire_keeps: "me \<noteq> 0 \<Longrightarrow> word_update mutex_ok (mutex_acquire_body me)"
proof
  fix w w' a assume me: "me \<noteq> 0" and ok: "mutex_ok w" and b: "mutex_acquire_body me w = Swap w' a"
  then have lt: "mutex_count w < 0x7fffffff" and dead: "lo32 w \<noteq> 0 \<longrightarrow> \<not> mutex_dead w"
    and w': "w' = pack_mutex me (mutex_count w + 1) (lo32 w \<noteq> 0 \<and> mutex_dead w)"
    by (auto simp: mutex_acquire_body_def Let_def mutex_ok_def split: if_splits)
  have "mutex_count w + 1 \<noteq> 0" using mutex_count_inc(2) [OF lt] by auto
  with me dead show "mutex_ok w'"
    unfolding w' mutex_ok_def mutex_count_inc(1) [OF lt] by auto
qed

lemma mutex_kill_keeps: "word_update mutex_ok (mutex_kill_body me)"
  by unfold_locales (auto simp: mutex_kill_body_def mutex_ok_def split: if_splits)

subsection \<open>The region invariant\<close>

text \<open>
  \<open>region_rep r Q F\<close> collects what every operation keeps: the pool is well formed, only used
  slots have waiters, the word of every used slot is well formed for its type, slot 0 is
  reserved, the holder lists stay within their array without duplicates, and until the
  allocation cursor has wrapped the slots at or above it were never handed out.
\<close>

definition holders_cap :: "Slot \<Rightarrow> nat" where
  "holders_cap s = min (unat (holders_len s AND NOT HOLDER_OVERFLOW)) MAX_HOLDERS"

definition holders_ok :: "Slot \<Rightarrow> bool" where
  "holders_ok s \<longleftrightarrow> length (holders s) = MAX_HOLDERS \<and>
     unat (holders_len s AND NOT HOLDER_OVERFLOW) \<le> MAX_HOLDERS \<and>
     distinct (take (holders_cap s) (holders s))"

definition scan_cursor :: "Region \<Rightarrow> u32" where
  "scan_cursor r = next_scan (header r) AND NOT SCAN_WRAPPED"

definition scan_wrapped :: "Region \<Rightarrow> bool" where
  "scan_wrapped r \<longleftrightarrow> next_scan (header r) AND SCAN_WRAPPED \<noteq> 0"

definition reserved_slot :: "Slot \<Rightarrow> bool" where
  "reserved_slot s \<longleftrightarrow> state s = SLOT_USED \<and> obj_type s = TYPE_RESERVED \<and> slot_pid s = 0"

definition region_rep :: "Region \<Rightarrow> (u32 \<Rightarrow> u32 list) \<Rightarrow> u32 list \<Rightarrow> bool" where
  "region_rep r Q F \<longleftrightarrow>
     pool_rep r Q F \<and>
     (\<forall>i. Q i \<noteq> [] \<longrightarrow> state (slots r i) = SLOT_USED) \<and>
     (\<forall>i. state (slots r i) = SLOT_USED \<longrightarrow> word_ok (obj_type (slots r i)) (w0 (slots r i))) \<and>
     reserved_slot (slots r 0) \<and>
     (\<forall>i. holders_ok (slots r i)) \<and>
     scan_cursor r < SLOT_COUNT \<and>
     (\<forall>i. i \<noteq> 0 \<and> scan_cursor r \<le> i \<and> \<not> scan_wrapped r \<longrightarrow> state (slots r i) = SLOT_FREE) \<and>
     (\<forall>i. SLOT_COUNT \<le> i \<longrightarrow> state (slots r i) = SLOT_FREE) \<and>
     header_ok (header r)"

definition region_ok :: "Region \<Rightarrow> bool" where
  "region_ok r \<longleftrightarrow> (\<exists>Q F. region_rep r Q F)"

lemma region_repD:
  assumes "region_rep r Q F"
  shows region_pool: "pool_rep r Q F"
    and region_queued: "Q i \<noteq> [] \<Longrightarrow> state (slots r i) = SLOT_USED"
    and region_word: "state (slots r i) = SLOT_USED \<Longrightarrow> word_ok (obj_type (slots r i)) (w0 (slots r i))"
    and region_reserved: "reserved_slot (slots r 0)"
    and region_holders: "holders_ok (slots r i)"
    and region_cursor: "scan_cursor r < SLOT_COUNT"
    and region_above: "i \<noteq> 0 \<Longrightarrow> scan_cursor r \<le> i \<Longrightarrow> \<not> scan_wrapped r \<Longrightarrow>
      state (slots r i) = SLOT_FREE"
    and region_beyond: "SLOT_COUNT \<le> i \<Longrightarrow> state (slots r i) = SLOT_FREE"
    and region_header: "header_ok (header r)"
  using assms unfolding region_rep_def by blast+

lemma SLOT_FREE_USED [simp]: "SLOT_FREE \<noteq> SLOT_USED" "SLOT_USED \<noteq> SLOT_FREE"
  by (simp_all add: state_consts)

lemma region_used_list:
  "region_rep r Q F \<Longrightarrow> state (slots r i) = SLOT_USED \<Longrightarrow>
   dseg (nodes r) NIL (waiter_head (slots r i)) (Q i) NIL"
  using pool_list [OF region_pool] by fastforce

text \<open>
  An operation that changes no slot field but object words and list heads keeps the invariant
  as soon as it keeps the pool and the words.
\<close>

lemma scan_cong: "next_scan (header r') = next_scan (header r) \<Longrightarrow>
    scan_cursor r' = scan_cursor r \<and> scan_wrapped r' = scan_wrapped r"
  by (simp add: scan_cursor_def scan_wrapped_def)

lemma holders_ok_cong:
  "holders_len s' = holders_len s \<Longrightarrow> holders s' = holders s \<Longrightarrow> holders_ok s' = holders_ok s"
  by (simp add: holders_ok_def holders_cap_def)

lemma region_rep_frame:
  assumes R: "region_rep r Q F" and P: "pool_rep r' Q' F'"
    and Q: "\<And>i. Q' i \<noteq> [] \<Longrightarrow> state (slots r i) = SLOT_USED"
    and f: "\<And>i. state (slots r' i) = state (slots r i)"
      "\<And>i. obj_type (slots r' i) = obj_type (slots r i)"
      "\<And>i. slot_pid (slots r' i) = slot_pid (slots r i)"
      "\<And>i. holders_len (slots r' i) = holders_len (slots r i)"
      "\<And>i. holders (slots r' i) = holders (slots r i)"
      "next_scan (header r') = next_scan (header r)" "header_ok (header r') = header_ok (header r)"
    and w: "\<And>i. state (slots r i) = SLOT_USED \<Longrightarrow> word_ok (obj_type (slots r i)) (w0 (slots r' i))"
  shows "region_rep r' Q' F'"
  unfolding region_rep_def
  using scan_cong [OF f(6)] region_repD [OF R] P Q w holders_ok_cong [OF f(4,5)]
  by (auto simp: f(1-3,7) reserved_slot_def)

lemma region_rep_put_word:
  assumes "region_rep r Q F" "word_ok (obj_type (slots r i)) w"
  shows "region_rep (put_word r i w) Q F"
  by (rule region_rep_frame [OF assms(1) put_word_rep [OF region_pool [OF assms(1)]]])
    (use assms(2) region_word [OF assms(1)] region_queued [OF assms(1)] in auto)

lemma region_rep_woken:
  assumes R: "region_rep r Q F" and "pool_rep r' (Q(i := [])) F" "woken r xs r'"
  shows "region_rep r' (Q(i := [])) F"
proof -
  from assms(3) have b: "bare r' = bare r" and c: "core r' = core r" by (auto simp: woken_def)
  show ?thesis
    by (rule region_rep_frame [OF R assms(2)])
      (auto simp: bareD [OF b] coreD [OF c] region_word [OF R] region_queued [OF R] split: if_splits)
qed

lemma region_rep_lock [simp]:
  "region_rep (lock_mark os r) Q F = region_rep r Q F"
  "region_rep (guard_drop r) Q F = region_rep r Q F"
  by (simp_all add: region_rep_def scan_cursor_def scan_wrapped_def)

lemma word_ok_reserved [simp]: "word_ok TYPE_RESERVED w"
  by (simp add: word_ok_def type_consts)

lemma fresh_region_sel [simp]:
  "node_fresh (header fresh_region) = 0" "node_free_head (header fresh_region) = NIL"
  "next_scan (header fresh_region) = 0" "nodes fresh_region = (\<lambda>_. zero_node)"
  "futex_log fresh_region = []" "header_ok (header fresh_region)"
  "slots fresh_region i = (if i = 0 then zero_slot\<lparr>waiter_head := NIL, obj_type := TYPE_RESERVED,
     slot_pid := 0, state := SLOT_USED\<rparr> else zero_slot)"
  by (simp_all add: fresh_region_def init_region_def zero_region_def header_ok_def)

lemma zero_slot_sel [simp]:
  "state zero_slot = 0" "generation zero_slot = 0" "slot_pid zero_slot = 0"
  "holders zero_slot = replicate MAX_HOLDERS 0" "holders_len zero_slot = 0"
  "w0 zero_slot = 0" "pulse_seq zero_slot = 0" "waiter_head zero_slot = 0" "obj_type zero_slot = 0"
  by (simp_all add: zero_slot_def)

lemma zero_node_sel [simp]:
  "registered zero_node = 0" "seq zero_node = 0" "node_pid zero_node = 0"
  by (simp_all add: zero_node_def)

lemma holders_ok_empty: "holders s = replicate MAX_HOLDERS 0 \<Longrightarrow> holders_len s = 0 \<Longrightarrow> holders_ok s"
  by (simp add: holders_ok_def holders_cap_def)

text \<open>
  A region with one object, of type \<open>ty\<close> and packed state \<open>w\<close>, created by process \<open>pid\<close> in slot 1.
\<close>

definition one_object :: "u32 \<Rightarrow> u64 \<Rightarrow> u32 \<Rightarrow> Region" where
  "one_object ty w pid =
     upd_header (upd_slot fresh_region 1 (\<lambda>s. s\<lparr>state := SLOT_USED, obj_type := ty, w0 := w,
         slot_pid := pid, waiter_head := NIL\<rparr>)) (\<lambda>h. h\<lparr>next_scan := 2\<rparr>)"

lemma fresh_region_rep: "region_rep fresh_region (\<lambda>_. []) []"
proof -
  have "pool_rep fresh_region (\<lambda>_. []) []"
    by (rule pool_repI) (auto simp: state_consts)
  then show ?thesis
    by (auto simp: region_rep_def reserved_slot_def word_ok_def type_consts scan_cursor_def
        scan_wrapped_def SLOT_COUNT_def state_consts intro!: holders_ok_empty)
qed

lemma one_object_sel [simp]:
  "nodes (one_object ty w pid) = (\<lambda>_. zero_node)" "futex_log (one_object ty w pid) = []"
  "node_fresh (header (one_object ty w pid)) = 0" "node_free_head (header (one_object ty w pid)) = NIL"
  "next_scan (header (one_object ty w pid)) = 2" "header_ok (header (one_object ty w pid))"
  "slots (one_object ty w pid) = (slots fresh_region)
     (1 := zero_slot\<lparr>state := SLOT_USED, obj_type := ty, w0 := w, slot_pid := pid, waiter_head := NIL\<rparr>)"
  by (simp_all add: one_object_def)

lemma one_object_rep:
  assumes "word_ok ty w"
  shows "region_rep (one_object ty w pid) (\<lambda>_. []) []"
proof -
  have "pool_rep (one_object ty w pid) (\<lambda>_. []) []"
    by (rule pool_repI) (auto simp: state_consts)
  moreover have "\<not> (2::u32) \<le> 1" "\<not> (16384::u32) \<le> 1" by (simp_all add: word_le_nat_alt)
  ultimately show ?thesis
    using assms
    by (auto simp: region_rep_def reserved_slot_def scan_cursor_def
        scan_wrapped_def SLOT_COUNT_def SCAN_WRAPPED_def state_consts intro!: holders_ok_empty)
qed

lemma one_object_slot [simp]: "slot (one_object ty w pid) 1 = Some 1"
  by (simp add: slot_Some_iff INDEX_MASK_num INDEX_BITS_def)

subsection \<open>Properties\<close>

text \<open>
  The decision of a semaphore release implements the NT release exactly, for every packed
  word: it refuses with Overflow and changes nothing just when the count would pass the maximum
  (a sum that does not fit in 32 bits included), and otherwise returns the old count, adds the
  released amount and asks for the waiters to be woken.
\<close>

theorem sem_release_refines_nt:
  "case sem_release_body n w of
     Ret (res, wake) \<Rightarrow>
       res = Inl Overflow \<and> \<not> wake \<and> nt_release (unat n) (abs_sem w) = None
   | Swap w' (res, wake) \<Rightarrow>
       wake \<and> (\<exists>prev. res = Inr prev \<and>
         nt_release (unat n) (abs_sem w) = Some (unat prev, abs_sem w'))"
  by (simp add: sem_release_body_eq abs_sem_def [of w] unat_release)

text \<open>
  On a well-formed mutex word, the decision of an acquisition implements the NT mutex.
\<close>

lemma mutex_acquire_nt:
  assumes "me \<noteq> 0" "mutex_ok w"
  shows "case mutex_acquire_body me w of
     Ret got \<Rightarrow> got = None \<and> nt_acquire me (abs_mutex w) = None
   | Swap w' got \<Rightarrow> (\<exists>dead. got = Some dead \<and>
       nt_acquire me (abs_mutex w) = Some (dead, abs_mutex w'))"
proof (cases "mutex_count w < 0x7fffffff")
  case True
  note inc = mutex_count_inc [OF True]
  have "unat (mutex_count w) < 2 ^ 31 - 1" using True by (simp add: mutex_count_lt)
  with assms True inc show ?thesis
    by (auto simp: mutex_acquire_body_def Let_def abs_mutex_def mutex_ok_def not_le [symmetric])
next
  case False
  then have "mutex_count w = 0x7fffffff" using mutex_count_le [of w] by simp
  with assms show ?thesis
    by (auto simp: mutex_acquire_body_def Let_def abs_mutex_def mutex_ok_def)
qed

text \<open>
  On a well-formed mutex word, the decision of an unlock implements the NT mutex: only the
  owner may unlock, the previous recursion count is returned, and the last level frees it.
\<close>

lemma mutex_unlock_nt:
  assumes "me \<noteq> 0" "mutex_ok w"
  shows "case mutex_unlock_body me w of
     Ret (res, wake) \<Rightarrow> res = Inl Perm \<and> \<not> wake \<and> nt_unlock me (abs_mutex w) = None
   | Swap w' (res, wake) \<Rightarrow> (\<exists>prev. res = Inr prev \<and> 0 < unat prev \<and>
       nt_unlock me (abs_mutex w) = Some (unat prev, abs_mutex w') \<and>
       (wake \<longleftrightarrow> lo32 w' = 0))"
proof (cases "lo32 w = me")
  case True
  with assms have nz: "mutex_count w \<noteq> 0" by (simp add: mutex_ok_def)
  then have "0 < unat (mutex_count w)" by (simp add: unat_gt_0)
  moreover have "unat (mutex_count w) = 1 \<longleftrightarrow> mutex_count w = 1"
    by (metis unat_1 word_unat_eq_iff)
  ultimately show ?thesis
    using True assms mutex_count_dec [OF nz]
    by (auto simp: mutex_unlock_body_def Let_def abs_mutex_def)
qed (use assms in \<open>auto simp: mutex_unlock_body_def Let_def abs_mutex_def\<close>)

text \<open>
  A history of one mutex: any threads acquire, unlock and abandon it in any order, each by the
  decision of the code on the current word. \<open>d t\<close> counts the levels that thread \<open>t\<close> holds.
\<close>

inductive mutex_history :: "u64 \<Rightarrow> (u32 \<Rightarrow> nat) \<Rightarrow> bool" where
  created: "mutex_history (pack_mutex 0 0 False) (\<lambda>_. 0)"
| created_owned: "me \<noteq> 0 \<Longrightarrow> c \<noteq> 0 \<Longrightarrow> c \<le> 0x7fffffff \<Longrightarrow>
    mutex_history (pack_mutex me c False) ((\<lambda>_. 0)(me := unat c))"
| acquired: "mutex_history w d \<Longrightarrow> me \<noteq> 0 \<Longrightarrow> mutex_acquire_body me w = Swap w' got \<Longrightarrow>
    mutex_history w' (d(me := d me + 1))"
| unlocked: "mutex_history w d \<Longrightarrow> me \<noteq> 0 \<Longrightarrow> mutex_unlock_body me w = Swap w' res \<Longrightarrow>
    mutex_history w' (d(me := d me - 1))"
| abandoned: "mutex_history w d \<Longrightarrow> me \<noteq> 0 \<Longrightarrow> mutex_kill_body me w = Swap w' res \<Longrightarrow>
    mutex_history w' (d(me := 0))"

definition levels :: "u64 \<Rightarrow> u32 \<Rightarrow> nat" where
  "levels w t = (if t = lo32 w \<and> t \<noteq> 0 then unat (mutex_count w) else 0)"

lemma levels_acquire:
  assumes "me \<noteq> 0" "mutex_ok w" "mutex_acquire_body me w = Swap w' got"
  shows "levels w' = (levels w)(me := levels w me + 1)"
proof -
  from assms have lt: "mutex_count w < 0x7fffffff" and o: "lo32 w = 0 \<or> lo32 w = me"
    and w': "lo32 w' = me" "mutex_count w' = mutex_count w + 1"
    using mutex_count_inc(1) [of w] by (auto simp: mutex_acquire_body_def Let_def split: if_splits)
  have n: "unat (mutex_count w') = unat (mutex_count w) + 1"
    using w'(2) mutex_count_inc(2) [OF lt] by simp
  have z: "lo32 w = 0 \<Longrightarrow> unat (mutex_count w) = 0" using assms(2) by (simp add: mutex_ok_def)
  show ?thesis
  proof (rule ext)
    fix t show "levels w' t = ((levels w)(me := levels w me + 1)) t"
      using o z n w'(1) assms(1) by (cases "t = me") (auto simp: levels_def)
  qed
qed

lemma levels_unlock:
  assumes "me \<noteq> 0" "mutex_ok w" "mutex_unlock_body me w = Swap w' res"
  shows "levels w' = (levels w)(me := levels w me - 1)"
proof -
  from assms have nz: "mutex_count w \<noteq> 0" and o: "lo32 w = me"
    and w': "lo32 w' = (if mutex_count w = 1 then 0 else me)" "mutex_count w' = mutex_count w - 1"
    using mutex_count_dec(1) [of w]
    by (auto simp: mutex_unlock_body_def Let_def mutex_ok_def split: if_splits)
  have n: "unat (mutex_count w') = unat (mutex_count w) - 1"
    using w'(2) mutex_count_dec(2) [OF nz] by simp
  show ?thesis
  proof (rule ext)
    fix t show "levels w' t = ((levels w)(me := levels w me - 1)) t"
      using o n w'(1) assms(1) by (cases "t = me") (auto simp: levels_def)
  qed
qed

lemma mutex_history_levels: "mutex_history w d \<Longrightarrow> mutex_ok w \<and> d = levels w"
proof (induction rule: mutex_history.induct)
  case (created_owned me c)
  then have "mutex_ok (pack_mutex me c False)" by (simp add: mutex_ok_def low31_id)
  moreover have "(\<lambda>_. 0)(me := unat c) = levels (pack_mutex me c False)"
    using created_owned by (simp add: levels_def fun_eq_iff low31_id)
  ultimately show ?case by simp
next
  case (acquired w d me w' got)
  then have ok: "mutex_ok w" and d: "d = levels w" by simp_all
  show ?case
    using levels_acquire [OF acquired(2) ok acquired(3)] d
      word_update.keeps [OF mutex_acquire_keeps [OF acquired(2)] ok acquired(3)] by simp
next
  case (unlocked w d me w' res)
  then have ok: "mutex_ok w" and d: "d = levels w" by simp_all
  show ?case
    using levels_unlock [OF unlocked(2) ok unlocked(3)] d
      word_update.keeps [OF mutex_unlock_keeps [OF unlocked(2)] ok unlocked(3)] by simp
next
  case (abandoned w d me w' res)
  then have "w' = pack_mutex 0 0 True" "lo32 w = me" by (auto simp: mutex_kill_body_def split: if_splits)
  with abandoned show ?case by (auto simp: mutex_ok_def levels_def fun_eq_iff)
qed (auto simp: mutex_ok_def levels_def fun_eq_iff)

text \<open>
  C1: mutual exclusion. In every history of a mutex, the threads may acquire, recurse, unlock
  and abandon it in any order, yet at most one thread holds it, the word names that thread and
  its recursion count is exactly the number of levels the thread still holds.
\<close>

theorem mutex_mutual_exclusion:
  assumes "mutex_history w d" "0 < d s"
  shows "lo32 w = s \<and> unat (mutex_count w) = d s \<and> (\<forall>t. t \<noteq> s \<longrightarrow> d t = 0)"
  using mutex_history_levels [OF assms(1)] assms(2) by (auto simp: levels_def split: if_splits)

theorem mutex_mutual_exclusion_witness:
  "\<exists>w d. mutex_history w d \<and> 0 < d 7 \<and>
     lo32 w = 7 \<and> unat (mutex_count w) = d 7 \<and> (\<forall>t. t \<noteq> 7 \<longrightarrow> d t = 0)"
proof -
  have "mutex_acquire_body 7 (pack_mutex 0 0 False) = Swap (pack_mutex 7 1 False) (Some False)"
    by (simp add: mutex_acquire_body_def Let_def word_le_nat_alt)
  then have h: "mutex_history (pack_mutex 7 1 False) ((\<lambda>_. 0)(7 := 0 + 1))"
    using mutex_history.acquired [OF mutex_history.created, of 7] by simp
  have l: "0 < ((\<lambda>_. 0::nat)(7 := 0 + 1)) (7 :: u32)" by simp
  show ?thesis using h l mutex_mutual_exclusion [OF h l] by blast
qed

end
