(* ===== verification/Slots.thy ===== *)
theory Slots
  imports Objects "HOL-Library.Monad_Syntax"
begin

text \<open>
  The slot table of \<^verbatim>\<open>src/src/core.rs\<close>: \<open>alloc_slot\<close> with its cursor,
  \<open>slot_publish\<close>, the holder lists (\<open>holder_add\<close>, \<open>holder_remove\<close>), and the
  freeing of a slot that \<open>close\<close> and the sweep share. The lemmas show that the
  table keeps the region invariant, that an allocated handle names its object,
  that a freed handle names nothing any more, and that a holder list is a set
  of at most eight processes with an overflow mark.
\<close>

subsection \<open>Operations\<close>

function alloc_scan :: "Region \<Rightarrow> u32 \<Rightarrow> nat \<Rightarrow> u32 option" where
  "alloc_scan r cursor i =
     (if i < unat SLOT_COUNT then
        let index = (cursor + of_nat i) mod SLOT_COUNT in
        if state (slots r index) = SLOT_FREE then Some index else alloc_scan r cursor (Suc i)
      else None)"
  by pat_completeness auto
termination by (relation "measure (\<lambda>(r, cursor, i). unat SLOT_COUNT - i)") auto

declare alloc_scan.simps [simp del]

definition alloc_slot :: "Region \<Rightarrow> u32 option \<times> Region" where
  "alloc_slot r =
     (let cursor = next_scan (header r) AND NOT SCAN_WRAPPED in
      case alloc_scan r cursor 0 of
        None \<Rightarrow> (None, r)
      | Some index \<Rightarrow>
          let r1 = upd_slot r index (\<lambda>s. s\<lparr>waiter_head := NIL\<rparr>);
              next_index = (index + 1) mod SLOT_COUNT;
              flags = (if next_index = 0 then SCAN_WRAPPED else next_scan (header r) AND SCAN_WRAPPED);
              r2 = upd_header r1 (\<lambda>h. h\<lparr>next_scan := next_index OR flags\<rparr>)
          in (Some (handle_of (generation (slots r index)) index), r2))"

definition slot_publish :: "Os \<Rightarrow> Region \<Rightarrow> u32 \<Rightarrow> u32 \<Rightarrow> u64 \<Rightarrow> Region" where
  "slot_publish os r handle ty w =
     upd_slot r (handle AND INDEX_MASK) (\<lambda>s. s\<lparr>w0 := w, pulse_seq := 0, obj_type := ty,
       slot_pid := getpid os, holders_len := 0, holders := replicate MAX_HOLDERS 0,
       state := SLOT_USED\<rparr>)"

definition holder_remove :: "Slot \<Rightarrow> u32 \<Rightarrow> Slot" where
  "holder_remove s pid =
     (let len = holders_len s AND NOT HOLDER_OVERFLOW;
          cap = min (unat len) MAX_HOLDERS in
      case List.find (\<lambda>i. holders s ! i = pid) [0..<cap] of
        None \<Rightarrow> s
      | Some i \<Rightarrow>
          let last = cap - 1 in
          s\<lparr>holders := ((holders s)[i := holders s ! last])[last := 0],
            holders_len := of_nat (cap - 1) OR (holders_len s AND HOLDER_OVERFLOW)\<rparr>)"

definition holder_add :: "Slot \<Rightarrow> u32 \<Rightarrow> Slot" where
  "holder_add s pid =
     (let len = holders_len s AND NOT HOLDER_OVERFLOW;
          cap = min (unat len) MAX_HOLDERS in
      if \<exists>i\<in>set [0..<cap]. holders s ! i = pid then s
      else if cap = MAX_HOLDERS then s\<lparr>holders_len := holders_len s OR HOLDER_OVERFLOW\<rparr>
      else s\<lparr>holders := (holders s)[cap := pid],
             holders_len := of_nat (cap + 1) OR (holders_len s AND HOLDER_OVERFLOW)\<rparr>)"

text \<open>Marking a slot free: the state first, then the next generation.\<close>

definition free_slot :: "Region \<Rightarrow> u32 \<Rightarrow> Region" where
  "free_slot r i =
     upd_slot (upd_slot r i (\<lambda>s. s\<lparr>state := SLOT_FREE\<rparr>)) i (\<lambda>s. s\<lparr>generation := generation s + 1\<rparr>)"

subsection \<open>Flag bits\<close>

lemma top_bit_SCAN: "SCAN_WRAPPED = push_bit 31 1" and top_bit_HOLDER: "HOLDER_OVERFLOW = push_bit 31 1"
  by (simp_all add: SCAN_WRAPPED_def HOLDER_OVERFLOW_def)

lemma flag_parts:
  fixes n f v :: u32
  assumes "n < 2 ^ 31"
  shows "(n OR (f AND push_bit 31 1)) AND NOT (push_bit 31 1) = n"
    and "(n OR (f AND push_bit 31 1)) AND push_bit 31 1 = f AND push_bit 31 1"
proof -
  have "n AND mask 31 = n" using assms by (rule less_mask_eq)
  then have b: "31 \<le> k \<Longrightarrow> \<not> bit n k" for k by (metis bit_and_iff bit_mask_iff not_less)
  show "(n OR (f AND push_bit 31 1)) AND NOT (push_bit 31 1) = n"
    by (rule bit_word_eqI) (use b in \<open>auto simp: bit_simps simp del: push_bit_of_1\<close>)
  show "(n OR (f AND push_bit 31 1)) AND push_bit 31 1 = f AND push_bit 31 1"
    by (rule bit_word_eqI) (use b in \<open>auto simp: bit_simps simp del: push_bit_of_1\<close>)
qed

text \<open>The two flagged counters: the allocation cursor and the holder count.\<close>

lemma cursor_parts:
  assumes "n < SLOT_COUNT" "f = SCAN_WRAPPED \<or> f = x AND SCAN_WRAPPED"
  shows "(n OR f) AND NOT SCAN_WRAPPED = n" and "(n OR f) AND SCAN_WRAPPED = f"
proof -
  have "n < 2 ^ 31" using assms(1) by (simp add: SLOT_COUNT_def word_less_nat_alt)
  moreover from assms(2) obtain y where "f = y AND SCAN_WRAPPED"
    by (metis and.idem)
  ultimately show "(n OR f) AND NOT SCAN_WRAPPED = n" "(n OR f) AND SCAN_WRAPPED = f"
    using flag_parts [of n y] by (simp_all add: top_bit_SCAN del: push_bit_of_1)
qed

lemma MAX_HOLDERS_num: "MAX_HOLDERS = 8"
  by (simp add: MAX_HOLDERS_def)

lemma holder_parts:
  assumes "n \<le> MAX_HOLDERS"
  shows "unat ((of_nat n OR (x AND HOLDER_OVERFLOW)) AND NOT HOLDER_OVERFLOW) = n"
    and "(of_nat n OR (x AND HOLDER_OVERFLOW)) AND HOLDER_OVERFLOW = x AND HOLDER_OVERFLOW"
proof -
  have n: "unat (of_nat n :: u32) = n" using assms by (simp add: unat_of_nat MAX_HOLDERS_num)
  then have lt: "(of_nat n :: u32) < 2 ^ 31" using assms by (simp add: word_less_nat_alt MAX_HOLDERS_num)
  show "unat ((of_nat n OR (x AND HOLDER_OVERFLOW)) AND NOT HOLDER_OVERFLOW) = n"
    using flag_parts(1) [OF lt, of x] n by (simp add: top_bit_HOLDER del: push_bit_of_1)
  show "(of_nat n OR (x AND HOLDER_OVERFLOW)) AND HOLDER_OVERFLOW = x AND HOLDER_OVERFLOW"
    using flag_parts(2) [OF lt, of x] by (simp add: top_bit_HOLDER del: push_bit_of_1)
qed

lemma overflow_mark:
  "(x OR HOLDER_OVERFLOW) AND NOT HOLDER_OVERFLOW = x AND NOT HOLDER_OVERFLOW"
  "(x OR HOLDER_OVERFLOW) AND HOLDER_OVERFLOW = HOLDER_OVERFLOW"
  unfolding top_bit_HOLDER
  by (rule bit_word_eqI, auto simp: bit_simps simp del: push_bit_of_1)+

subsection \<open>Holder lists\<close>

definition held_by :: "Slot \<Rightarrow> u32 list" where
  "held_by s = take (holders_cap s) (holders s)"

definition spilled :: "Slot \<Rightarrow> bool" where
  "spilled s \<longleftrightarrow> holders_len s AND HOLDER_OVERFLOW \<noteq> 0"

lemma holders_okD:
  assumes "holders_ok s"
  shows "length (holders s) = MAX_HOLDERS" "holders_cap s = unat (holders_len s AND NOT HOLDER_OVERFLOW)"
    "holders_cap s \<le> MAX_HOLDERS" "distinct (held_by s)" "length (held_by s) = holders_cap s"
  using assms by (auto simp: holders_ok_def holders_cap_def held_by_def)

lemma holders_okI:
  assumes "length (holders s) = MAX_HOLDERS" "n \<le> MAX_HOLDERS"
    and "holders_len s = of_nat n OR (x AND HOLDER_OVERFLOW)" "take n (holders s) = xs" "distinct xs"
  shows "holders_ok s \<and> held_by s = xs \<and> (spilled s \<longleftrightarrow> x AND HOLDER_OVERFLOW \<noteq> 0)"
  using assms holder_parts [OF assms(2), of x]
  by (simp add: holders_ok_def holders_cap_def held_by_def spilled_def)

lemma swap_remove:
  assumes "distinct xs" "i < length xs"
  shows "distinct (butlast (xs[i := last xs]))" "set (butlast (xs[i := last xs])) = set xs - {xs ! i}"
  using assms
  by (cases xs rule: rev_cases; auto simp: list_update_append nth_append set_update_distinct
      distinct_list_update less_Suc_eq)+

text \<open>Removing a process removes just it; adding one adds just it, or spills when there is no room.\<close>

lemma holder_remove_sel [simp]:
  "state (holder_remove s pid) = state s" "generation (holder_remove s pid) = generation s"
  "obj_type (holder_remove s pid) = obj_type s" "slot_pid (holder_remove s pid) = slot_pid s"
  "waiter_head (holder_remove s pid) = waiter_head s" "w0 (holder_remove s pid) = w0 s"
  "pulse_seq (holder_remove s pid) = pulse_seq s"
  by (simp_all add: holder_remove_def Let_def split: option.split)

lemma holder_add_sel [simp]:
  "state (holder_add s pid) = state s" "generation (holder_add s pid) = generation s"
  "obj_type (holder_add s pid) = obj_type s" "slot_pid (holder_add s pid) = slot_pid s"
  "waiter_head (holder_add s pid) = waiter_head s" "w0 (holder_add s pid) = w0 s"
  "pulse_seq (holder_add s pid) = pulse_seq s"
  by (simp_all add: holder_add_def Let_def)

lemma holder_remove_set:
  assumes "holders_ok s"
  shows "holders_ok (holder_remove s pid) \<and> set (held_by (holder_remove s pid)) = set (held_by s) - {pid} \<and>
    (spilled (holder_remove s pid) \<longleftrightarrow> spilled s)"
proof -
  note ok = holders_okD [OF assms]
  let ?n = "holders_cap s"
  have n: "min (unat (holders_len s AND NOT HOLDER_OVERFLOW)) MAX_HOLDERS = ?n" by (simp add: holders_cap_def)
  show ?thesis
  proof (cases "List.find (\<lambda>i. holders s ! i = pid) [0..<?n]")
    case None
    then have "pid \<notin> set (held_by s)"
      using ok by (auto simp: find_None_iff held_by_def in_set_conv_nth)
    with None assms n show ?thesis by (simp add: holder_remove_def Let_def)
  next
    case (Some i)
    then have i: "i < ?n" "holders s ! i = pid" by (auto simp: find_Some_iff)
    let ?s = "holder_remove s pid" and ?xs = "held_by s"
    have s': "holders ?s = ((holders s)[i := holders s ! (?n - 1)])[?n - 1 := 0]"
      "holders_len ?s = of_nat (?n - 1) OR (holders_len s AND HOLDER_OVERFLOW)"
      using Some n by (simp_all add: holder_remove_def Let_def)
    have "last ?xs = holders s ! (?n - 1)" using i ok by (simp add: last_conv_nth held_by_def flip: length_greater_0_conv)
    then have t: "take (?n - 1) (holders ?s) = butlast (?xs[i := last ?xs])"
      using ok i by (simp add: s' butlast_conv_take take_update_swap held_by_def min_def list_update_beyond)
    have d: "distinct (butlast (?xs[i := last ?xs]))" "set (butlast (?xs[i := last ?xs])) = set ?xs - {pid}"
      using swap_remove [of ?xs i] ok i by (simp_all add: held_by_def)
    show ?thesis
      using holders_okI [OF _ _ s'(2) t d(1)] ok d(2) by (simp add: s'(1) spilled_def)
  qed
qed

lemma holder_add_set:
  assumes "holders_ok s"
  shows "holders_ok (holder_add s pid) \<and>
    (if pid \<in> set (held_by s) then holder_add s pid = s
     else if length (held_by s) = MAX_HOLDERS
       then held_by (holder_add s pid) = held_by s \<and> spilled (holder_add s pid)
     else held_by (holder_add s pid) = held_by s @ [pid] \<and> (spilled (holder_add s pid) \<longleftrightarrow> spilled s))"
proof -
  note ok = holders_okD [OF assms]
  let ?n = "holders_cap s"
  have n: "min (unat (holders_len s AND NOT HOLDER_OVERFLOW)) MAX_HOLDERS = ?n" by (simp add: holders_cap_def)
  have mem: "(\<exists>i\<in>set [0..<?n]. holders s ! i = pid) \<longleftrightarrow> pid \<in> set (held_by s)"
    using ok by (auto simp: held_by_def in_set_conv_nth)
  consider (old) "pid \<in> set (held_by s)" | (full) "pid \<notin> set (held_by s)" "?n = MAX_HOLDERS"
    | (room) "pid \<notin> set (held_by s)" "?n < MAX_HOLDERS" using ok by linarith
  then show ?thesis
  proof cases
    case old
    with mem n assms show ?thesis by (simp add: holder_add_def Let_def)
  next
    case full
    with mem n have "holder_add s pid = s\<lparr>holders_len := holders_len s OR HOLDER_OVERFLOW\<rparr>"
      by (simp add: holder_add_def Let_def)
    with full ok assms show ?thesis
      by (simp add: holders_ok_def holders_cap_def held_by_def spilled_def overflow_mark)
        (simp add: HOLDER_OVERFLOW_def)
  next
    case room
    let ?s = "holder_add s pid"
    from room mem n have s': "holders ?s = (holders s)[?n := pid]"
      "holders_len ?s = of_nat (?n + 1) OR (holders_len s AND HOLDER_OVERFLOW)"
      by (simp_all add: holder_add_def Let_def)
    have t: "take (?n + 1) (holders ?s) = held_by s @ [pid]"
      using ok room by (simp add: s' held_by_def take_Suc_conv_app_nth)
    show ?thesis
      using holders_okI [OF _ _ s'(2) t] ok room by (simp add: s'(1) spilled_def)
  qed
qed

subsection \<open>The allocation cursor\<close>

lemma unat_SLOT_COUNT: "unat SLOT_COUNT = 16384"
  by (simp add: SLOT_COUNT_def)

lemma mod_SLOT_COUNT: "x mod SLOT_COUNT < SLOT_COUNT"
  by (simp add: SLOT_COUNT_def word_less_nat_alt unat_mod)

lemma alloc_scan_Some:
  "alloc_scan r c i = Some index \<Longrightarrow>
   index < SLOT_COUNT \<and> state (slots r index) = SLOT_FREE \<and>
   (\<exists>j\<ge>i. index = (c + of_nat j) mod SLOT_COUNT \<and>
      (\<forall>k. i \<le> k \<and> k < j \<longrightarrow> state (slots r ((c + of_nat k) mod SLOT_COUNT)) \<noteq> SLOT_FREE))"
proof (induction r c i rule: alloc_scan.induct)
  case (1 r c i)
  let ?x = "(c + of_nat i) mod SLOT_COUNT"
  show ?case
  proof (cases "i < unat SLOT_COUNT \<and> state (slots r ?x) \<noteq> SLOT_FREE")
    case True
    with 1 obtain j where "index < SLOT_COUNT" "state (slots r index) = SLOT_FREE" "Suc i \<le> j"
      "index = (c + of_nat j) mod SLOT_COUNT"
      "\<forall>k. Suc i \<le> k \<and> k < j \<longrightarrow> state (slots r ((c + of_nat k) mod SLOT_COUNT)) \<noteq> SLOT_FREE"
      by (auto simp: alloc_scan.simps [of r c i] Let_def)
    with True show ?thesis by (metis Suc_leD le_antisym not_less_eq_eq)
  next
    case False
    with 1(2) have "index = ?x" "state (slots r ?x) = SLOT_FREE"
      by (auto simp: alloc_scan.simps [of r c i] Let_def split: if_splits)
    then show ?thesis using mod_SLOT_COUNT by (auto intro: exI [of _ i])
  qed
qed

lemma alloc_scan_None:
  "alloc_scan r c i = None \<Longrightarrow> i \<le> k \<Longrightarrow> k < unat SLOT_COUNT \<Longrightarrow>
   state (slots r ((c + of_nat k) mod SLOT_COUNT)) \<noteq> SLOT_FREE"
proof (induction r c i rule: alloc_scan.induct)
  case (1 r c i)
  let ?x = "(c + of_nat i) mod SLOT_COUNT"
  from 1(3,4) have i: "i < unat SLOT_COUNT" by simp
  with 1(2) have "state (slots r ?x) \<noteq> SLOT_FREE" "alloc_scan r c (Suc i) = None"
    by (auto simp: alloc_scan.simps [of r c i] Let_def split: if_splits)
  with 1 i show ?case by (cases "k = i") auto
qed

lemma scan_covers:
  assumes "c < SLOT_COUNT" "x < SLOT_COUNT"
  obtains k where "k < unat SLOT_COUNT" "(c + of_nat k) mod SLOT_COUNT = x"
proof -
  define k where "k = (unat x + 16384 - unat c) mod 16384"
  have c: "unat c < 16384" "unat x < 16384" using assms by (simp_all add: word_less_nat_alt unat_SLOT_COUNT)
  have k: "k < 16384" by (simp add: k_def)
  have "unat (c + of_nat k) = unat c + k"
    using c k by (simp add: unat_word_ariths unat_of_nat)
  moreover have "(unat c + k) mod 16384 = unat x"
    using c by (simp add: k_def mod_add_right_eq)
  ultimately have "(c + of_nat k) mod SLOT_COUNT = x"
    by (simp add: word_unat_eq_iff unat_mod SLOT_COUNT_def)
  with k that show ?thesis by (simp add: unat_SLOT_COUNT)
qed

text \<open>The table is full exactly when the scan finds nothing.\<close>

lemma alloc_slot_None:
  assumes "scan_cursor r < SLOT_COUNT"
  shows "fst (alloc_slot r) = None \<longleftrightarrow> (\<forall>i<SLOT_COUNT. state (slots r i) \<noteq> SLOT_FREE)"
    and "fst (alloc_slot r) = None \<Longrightarrow> snd (alloc_slot r) = r"
proof -
  have e: "fst (alloc_slot r) = None \<longleftrightarrow> alloc_scan r (scan_cursor r) 0 = None"
    by (simp add: alloc_slot_def Let_def scan_cursor_def split: option.split)
  show "fst (alloc_slot r) = None \<longleftrightarrow> (\<forall>i<SLOT_COUNT. state (slots r i) \<noteq> SLOT_FREE)"
  proof
    assume n: "fst (alloc_slot r) = None"
    show "\<forall>i<SLOT_COUNT. state (slots r i) \<noteq> SLOT_FREE"
    proof (intro allI impI)
      fix i assume "i < SLOT_COUNT"
      then obtain k where "k < unat SLOT_COUNT" "(scan_cursor r + of_nat k) mod SLOT_COUNT = i"
        using scan_covers [OF assms] by blast
      with alloc_scan_None [of r "scan_cursor r" 0 k] n e show "state (slots r i) \<noteq> SLOT_FREE" by auto
    qed
  next
    assume "\<forall>i<SLOT_COUNT. state (slots r i) \<noteq> SLOT_FREE"
    then show "fst (alloc_slot r) = None"
      unfolding e using alloc_scan_Some [of r "scan_cursor r" 0] by (metis not_None_eq)
  qed
  show "fst (alloc_slot r) = None \<Longrightarrow> snd (alloc_slot r) = r"
    by (auto simp: alloc_slot_def Let_def split: option.splits)
qed

text \<open>
  Until the cursor wraps, the allocation takes the first slot at the cursor (or slot 1 at the
  very first time), so the slots above stay untouched.
\<close>

lemma alloc_scan_below:
  assumes R: "region_rep r Q F" and a: "alloc_scan r (scan_cursor r) 0 = Some index"
    and w: "\<not> scan_wrapped r"
  shows "index = scan_cursor r \<or> scan_cursor r = 0 \<and> index = 1"
proof -
  let ?c = "scan_cursor r"
  from alloc_scan_Some [OF a] obtain j where j: "index = (?c + of_nat j) mod SLOT_COUNT"
    "\<forall>k<j. state (slots r ((?c + of_nat k) mod SLOT_COUNT)) \<noteq> SLOT_FREE" by auto
  have c: "?c mod SLOT_COUNT = ?c"
    using region_cursor [OF R] by (simp add: word_less_nat_alt word_unat_eq_iff unat_mod)
  show ?thesis
  proof (cases "?c = 0")
    case False
    then have "state (slots r ?c) = SLOT_FREE" using region_above [OF R, of ?c] w by simp
    then have "j = 0" using j(2) c by (cases j) (auto dest: spec [of _ 0])
    with j(1) c show ?thesis by simp
  next
    case True
    then have "state (slots r 1) = SLOT_FREE" using region_above [OF R, of 1] w by simp
    then have "\<not> 1 < j" using j(2) True by (auto simp: SLOT_COUNT_def dest: spec [of _ 1])
    then have "j = 0 \<or> j = 1" by auto
    with j(1) True show ?thesis by (auto simp: SLOT_COUNT_def)
  qed
qed

lemma next_index:
  assumes "index < SLOT_COUNT"
  shows "(index + 1) mod SLOT_COUNT \<noteq> 0 \<Longrightarrow> unat ((index + 1) mod SLOT_COUNT) = unat index + 1"
proof -
  have i: "unat index < 16384" using assms by (simp add: word_less_nat_alt unat_SLOT_COUNT)
  then have "unat (index + 1) = unat index + 1" by (simp add: unat_word_ariths)
  then have m: "unat ((index + 1) mod SLOT_COUNT) = (unat index + 1) mod 16384"
    by (simp add: unat_mod unat_SLOT_COUNT)
  assume "(index + 1) mod SLOT_COUNT \<noteq> 0"
  then have "unat ((index + 1) mod SLOT_COUNT) \<noteq> 0" by (simp add: unat_eq_0)
  with m i show "unat ((index + 1) mod SLOT_COUNT) = unat index + 1"
    by (cases "unat index + 1 = 16384") auto
qed

lemma alloc_slot_Some:
  assumes R: "region_rep r Q F" and a: "alloc_slot r = (Some h, r1)"
  obtains i where "i < SLOT_COUNT" "i \<noteq> 0" "state (slots r i) = SLOT_FREE" "Q i = []"
    "h = handle_of (generation (slots r i)) i" "h AND INDEX_MASK = i"
    "slots r1 = (slots r)(i := (slots r i)\<lparr>waiter_head := NIL\<rparr>)"
    "nodes r1 = nodes r" "futex_log r1 = futex_log r"
    "header r1 = (header r)\<lparr>next_scan := next_scan (header r1)\<rparr>"
    "scan_cursor r1 < SLOT_COUNT"
    "\<forall>j. scan_cursor r1 \<le> j \<and> \<not> scan_wrapped r1 \<longrightarrow> \<not> scan_wrapped r \<and> scan_cursor r \<le> j \<and> j \<noteq> i"
proof -
  let ?c = "scan_cursor r"
  from a obtain i where sc: "alloc_scan r ?c 0 = Some i"
    and h: "h = handle_of (generation (slots r i)) i"
    and sl: "slots r1 = (slots r)(i := (slots r i)\<lparr>waiter_head := NIL\<rparr>)" "nodes r1 = nodes r"
      "futex_log r1 = futex_log r" "header r1 = (header r)\<lparr>next_scan := next_scan (header r1)\<rparr>"
    and ns: "next_scan (header r1) = (i + 1) mod SLOT_COUNT OR
      (if (i + 1) mod SLOT_COUNT = 0 then SCAN_WRAPPED else next_scan (header r) AND SCAN_WRAPPED)"
    unfolding alloc_slot_def Let_def scan_cursor_def
    by (auto split: option.splits)
  from alloc_scan_Some [OF sc] have i: "i < SLOT_COUNT" "state (slots r i) = SLOT_FREE" by auto
  have i0: "i \<noteq> 0" using i(2) region_reserved [OF R] by (auto simp: reserved_slot_def)
  have Qi: "Q i = []" using region_queued [OF R, of i] i(2) by auto
  have cp: "scan_cursor r1 = (i + 1) mod SLOT_COUNT"
    "next_scan (header r1) AND SCAN_WRAPPED =
      (if (i + 1) mod SLOT_COUNT = 0 then SCAN_WRAPPED else next_scan (header r) AND SCAN_WRAPPED)"
    using cursor_parts [OF mod_SLOT_COUNT, of _ "next_scan (header r)" "i + 1"]
    by (simp_all add: scan_cursor_def ns)
  have above: "\<not> scan_wrapped r \<and> ?c \<le> j \<and> j \<noteq> i" if "scan_cursor r1 \<le> j" "\<not> scan_wrapped r1" for j
  proof -
    from that(2) cp(2) have n0: "(i + 1) mod SLOT_COUNT \<noteq> 0" and nw: "\<not> scan_wrapped r"
      by (auto simp: scan_wrapped_def SCAN_WRAPPED_def split: if_splits)
    have "unat i < unat j"
      using that(1) next_index [OF i(1) n0] by (simp add: cp(1) word_le_nat_alt)
    moreover have "unat ?c \<le> unat i" using alloc_scan_below [OF R sc nw] by auto
    ultimately show ?thesis using nw by (auto simp: word_le_nat_alt)
  qed
  have "h AND INDEX_MASK = i" "scan_cursor r1 < SLOT_COUNT"
    using cp(1) mod_SLOT_COUNT h handle_index [OF i(1)] by simp_all
  then show ?thesis using that [OF i(1) i0 i(2) Qi h _ sl] above by blast
qed

text \<open>Publishing the allocated slot.\<close>

lemma publish_rep:
  assumes R: "region_rep r Q F" and a: "alloc_slot r = (Some h, r1)" and w: "word_ok ty w"
  shows "region_rep (slot_publish os r1 h ty w) Q F"
proof -
  obtain i where i: "i < SLOT_COUNT" "i \<noteq> 0" "state (slots r i) = SLOT_FREE" "Q i = []"
    "h AND INDEX_MASK = i" "slots r1 = (slots r)(i := (slots r i)\<lparr>waiter_head := NIL\<rparr>)"
    "nodes r1 = nodes r" "header r1 = (header r)\<lparr>next_scan := next_scan (header r1)\<rparr>"
    and c: "scan_cursor r1 < SLOT_COUNT" "\<forall>j. scan_cursor r1 \<le> j \<and> \<not> scan_wrapped r1 \<longrightarrow>
      \<not> scan_wrapped r \<and> scan_cursor r \<le> j \<and> j \<noteq> i"
    by (rule alloc_slot_Some [OF R a]) blast
  let ?r = "slot_publish os r1 h ty w"
  have s: "slots ?r j = (if j = i then (slots r i)\<lparr>waiter_head := NIL, w0 := w, pulse_seq := 0,
      obj_type := ty, slot_pid := getpid os, holders_len := 0, holders := replicate MAX_HOLDERS 0,
      state := SLOT_USED\<rparr> else slots r j)" for j
    by (simp add: slot_publish_def i)
  have hd: "node_fresh (header ?r) = node_fresh (header r)" "node_free_head (header ?r) = node_free_head (header r)"
    "nodes ?r = nodes r" "next_scan (header ?r) = next_scan (header r1)"
    using arg_cong [OF i(8), of node_fresh] arg_cong [OF i(8), of node_free_head]
    by (simp_all add: slot_publish_def i(7))
  note P = region_pool [OF R]
  have "pool_rep ?r Q F"
  proof (rule pool_repI)
    fix j show "dseg (nodes ?r) NIL (waiter_head (slots ?r j)) (Q j) NIL \<or>
        Q j = [] \<and> state (slots ?r j) \<noteq> SLOT_USED"
      using pool_list [OF P, of j] i(4) by (simp add: s hd)
  qed (use pool_fresh [OF P] pool_distinct [OF P] pool_member [OF P] pool_bounds [OF P] pool_free [OF P]
      pool_free_node [OF P] in \<open>simp_all add: hd\<close>)
  moreover note region_queued [OF R] region_word [OF R] region_reserved [OF R] region_holders [OF R]
    region_above [OF R] region_beyond [OF R]
  moreover have "\<not> SLOT_COUNT \<le> i" using i(1) by simp
  moreover have "header_ok (header ?r)"
    using region_header [OF R] arg_cong [OF i(8), of header_ok] by (simp add: slot_publish_def)
  moreover have "scan_cursor ?r = scan_cursor r1" "scan_wrapped ?r = scan_wrapped r1"
    by (simp_all add: scan_cursor_def scan_wrapped_def hd)
  ultimately show ?thesis
    unfolding region_rep_def using c i(2) w by (auto simp: s reserved_slot_def intro!: holders_ok_empty)
qed

text \<open>The handle of a published slot names it as long as the generation fits in the handle.\<close>

lemma publish_slot:
  assumes R: "region_rep r Q F" and a: "alloc_slot r = (Some h, r1)"
  shows "slot (slot_publish os r1 h ty w) h =
    (if generation (slots r (h AND INDEX_MASK)) < 2 ^ 18 then Some (h AND INDEX_MASK) else None)"
proof -
  obtain i where i: "i < SLOT_COUNT" "h = handle_of (generation (slots r i)) i" "h AND INDEX_MASK = i"
    "slots r1 = (slots r)(i := (slots r i)\<lparr>waiter_head := NIL\<rparr>)"
    by (rule alloc_slot_Some [OF R a]) blast
  let ?g = "generation (slots r i)"
  have "take_bit 18 ?g = ?g \<longleftrightarrow> ?g < 2 ^ 18"
    by (simp add: word_unat_eq_iff unsigned_take_bit_eq word_less_nat_alt take_bit_nat_eq_self_iff)
  moreover have "drop_bit INDEX_BITS h = take_bit 18 ?g" using i handle_generation by simp
  ultimately show ?thesis
    using i by (auto simp: slot_def Let_def slot_publish_def)
qed

text \<open>Freeing a slot and waking its waiters.\<close>

lemma free_slot_sel [simp]:
  "header (free_slot r i) = header r" "nodes (free_slot r i) = nodes r"
  "futex_log (free_slot r i) = futex_log r"
  "slots (free_slot r i) j =
     (if j = i then (slots r i)\<lparr>state := SLOT_FREE, generation := generation (slots r i) + 1\<rparr> else slots r j)"
  by (simp_all add: free_slot_def)

lemma free_slot_wake:
  assumes R: "region_rep r Q F" and u: "state (slots r i) = SLOT_USED" and i0: "i \<noteq> 0"
  obtains r' where "wake_object os (free_slot r i) i = Some r'" "region_rep r' (Q(i := [])) F"
    "woken (free_slot r i) (Q i) r'"
proof -
  note P = region_pool [OF R]
  have P': "pool_rep (free_slot r i) Q F"
    by (rule pool_rep_cong [OF _ _ _ _ _ _ _ _ _ _ P]) (auto split: if_splits)
  have "dseg (nodes (free_slot r i)) NIL (waiter_head (slots (free_slot r i) i)) (Q i) NIL"
    using region_used_list [OF R u] by simp
  with P' obtain r' where r': "wake_object os (free_slot r i) i = Some r'" "pool_rep r' (Q(i := [])) F"
    "woken (free_slot r i) (Q i) r'" by (rule wake_object_rep)
  have b: "bare r' = bare (free_slot r i)" and c: "core r' = core (free_slot r i)"
    using r'(3) by (auto simp: woken_def)
  have "next_scan (header r') = next_scan (header r)" using coreD(3) [OF c] by simp
  note sc = scan_cong [OF this]
  have h: "holders_ok (slots r' j)" for j
    using region_holders [OF R, of j] holders_ok_cong [of "slots r' j" "slots r j"]
    by (simp add: bareD [OF b])
  have "region_rep r' (Q(i := [])) F"
    unfolding region_rep_def
    using r'(2) sc h i0 region_queued [OF R] region_word [OF R] region_reserved [OF R] region_cursor [OF R]
      region_above [OF R] region_beyond [OF R] region_header [OF R] coreD(5) [OF c]
    by (auto simp: bareD [OF b] reserved_slot_def)
  with r' that show ?thesis by blast
qed

end
