(* ===== verification/Signals.thy ===== *)
theory Signals
  imports Objects
begin

text \<open>
  The signalling and reading operations of \<^verbatim>\<open>src/src/core.rs\<close> on a mapped region:
  \<open>sem_release\<close>, \<open>event_set\<close>, \<open>event_reset\<close>, \<open>event_pulse\<close>, \<open>mutex_unlock\<close>,
  \<open>mutex_kill\<close> and the three readers. The lock-free ones share one shape, \<open>signal_op\<close>:
  look the handle up, run the compare-exchange loop, wake the waiters if the decision asks
  for it.
\<close>

subsection \<open>Operations\<close>

definition slot_of_type :: "Region \<Rightarrow> u32 \<Rightarrow> u32 \<Rightarrow> Error + u32" where
  "slot_of_type r handle ty =
     ok_or Invalid (option_filter (\<lambda>i. obj_type (slots r i) = ty) (slot r handle))"

definition signal_op ::
  "Os \<Rightarrow> Region \<Rightarrow> u32 \<Rightarrow> u32 \<Rightarrow> (u64 \<Rightarrow> signal_result decision) \<Rightarrow> ((Error + u32) \<times> Region) option" where
  "signal_op os r handle ty body =
     (case slot_of_type r handle ty of
        Inl e \<Rightarrow> Some (Inl e, r)
      | Inr i \<Rightarrow>
          (case cas_loop os 0 i body (on_check os r) of
             None \<Rightarrow> None
           | Some ((res, wake), r1) \<Rightarrow>
               if wake then
                 map_option (\<lambda>r2. (res, r2))
                   (wake_waiters_if_any os (on_cas os r1) (handle AND INDEX_MASK))
               else Some (res, r1)))"

definition sem_release :: "Os \<Rightarrow> Region \<Rightarrow> u32 \<Rightarrow> u32 \<Rightarrow> ((Error + u32) \<times> Region) option" where
  "sem_release os r handle count = signal_op os r handle TYPE_SEM (sem_release_body count)"

definition event_set :: "Os \<Rightarrow> Region \<Rightarrow> u32 \<Rightarrow> ((Error + u32) \<times> Region) option" where
  "event_set os r handle = signal_op os r handle TYPE_EVENT event_set_body"

definition event_reset :: "Os \<Rightarrow> Region \<Rightarrow> u32 \<Rightarrow> ((Error + u32) \<times> Region) option" where
  "event_reset os r handle = signal_op os r handle TYPE_EVENT event_reset_body"

definition event_pulse :: "Os \<Rightarrow> Region \<Rightarrow> u32 \<Rightarrow> ((Error + u32) \<times> Region) option" where
  "event_pulse os r handle =
     with_lock os r (\<lambda>e. Inl (Init e)) (\<lambda>r1.
       case slot_of_type r1 handle TYPE_EVENT of
         Inl e \<Rightarrow> Some (Inl e, r1)
       | Inr i \<Rightarrow>
           let prev = lo32 (w0 (slots r1 i));
               r2 = upd_slot r1 i (\<lambda>s. s\<lparr>pulse_seq := pulse_seq s + 1\<rparr>);
               r3 = upd_slot r2 i (\<lambda>s. s\<lparr>w0 := clear_low (w0 s)\<rparr>)
           in map_option (\<lambda>r4. (Inr prev, r4)) (wake_object os r3 (handle AND INDEX_MASK)))"

definition mutex_unlock :: "Os \<Rightarrow> Region \<Rightarrow> u32 \<Rightarrow> u32 \<Rightarrow> ((Error + u32) \<times> Region) option" where
  "mutex_unlock os r handle owner =
     (if owner = 0 then Some (Inl Invalid, r)
      else signal_op os r handle TYPE_MUTEX (mutex_unlock_body owner))"

definition mutex_kill :: "Os \<Rightarrow> Region \<Rightarrow> u32 \<Rightarrow> u32 \<Rightarrow> ((Error + unit) \<times> Region) option" where
  "mutex_kill os r handle owner =
     (if owner = 0 then Some (Inl Invalid, r)
      else map_option (\<lambda>(res, r1). (map_sum id (\<lambda>_. ()) res, r1))
             (signal_op os r handle TYPE_MUTEX (mutex_kill_body owner)))"

definition read_sem :: "Region \<Rightarrow> u32 \<Rightarrow> Error + u32 \<times> u32" where
  "read_sem r handle =
     map_sum id (\<lambda>i. let w = w0 (slots r i) in (lo32 w, hi32 w)) (slot_of_type r handle TYPE_SEM)"

definition read_mutex :: "Region \<Rightarrow> u32 \<Rightarrow> Error + u32 \<times> u32 \<times> bool" where
  "read_mutex r handle =
     map_sum id (\<lambda>i. let w = w0 (slots r i) in (mutex_count w, lo32 w, mutex_dead w))
       (slot_of_type r handle TYPE_MUTEX)"

definition read_event :: "Region \<Rightarrow> u32 \<Rightarrow> Error + bool \<times> bool" where
  "read_event r handle =
     map_sum id (\<lambda>i. let w = w0 (slots r i) in (drop_bit 32 w \<noteq> 0, lo32 w \<noteq> 0))
       (slot_of_type r handle TYPE_EVENT)"

subsection \<open>The shape of a signalling operation\<close>

lemma slot_of_type_Inr:
  "slot_of_type r h ty = Inr i \<longleftrightarrow> slot r h = Some i \<and> obj_type (slots r i) = ty"
  by (auto simp: slot_of_type_def)

lemma slot_of_type_Inl: "slot_of_type r h ty = Inl e \<Longrightarrow> e = Invalid"
  by (auto simp: slot_of_type_def ok_or_def split: option.splits)

lemma slot_of_type_used:
  assumes "slot_of_type r h ty = Inr i"
  shows "state (slots r i) = SLOT_USED" "i = h AND INDEX_MASK" "i < SLOT_COUNT"
  using assms index_lt by (auto simp: slot_of_type_Inr slot_Some_iff)

text \<open>
  What a signal does when nobody overtakes it: the decision is carried out on the object's
  word, and if it asks for it all waiters of the object are taken off the list and woken.
\<close>

lemma signal_op_undisturbed:
  assumes os: "undisturbed os" and R: "region_rep r Q F" and h: "slot_of_type r h ty = Inr i"
    and ok: "word_update (word_ok ty) body" and a: "atomically body i r = ((res, wake), r1)"
  obtains r' where "signal_op os r h ty body = Some (res, r')"
    "region_rep r' (if wake then Q(i := []) else Q) F"
    "woken r1 (if wake then Q i else []) r'"
proof -
  note used = slot_of_type_used [OF h]
  have ty: "obj_type (slots r i) = ty" using h by (simp add: slot_of_type_Inr)
  have r1: "r1 = r \<or> (\<exists>w. r1 = put_word r i w \<and> word_ok ty w)"
    using a region_word [OF R used(1)] word_update.keeps [OF ok]
    by (auto simp: atomically_def ty split: decision.splits)
  then have R1: "region_rep r1 Q F" using R ty by (auto intro: region_rep_put_word)
  have l: "dseg (nodes r1) NIL (waiter_head (slots r1 i)) (Q i) NIL"
    by (rule region_used_list [OF R1]) (use r1 used in auto)
  have op: "signal_op os r h ty body =
      (if wake then map_option (\<lambda>r2. (res, r2)) (wake_waiters_if_any os r1 i) else Some (res, r1))"
    using os a h used(2) by (simp add: signal_op_def cas_loop_undisturbed undisturbed_def)
  show ?thesis
  proof (cases wake)
    case True
    obtain r' where "wake_waiters_if_any os r1 i = Some r'" "pool_rep r' (Q(i := [])) F"
      "woken r1 (Q i) r'"
      using wake_waiters_undisturbed [OF os region_pool [OF R1] l] by blast
    with True op that region_rep_woken [OF R1] show ?thesis by auto
  next
    case False
    with op that R1 show ?thesis by auto
  qed
qed

lemma word_ok_type [simp]:
  "word_ok TYPE_SEM w = sem_ok w" "word_ok TYPE_MUTEX w = mutex_ok w"
  "word_ok TYPE_EVENT w = event_ok w"
  by (simp_all add: word_ok_def type_consts)

lemma word_ok_types: "word_ok TYPE_SEM = sem_ok" "word_ok TYPE_MUTEX = mutex_ok"
  "word_ok TYPE_EVENT = event_ok"
  by (simp_all add: fun_eq_iff)

lemmas body_ok = sem_release.word_update_axioms event_set.word_update_axioms
  event_reset.word_update_axioms mutex_unlock_keeps mutex_kill_keeps

lemma woken_bare: "woken r xs r' \<Longrightarrow> bare r' = bare r"
  by (simp add: woken_def)

lemma slot_of_type_woken: "woken r xs r' \<Longrightarrow> slot_of_type r' h ty = slot_of_type r h ty"
  using slot_bare [of r' r h] bareD(3) [of r' r] by (simp add: slot_of_type_def woken_bare)

lemma slot_of_type_put_word [simp]: "slot_of_type (put_word r i w) h ty = slot_of_type r h ty"
  by (simp add: slot_of_type_def)

lemma signal_op_run:
  assumes "undisturbed os" "region_rep r Q F" "slot_of_type r h ty = Inr i"
    and "word_update (word_ok ty) body" "atomically body i r = ((res, wake), put_word r i w')"
  obtains r' where "signal_op os r h ty body = Some (res, r')"
    "region_rep r' (if wake then Q(i := []) else Q) F" "slot_of_type r' h ty = Inr i"
    "w0 (slots r' i) = w'"
    "futex_log r' = futex_log r @ (if wake then map (\<lambda>x. wait_word (nodes r x)) (Q i) else [])"
proof -
  obtain r' where r': "signal_op os r h ty body = Some (res, r')"
    "region_rep r' (if wake then Q(i := []) else Q) F"
    "woken (put_word r i w') (if wake then Q i else []) r'"
    by (rule signal_op_undisturbed [OF assms])
  moreover have "slot_of_type r' h ty = Inr i" "w0 (slots r' i) = w'"
    using slot_of_type_woken [OF r'(3)] bareD(6) [OF woken_bare [OF r'(3)], of i] assms(3) by simp_all
  ultimately show ?thesis by (intro that [of r']) (auto simp: woken_def)
qed

text \<open>
  With interference: the operation took effect in one step, on the word that was in memory at
  that step, after the handle check and before the waiters were woken.
\<close>

lemma signal_op_atomic:
  assumes "slot_of_type r h ty = Inr i" "signal_op os r h ty body = Some (res, r')"
  obtains r1 wake r2 where "overtaken os (on_check os r) r1" "atomically body i r1 = ((res, wake), r2)"
    "if wake then wake_waiters_if_any os (on_cas os r2) i = Some r' else r' = r2"
proof -
  from assms obtain wake r2 where c: "cas_loop os 0 i body (on_check os r) = Some ((res, wake), r2)"
    and w: "if wake then wake_waiters_if_any os (on_cas os r2) i = Some r' else r' = r2"
    using slot_of_type_used(2) [OF assms(1)]
    by (auto simp: signal_op_def split: option.splits if_splits)
  from cas_loop_atomic [OF c] obtain r1 where "overtaken os (on_check os r) r1"
    "((res, wake), r2) = atomically body i r1" by blast
  with w that show ?thesis by metis
qed

text \<open>
  \<open>open_object i ty r\<close>: the region is well formed and slot \<open>i\<close> holds a live object of the
  type; \<open>polite os i ty\<close>: whatever the other threads do during the call, this stays so.
\<close>

definition open_object :: "u32 \<Rightarrow> u32 \<Rightarrow> Region \<Rightarrow> bool" where
  "open_object i ty r \<longleftrightarrow>
     region_ok r \<and> state (slots r i) = SLOT_USED \<and> obj_type (slots r i) = ty"

definition polite :: "Os \<Rightarrow> u32 \<Rightarrow> u32 \<Rightarrow> bool" where
  "polite os i ty \<longleftrightarrow> (\<forall>s. open_object i ty s \<longrightarrow>
     open_object i ty (on_check os s) \<and> open_object i ty (on_cas os s) \<and>
     open_object i ty (on_lock os s) \<and>
     (\<forall>n. open_object i ty (on_load os n s) \<and> open_object i ty (on_retry os n s)))"

lemma overtaken_open:
  "overtaken os r r1 \<Longrightarrow> polite os i ty \<Longrightarrow> open_object i ty r \<Longrightarrow> open_object i ty r1"
  by (induction rule: overtaken.induct) (auto simp: polite_def)

lemma atomically_open:
  assumes "word_update (word_ok ty) body" "open_object i ty r"
  shows "open_object i ty (snd (atomically body i r))"
proof -
  from assms(2) obtain Q F where R: "region_rep r Q F"
    and u: "state (slots r i) = SLOT_USED" "obj_type (slots r i) = ty"
    by (auto simp: open_object_def region_ok_def)
  show ?thesis
  proof (cases "body (w0 (slots r i))")
    case (Swap w a)
    with word_update.keeps [OF assms(1)] region_word [OF R u(1)] u have "word_ok ty w" by simp
    with R u have "region_rep (put_word r i w) Q F" by (simp add: region_rep_put_word)
    with Swap u show ?thesis by (auto simp: atomically_def open_object_def region_ok_def)
  qed (use assms(2) in \<open>simp add: atomically_def\<close>)
qed

lemma wake_waiters_open:
  assumes "polite os i ty" "open_object i ty r" "lock_ret os 0 = 0 \<or> lock_ret os 0 = EOWNERDEAD"
  shows "\<exists>r'. wake_waiters_if_any os r i = Some r' \<and> open_object i ty r'"
proof (cases "waiter_head (slots r i) = NIL")
  case False
  let ?s = "lock_mark os (on_lock os r)"
  from assms(1,2) have "open_object i ty (on_lock os r)" by (simp add: polite_def)
  then obtain Q F where R: "region_rep ?s Q F"
    and u: "state (slots ?s i) = SLOT_USED" "obj_type (slots ?s i) = ty"
    by (auto simp: open_object_def region_ok_def)
  obtain s' where s': "wake_object os ?s i = Some s'" "pool_rep s' (Q(i := [])) F" "woken ?s (Q i) s'"
    using wake_object_rep [OF region_pool [OF R] region_used_list [OF R u(1)]] by metis
  have "region_rep s' (Q(i := [])) F" by (rule region_rep_woken [OF R s'(2,3)])
  moreover have "state (slots s' i) = SLOT_USED" "obj_type (slots s' i) = ty"
    using bareD [OF woken_bare [OF s'(3)]] u by simp_all
  ultimately have "open_object i ty (guard_drop s')"
    by (auto simp: open_object_def region_ok_def)
  with False s'(1) assms(3) show ?thesis
    by (auto simp: wake_waiters_if_any_def with_lock_def lock_guard_ok)
qed (use assms in \<open>simp add: wake_waiters_if_any_def\<close>)

text \<open>
  The operation returns, with the region well formed, when one of its attempts is not
  overtaken on the object's word, the lock can be taken and the other threads are polite.
\<close>

lemma signal_op_returns:
  assumes r: "region_ok r" and h: "slot_of_type r h ty = Inr i"
    and ok: "word_update (word_ok ty) body" and os: "polite os i ty"
    and quiet: "\<And>s. w0 (slots (on_load os m s) i) = w0 (slots s i)"
    and lock: "lock_ret os 0 = 0 \<or> lock_ret os 0 = EOWNERDEAD"
  shows "\<exists>res r'. signal_op os r h ty body = Some (res, r') \<and> region_ok r'"
proof -
  have "open_object i ty r"
    using r h slot_of_type_used [OF h] by (simp add: open_object_def slot_of_type_Inr)
  then have o: "open_object i ty (on_check os r)" using os by (simp add: polite_def)
  obtain res wake r1 where c: "cas_loop os 0 i body (on_check os r) = Some ((res, wake), r1)"
    using cas_loop_returns [OF le0 quiet, where body = body and r = "on_check os r"] by fast
  from cas_loop_atomic [OF c] obtain r0 where "overtaken os (on_check os r) r0"
    and a: "((res, wake), r1) = atomically body i r0" by blast
  then have "open_object i ty r0" using overtaken_open os o by blast
  then have r1: "open_object i ty r1" using atomically_open [OF ok] a by (metis snd_conv)
  then have "open_object i ty (on_cas os r1)" using os by (simp add: polite_def)
  then obtain r2 where "wake_waiters_if_any os (on_cas os r1) i = Some r2" "open_object i ty r2"
    using wake_waiters_open [OF os _ lock] by blast
  with c h r1 slot_of_type_used(2) [OF h] show ?thesis
    by (auto simp: signal_op_def open_object_def)
qed

text \<open>A region with one object and one thread of process \<open>pid\<close> waiting on it.\<close>

definition one_waiter :: "u32 \<Rightarrow> u64 \<Rightarrow> u32 \<Rightarrow> Region" where
  "one_waiter ty w pid =
     node_register (snd (node_alloc (quiet_os pid) (one_object ty w pid))) 0 1 0"

lemma one_waiter_alloc:
  obtains r1 where "node_alloc (quiet_os pid) (one_object ty w pid) = (Some 0, r1)"
    "slots r1 = slots (one_object ty w pid)" "node_fresh (header r1) = 1" "futex_log r1 = []"
    "next_scan (header r1) = 2"
  by (simp add: node_alloc_def Let_def NODE_COUNT_def word_le_nat_alt)

lemma one_waiter_rep:
  assumes "word_ok ty w"
  shows "region_rep (one_waiter ty w pid) ((\<lambda>_. [])(1 := [0])) []"
proof -
  let ?r = "one_object ty w pid"
  note R = one_object_rep [OF assms, of pid]
  obtain r1 where a: "node_alloc (quiet_os pid) ?r = (Some 0, r1)" "slots r1 = slots ?r"
    "node_fresh (header r1) = 1" "next_scan (header r1) = 2" by (rule one_waiter_alloc)
  have u: "state (slots r1 1) = SLOT_USED" by (simp add: a)
  have "pool_rep r1 (\<lambda>_. []) []"
    using node_alloc_rep(1) [OF region_pool [OF R] a(1)] by simp
  then have "pool_rep (node_register r1 0 1 0) ((\<lambda>_. [])(1 := [0])) []"
    using node_register_rep [of r1 "\<lambda>_. []" "[]" 0 1 0] u a(3)
      node_alloc_rep(2,3) [OF region_pool [OF R] a(1)]
    by (simp add: SLOT_COUNT_def word_less_nat_alt)
  moreover have "bare (node_register r1 0 1 0) = bare ?r"
    using a(2) by (simp add: bare_def fun_eq_iff)
  ultimately have "region_rep (node_register r1 0 1 0) ((\<lambda>_. [])(1 := [0])) []"
    by (intro region_rep_frame [OF R])
      (use assms node_alloc_frame(6) [OF a(1)] in \<open>auto simp: bareD a(4) state_consts split: if_splits\<close>)
  then show ?thesis by (simp add: one_waiter_def a(1))
qed

lemma one_waiter_sel [simp]:
  "slots (one_waiter ty w pid) 1 = (slots (one_object ty w pid) 1)\<lparr>waiter_head := 0\<rparr>"
  "wait_word (nodes (one_waiter ty w pid) 0) = 0" "futex_log (one_waiter ty w pid) = []"
  "node_pid (nodes (one_waiter ty w pid) 0) = pid"
  by (simp_all add: one_waiter_def node_alloc_def node_register_def Let_def NODE_COUNT_def
      word_le_nat_alt quiet_os_def)

lemma one_waiter_slot [simp]: "slot_of_type (one_waiter ty w pid) 1 ty' = (if ty = ty' then Inr 1 else Inl Invalid)"
  by (simp add: slot_of_type_def slot_def Let_def INDEX_MASK_num INDEX_BITS_def SLOT_COUNT_def
      word_le_nat_alt)

lemma event_pulse_run:
  assumes "undisturbed os" "region_rep r Q F" "slot_of_type r h TYPE_EVENT = Inr i"
  obtains r' where "event_pulse os r h = Some (Inr (lo32 (w0 (slots r i))), r')" "region_rep r' (Q(i := [])) F"
    "slot_of_type r' h TYPE_EVENT = Inr i" "w0 (slots r' i) = clear_low (w0 (slots r i))"
    "pulse_seq (slots r' i) = pulse_seq (slots r i) + 1"
    "futex_log r' = futex_log r @ map (\<lambda>x. wait_word (nodes r x)) (Q i)"
    "woken (upd_slot r i (\<lambda>s. s\<lparr>pulse_seq := pulse_seq s + 1, w0 := clear_low (w0 s)\<rparr>)) (Q i) r'"
proof -
  let ?m = "lock_mark os r"
  let ?b = "upd_slot ?m i (\<lambda>s. s\<lparr>pulse_seq := pulse_seq s + 1\<rparr>)"
  let ?c = "upd_slot ?b i (\<lambda>s. s\<lparr>w0 := clear_low (w0 s)\<rparr>)"
  note u = slot_of_type_used [OF assms(3)]
  have P: "pool_rep ?c Q F"
    by (rule pool_rep_cong [OF _ _ _ _ _ _ _ _ _ _ region_pool [OF assms(2)]])
      (auto split: if_splits)
  have ty: "obj_type (slots r i) = TYPE_EVENT" using assms(3) by (simp add: slot_of_type_Inr)
  have "event_ok (w0 (slots r i))" using region_word [OF assms(2) u(1)] ty by simp
  then have ok: "event_ok (clear_low (w0 (slots r i)))" by (auto simp: event_ok_def lo32_clear_low)
  have R: "region_rep ?c Q F"
    by (rule region_rep_frame [OF assms(2) P])
      (use region_queued [OF assms(2)] region_word [OF assms(2)] ok ty in auto)
  have l: "dseg (nodes ?c) NIL (waiter_head (slots ?c i)) (Q i) NIL"
    by (rule region_used_list [OF R]) (simp add: u(1))
  obtain r2 where r2: "wake_object os ?c i = Some r2" "pool_rep r2 (Q(i := [])) F" "woken ?c (Q i) r2"
    using wake_object_rep [OF P l] by blast
  have "?c = lock_mark os (upd_slot r i (\<lambda>s. s\<lparr>pulse_seq := pulse_seq s + 1, w0 := clear_low (w0 s)\<rparr>))"
    by (cases r) (simp add: lock_mark_def upd_slot_def upd_header_def)
  then have wk: "woken (upd_slot r i (\<lambda>s. s\<lparr>pulse_seq := pulse_seq s + 1, w0 := clear_low (w0 s)\<rparr>)) (Q i) (guard_drop r2)"
    using r2(3) by (intro woken_lock [of os]) simp
  have b: "bare (guard_drop r2) = bare ?c" using woken_bare [OF r2(3)] by simp
  have "slot_of_type ?m h TYPE_EVENT = Inr i" using assms(3) by (simp add: slot_of_type_Inr)
  then have "event_pulse os r h = Some (Inr (lo32 (w0 (slots r i))), guard_drop r2)"
    using assms(1) r2(1) u(2) by (simp add: event_pulse_def with_lock_undisturbed Let_def)
  moreover have "slot (guard_drop r2) h = slot ?c h" by (rule slot_bare [OF b])
  moreover have "slot ?c h = slot r h" by (rule slot_cong) auto
  ultimately show ?thesis
    using that [of "guard_drop r2"] region_rep_woken [OF R r2(2,3)] r2(3) assms(3) bareD(3,6,7) [OF b, of i] wk
    by (auto simp: woken_def [of ?c] slot_of_type_Inr)
qed

lemma sem_release_run:
  assumes "undisturbed os" "region_rep r Q F" "slot_of_type r h TYPE_SEM = Inr i"
    and "w0 (slots r i) = pack_sem c m" "unat c + unat n \<le> unat m"
  obtains r' where "sem_release os r h n = Some (Inr c, r')" "read_sem r' h = Inr (c + n, m)"
    "region_rep r' (Q(i := [])) F" "futex_log r' = futex_log r @ map (\<lambda>x. wait_word (nodes r x)) (Q i)"
proof -
  have a: "atomically (sem_release_body n) i r = ((Inr c, True), put_word r i (join32 m (c + n)))"
    using assms(4,5) by (simp add: atomically_def sem_release_body_eq pack_sem_join)
  have ok: "word_update (word_ok TYPE_SEM) (sem_release_body n)" using body_ok(1) by (simp add: word_ok_types)
  obtain r' where "signal_op os r h TYPE_SEM (sem_release_body n) = Some (Inr c, r')"
    "region_rep r' (Q(i := [])) F" "slot_of_type r' h TYPE_SEM = Inr i" "w0 (slots r' i) = join32 m (c + n)"
    "futex_log r' = futex_log r @ map (\<lambda>x. wait_word (nodes r x)) (Q i)"
    using signal_op_run [OF assms(1-3) ok a] by auto
  with that show ?thesis by (auto simp: sem_release_def read_sem_def)
qed

subsection \<open>Properties\<close>

text \<open>
  C21: releasing a semaphore that nobody else touches. If the count fits, the call returns the
  previous count, the semaphore then reads back with the sum, every node that was registered on
  it is off the list and its waiter's futex word was woken, and the invariant holds; if it does
  not fit, the call fails with Overflow and the region is as before.
\<close>

theorem sem_release_spec:
  assumes "undisturbed os" "region_rep r Q F" "slot_of_type r h TYPE_SEM = Inr i"
    and "w0 (slots r i) = pack_sem c m"
  shows "if unat c + unat n \<le> unat m
    then \<exists>r'. sem_release os r h n = Some (Inr c, r') \<and> read_sem r' h = Inr (c + n, m) \<and>
      region_rep r' (Q(i := [])) F \<and>
      futex_log r' = futex_log r @ map (\<lambda>x. wait_word (nodes r x)) (Q i)
    else sem_release os r h n = Some (Inl Overflow, r)"
proof (cases "unat c + unat n \<le> unat m")
  case True
  with sem_release_run [OF assms True] show ?thesis by auto
next
  case False
  then have "cas_loop os 0 i (sem_release_body n) r = Some ((Inl Overflow, False), r)"
    using assms by (simp add: cas_loop_undisturbed atomically_def sem_release_body_eq pack_sem_join)
  with False assms show ?thesis
    by (simp add: sem_release_def signal_op_def undisturbed_def)
qed

theorem sem_release_spec_witness:
  "let r = one_waiter TYPE_SEM (pack_sem 2 5) 42; Q = (\<lambda>_. [])(1 := [0]) in
   undisturbed (quiet_os 7) \<and> region_rep r Q [] \<and> slot_of_type r 1 TYPE_SEM = Inr 1 \<and>
   w0 (slots r 1) = pack_sem 2 5 \<and>
   (\<exists>r'. sem_release (quiet_os 7) r 1 3 = Some (Inr 2, r') \<and> read_sem r' 1 = Inr (5, 5) \<and>
      region_rep r' (Q(1 := [])) [] \<and> futex_log r' = [0])"
proof -
  let ?r = "one_waiter TYPE_SEM (pack_sem 2 5) 42" and ?Q = "(\<lambda>_. [])(1 := [0::u32])"
  have "sem_ok (pack_sem 2 5)" by (simp add: sem_ok_def pack_sem_join word_le_nat_alt)
  then have h: "undisturbed (quiet_os 7)" "region_rep ?r ?Q []" "slot_of_type ?r 1 TYPE_SEM = Inr 1"
    "w0 (slots ?r 1) = pack_sem 2 5"
    by (simp_all add: one_waiter_rep)
  from h sem_release_spec [OF h, of 3] show ?thesis by simp
qed

text \<open>
  C20: whatever other threads do to the region while the call runs, a semaphore release takes
  effect at one instant: there is a state of the region, reached by steps of other threads only,
  in which the NT release of the object at that instant decides the result, and on success the
  call's only write is the new word of that release, followed by the wake of the waiters.
\<close>

theorem sem_release_linearizable:
  assumes "slot_of_type r h TYPE_SEM = Inr i" "sem_release os r h n = Some (res, r')"
  shows "\<exists>r1. overtaken os (on_check os r) r1 \<and>
    (case nt_release (unat n) (abs_sem (w0 (slots r1 i))) of
       None \<Rightarrow> res = Inl Overflow \<and> r' = r1
     | Some (c, ob) \<Rightarrow> \<exists>prev w'. res = Inr prev \<and> unat prev = c \<and> abs_sem w' = ob \<and>
         wake_waiters_if_any os (on_cas os (put_word r1 i w')) i = Some r')"
proof -
  obtain r1 wake r2 where o: "overtaken os (on_check os r) r1"
    and a: "atomically (sem_release_body n) i r1 = ((res, wake), r2)"
    and w: "if wake then wake_waiters_if_any os (on_cas os r2) i = Some r' else r' = r2"
    using signal_op_atomic [OF assms(1) assms(2) [unfolded sem_release_def]] by metis
  let ?w = "w0 (slots r1 i)"
  show ?thesis
  proof (cases "unat (lo32 ?w) + unat n \<le> unat (hi32 ?w)")
    case True
    with a have "res = Inr (lo32 ?w)" "wake" "r2 = put_word r1 i (join32 (hi32 ?w) (lo32 ?w + n))"
      by (auto simp: atomically_def sem_release_body_eq)
    with True o w show ?thesis
      by (auto simp: abs_sem_def [of ?w] unat_release
          intro!: exI [of _ r1] exI [of _ "join32 (hi32 ?w) (lo32 ?w + n)"])
  next
    case False
    with a w have "res = Inl Overflow" "r' = r1" by (auto simp: atomically_def sem_release_body_eq)
    with False o show ?thesis by (auto simp: abs_sem_def [of ?w])
  qed
qed

text \<open>A call of process 7 whose first attempt is overtaken by another thread's acquisition.\<close>

definition overtaken_once :: Os where
  "overtaken_once = (quiet_os 7)\<lparr>on_load := (\<lambda>n r. if n = 0 then put_word r 1 (pack_sem 1 5) else r)\<rparr>"

theorem sem_release_linearizable_witness:
  "\<exists>r'. sem_release overtaken_once (one_object TYPE_SEM (pack_sem 2 5) 42) 1 3 = Some (Inr 1, r') \<and>
     read_sem r' 1 = Inr (4, 5) \<and>
     (\<exists>r1. overtaken overtaken_once (on_check overtaken_once (one_object TYPE_SEM (pack_sem 2 5) 42)) r1 \<and>
       (case nt_release (unat (3::u32)) (abs_sem (w0 (slots r1 1))) of
          None \<Rightarrow> (Inr 1 :: Error + u32) = Inl Overflow \<and> r' = r1
        | Some (c, ob) \<Rightarrow> \<exists>prev w'. (Inr 1 :: Error + u32) = Inr prev \<and> unat prev = c \<and> abs_sem w' = ob \<and>
            wake_waiters_if_any overtaken_once (on_cas overtaken_once (put_word r1 1 w')) 1 = Some r'))"
proof -
  let ?r = "one_object TYPE_SEM (pack_sem 2 5) 42"
  have h: "slot_of_type ?r 1 TYPE_SEM = Inr 1" by (simp add: slot_of_type_Inr)
  define r' where "r' = put_word (put_word ?r 1 (pack_sem 1 5)) 1 (join32 5 4)"
  have e: "sem_release overtaken_once ?r 1 3 = Some (Inr 1, r')"
    using h unfolding r'_def
    by (simp add: sem_release_def signal_op_def overtaken_once_def quiet_os_def INDEX_MASK_num
        cas_loop_unfold [of _ 0] cas_loop_unfold [of _ "Suc 0"] sem_release_body_eq pack_sem_join
        wake_waiters_if_any_def)
  have "read_sem r' 1 = Inr (4, 5)"
    using h unfolding r'_def by (simp add: read_sem_def)
  with e sem_release_linearizable [OF h e] show ?thesis by blast
qed

text \<open>
  C29: a semaphore release returns, and leaves the region well formed, as long as one of its
  attempts is not overtaken on the semaphore's word, the lock is granted (also when its former
  holder died), and the other threads keep the region well formed and the semaphore open.
\<close>

theorem sem_release_returns:
  assumes "region_ok r" "slot_of_type r h TYPE_SEM = Inr i" "polite os i TYPE_SEM"
    and "\<And>s. w0 (slots (on_load os m s) i) = w0 (slots s i)"
    and "lock_ret os 0 = 0 \<or> lock_ret os 0 = EOWNERDEAD"
  shows "\<exists>res r'. sem_release os r h n = Some (res, r') \<and> region_ok r'"
  unfolding sem_release_def
  by (rule signal_op_returns [OF assms(1,2) _ assms(3-5)]) (simp add: word_ok_types body_ok)

lemma polite_quiet: "polite (quiet_os pid) i ty"
  by (simp add: polite_def quiet_os_def)

theorem sem_release_returns_witness:
  "let r = one_object TYPE_SEM (pack_sem 2 5) 42; os = overtaken_once in
   region_ok r \<and> slot_of_type r 1 TYPE_SEM = Inr 1 \<and> polite os 1 TYPE_SEM \<and>
   (\<forall>s. w0 (slots (on_load os 1 s) 1) = w0 (slots s 1)) \<and> lock_ret os 0 = 0 \<and>
   (\<exists>res r'. sem_release os r 1 3 = Some (res, r') \<and> region_ok r')"
proof -
  let ?r = "one_object TYPE_SEM (pack_sem 2 5) 42" and ?os = overtaken_once
  have ok: "sem_ok (pack_sem 2 5)" "sem_ok (pack_sem 1 5)"
    by (simp_all add: sem_ok_def pack_sem_join word_le_nat_alt)
  have r: "region_ok ?r" "slot_of_type ?r 1 TYPE_SEM = Inr 1"
    using one_object_rep [of TYPE_SEM "pack_sem 2 5" 42] ok
    by (auto simp: region_ok_def slot_of_type_Inr)
  have "open_object 1 TYPE_SEM (put_word s 1 (pack_sem 1 5))" if "open_object 1 TYPE_SEM s" for s
    using that ok(2) region_rep_put_word [of s _ _ 1 "pack_sem 1 5"]
    by (auto simp: open_object_def region_ok_def)
  then have p: "polite ?os 1 TYPE_SEM"
    by (simp add: polite_def overtaken_once_def quiet_os_def)
  have l: "w0 (slots (on_load ?os 1 s) 1) = w0 (slots s 1)" "lock_ret ?os 0 = 0" for s
    by (simp_all add: overtaken_once_def quiet_os_def)
  show ?thesis
    using r p l sem_release_returns [OF r p, of 1 3] by simp
qed

text \<open>
  Pulsing an event returns whether it was signaled, leaves it unsignaled, counts one more
  pulse, and takes every waiter of the event off the list and wakes it, in one locked step.
\<close>

theorem event_pulse_spec:
  assumes "undisturbed os" "region_rep r Q F" "slot_of_type r h TYPE_EVENT = Inr i"
    and "w0 (slots r i) = pack_event s man"
  shows "\<exists>r'. event_pulse os r h = Some (Inr (of_bool s), r') \<and>
    read_event r' h = Inr (man, False) \<and>
    pulse_seq (slots r' i) = pulse_seq (slots r i) + 1 \<and>
    region_rep r' (Q(i := [])) F \<and>
    futex_log r' = futex_log r @ map (\<lambda>x. wait_word (nodes r x)) (Q i)"
proof -
  obtain r' where r': "event_pulse os r h = Some (Inr (lo32 (w0 (slots r i))), r')" "region_rep r' (Q(i := [])) F"
    "slot_of_type r' h TYPE_EVENT = Inr i" "w0 (slots r' i) = clear_low (w0 (slots r i))"
    "pulse_seq (slots r' i) = pulse_seq (slots r i) + 1"
    "futex_log r' = futex_log r @ map (\<lambda>x. wait_word (nodes r x)) (Q i)"
    by (rule event_pulse_run [OF assms(1-3)]) blast
  have "lo32 (w0 (slots r' i)) = 0"
    by (simp add: r'(4) assms(4) lo32_clear_low pack_event_join)
  then have "read_event r' h = Inr (man, False)"
    using r'(3,4) assms(4) by (simp add: read_event_def drop32_eq_0 pack_event_join)
  with r' assms(4) show ?thesis by (auto simp: pack_event_join)
qed

theorem event_pulse_spec_witness:
  "let r = one_waiter TYPE_EVENT (pack_event True True) 42; Q = (\<lambda>_. [])(1 := [0]) in
   undisturbed (quiet_os 7) \<and> region_rep r Q [] \<and> slot_of_type r 1 TYPE_EVENT = Inr 1 \<and>
   w0 (slots r 1) = pack_event True True \<and>
   (\<exists>r'. event_pulse (quiet_os 7) r 1 = Some (Inr 1, r') \<and> read_event r' 1 = Inr (True, False) \<and>
      pulse_seq (slots r' 1) = 1 \<and> region_rep r' (Q(1 := [])) [] \<and> futex_log r' = [0])"
proof -
  let ?r = "one_waiter TYPE_EVENT (pack_event True True) 42" and ?Q = "(\<lambda>_. [])(1 := [0::u32])"
  have "event_ok (pack_event True True)" by (simp add: event_ok_def pack_event_join)
  then have h: "undisturbed (quiet_os 7)" "region_rep ?r ?Q []"
    "slot_of_type ?r 1 TYPE_EVENT = Inr 1" "w0 (slots ?r 1) = pack_event True True"
    by (simp_all add: one_waiter_rep)
  from h event_pulse_spec [OF h] show ?thesis by simp
qed

text \<open>
  Unlocking a mutex that nobody else touches follows the NT mutex. Whoever is not the owner
  gets Perm and nothing changes; the owner gets the recursion count it had, loses one level, and
  exactly when it gave up the last level the mutex is free and all waiters are woken.
\<close>

theorem mutex_unlock_spec:
  assumes "undisturbed os" "region_rep r Q F" "slot_of_type r h TYPE_MUTEX = Inr i" "me \<noteq> 0"
  shows "case nt_unlock me (abs_mutex (w0 (slots r i))) of
      None \<Rightarrow> mutex_unlock os r h me = Some (Inl Perm, r)
    | Some (c, ob) \<Rightarrow> \<exists>prev r'. mutex_unlock os r h me = Some (Inr prev, r') \<and> unat prev = c \<and> 0 < c \<and>
        slot_of_type r' h TYPE_MUTEX = Inr i \<and> abs_mutex (w0 (slots r' i)) = ob \<and>
        region_rep r' (if c = 1 then Q(i := []) else Q) F \<and>
        futex_log r' = futex_log r @ (if c = 1 then map (\<lambda>x. wait_word (nodes r x)) (Q i) else [])"
proof -
  let ?w = "w0 (slots r i)"
  have ok: "mutex_ok ?w"
    using region_word [OF assms(2), of i] slot_of_type_used(1) [OF assms(3)] assms(3)
    by (simp add: slot_of_type_Inr)
  note nt = mutex_unlock_nt [OF assms(4) ok]
  show ?thesis
  proof (cases "mutex_unlock_body me ?w")
    case (Ret a)
    with nt assms show ?thesis
      by (cases a) (simp add: mutex_unlock_def signal_op_def cas_loop_undisturbed atomically_def
          undisturbed_def)
  next
    case (Swap w' a)
    obtain res wake where a: "a = (res, wake)" by (cases a)
    with nt Swap obtain prev where p: "res = Inr prev" "0 < unat prev"
      "nt_unlock me (abs_mutex ?w) = Some (unat prev, abs_mutex w')" by auto
    have wk: "wake \<longleftrightarrow> unat prev = 1"
      using Swap a p(1) by (auto simp: mutex_unlock_body_def Let_def unat_u32_eq_1 split: if_splits)
    have at: "atomically (mutex_unlock_body me) i r = ((res, wake), put_word r i w')"
      using Swap a by (simp add: atomically_def)
    obtain r' where "signal_op os r h TYPE_MUTEX (mutex_unlock_body me) = Some (res, r')"
      "region_rep r' (if wake then Q(i := []) else Q) F" "slot_of_type r' h TYPE_MUTEX = Inr i"
      "w0 (slots r' i) = w'"
      "futex_log r' = futex_log r @ (if wake then map (\<lambda>x. wait_word (nodes r x)) (Q i) else [])"
      using signal_op_run [OF assms(1-3) _ at] mutex_unlock_keeps [OF assms(4)]
      by (auto simp: word_ok_types)
    with p wk assms(4) show ?thesis by (auto simp: mutex_unlock_def)
  qed
qed

theorem mutex_unlock_spec_witness:
  "let r = one_waiter TYPE_MUTEX (pack_mutex 7 1 False) 42; Q = (\<lambda>_. [])(1 := [0]) in
   undisturbed (quiet_os 7) \<and> region_rep r Q [] \<and> slot_of_type r 1 TYPE_MUTEX = Inr 1 \<and> (7::u32) \<noteq> 0 \<and>
   (\<exists>r'. mutex_unlock (quiet_os 7) r 1 7 = Some (Inr 1, r') \<and>
      abs_mutex (w0 (slots r' 1)) = NtMutex None 0 False \<and>
      region_rep r' (Q(1 := [])) [] \<and> futex_log r' = [0])"
proof -
  let ?r = "one_waiter TYPE_MUTEX (pack_mutex 7 1 False) 42" and ?Q = "(\<lambda>_. [])(1 := [0::u32])"
  have "mutex_ok (pack_mutex 7 1 False)" by (simp add: mutex_ok_def)
  then have h: "undisturbed (quiet_os 7)" "region_rep ?r ?Q []"
    "slot_of_type ?r 1 TYPE_MUTEX = Inr 1" "(7::u32) \<noteq> 0"
    by (simp_all add: one_waiter_rep)
  have "nt_unlock 7 (abs_mutex (w0 (slots ?r 1))) = Some (1, NtMutex None 0 False)"
    by (simp add: abs_mutex_def)
  with h mutex_unlock_spec [OF h] show ?thesis by (auto simp: unat_u32_eq_1)
qed

text \<open>
  A thread that dies while it owns a mutex gives it up in one step whatever its recursion
  count: the mutex is free and marked abandoned, the waiters are woken, and the next acquisition
  by any thread succeeds and is told that the owner died. A thread that is not the owner gets Perm.
\<close>

theorem mutex_kill_spec:
  assumes "undisturbed os" "region_rep r Q F" "slot_of_type r h TYPE_MUTEX = Inr i" "me \<noteq> 0"
  shows "if lo32 (w0 (slots r i)) = me
    then \<exists>r'. mutex_kill os r h me = Some (Inr (), r') \<and> read_mutex r' h = Inr (0, 0, True) \<and>
      region_rep r' (Q(i := [])) F \<and>
      futex_log r' = futex_log r @ map (\<lambda>x. wait_word (nodes r x)) (Q i) \<and>
      (\<forall>t. t \<noteq> 0 \<longrightarrow> mutex_acquire_body t (w0 (slots r' i)) = Swap (pack_mutex t 1 False) (Some True))
    else mutex_kill os r h me = Some (Inl Perm, r)"
proof (cases "lo32 (w0 (slots r i)) = me")
  case True
  then have at: "atomically (mutex_kill_body me) i r = ((Inr 0, True), put_word r i (pack_mutex 0 0 True))"
    by (simp add: atomically_def mutex_kill_body_def)
  obtain r' where r': "signal_op os r h TYPE_MUTEX (mutex_kill_body me) = Some (Inr 0, r')"
    "region_rep r' (Q(i := [])) F" "slot_of_type r' h TYPE_MUTEX = Inr i"
    "w0 (slots r' i) = pack_mutex 0 0 True"
    "futex_log r' = futex_log r @ map (\<lambda>x. wait_word (nodes r x)) (Q i)"
    using signal_op_run [OF assms(1-3) _ at] mutex_kill_keeps by (auto simp: word_ok_types)
  have "mutex_acquire_body t (w0 (slots r' i)) = Swap (pack_mutex t 1 False) (Some True)" for t
    using r'(4) by (simp add: mutex_acquire_body_def Let_def)
  with True r' assms(4) show ?thesis by (auto simp: mutex_kill_def read_mutex_def)
next
  case False
  with assms show ?thesis
    by (simp add: mutex_kill_def signal_op_def cas_loop_undisturbed atomically_def undisturbed_def
        mutex_kill_body_def)
qed

theorem mutex_kill_spec_witness:
  "let r = one_waiter TYPE_MUTEX (pack_mutex 7 3 False) 42; Q = (\<lambda>_. [])(1 := [0]) in
   undisturbed (quiet_os 7) \<and> region_rep r Q [] \<and> slot_of_type r 1 TYPE_MUTEX = Inr 1 \<and> (7::u32) \<noteq> 0 \<and>
   (\<exists>r'. mutex_kill (quiet_os 7) r 1 7 = Some (Inr (), r') \<and> read_mutex r' 1 = Inr (0, 0, True) \<and>
      region_rep r' (Q(1 := [])) [] \<and> futex_log r' = [0])"
proof -
  let ?r = "one_waiter TYPE_MUTEX (pack_mutex 7 3 False) 42" and ?Q = "(\<lambda>_. [])(1 := [0::u32])"
  have "mutex_ok (pack_mutex 7 3 False)" by (simp add: mutex_ok_def)
  then have h: "undisturbed (quiet_os 7)" "region_rep ?r ?Q []"
    "slot_of_type ?r 1 TYPE_MUTEX = Inr 1" "(7::u32) \<noteq> 0"
    by (simp_all add: one_waiter_rep)
  from h mutex_kill_spec [OF h] show ?thesis by auto
qed

text \<open>
  Setting an event that nobody else touches returns the previous state and leaves it
  signaled; if it was unsignaled all waiters are taken off the list and woken, and if it was
  already signaled nothing at all changes.
\<close>

theorem event_set_spec:
  assumes "undisturbed os" "region_rep r Q F" "slot_of_type r h TYPE_EVENT = Inr i"
    and "w0 (slots r i) = pack_event s man"
  shows "if s then event_set os r h = Some (Inr 1, r)
    else \<exists>r'. event_set os r h = Some (Inr 0, r') \<and> read_event r' h = Inr (man, True) \<and>
      region_rep r' (Q(i := [])) F \<and>
      futex_log r' = futex_log r @ map (\<lambda>x. wait_word (nodes r x)) (Q i)"
proof (cases s)
  case True
  with assms show ?thesis
    by (simp add: event_set_def signal_op_def cas_loop_undisturbed atomically_def undisturbed_def
        event_set_body_def Let_def pack_event_join)
next
  case False
  then have at: "atomically event_set_body i r = ((Inr 0, True), put_word r i (set_low (pack_event s man)))"
    using assms(4) by (simp add: atomically_def event_set_body_def Let_def pack_event_join)
  obtain r' where "signal_op os r h TYPE_EVENT event_set_body = Some (Inr 0, r')"
    "region_rep r' (Q(i := [])) F" "slot_of_type r' h TYPE_EVENT = Inr i"
    "w0 (slots r' i) = set_low (pack_event s man)"
    "futex_log r' = futex_log r @ map (\<lambda>x. wait_word (nodes r x)) (Q i)"
    using signal_op_run [OF assms(1-3) _ at] body_ok(2) by (auto simp: word_ok_types)
  with False show ?thesis
    by (auto simp: event_set_def read_event_def drop32_eq_0 pack_event_join lo32_set_low)
qed

theorem event_set_spec_witness:
  "let r = one_waiter TYPE_EVENT (pack_event False True) 42; Q = (\<lambda>_. [])(1 := [0]) in
   undisturbed (quiet_os 7) \<and> region_rep r Q [] \<and> slot_of_type r 1 TYPE_EVENT = Inr 1 \<and>
   w0 (slots r 1) = pack_event False True \<and>
   (\<exists>r'. event_set (quiet_os 7) r 1 = Some (Inr 0, r') \<and> read_event r' 1 = Inr (True, True) \<and>
      region_rep r' (Q(1 := [])) [] \<and> futex_log r' = [0])"
proof -
  let ?r = "one_waiter TYPE_EVENT (pack_event False True) 42" and ?Q = "(\<lambda>_. [])(1 := [0::u32])"
  have "event_ok (pack_event False True)" by (simp add: event_ok_def pack_event_join)
  then have h: "undisturbed (quiet_os 7)" "region_rep ?r ?Q []"
    "slot_of_type ?r 1 TYPE_EVENT = Inr 1" "w0 (slots ?r 1) = pack_event False True"
    by (simp_all add: one_waiter_rep)
  from h event_set_spec [OF h] show ?thesis by simp
qed

end
