(* ===== verification/Sweep.thy ===== *)
theory Sweep
  imports Slots Signals
begin

text \<open>
  Reaping what dead processes left behind, from \<^verbatim>\<open>src/src/core.rs\<close>: the scan for
  candidates in chunks (\<open>SweepScan\<close>, \<open>next_chunk\<close>), the cache of liveness verdicts
  (\<open>PidCache\<close>), the re-validation and freeing (\<open>reap_dead_locked\<close>), the sweep
  under the lock (\<open>sweep_dead_locked\<close>, \<open>sweep_dead\<close>) and the rate-limited sweep that
  drops the lock while it probes (\<open>auto_sweep_dead\<close>). Proved: both sweeps end, keep the
  region invariant, free only objects whose creator and holders are all dead and
  unchanged, and keep every object whose holder list spilled.
\<close>

subsection \<open>Candidates\<close>

record DeadCand =
  cand_node :: bool
  cand_index :: u32
  cand_pid :: u32
  cand_generation :: u32
  cand_holders :: "u32 list"
  cand_holders_len :: u32

definition node_cand :: "u32 \<Rightarrow> u32 \<Rightarrow> DeadCand" where
  "node_cand index pid = \<lparr>cand_node = True, cand_index = index, cand_pid = pid, cand_generation = 0,
     cand_holders = replicate MAX_HOLDERS 0, cand_holders_len = 0\<rparr>"

definition slot_cand :: "u32 \<Rightarrow> Slot \<Rightarrow> DeadCand" where
  "slot_cand index s = \<lparr>cand_node = False, cand_index = index, cand_pid = slot_pid s,
     cand_generation = generation s, cand_holders = holders s, cand_holders_len = holders_len s\<rparr>"

lemma cand_sel [simp]:
  "cand_node (node_cand i p)" "cand_index (node_cand i p) = i" "cand_pid (node_cand i p) = p"
  "\<not> cand_node (slot_cand i s)" "cand_index (slot_cand i s) = i" "cand_pid (slot_cand i s) = slot_pid s"
  "cand_generation (slot_cand i s) = generation s" "cand_holders (slot_cand i s) = holders s"
  "cand_holders_len (slot_cand i s) = holders_len s"
  by (simp_all add: node_cand_def slot_cand_def)

definition SWEEP_CHUNK :: nat where "SWEEP_CHUNK = 256"

record SweepScan =
  node_hi :: u32
  slot_hi :: u32
  next_node :: u32
  next_slot :: u32

definition new_scan :: "Region \<Rightarrow> SweepScan" where
  "new_scan r =
     (let slot_hi = (if next_scan (header r) AND SCAN_WRAPPED \<noteq> 0 then SLOT_COUNT
                     else next_scan (header r))
      in \<lparr>node_hi = min (node_fresh (header r)) NODE_COUNT, slot_hi = slot_hi,
          next_node = 0, next_slot = 0\<rparr>)"

text \<open>How many table entries a scan has not visited yet.\<close>

definition scan_left :: "SweepScan \<Rightarrow> nat" where
  "scan_left sc = (unat (node_hi sc) - unat (next_node sc)) + (unat (slot_hi sc) - unat (next_slot sc))"

lemma scan_left_node:
  "next_node sc < node_hi sc \<Longrightarrow> scan_left (sc\<lparr>next_node := next_node sc + 1\<rparr>) < scan_left sc"
  using unat_less_Suc [of "next_node sc" "node_hi sc"] by (simp add: scan_left_def word_less_nat_alt)

lemma scan_left_slot:
  "next_slot sc < slot_hi sc \<Longrightarrow> scan_left (sc\<lparr>next_slot := next_slot sc + 1\<rparr>) < scan_left sc"
  using unat_less_Suc [of "next_slot sc" "slot_hi sc"] by (simp add: scan_left_def word_less_nat_alt)

function chunk_loop :: "Region \<Rightarrow> SweepScan \<Rightarrow> DeadCand list \<Rightarrow> SweepScan \<times> DeadCand list" where
  "chunk_loop r sc out =
     (if length out < SWEEP_CHUNK then
        if next_node sc < node_hi sc then
          let index = next_node sc; sc1 = sc\<lparr>next_node := next_node sc + 1\<rparr> in
          if registered (nodes r index) \<noteq> 0
          then chunk_loop r sc1 (out @ [node_cand index (node_pid (nodes r index))])
          else chunk_loop r sc1 out
        else if next_slot sc < slot_hi sc then
          let index = next_slot sc; sc1 = sc\<lparr>next_slot := next_slot sc + 1\<rparr> in
          if state (slots r index) = SLOT_USED \<and> slot_pid (slots r index) \<noteq> 0
          then chunk_loop r sc1 (out @ [slot_cand index (slots r index)])
          else chunk_loop r sc1 out
        else (sc, out)
      else (sc, out))"
  by pat_completeness auto
termination
  by (relation "measure (\<lambda>(r, sc, out). scan_left sc)") (auto simp: scan_left_node scan_left_slot)

declare chunk_loop.simps [simp del]

definition next_chunk :: "Region \<Rightarrow> SweepScan \<Rightarrow> SweepScan \<times> DeadCand list" where
  "next_chunk r sc = chunk_loop r sc []"

subsection \<open>Liveness\<close>

definition PID_CACHE :: nat where "PID_CACHE = 32"

record PidCache =
  pc_pid :: "u32 list"
  pc_alive :: "bool list"
  pc_next :: nat

definition new_cache :: PidCache where
  "new_cache = \<lparr>pc_pid = replicate PID_CACHE 0, pc_alive = replicate PID_CACHE False, pc_next = 0\<rparr>"

definition cache_alive :: "Os \<Rightarrow> PidCache \<Rightarrow> u32 \<Rightarrow> bool \<times> PidCache" where
  "cache_alive os c pid =
     (if pid = 0 then (False, c)
      else case List.find (\<lambda>i. pc_pid c ! i = pid) [0..<PID_CACHE] of
        Some i \<Rightarrow> (pc_alive c ! i, c)
      | None \<Rightarrow>
          let alive = pid_alive os pid; i = pc_next c in
          (alive, c\<lparr>pc_next := (i + 1) mod PID_CACHE, pc_pid := (pc_pid c)[i := pid],
                    pc_alive := (pc_alive c)[i := alive]\<rparr>))"

fun any_alive :: "Os \<Rightarrow> PidCache \<Rightarrow> u32 list \<Rightarrow> bool \<times> PidCache" where
  "any_alive os c [] = (False, c)"
| "any_alive os c (holder # hs) =
     (if holder \<noteq> 0 then
        case cache_alive os c holder of (a, c1) \<Rightarrow> if a then (True, c1) else any_alive os c1 hs
      else any_alive os c hs)"

definition cand_alive :: "Os \<Rightarrow> DeadCand \<Rightarrow> PidCache \<Rightarrow> bool \<times> PidCache" where
  "cand_alive os c cache =
     (case cache_alive os cache (cand_pid c) of (a, cache1) \<Rightarrow>
        if a then (True, cache1)
        else
          let len = unat (cand_holders_len c AND NOT HOLDER_OVERFLOW) in
          any_alive os cache1 (take (min len MAX_HOLDERS) (cand_holders c)))"

fun verdicts :: "Os \<Rightarrow> PidCache \<Rightarrow> DeadCand list \<Rightarrow> bool list \<times> PidCache" where
  "verdicts os cache [] = ([], cache)"
| "verdicts os cache (c # cs) =
     (case cand_alive os c cache of (a, cache1) \<Rightarrow>
        case verdicts os cache1 cs of (as, cache2) \<Rightarrow> (a # as, cache2))"

subsection \<open>Reaping\<close>

definition reap_one :: "Os \<Rightarrow> Region \<Rightarrow> DeadCand \<Rightarrow> (u32 \<times> Region) option" where
  "reap_one os r c =
     (let i = cand_index c in
      if cand_node c then
        if registered (nodes r i) \<noteq> 0 \<and> node_pid (nodes r i) = cand_pid c
        then Some (0, node_free (node_detach r i) i)
        else Some (0, r)
      else
        let s = slots r i in
        if state s = SLOT_USED \<and> slot_pid s = cand_pid c \<and> generation s = cand_generation c \<and>
           holders_len s = cand_holders_len c \<and> holders s = cand_holders c \<and>
           holders_len s AND HOLDER_OVERFLOW = 0
        then do { r1 \<leftarrow> wake_object os (free_slot r i) i; Some (1, r1) }
        else Some (0, r))"

fun reap_dead_locked :: "Os \<Rightarrow> Region \<Rightarrow> DeadCand list \<Rightarrow> bool list \<Rightarrow> (u32 \<times> Region) option" where
  "reap_dead_locked os r (c # cs) (is_alive # as) =
     (if is_alive then reap_dead_locked os r cs as
      else do {
        (n, r1) \<leftarrow> reap_one os r c;
        (m, r2) \<leftarrow> reap_dead_locked os r1 cs as;
        Some (n + m, r2)
      })"
| "reap_dead_locked os r _ _ = Some (0, r)"

subsection \<open>What a chunk holds\<close>

definition visit_node :: "Region \<Rightarrow> u32 \<Rightarrow> DeadCand list" where
  "visit_node r i = (if registered (nodes r i) \<noteq> 0 then [node_cand i (node_pid (nodes r i))] else [])"

definition visit_slot :: "Region \<Rightarrow> u32 \<Rightarrow> DeadCand list" where
  "visit_slot r i = (if state (slots r i) = SLOT_USED \<and> slot_pid (slots r i) \<noteq> 0
     then [slot_cand i (slots r i)] else [])"

abbreviation node_step :: "SweepScan \<Rightarrow> SweepScan" where
  "node_step sc \<equiv> sc\<lparr>next_node := next_node sc + 1\<rparr>"

abbreviation slot_step :: "SweepScan \<Rightarrow> SweepScan" where
  "slot_step sc \<equiv> sc\<lparr>next_slot := next_slot sc + 1\<rparr>"

definition scan_done :: "SweepScan \<Rightarrow> bool" where
  "scan_done sc \<longleftrightarrow> \<not> next_node sc < node_hi sc \<and> \<not> next_slot sc < slot_hi sc"

lemma chunk_loop_cases:
  "\<not> length out < SWEEP_CHUNK \<or> scan_done sc \<Longrightarrow> chunk_loop r sc out = (sc, out)"
  "length out < SWEEP_CHUNK \<Longrightarrow> next_node sc < node_hi sc \<Longrightarrow>
     chunk_loop r sc out = chunk_loop r (node_step sc) (out @ visit_node r (next_node sc))"
  "length out < SWEEP_CHUNK \<Longrightarrow> \<not> next_node sc < node_hi sc \<Longrightarrow> next_slot sc < slot_hi sc \<Longrightarrow>
     chunk_loop r sc out = chunk_loop r (slot_step sc) (out @ visit_slot r (next_slot sc))"
  by (subst chunk_loop.simps, auto simp: visit_node_def visit_slot_def scan_done_def Let_def)+

text \<open>Induction over the rounds of a chunk.\<close>

lemma chunk_loop_induct [case_names stop node slot]:
  assumes "\<And>sc out. \<not> length out < SWEEP_CHUNK \<or> scan_done sc \<Longrightarrow> P sc out (sc, out)"
    and "\<And>sc out x. length out < SWEEP_CHUNK \<Longrightarrow> next_node sc < node_hi sc \<Longrightarrow>
      P (node_step sc) (out @ visit_node r (next_node sc)) x \<Longrightarrow> P sc out x"
    and "\<And>sc out x. length out < SWEEP_CHUNK \<Longrightarrow> \<not> next_node sc < node_hi sc \<Longrightarrow>
      next_slot sc < slot_hi sc \<Longrightarrow>
      P (slot_step sc) (out @ visit_slot r (next_slot sc)) x \<Longrightarrow> P sc out x"
  shows "P sc out (chunk_loop r sc out)"
proof (induction "scan_left sc" arbitrary: sc out rule: less_induct)
  case less
  consider (stop) "\<not> length out < SWEEP_CHUNK \<or> scan_done sc"
    | (node) "length out < SWEEP_CHUNK" "next_node sc < node_hi sc"
    | (slot) "length out < SWEEP_CHUNK" "\<not> next_node sc < node_hi sc" "next_slot sc < slot_hi sc"
    by (auto simp: scan_done_def)
  then show ?case
  proof cases
    case stop
    then show ?thesis using assms(1) by (simp add: chunk_loop_cases(1))
  next
    case node
    then show ?thesis
      using assms(2) less [OF scan_left_node [OF node(2)]] by (simp add: chunk_loop_cases(2))
  next
    case slot
    then show ?thesis
      using assms(3) less [OF scan_left_slot [OF slot(3)]] by (simp add: chunk_loop_cases(3))
  qed
qed

lemma chunk_loop_left:
  "case chunk_loop r sc out of (sc', out') \<Rightarrow>
     scan_left sc' \<le> scan_left sc \<and> (out' \<noteq> out \<longrightarrow> scan_left sc' < scan_left sc)"
proof (induction rule: chunk_loop_induct [where r = r])
  case (node sc out x)
  then show ?case using scan_left_node [of sc] by (auto split: prod.splits)
next
  case (slot sc out x)
  then show ?case using scan_left_slot [of sc] by (auto split: prod.splits)
qed simp

lemma next_chunk_left: "next_chunk r sc = (sc', cs) \<Longrightarrow> cs \<noteq> [] \<Longrightarrow> scan_left sc' < scan_left sc"
  using chunk_loop_left [where r = r and sc = sc and out = "[]"] by (simp add: next_chunk_def)

lemma chunk_loop_grows:
  "case chunk_loop r sc out of (sc', out') \<Rightarrow> (\<exists>xs. out' = out @ xs) \<and>
     (length out' < SWEEP_CHUNK \<longrightarrow> scan_done sc') \<and> node_hi sc' = node_hi sc \<and> slot_hi sc' = slot_hi sc"
  by (induction rule: chunk_loop_induct [where r = r]) (auto split: prod.splits)

lemma chunk_loop_cong:
  assumes "slots r' = slots r" "nodes r' = nodes r"
  shows "chunk_loop r' sc out = chunk_loop r sc out"
proof -
  have v: "visit_node r' = visit_node r" "visit_slot r' = visit_slot r"
    by (simp_all add: visit_node_def visit_slot_def assms fun_eq_iff)
  show ?thesis
    by (induction rule: chunk_loop_induct [where r = r]) (simp_all add: chunk_loop_cases [of _ _ r'] v)
qed

lemma next_chunk_empty: "next_chunk r sc = (sc', []) \<Longrightarrow> scan_done sc'"
  using chunk_loop_grows [where r = r and sc = sc and out = "[]"] by (simp add: next_chunk_def SWEEP_CHUNK_def)

subsection \<open>Sweeping\<close>

function sweep_loop :: "Os \<Rightarrow> Region \<Rightarrow> SweepScan \<Rightarrow> PidCache \<Rightarrow> u32 \<Rightarrow> (u32 \<times> Region) option" where
  "sweep_loop os r sc cache freed =
     (case next_chunk r sc of (sc1, cands) \<Rightarrow>
        if cands = [] then Some (freed, r)
        else
          case verdicts os cache cands of (vs, cache1) \<Rightarrow> do {
            (n, r1) \<leftarrow> reap_dead_locked os r cands vs;
            sweep_loop os r1 sc1 cache1 (freed + n)
          })"
  by pat_completeness auto
termination
  by (relation "measure (\<lambda>(os, r, sc, cache, freed). scan_left sc)") (auto intro: next_chunk_left [OF sym])

declare sweep_loop.simps [simp del]

definition sweep_dead_locked :: "Os \<Rightarrow> Region \<Rightarrow> (u32 \<times> Region) option" where
  "sweep_dead_locked os r = sweep_loop os r (new_scan r) new_cache 0"

definition sweep_dead :: "Os \<Rightarrow> Region \<Rightarrow> ((Error + u32) \<times> Region) option" where
  "sweep_dead os r =
     with_lock os r (\<lambda>e. Inl (Init e))
       (\<lambda>r1. map_option (\<lambda>(n, r2). (Inr n, r2)) (sweep_dead_locked os r1))"

text \<open>
  The opportunistic sweep. \<open>calls\<close> is the thread's call counter and \<open>interval\<close> the configured
  sweep interval. \<open>k\<close> numbers the chunks: the lock is dropped after chunk \<open>k\<close> is collected, other
  threads run, and the lock is taken again, by its \<open>k+1\<close>-st acquisition in this call.
\<close>

function auto_sweep_loop ::
  "Os \<Rightarrow> nat \<Rightarrow> Region \<Rightarrow> SweepScan \<Rightarrow> PidCache \<Rightarrow> u32 \<Rightarrow> (u32 \<times> Region) option" where
  "auto_sweep_loop os k r sc cache freed =
     (case next_chunk r sc of (sc1, cands) \<Rightarrow>
        if cands = [] then Some (freed, guard_drop r)
        else
          case verdicts os cache cands of (vs, cache1) \<Rightarrow> do {
            g \<leftarrow> lock_guard os (Suc k) (on_step os k (guard_drop r));
            case g of
              Inl e \<Rightarrow> Some (freed, on_step os k (guard_drop r))
            | Inr r1 \<Rightarrow> do {
                (n, r2) \<leftarrow> reap_dead_locked os r1 cands vs;
                auto_sweep_loop os (Suc k) r2 sc1 cache1 (freed + n)
              }
          })"
  by pat_completeness auto
termination
  by (relation "measure (\<lambda>(os, k, r, sc, cache, freed). scan_left sc)") (auto intro: next_chunk_left [OF sym])

declare auto_sweep_loop.simps [simp del]

definition auto_sweep_dead :: "Os \<Rightarrow> u64 \<Rightarrow> u64 \<Rightarrow> Region \<Rightarrow> (u64 \<times> Region) option" where
  "auto_sweep_dead os calls interval r =
     (let calls1 = calls + 1 in
      if calls AND 0xFF \<noteq> 0 then Some (calls1, r)
      else if interval = 0 then Some (calls1, r)
      else if saturating_sub (clock_ns os) (sweep_ns (header r)) < interval then Some (calls1, r)
      else do {
        g \<leftarrow> lock_guard os 0 (on_lock os r);
        case g of
          Inl e \<Rightarrow> Some (calls1, on_lock os r)
        | Inr r1 \<Rightarrow>
            let now = locked_clock_ns os in
            if saturating_sub now (sweep_ns (header r1)) < interval then Some (calls1, guard_drop r1)
            else do {
              let r2 = upd_header r1 (\<lambda>h. h\<lparr>sweep_ns := now\<rparr>);
              (freed, r3) \<leftarrow> auto_sweep_loop os 0 r2 (new_scan r2) new_cache 0;
              Some (calls1, r3)
            }
      })"

definition alloc_slot_or_sweep :: "Os \<Rightarrow> Region \<Rightarrow> (u32 option \<times> Region) option" where
  "alloc_slot_or_sweep os r =
     (case alloc_slot r of
        (Some h, r1) \<Rightarrow> Some (Some h, r1)
      | (None, r1) \<Rightarrow> do {
          (n, r2) \<leftarrow> sweep_dead_locked os r1;
          if 0 < n then Some (alloc_slot r2) else Some (None, r2)
        })"

subsection \<open>The verdicts are right\<close>

definition cache_ok :: "Os \<Rightarrow> PidCache \<Rightarrow> bool" where
  "cache_ok os c \<longleftrightarrow> length (pc_pid c) = PID_CACHE \<and> length (pc_alive c) = PID_CACHE \<and>
     pc_next c < PID_CACHE \<and>
     (\<forall>i<PID_CACHE. pc_pid c ! i \<noteq> 0 \<longrightarrow> pc_alive c ! i = pid_alive os (pc_pid c ! i))"

definition alive_cand :: "Os \<Rightarrow> DeadCand \<Rightarrow> bool" where
  "alive_cand os c \<longleftrightarrow> pid_alive os (cand_pid c) \<or>
     (\<exists>p\<in>set (take (min (unat (cand_holders_len c AND NOT HOLDER_OVERFLOW)) MAX_HOLDERS) (cand_holders c)).
        pid_alive os p)"

lemma pid_alive_0 [simp]: "\<not> pid_alive os 0"
  by (simp add: pid_alive_def)

lemma new_cache_ok [simp]: "cache_ok os new_cache"
  by (simp add: cache_ok_def new_cache_def PID_CACHE_def)

lemma cache_alive_ok:
  assumes "cache_ok os c"
  shows "fst (cache_alive os c pid) = pid_alive os pid \<and> cache_ok os (snd (cache_alive os c pid))"
proof (cases "pid = 0")
  case False
  show ?thesis
  proof (cases "List.find (\<lambda>i. pc_pid c ! i = pid) [0..<PID_CACHE]")
    case None
    with False assms show ?thesis
      by (auto simp: cache_alive_def cache_ok_def Let_def nth_list_update PID_CACHE_def)
  next
    case (Some i)
    then have "i < PID_CACHE" "pc_pid c ! i = pid" by (auto simp: find_Some_iff)
    with Some False assms show ?thesis by (auto simp: cache_alive_def cache_ok_def)
  qed
qed (use assms in \<open>simp add: cache_alive_def\<close>)

lemma any_alive_ok:
  "cache_ok os c \<Longrightarrow> fst (any_alive os c hs) = (\<exists>p\<in>set hs. pid_alive os p) \<and> cache_ok os (snd (any_alive os c hs))"
proof (induction os c hs rule: any_alive.induct)
  case (2 os c p hs)
  show ?case
  proof (cases "p = 0")
    case False
    obtain a c1 where e: "cache_alive os c p = (a, c1)" by (cases "cache_alive os c p")
    with cache_alive_ok [OF 2(3), of p] have "a = pid_alive os p" "cache_ok os c1" by simp_all
    with False e 2(1) [OF False e [symmetric]] show ?thesis by auto
  qed (use 2 in simp)
qed simp

lemma cand_alive_ok:
  assumes "cache_ok os cache"
  shows "fst (cand_alive os c cache) = alive_cand os c \<and> cache_ok os (snd (cand_alive os c cache))"
proof -
  obtain a c1 where e: "cache_alive os cache (cand_pid c) = (a, c1)"
    by (cases "cache_alive os cache (cand_pid c)")
  with cache_alive_ok [OF assms, of "cand_pid c"] have "a = pid_alive os (cand_pid c)" "cache_ok os c1"
    by simp_all
  with e any_alive_ok [OF this(2)] show ?thesis
    by (auto simp: cand_alive_def alive_cand_def Let_def)
qed

lemma verdicts_ok:
  "cache_ok os cache \<Longrightarrow>
   fst (verdicts os cache cs) = map (alive_cand os) cs \<and> cache_ok os (snd (verdicts os cache cs))"
proof (induction cs arbitrary: cache)
  case (Cons c cs)
  obtain a c1 where e: "cand_alive os c cache = (a, c1)" by (cases "cand_alive os c cache")
  with cand_alive_ok [OF Cons.prems, of c] have "a = alive_cand os c" "cache_ok os c1" by simp_all
  with e Cons.IH [OF this(2)] show ?case by (auto split: prod.splits)
qed simp

subsection \<open>Exactly the dead are reaped\<close>

text \<open>
  What is dead: a registered node of a dead process, and a used slot whose creator and all of
  whose holders are dead, unless its holder list spilled or it is the reserved slot.
\<close>

definition dead_node :: "Os \<Rightarrow> WaitNode \<Rightarrow> bool" where
  "dead_node os n \<longleftrightarrow> registered n \<noteq> 0 \<and> \<not> pid_alive os (node_pid n)"

definition dead_slot :: "Os \<Rightarrow> Slot \<Rightarrow> bool" where
  "dead_slot os s \<longleftrightarrow> state s = SLOT_USED \<and> slot_pid s \<noteq> 0 \<and> \<not> spilled s \<and>
     \<not> pid_alive os (slot_pid s) \<and> (\<forall>p\<in>set (held_by s). \<not> pid_alive os p)"

definition freed_slot :: "Slot \<Rightarrow> Slot" where
  "freed_slot s = s\<lparr>state := SLOT_FREE, generation := generation s + 1\<rparr>"

text \<open>
  \<open>swept os r Q N S n r'\<close>: of the region \<open>r\<close> with waiter lists \<open>Q\<close>, the dead nodes among \<open>N\<close> and
  the dead slots among \<open>S\<close> have been reaped, and nothing else.
\<close>

definition lists_left :: "Os \<Rightarrow> Region \<Rightarrow> (u32 \<Rightarrow> u32 list) \<Rightarrow> u32 set \<Rightarrow> u32 set \<Rightarrow> u32 \<Rightarrow> u32 list" where
  "lists_left os r Q N S i =
     (if i \<in> S \<and> dead_slot os (slots r i) then []
      else filter (\<lambda>x. \<not> (x \<in> N \<and> dead_node os (nodes r x))) (Q i))"

definition swept ::
  "Os \<Rightarrow> Region \<Rightarrow> (u32 \<Rightarrow> u32 list) \<Rightarrow> u32 set \<Rightarrow> u32 set \<Rightarrow> u32 \<Rightarrow> Region \<Rightarrow> bool" where
  "swept os r Q N S n r' \<longleftrightarrow>
     (\<exists>F. region_rep r' (lists_left os r Q N S) F) \<and>
     (\<forall>i. bare r' i = (if i \<in> S \<and> dead_slot os (slots r i) then freed_slot (bare r i) else bare r i)) \<and>
     (\<forall>x. node_pid (nodes r' x) = node_pid (nodes r x)) \<and>
     core r' = (core r)\<lparr>node_free_head := node_free_head (core r')\<rparr> \<and>
     (\<forall>x. wait_word (nodes r' x) = wait_word (nodes r x)) \<and>
     (\<forall>x. held r x \<and> \<not> dead_node os (nodes r x) \<longrightarrow> held r' x) \<and>
     (\<forall>x. held r' x \<longrightarrow> held r x) \<and>
     (\<forall>i x. x \<in> set (Q i) \<and> x \<notin> set (lists_left os r Q N S i) \<and> \<not> (i \<in> S \<and> dead_slot os (slots r i)) \<longrightarrow> \<not> held r' x) \<and>
     n = of_nat (card {i \<in> S. dead_slot os (slots r i)})"

definition reap_all :: "Os \<Rightarrow> Region \<Rightarrow> DeadCand list \<Rightarrow> (u32 \<times> Region) option" where
  "reap_all os r cs = reap_dead_locked os r cs (map (alive_cand os) cs)"

lemma reap_all_simps [simp]:
  "reap_all os r [] = Some (0, r)"
  "reap_all os r (c # cs) = (if alive_cand os c then reap_all os r cs else do {
     (n, r1) \<leftarrow> reap_one os r c; (m, r2) \<leftarrow> reap_all os r1 cs; Some (n + m, r2) })"
  by (simp_all add: reap_all_def)

lemma reap_all_append:
  "reap_all os r (xs @ ys) = do {
     (n, r1) \<leftarrow> reap_all os r xs; (m, r2) \<leftarrow> reap_all os r1 ys; Some (n + m, r2) }"
proof (induction xs arbitrary: r)
  case (Cons c xs)
  show ?case
    by (auto simp: Cons.IH add.assoc split: Option.bind_splits prod.splits)
qed (auto split: Option.bind_splits)

lemma lists_left_none: "lists_left os r Q {} {} = Q"
  by (simp add: lists_left_def fun_eq_iff)

lemma swept_start: "region_rep r Q F \<Longrightarrow> swept os r Q {} {} 0 r"
  unfolding swept_def lists_left_none by auto

lemma sweptD:
  assumes "swept os r Q N S n r'"
  obtains F where "region_rep r' (lists_left os r Q N S) F"
    "\<forall>i. bare r' i = (if i \<in> S \<and> dead_slot os (slots r i) then freed_slot (bare r i) else bare r i)"
    "\<forall>x. node_pid (nodes r' x) = node_pid (nodes r x)"
    "core r' = (core r)\<lparr>node_free_head := node_free_head (core r')\<rparr>"
    "n = of_nat (card {i \<in> S. dead_slot os (slots r i)})"
    "\<forall>x. wait_word (nodes r' x) = wait_word (nodes r x)"
    "\<forall>x. held r x \<and> \<not> dead_node os (nodes r x) \<longrightarrow> held r' x" "\<forall>x. held r' x \<longrightarrow> held r x"
    "\<forall>i x. x \<in> set (Q i) \<and> x \<notin> set (lists_left os r Q N S i) \<and> \<not> (i \<in> S \<and> dead_slot os (slots r i)) \<longrightarrow> \<not> held r' x"
  using assms unfolding swept_def by blast

lemma swept_same_lists:
  assumes "swept os r Q N S n r'" "lists_left os r Q N' S' = lists_left os r Q N S"
    and "\<And>i. dead_slot os (slots r i) \<Longrightarrow> i \<in> S' \<longleftrightarrow> i \<in> S"
  shows "swept os r Q N' S' n r'"
proof -
  have "{i \<in> S'. dead_slot os (slots r i)} = {i \<in> S. dead_slot os (slots r i)}" using assms(3) by blast
  moreover have "i \<in> S' \<and> dead_slot os (slots r i) \<longleftrightarrow> i \<in> S \<and> dead_slot os (slots r i)" for i
    using assms(3) by blast
  ultimately show ?thesis using assms(1,2) unfolding swept_def by simp
qed

lemma lists_left_skip_node:
  assumes "\<forall>i. x \<notin> set (lists_left os r Q N S i) \<or> \<not> dead_node os (nodes r x)"
  shows "lists_left os r Q (insert x N) S = lists_left os r Q N S"
proof
  fix i show "lists_left os r Q (insert x N) S i = lists_left os r Q N S i"
    using assms by (auto simp: lists_left_def intro!: filter_cong)
qed

lemma lists_left_skip_slot:
  "\<not> dead_slot os (slots r i) \<Longrightarrow> lists_left os r Q N (insert i S) = lists_left os r Q N S"
  by (auto simp: lists_left_def fun_eq_iff)

lemma swept_skip_slot:
  assumes "swept os r Q N S n r'" "\<not> dead_slot os (slots r i)"
  shows "swept os r Q N (insert i S) n r'"
  by (rule swept_same_lists [OF assms(1) lists_left_skip_slot [OF assms(2)]]) (use assms(2) in auto)

lemma swept_skip_node:
  assumes "swept os r Q N S n r'" "registered (nodes r' x) = 0 \<or> \<not> dead_node os (nodes r x)"
  shows "swept os r Q (insert x N) S n r'"
proof -
  obtain F where R: "region_rep r' (lists_left os r Q N S) F" using sweptD [OF assms(1)] by metis
  have "\<forall>i. x \<notin> set (lists_left os r Q N S i) \<or> \<not> dead_node os (nodes r x)"
    using assms(2) pool_member [OF region_pool [OF R], of x] by auto
  from swept_same_lists [OF assms(1) lists_left_skip_node [OF this]] show ?thesis by simp
qed

lemma region_rep_recycle:
  assumes R: "region_rep r Q F" and x: "registered (nodes r x) \<noteq> 0"
  shows "region_rep (node_free (node_detach r x) x) (\<lambda>i. remove1 x (Q i)) (x # F)"
proof -
  let ?r = "node_free (node_detach r x) x"
  have P: "pool_rep ?r (\<lambda>i. remove1 x (Q i)) (x # F)"
    by (rule pool.recycle [OF region_pool [OF R] pool_registered_held [OF region_pool [OF R] x]])
  have b: "bare (node_detach r x) = bare r" by simp
  have q: "state (slots r i) = SLOT_USED" if "remove1 x (Q i) \<noteq> []" for i
    using that region_queued [OF R, of i] by (cases "Q i") auto
  show ?thesis
    by (rule region_rep_frame [OF R P q]) (use region_word [OF R] in \<open>simp_all add: bareD [OF b]\<close>)
qed

lemma alive_node_cand [simp]: "alive_cand os (node_cand x p) = pid_alive os p"
  by (simp add: alive_cand_def node_cand_def)

lemma alive_slot_cand [simp]:
  "alive_cand os (slot_cand i s) \<longleftrightarrow> pid_alive os (slot_pid s) \<or> (\<exists>p\<in>set (held_by s). pid_alive os p)"
  by (simp add: alive_cand_def slot_cand_def held_by_def holders_cap_def)

lemma reap_node_step:
  assumes R: "region_rep r Q F0" and sw: "swept os r Q N S n r1"
  shows "\<exists>r2. reap_all os r1 [node_cand x (node_pid (nodes r x))] = Some (0, r2) \<and>
    swept os r Q (insert x N) S n r2"
proof -
  let ?L = "lists_left os r Q N S"
  obtain F where R1: "region_rep r1 ?L F"
    and b: "\<forall>i. bare r1 i = (if i \<in> S \<and> dead_slot os (slots r i) then freed_slot (bare r i) else bare r i)"
    and p: "\<forall>x. node_pid (nodes r1 x) = node_pid (nodes r x)"
    and c: "core r1 = (core r)\<lparr>node_free_head := node_free_head (core r1)\<rparr>"
    and n: "n = of_nat (card {i \<in> S. dead_slot os (slots r i)})"
    and ww: "\<forall>x. wait_word (nodes r1 x) = wait_word (nodes r x)"
    and hd: "\<forall>x. held r x \<and> \<not> dead_node os (nodes r x) \<longrightarrow> held r1 x" and hl: "\<forall>x. held r1 x \<longrightarrow> held r x"
    and gone: "\<forall>i x. x \<in> set (Q i) \<and> x \<notin> set (?L i) \<and> \<not> (i \<in> S \<and> dead_slot os (slots r i)) \<longrightarrow> \<not> held r1 x"
    using sw by (rule sweptD)
  show ?thesis
  proof (cases "registered (nodes r1 x) \<noteq> 0 \<and> \<not> pid_alive os (node_pid (nodes r x))")
    case True
    let ?r2 = "node_free (node_detach r1 x) x"
    have "x \<in> set (?L (obj (nodes r1 x)))" using True pool_member [OF region_pool [OF R1], of x] by simp
    then have "x \<in> set (Q (obj (nodes r1 x)))" by (auto simp: lists_left_def split: if_splits)
    then have d: "dead_node os (nodes r x)"
      using True pool_member [OF region_pool [OF R], of x] by (simp add: dead_node_def)
    have rm: "remove1 x (?L i) = lists_left os r Q (insert x N) S i" for i
      using d pool_distinct [OF region_pool [OF R], of i]
      by (auto simp: lists_left_def simp flip: filter_neq_remove1 intro!: filter_cong)
    then have "region_rep ?r2 (lists_left os r Q (insert x N) S) (x # F)"
      using region_rep_recycle [OF R1, of x] True by simp
    moreover have "core ?r2 = (core r1)\<lparr>node_free_head := x\<rparr>" by (simp add: core_def node_free_def)
    then have "core ?r2 = (core r)\<lparr>node_free_head := node_free_head (core ?r2)\<rparr>" by (subst (asm) c) simp
    moreover have "held ?r2 y" if "held r y" "\<not> dead_node os (nodes r y)" for y
      using that d hd held_iff [OF region_pool [OF R1]] held_iff [OF region_pool [OF calculation(1)]]
      by (auto simp: node_held_def)
    moreover have "held r y" if "held ?r2 y" for y
      using that hl held_iff [OF region_pool [OF R1], of y] held_iff [OF region_pool [OF calculation(1)], of y]
      by (auto simp: node_held_def)
    moreover have "\<not> held ?r2 y"
      if "y \<in> set (Q i)" "y \<notin> set (lists_left os r Q (insert x N) S i)" "\<not> (i \<in> S \<and> dead_slot os (slots r i))" for i y
    proof -
      have "y = x \<or> y \<notin> set (?L i)" using that(2) unfolding rm [symmetric] by (metis in_set_remove1)
      with that gone held_iff [OF region_pool [OF R1], of y] held_iff [OF region_pool [OF calculation(1)], of y]
      show ?thesis by (auto simp: node_held_def)
    qed
    ultimately have "swept os r Q (insert x N) S n ?r2"
      using b p n ww unfolding swept_def bare_node_free bare_node_detach by auto
    with True p show ?thesis by (auto simp: reap_one_def)
  next
    case False
    then have "registered (nodes r1 x) = 0 \<or> \<not> dead_node os (nodes r x)" by (auto simp: dead_node_def)
    with False swept_skip_node [OF sw] show ?thesis by (auto simp: reap_one_def)
  qed
qed

lemma reap_slot_step:
  assumes R: "region_rep r Q F0" and sw: "swept os r Q N S n r1" and i: "i \<notin> S"
    and u: "state (slots r i) = SLOT_USED" "slot_pid (slots r i) \<noteq> 0"
  shows "\<exists>m r2. reap_all os r1 [slot_cand i (slots r i)] = Some (m, r2) \<and>
    swept os r Q N (insert i S) (n + m) r2"
proof -
  let ?L = "lists_left os r Q N S"
  obtain F where R1: "region_rep r1 ?L F"
    and b: "\<forall>i. bare r1 i = (if i \<in> S \<and> dead_slot os (slots r i) then freed_slot (bare r i) else bare r i)"
    and p: "\<forall>x. node_pid (nodes r1 x) = node_pid (nodes r x)"
    and c: "core r1 = (core r)\<lparr>node_free_head := node_free_head (core r1)\<rparr>"
    and n: "n = of_nat (card {i \<in> S. dead_slot os (slots r i)})"
    and ww: "\<forall>x. wait_word (nodes r1 x) = wait_word (nodes r x)"
    and hd: "\<forall>x. held r x \<and> \<not> dead_node os (nodes r x) \<longrightarrow> held r1 x" and hl: "\<forall>x. held r1 x \<longrightarrow> held r x"
    and gone: "\<forall>i x. x \<in> set (Q i) \<and> x \<notin> set (?L i) \<and> \<not> (i \<in> S \<and> dead_slot os (slots r i)) \<longrightarrow> \<not> held r1 x"
    using sw by (rule sweptD)
  have bi: "bare r1 i = bare r i" using b i by simp
  note fields = bare_sel [of r1 i, unfolded bi bare_sel]
  show ?thesis
  proof (cases "dead_slot os (slots r i)")
    case True
    have i0: "i \<noteq> 0" using u(2) region_reserved [OF R] by (auto simp: reserved_slot_def)
    obtain r2 where r2: "wake_object os (free_slot r1 i) i = Some r2" "region_rep r2 (?L(i := [])) F"
      "woken (free_slot r1 i) (?L i) r2"
      using free_slot_wake [OF R1 _ i0] fields u by metis
    have b2: "bare r2 = bare (free_slot r1 i)" and c2: "core r2 = core r1"
      using r2(3) by (simp_all add: woken_def core_def)
    have li: "?L(i := []) = lists_left os r Q N (insert i S)" using True by (auto simp: lists_left_def)
    moreover have "\<forall>j. bare r2 j = (if j \<in> insert i S \<and> dead_slot os (slots r j)
        then freed_slot (bare r j) else bare r j)"
    proof
      fix j
      have "bare r2 j = (if j = i then freed_slot (bare r1 j) else bare r1 j)"
        by (simp add: b2) (simp add: bare_def freed_slot_def)
      with b bi True i show "bare r2 j = (if j \<in> insert i S \<and> dead_slot os (slots r j)
        then freed_slot (bare r j) else bare r j)" by auto
    qed
    moreover have "\<forall>x. node_pid (nodes r2 x) = node_pid (nodes r x)" using p r2(3) by (simp add: woken_def)
    moreover have "{j \<in> insert i S. dead_slot os (slots r j)} = insert i {j \<in> S. dead_slot os (slots r j)}"
      using True by auto
    then have "n + 1 = of_nat (card {j \<in> insert i S. dead_slot os (slots r j)})"
      using i n by (simp add: add.commute)
    moreover have hr: "held r2 y \<longleftrightarrow> held r1 y" for y
      using held_iff [OF region_pool [OF R1]] held_iff [OF region_pool [OF r2(2)]] coreD(2) [OF c2]
      by (simp add: node_held_def)
    moreover have "\<forall>x. wait_word (nodes r2 x) = wait_word (nodes r x)" using ww r2(3) by (simp add: woken_def)
    moreover have "\<not> held r2 y"
      if "y \<in> set (Q j)" "y \<notin> set (lists_left os r Q N (insert i S) j)" "\<not> (j \<in> insert i S \<and> dead_slot os (slots r j))" for j y
      using that gone True unfolding hr li [symmetric] by (cases "j = i") auto
    ultimately have "swept os r Q N (insert i S) (n + 1) r2"
      using r2(2) c c2 hd hl unfolding swept_def by auto
    moreover have "reap_all os r1 [slot_cand i (slots r i)] = Some (1, r2)"
      using True u r2(1) by (simp add: reap_one_def dead_slot_def spilled_def Let_def fields)
    ultimately show ?thesis by blast
  next
    case False
    then have "reap_all os r1 [slot_cand i (slots r i)] = Some (0, r1)"
      using u by (auto simp: reap_one_def dead_slot_def spilled_def Let_def fields)
    with swept_skip_slot [OF sw False] show ?thesis by auto
  qed
qed

lemma below_Suc: "x < hi \<Longrightarrow> {y. y < x + 1} = insert x {y. y < x}" for x hi :: u32
  using unat_less_Suc [of x hi] by (auto simp: word_less_nat_alt word_unat_eq_iff)

lemma le_Suc: "x < hi \<Longrightarrow> y \<le> x \<Longrightarrow> y \<le> x + 1" for x y hi :: u32
  using unat_less_Suc [of x hi] by (simp add: word_le_nat_alt)

lemma swept_unregistered:
  assumes "swept os r Q N S n r1" "swept os r Q N' S' n' r2" "N \<subseteq> N'" "S \<subseteq> S'"
    and "registered (nodes r1 x) = 0"
  shows "registered (nodes r2 x) = 0"
proof (rule ccontr)
  assume g: "registered (nodes r2 x) \<noteq> 0"
  obtain F1 F2 where R: "region_rep r1 (lists_left os r Q N S) F1" "region_rep r2 (lists_left os r Q N' S') F2"
    using assms(1,2) by (metis sweptD)
  let ?i = "obj (nodes r2 x)"
  have "x \<in> set (lists_left os r Q N' S' ?i)" using g pool_member [OF region_pool [OF R(2)], of x] by simp
  then have "x \<in> set (lists_left os r Q N S ?i)" using assms(3,4) by (auto simp: lists_left_def split: if_splits)
  with assms(5) pool_member [OF region_pool [OF R(1)], of x] show False by simp
qed

lemma swept_slot_same:
  assumes "swept os r Q N S n r1" "i \<notin> S"
  shows "visit_slot r1 i = visit_slot r i"
proof -
  have "bare r1 i = bare r i" using assms unfolding swept_def by auto
  note bare_sel [of r1 i, unfolded this bare_sel]
  then show ?thesis by (simp add: visit_slot_def slot_cand_def)
qed

text \<open>Reaping a chunk extends what is swept to all that the chunk visited.\<close>

abbreviation swept_to :: "Os \<Rightarrow> Region \<Rightarrow> (u32 \<Rightarrow> u32 list) \<Rightarrow> SweepScan \<Rightarrow> u32 \<Rightarrow> Region \<Rightarrow> bool" where
  "swept_to os r Q sc n r' \<equiv> swept os r Q {x. x < next_node sc} {i. i < next_slot sc} n r'"

lemma chunk_reap:
  assumes R: "region_rep r Q F0" and sw1: "swept_to os r Q sc0 n1 r1"
  shows "next_node sc0 \<le> next_node sc \<and> next_slot sc0 \<le> next_slot sc \<longrightarrow>
    (\<exists>m r2. reap_all os r1 out = Some (m, r2) \<and> swept_to os r Q sc (n1 + m) r2) \<longrightarrow>
    (case chunk_loop r1 sc out of (sc', out') \<Rightarrow>
       \<exists>m r2. reap_all os r1 out' = Some (m, r2) \<and> swept_to os r Q sc' (n1 + m) r2)"
proof (induction rule: chunk_loop_induct [where r = r1])
  case (node sc out x)
  let ?x = "next_node sc"
  note below = below_Suc [OF node(2)]
  have "\<exists>m' r3. reap_all os r1 (out @ visit_node r1 ?x) = Some (m', r3) \<and> swept_to os r Q (node_step sc) (n1 + m') r3"
    if le: "next_node sc0 \<le> ?x" "next_slot sc0 \<le> next_slot sc"
      and m: "reap_all os r1 out = Some (m, r2)" and sw: "swept_to os r Q sc (n1 + m) r2" for m r2
  proof (cases "registered (nodes r1 ?x) = 0")
    case True
    have "registered (nodes r2 ?x) = 0"
      by (rule swept_unregistered [OF sw1 sw _ _ True]) (use le in auto)
    then have "swept_to os r Q (node_step sc) (n1 + m) r2"
      using swept_skip_node [OF sw] by (simp add: below)
    with True m show ?thesis by (simp add: visit_node_def)
  next
    case False
    obtain r3 where "reap_all os r2 [node_cand ?x (node_pid (nodes r ?x))] = Some (0, r3)"
      "swept_to os r Q (node_step sc) (n1 + m) r3"
      using reap_node_step [OF R sw, of ?x] by (auto simp: below)
    moreover have "node_pid (nodes r1 ?x) = node_pid (nodes r ?x)" using sw1 unfolding swept_def by blast
    ultimately show ?thesis
      using False m by (simp add: visit_node_def reap_all_append del: reap_all_simps)
  qed
  with node le_Suc [OF node(2), of "next_node sc0"] show ?case by auto
next
  case (slot sc out x)
  let ?i = "next_slot sc"
  note below = below_Suc [OF slot(3)]
  have "\<exists>m' r3. reap_all os r1 (out @ visit_slot r1 ?i) = Some (m', r3) \<and> swept_to os r Q (slot_step sc) (n1 + m') r3"
    if le: "next_node sc0 \<le> next_node sc" "next_slot sc0 \<le> ?i"
      and m: "reap_all os r1 out = Some (m, r2)" and sw: "swept_to os r Q sc (n1 + m) r2" for m r2
  proof -
    have v: "visit_slot r1 ?i = visit_slot r ?i" by (rule swept_slot_same [OF sw1]) (use le in auto)
    show ?thesis
    proof (cases "state (slots r ?i) = SLOT_USED \<and> slot_pid (slots r ?i) \<noteq> 0")
      case True
      obtain m' r3 where "reap_all os r2 [slot_cand ?i (slots r ?i)] = Some (m', r3)"
        "swept_to os r Q (slot_step sc) (n1 + m + m') r3"
        using reap_slot_step [OF R sw, of ?i] True by (auto simp: below)
      moreover have "visit_slot r1 ?i = [slot_cand ?i (slots r ?i)]"
        unfolding v using True by (simp add: visit_slot_def)
      ultimately show ?thesis
        using m by (auto simp: reap_all_append add.assoc simp del: reap_all_simps)
    next
      case False
      then have "swept_to os r Q (slot_step sc) (n1 + m) r2"
        using swept_skip_slot [OF sw, of ?i] by (auto simp: below dead_slot_def)
      moreover have "visit_slot r1 ?i = []" unfolding v using False by (simp add: visit_slot_def)
      ultimately show ?thesis using m by simp
    qed
  qed
  with slot le_Suc [OF slot(3), of "next_slot sc0"] show ?case by auto
qed simp

lemma sweep_loop_swept:
  assumes R: "region_rep r Q F0"
  shows "swept_to os r Q sc freed r1 \<Longrightarrow> cache_ok os cache \<Longrightarrow>
    \<exists>n r' sc'. sweep_loop os r1 sc cache freed = Some (n, r') \<and> scan_done sc' \<and>
      node_hi sc' = node_hi sc \<and> slot_hi sc' = slot_hi sc \<and> swept_to os r Q sc' n r'"
proof (induction os r1 sc cache freed rule: sweep_loop.induct)
  case (1 os r1 sc cache freed)
  obtain sc1 cands where c: "next_chunk r1 sc = (sc1, cands)" by (cases "next_chunk r1 sc")
  obtain vs cache1 where v: "verdicts os cache cands = (vs, cache1)" by (cases "verdicts os cache cands")
  have hi: "node_hi sc1 = node_hi sc" "slot_hi sc1 = slot_hi sc"
    using c chunk_loop_grows [where r = r1 and sc = sc and out = "[]"] by (simp_all add: next_chunk_def)
  obtain m r2 where m: "reap_all os r1 cands = Some (m, r2)" and sw: "swept_to os r Q sc1 (freed + m) r2"
    using chunk_reap [OF R 1(2), of sc "[]"] c 1(2) by (auto simp: next_chunk_def)
  show ?case
  proof (cases "cands = []")
    case True
    with m sw have "swept_to os r Q sc1 freed r1" by simp
    with True c hi next_chunk_empty show ?thesis by (auto simp: sweep_loop.simps [of os r1])
  next
    case False
    have vs: "vs = map (alive_cand os) cands" "cache_ok os cache1"
      using verdicts_ok [OF 1(3), of cands] v by simp_all
    then have "reap_dead_locked os r1 cands vs = Some (m, r2)" using m by (simp add: reap_all_def)
    with 1(1) [OF c [symmetric] False v [symmetric] this HOL.refl sw vs(2)] False c v hi
    show ?thesis by (simp add: sweep_loop.simps [of os r1])
  qed
qed

lemma new_scan_bounds:
  assumes R: "region_rep r Q F"
  shows "registered (nodes r x) \<noteq> 0 \<Longrightarrow> x < node_hi (new_scan r)"
    and "state (slots r j) = SLOT_USED \<Longrightarrow> j \<noteq> 0 \<Longrightarrow> j < slot_hi (new_scan r)"
proof -
  show "x < node_hi (new_scan r)" if "registered (nodes r x) \<noteq> 0"
    using that pool_bounds [OF region_pool [OF R], of x] pool_fresh [OF region_pool [OF R]] by (simp add: new_scan_def Let_def)
  show "j < slot_hi (new_scan r)" if u: "state (slots r j) = SLOT_USED" "j \<noteq> 0"
  proof (cases "scan_wrapped r")
    case True
    moreover have "\<not> SLOT_COUNT \<le> j" using u region_beyond [OF R, of j] by auto
    ultimately show ?thesis by (simp add: new_scan_def Let_def scan_wrapped_def)
  next
    case False
    then have "next_scan (header r) AND SCAN_WRAPPED = 0" by (simp add: scan_wrapped_def)
    then have "next_scan (header r) = scan_cursor r"
      unfolding scan_cursor_def by (metis bit.compl_one and.right_neutral bit.conj_disj_distrib bit.disj_cancel_right or.left_neutral)
    moreover have "\<not> scan_cursor r \<le> j" using False u region_above [OF R, of j] by auto
    ultimately show ?thesis using False by (simp add: new_scan_def Let_def scan_wrapped_def)
  qed
qed

lemma new_scan_covers:
  assumes R: "region_rep r Q F" and d: "scan_done sc" "node_hi sc = node_hi (new_scan r)"
    "slot_hi sc = slot_hi (new_scan r)"
  shows "x \<in> set (Q i) \<Longrightarrow> x < next_node sc" and "dead_slot os (slots r j) \<Longrightarrow> j < next_slot sc"
proof -
  show "x < next_node sc" if "x \<in> set (Q i)"
    using that new_scan_bounds(1) [OF R, of x] pool_member [OF region_pool [OF R], of x i] d by (auto simp: scan_done_def)
  show "j < next_slot sc" if "dead_slot os (slots r j)"
    using that new_scan_bounds(2) [OF R, of j] region_reserved [OF R] d
    by (cases "j = 0") (auto simp: scan_done_def dead_slot_def reserved_slot_def)
qed

lemma swept_everything:
  assumes R: "region_rep r Q F" and d: "scan_done sc" "node_hi sc = node_hi (new_scan r)"
    "slot_hi sc = slot_hi (new_scan r)" and sw: "swept_to os r Q sc n r'"
  shows "swept os r Q UNIV UNIV n r'"
proof -
  note cov = new_scan_covers [OF R d]
  have "lists_left os r Q UNIV UNIV i = lists_left os r Q {x. x < next_node sc} {i. i < next_slot sc} i" for i
    using cov by (auto simp: lists_left_def intro!: filter_cong)
  then show ?thesis
    by (intro swept_same_lists [OF sw]) (use cov in auto)
qed

lemma region_rep_stamp:
  "region_rep r Q F \<Longrightarrow> region_rep (upd_header r (\<lambda>h. h\<lparr>sweep_ns := t\<rparr>)) Q F"
  by (simp add: region_rep_def pool_rep_def scan_cursor_def scan_wrapped_def)

lemma sweep_dead_locked_swept:
  assumes R: "region_rep r Q F"
  obtains n r' where "sweep_dead_locked os r = Some (n, r')" "swept os r Q UNIV UNIV n r'"
proof -
  have "swept_to os r Q (new_scan r) 0 r"
    using swept_start [OF R] by (simp add: new_scan_def Let_def)
  from sweep_loop_swept [OF R this new_cache_ok] obtain n r' sc where
    l: "sweep_loop os r (new_scan r) new_cache 0 = Some (n, r')" and d: "scan_done sc"
    "node_hi sc = node_hi (new_scan r)" "slot_hi sc = slot_hi (new_scan r)" and sw: "swept_to os r Q sc n r'"
    by blast
  from swept_everything [OF R d sw] l that show ?thesis by (simp add: sweep_dead_locked_def)
qed

subsection \<open>The sweep that drops the lock\<close>

lemma swept_lock [simp]:
  "swept os r Q N S n (lock_mark os' r') = swept os r Q N S n r'"
  "swept os r Q N S n (guard_drop r') = swept os r Q N S n r'"
  by (simp_all add: swept_def held_def)

text \<open>The node of a dead waiter is back in the pool, unless its object died with it.\<close>

lemma swept_recycled:
  assumes R: "region_rep r Q F" and sw: "swept os r Q UNIV UNIV n r'" and R': "region_rep r' (lists_left os r Q UNIV UNIV) F'"
    and x: "x \<in> set (Q i)" "dead_node os (nodes r x)" "\<not> dead_slot os (slots r i)"
  shows "x \<in> set F'"
proof -
  have "x < node_fresh (header r)"
    using x(1) pool_member [OF region_pool [OF R], of x i] pool_bounds [OF region_pool [OF R], of x] by simp
  moreover have "core r' = (core r)\<lparr>node_free_head := node_free_head (core r')\<rparr>" using sw by (rule sweptD)
  then have "node_fresh (core r') = node_fresh (core r)" by (metis Header.select_convs Header.simps Header.surjective)
  then have "node_fresh (header r') = node_fresh (header r)" by (simp add: core_def)
  moreover have "x \<notin> set (lists_left os r Q UNIV UNIV i)" using x by (simp add: lists_left_def)
  then have "\<not> held r' x" using x(1,3) sw sweptD by (metis UNIV_I)
  ultimately show ?thesis using held_iff [OF region_pool [OF R'], of x] by (simp add: node_held_def)
qed

lemma auto_sweep_loop_swept:
  assumes R: "region_rep r Q F0" and os: "on_step os = (\<lambda>_. id)" "\<forall>k. lock_ret os k = 0"
  shows "swept_to os r Q sc freed r1 \<Longrightarrow> cache_ok os cache \<Longrightarrow>
    \<exists>n r' sc'. auto_sweep_loop os k r1 sc cache freed = Some (n, r') \<and> scan_done sc' \<and>
      node_hi sc' = node_hi sc \<and> slot_hi sc' = slot_hi sc \<and> swept_to os r Q sc' n r'"
proof (induction "scan_left sc" arbitrary: k r1 sc cache freed rule: less_induct)
  case less
  obtain sc1 cands where c: "next_chunk r1 sc = (sc1, cands)" by (cases "next_chunk r1 sc")
  obtain vs cache1 where v: "verdicts os cache cands = (vs, cache1)" by (cases "verdicts os cache cands")
  have hi: "node_hi sc1 = node_hi sc" "slot_hi sc1 = slot_hi sc"
    using c chunk_loop_grows [where r = r1 and sc = sc and out = "[]"] by (simp_all add: next_chunk_def)
  let ?r1 = "lock_mark os (guard_drop r1)"
  have c': "next_chunk ?r1 sc = (sc1, cands)"
    using c chunk_loop_cong [of ?r1 r1 sc "[]"] by (simp add: next_chunk_def)
  obtain m r2 where m: "reap_all os ?r1 cands = Some (m, r2)" and sw: "swept_to os r Q sc1 (freed + m) r2"
    using chunk_reap [OF R, of os sc freed ?r1 sc "[]"] c' less.prems(1) by (auto simp: next_chunk_def)
  show ?case
  proof (cases "cands = []")
    case True
    with m sw have "swept_to os r Q sc1 freed (lock_mark os (guard_drop r1))" by auto
    then have "swept_to os r Q sc1 freed (guard_drop r1)" by simp
    with True c hi next_chunk_empty show ?thesis by (auto simp: auto_sweep_loop.simps [of os k r1])
  next
    case False
    have vs: "vs = map (alive_cand os) cands" "cache_ok os cache1"
      using verdicts_ok [OF less.prems(2), of cands] v by simp_all
    then have "reap_dead_locked os ?r1 cands vs = Some (m, r2)" using m by (simp add: reap_all_def)
    with less.hyps [OF next_chunk_left [OF c False] sw vs(2), of "Suc k"] False c v hi os
    show ?thesis by (simp add: auto_sweep_loop.simps [of os k r1] lock_guard_ok)
  qed
qed

text \<open>Stale candidates: whatever a candidate says, a live object is not touched.\<close>

definition spares_live :: "Os \<Rightarrow> Region \<Rightarrow> Region \<Rightarrow> bool" where
  "spares_live os r r' \<longleftrightarrow> (\<forall>i. \<not> dead_slot os (slots r i) \<longrightarrow> bare r' i = bare r i)"

lemma dead_slot_bare: "bare r' i = bare r i \<Longrightarrow> dead_slot os (slots r' i) = dead_slot os (slots r i)"
proof -
  assume "bare r' i = bare r i"
  note bare_sel [of r' i, unfolded this bare_sel]
  then show ?thesis by (simp add: dead_slot_def held_by_def spilled_def holders_cap_def)
qed

lemma spares_live_trans: "spares_live os r r1 \<Longrightarrow> spares_live os r1 r2 \<Longrightarrow> spares_live os r r2"
  unfolding spares_live_def by (metis dead_slot_bare)

lemma reap_one_safe:
  assumes R: "region_ok r" and p: "cand_node c \<or> cand_pid c \<noteq> 0" and v: "\<not> alive_cand os c"
  shows "\<exists>n r'. reap_one os r c = Some (n, r') \<and> region_ok r' \<and> spares_live os r r'"
proof (cases "cand_node c")
  case True
  let ?x = "cand_index c"
  let ?r = "node_free (node_detach r ?x) ?x"
  from R obtain Q F where "region_rep r Q F" by (auto simp: region_ok_def)
  then have "registered (nodes r ?x) \<noteq> 0 \<Longrightarrow> region_ok ?r"
    using region_rep_recycle unfolding region_ok_def by blast
  moreover have "spares_live os r ?r" "spares_live os r r" by (simp_all add: spares_live_def)
  ultimately show ?thesis using True R by (auto simp: reap_one_def Let_def)
next
  case False
  let ?i = "cand_index c"
  let ?s = "slots r ?i"
  show ?thesis
  proof (cases "state ?s = SLOT_USED \<and> slot_pid ?s = cand_pid c \<and> generation ?s = cand_generation c \<and>
      holders_len ?s = cand_holders_len c \<and> holders ?s = cand_holders c \<and> holders_len ?s AND HOLDER_OVERFLOW = 0")
    case True
    from R obtain Q F where Q: "region_rep r Q F" by (auto simp: region_ok_def)
    have i0: "?i \<noteq> 0" using True p False region_reserved [OF Q] by (auto simp: reserved_slot_def)
    obtain r' where r': "wake_object os (free_slot r ?i) ?i = Some r'" "region_rep r' (Q(?i := [])) F"
      "woken (free_slot r ?i) (Q ?i) r'" using free_slot_wake [OF Q _ i0] True by blast
    have "dead_slot os ?s"
      using True v p False by (auto simp: dead_slot_def spilled_def alive_cand_def held_by_def holders_cap_def)
    moreover have "bare r' = bare (free_slot r ?i)" using r'(3) by (simp add: woken_def)
    ultimately have "spares_live os r r'"
      by (auto simp: spares_live_def) (metis bare_def free_slot_sel(4))
    with True False r' show ?thesis by (auto simp: reap_one_def Let_def region_ok_def)
  next
    case no: False
    with False R show ?thesis by (auto simp: reap_one_def Let_def spares_live_def)
  qed
qed

lemma reap_all_safe:
  "region_ok r \<Longrightarrow> \<forall>c\<in>set cs. cand_node c \<or> cand_pid c \<noteq> 0 \<Longrightarrow>
   \<exists>n r'. reap_all os r cs = Some (n, r') \<and> region_ok r' \<and> spares_live os r r'"
proof (induction cs arbitrary: r)
  case (Cons c cs)
  show ?case
  proof (cases "alive_cand os c")
    case False
    obtain n r1 where r1: "reap_one os r c = Some (n, r1)" "region_ok r1" "spares_live os r r1"
      using reap_one_safe [OF Cons.prems(1) _ False] Cons.prems(2) by auto
    obtain m r2 where "reap_all os r1 cs = Some (m, r2)" "region_ok r2" "spares_live os r1 r2"
      using Cons.IH [OF r1(2)] Cons.prems(2) by auto
    with r1 False show ?thesis using spares_live_trans by auto
  qed (use Cons in simp)
qed (simp add: spares_live_def)

lemma next_chunk_pids: "next_chunk r sc = (sc', cs) \<Longrightarrow> \<forall>c\<in>set cs. cand_node c \<or> cand_pid c \<noteq> 0"
proof -
  have "(\<forall>c\<in>set out. cand_node c \<or> cand_pid c \<noteq> 0) \<longrightarrow>
      (case chunk_loop r sc out of (sc', out') \<Rightarrow> \<forall>c\<in>set out'. cand_node c \<or> cand_pid c \<noteq> 0)" for out
    by (induction rule: chunk_loop_induct [where r = r])
      (auto simp: visit_node_def visit_slot_def split: if_splits)
  from this [of "[]"] show "next_chunk r sc = (sc', cs) \<Longrightarrow> \<forall>c\<in>set cs. cand_node c \<or> cand_pid c \<noteq> 0"
    by (simp add: next_chunk_def)
qed

lemma lock_guard_returns:
  assumes "\<exists>m\<ge>n. lock_ret os m \<notin> {ETIMEDOUT, EINTR}"
  shows "\<exists>g. lock_guard os n r = Some g"
proof -
  define m where "m = (LEAST m. n \<le> m \<and> lock_ret os m \<notin> {ETIMEDOUT, EINTR})"
  have m: "n \<le> m \<and> lock_ret os m \<notin> {ETIMEDOUT, EINTR}"
    unfolding m_def using assms by (rule LeastI_ex)
  have "\<forall>k. n \<le> k \<and> k < m \<longrightarrow> lock_ret os k \<in> {ETIMEDOUT, EINTR}"
    unfolding m_def using not_less_Least by blast
  then have "lock_guard os n r = lock_guard os m r" using m by (intro lock_guard_after_retries) auto
  moreover have "\<exists>g. lock_guard os m r = Some g"
    using m lock_guard_ok [of os m] lock_guard_err [of os m] by (cases "lock_ret os m \<in> {0, EOWNERDEAD}") auto
  ultimately show ?thesis by simp
qed

text \<open>
  \<open>neighbourly os\<close>: the other threads leave the region well formed whenever the call lets them
  in, and the lock function does not ask for another try for ever.
\<close>

definition neighbourly :: "Os \<Rightarrow> bool" where
  "neighbourly os \<longleftrightarrow>
     (\<forall>s. region_ok s \<longrightarrow> region_ok (on_lock os s) \<and> (\<forall>k. region_ok (on_step os k s))) \<and>
     (\<forall>n. \<exists>m\<ge>n. lock_ret os m \<notin> {ETIMEDOUT, EINTR})"

lemma region_ok_lock [simp]: "region_ok (lock_mark os r) = region_ok r" "region_ok (guard_drop r) = region_ok r"
  by (simp_all add: region_ok_def)

lemma auto_sweep_loop_safe:
  assumes "neighbourly os"
  shows "region_ok r \<Longrightarrow> cache_ok os cache \<Longrightarrow>
    \<exists>n r'. auto_sweep_loop os k r sc cache freed = Some (n, r') \<and> region_ok r'"
proof (induction "scan_left sc" arbitrary: k r sc cache freed rule: less_induct)
  case less
  obtain sc1 cands where c: "next_chunk r sc = (sc1, cands)" by (cases "next_chunk r sc")
  obtain vs cache1 where v: "verdicts os cache cands = (vs, cache1)" by (cases "verdicts os cache cands")
  have vs: "vs = map (alive_cand os) cands" "cache_ok os cache1"
    using verdicts_ok [OF less.prems(2), of cands] v by simp_all
  let ?r = "on_step os k (guard_drop r)"
  have ok: "region_ok ?r" using assms less.prems(1) by (simp add: neighbourly_def)
  obtain g where g: "lock_guard os (Suc k) ?r = Some g"
    using lock_guard_returns [of "Suc k" os ?r] assms unfolding neighbourly_def by blast
  show ?case
  proof (cases "cands = [] \<or> (\<exists>e. g = Inl e)")
    case True
    with c v g ok less.prems(1) show ?thesis by (auto simp: auto_sweep_loop.simps [of os k r])
  next
    case False
    with lock_guard_Inr [OF g] have g': "g = Inr (lock_mark os ?r)" by blast
    obtain m r2 where m: "reap_all os (lock_mark os ?r) cands = Some (m, r2)" and "region_ok r2"
      using reap_all_safe [OF _ next_chunk_pids [OF c], of "lock_mark os ?r" os] ok by auto
    with less.hyps [OF next_chunk_left [OF c] _ vs(2), of r2 "Suc k" "freed + m"] False
    show ?thesis using c v g g' vs by (auto simp: auto_sweep_loop.simps [of os k r] reap_all_def)
  qed
qed

subsection \<open>Properties\<close>

text \<open>A region with an object and a waiter, both of process 42, and the death of process 42.\<close>

definition after_death :: Os where
  "after_death = (quiet_os 7)\<lparr>kill_ret := (\<lambda>p. if p = 42 then ESRCH else 0)\<rparr>"

lemma after_death_simps [simp]:
  "undisturbed after_death" "pid_alive after_death p \<longleftrightarrow> p \<noteq> 0 \<and> p \<noteq> 42" "getpid after_death = 7"
  by (simp_all add: after_death_def undisturbed_def quiet_os_def pid_alive_def ESRCH_def)

lemma one_waiter_slots:
  "slots (one_waiter ty w pid) i =
     (if i = 1 then (slots (one_object ty w pid) 1)\<lparr>waiter_head := 0\<rparr> else slots (one_object ty w pid) i)"
  by (simp add: one_waiter_def node_alloc_def node_register_def Let_def NODE_COUNT_def word_le_nat_alt)

lemma one_waiter_dead: "dead_slot after_death (slots (one_waiter ty w 42) i) \<longleftrightarrow> i = 1"
  by (auto simp: one_waiter_slots dead_slot_def state_consts spilled_def held_by_def holders_cap_def)



text \<open>
  C24: reaping never harms the living. Whatever the candidates say, and however the region changed
  since they were collected, reaping them with the verdicts of the liveness probe ends, keeps the
  invariant, and leaves every object alone whose creator or one of whose current holders is
  alive, whose holder list spilled, or that is the reserved slot.
\<close>

theorem reap_spares_live:
  assumes "region_ok r" "cache_ok os cache" "\<forall>c\<in>set cands. cand_node c \<or> cand_pid c \<noteq> 0"
  shows "\<exists>n r'. reap_dead_locked os r cands (fst (verdicts os cache cands)) = Some (n, r') \<and> region_ok r' \<and>
    (\<forall>i. pid_alive os (slot_pid (slots r i)) \<or> (\<exists>p\<in>set (held_by (slots r i)). pid_alive os p) \<or>
       spilled (slots r i) \<or> i = 0 \<longrightarrow> bare r' i = bare r i)"
proof -
  obtain n r' where n: "reap_all os r cands = Some (n, r')" "region_ok r'" "spares_live os r r'"
    using reap_all_safe [OF assms(1,3)] by blast
  have "\<not> dead_slot os (slots r 0)"
    using assms(1) region_reserved by (fastforce simp: region_ok_def dead_slot_def reserved_slot_def)
  with n verdicts_ok [OF assms(2), of cands] show ?thesis
    by (intro exI [of _ n] exI [of _ r']) (auto simp: reap_all_def spares_live_def dead_slot_def)
qed

theorem reap_spares_live_witness:
  "let r = one_object TYPE_SEM (pack_sem 2 5) 43; c = slot_cand 1 (slots (one_object TYPE_SEM (pack_sem 2 5) 42) 1) in
   region_ok r \<and> cache_ok after_death new_cache \<and> (\<forall>c\<in>set [c]. cand_node c \<or> cand_pid c \<noteq> 0) \<and>
   (\<exists>n r'. reap_dead_locked after_death r [c] (fst (verdicts after_death new_cache [c])) = Some (n, r') \<and>
      region_ok r' \<and> bare r' 1 = bare r 1)"
proof -
  let ?r = "one_object TYPE_SEM (pack_sem 2 5) 43"
  let ?c = "slot_cand 1 (slots (one_object TYPE_SEM (pack_sem 2 5) 42) 1)"
  have "sem_ok (pack_sem 2 5)" by (simp add: sem_ok_def pack_sem_join word_le_nat_alt)
  then have "region_ok ?r" unfolding region_ok_def using one_object_rep word_ok_type(1) by blast
  then have h: "region_ok ?r" "cache_ok after_death new_cache" "\<forall>c\<in>set [?c]. cand_node c \<or> cand_pid c \<noteq> 0"
    by simp_all
  have "pid_alive after_death (slot_pid (slots ?r 1))" by simp
  with reap_spares_live [OF h] h show ?thesis unfolding Let_def by blast
qed

text \<open>
  The liveness verdicts that a sweep takes from its cache of 32 processes are those of the
  operating system, however many processes pass through the cache.
\<close>

theorem verdicts_exact:
  "fst (verdicts os new_cache cands) = map (\<lambda>c. pid_alive os (cand_pid c) \<or>
     (\<exists>p\<in>set (take (min (unat (cand_holders_len c AND NOT HOLDER_OVERFLOW)) MAX_HOLDERS) (cand_holders c)).
        pid_alive os p)) cands"
  using verdicts_ok [OF new_cache_ok] by (simp add: alive_cand_def)

text \<open>
  C26: the rate-limited sweep of the wait path returns and leaves the region well formed, although
  it drops the lock between collecting and reaping and other threads change the region meanwhile,
  as long as those leave it well formed and the lock function does not ask for retries for ever.
\<close>

theorem auto_sweep_safe:
  assumes "region_ok r" "neighbourly os"
  shows "\<exists>r'. auto_sweep_dead os calls interval r = Some (calls + 1, r') \<and> region_ok r'"
proof -
  have ok: "region_ok (on_lock os r)" using assms by (simp add: neighbourly_def)
  obtain g where g: "lock_guard os 0 (on_lock os r) = Some g"
    using lock_guard_returns [of 0 os "on_lock os r"] assms(2) unfolding neighbourly_def by blast
  have stamp: "region_ok (upd_header s (\<lambda>h. h\<lparr>sweep_ns := now\<rparr>))" if "region_ok s" for s now
    using that by (auto simp: region_ok_def intro: region_rep_stamp)
  show ?thesis
  proof (cases g)
    case (Inr r1)
    then have r1: "r1 = lock_mark os (on_lock os r)" using lock_guard_Inr [OF g] by auto
    let ?r2 = "upd_header r1 (\<lambda>h. h\<lparr>sweep_ns := locked_clock_ns os\<rparr>)"
    have "region_ok ?r2" using stamp ok r1 by simp
    from auto_sweep_loop_safe [OF assms(2) this new_cache_ok]
    obtain n r3 where "auto_sweep_loop os 0 ?r2 (new_scan ?r2) new_cache 0 = Some (n, r3)" "region_ok r3"
      by blast
    with assms(1) ok g Inr r1 show ?thesis by (auto simp: auto_sweep_dead_def Let_def)
  qed (use assms(1) ok g in \<open>auto simp: auto_sweep_dead_def Let_def\<close>)
qed

theorem auto_sweep_safe_witness:
  "let r = one_waiter TYPE_SEM (pack_sem 2 5) 42;
       os = after_death\<lparr>clock_ns := 500, locked_clock_ns := 500, on_lock := (\<lambda>r. upd_header r (\<lambda>h. h\<lparr>sweep_ns := 7\<rparr>))\<rparr> in
   region_ok r \<and> neighbourly os \<and> (\<exists>r'. auto_sweep_dead os 0 100 r = Some (1, r') \<and> region_ok r')"
proof -
  let ?r = "one_waiter TYPE_SEM (pack_sem 2 5) 42"
  let ?os = "after_death\<lparr>clock_ns := 500, locked_clock_ns := 500, on_lock := (\<lambda>r. upd_header r (\<lambda>h. h\<lparr>sweep_ns := 7\<rparr>))\<rparr>"
  have "sem_ok (pack_sem 2 5)" by (simp add: sem_ok_def pack_sem_join word_le_nat_alt)
  then have r: "region_ok ?r" unfolding region_ok_def using one_waiter_rep word_ok_type(1) by blast
  have "region_ok (upd_header s (\<lambda>h. h\<lparr>sweep_ns := 7\<rparr>))" if "region_ok s" for s
    using that by (auto simp: region_ok_def intro: region_rep_stamp)
  then have os: "neighbourly ?os"
    by (auto simp: neighbourly_def after_death_def quiet_os_def errno_consts)
  from r os auto_sweep_safe [OF r os, of 0 100] show ?thesis by simp
qed

text \<open>A sweep that is due runs, on the region with the new time stamp.\<close>

lemma auto_sweep_due:
  assumes os: "undisturbed os" "\<forall>k. lock_ret os k = 0" and R: "region_rep r Q F"
    and due: "calls AND 0xFF = 0" "interval \<noteq> 0"
      "interval \<le> saturating_sub (clock_ns os) (sweep_ns (header r))"
      "interval \<le> saturating_sub (locked_clock_ns os) (sweep_ns (header r))"
  obtains n r' where "auto_sweep_dead os calls interval r = Some (calls + 1, r')"
    "swept os (upd_header (lock_mark os r) (\<lambda>h. h\<lparr>sweep_ns := locked_clock_ns os\<rparr>)) Q UNIV UNIV n r'"
    "sweep_ns (header r') = locked_clock_ns os"
proof -
  let ?s = "upd_header (lock_mark os r) (\<lambda>h. h\<lparr>sweep_ns := locked_clock_ns os\<rparr>)"
  have Rs: "region_rep ?s Q F" using R by (intro region_rep_stamp) simp
  have "swept_to os ?s Q (new_scan ?s) 0 ?s" using swept_start [OF Rs] by (simp add: new_scan_def Let_def)
  from auto_sweep_loop_swept [OF Rs _ os(2) this new_cache_ok, of 0] os(1)
  obtain n r' sc where l: "auto_sweep_loop os 0 ?s (new_scan ?s) new_cache 0 = Some (n, r')" and d: "scan_done sc"
    "node_hi sc = node_hi (new_scan ?s)" "slot_hi sc = slot_hi (new_scan ?s)" and sw: "swept_to os ?s Q sc n r'"
    unfolding undisturbed_def by blast
  have sw: "swept os ?s Q UNIV UNIV n r'" by (rule swept_everything [OF Rs d sw])
  moreover have "auto_sweep_dead os calls interval r = Some (calls + 1, r')"
    using os due l by (simp add: auto_sweep_dead_def Let_def undisturbed_def lock_guard_ok not_less)
  moreover have "sweep_ns (core r') = sweep_ns (core ?s)" using sw unfolding swept_def
    by (metis (no_types, lifting) Header.ext_inject Header.surjective Header.update_convs(5))
  ultimately show ?thesis by (intro that) (simp_all add: core_def)
qed

text \<open>
  When nobody interferes, the lock is granted and the interval has passed, the rate-limited
  sweep reaps exactly what the explicit sweep would, and stamps the region with the time, so that
  no other sweep starts before the interval has passed again.
\<close>

theorem auto_sweep_exact:
  assumes "undisturbed os" "\<forall>k. lock_ret os k = 0" "region_rep r Q F"
    and "calls AND 0xFF = 0" "interval \<noteq> 0"
    and "interval \<le> saturating_sub (clock_ns os) (sweep_ns (header r))"
    and "interval \<le> saturating_sub (locked_clock_ns os) (sweep_ns (header r))"
  shows "\<exists>r' F'. auto_sweep_dead os calls interval r = Some (calls + 1, r') \<and>
    (\<forall>i. bare r' i = (if dead_slot os (slots r i) then freed_slot (bare r i) else bare r i)) \<and>
    region_rep r' (\<lambda>i. if dead_slot os (slots r i) then []
      else filter (\<lambda>x. \<not> dead_node os (nodes r x)) (Q i)) F' \<and>
    sweep_ns (header r') = locked_clock_ns os"
proof -
  let ?s = "upd_header (lock_mark os r) (\<lambda>h. h\<lparr>sweep_ns := locked_clock_ns os\<rparr>)"
  obtain n r' where r': "auto_sweep_dead os calls interval r = Some (calls + 1, r')" "swept os ?s Q UNIV UNIV n r'"
    "sweep_ns (header r') = locked_clock_ns os" by (rule auto_sweep_due [OF assms])
  have ll: "lists_left os ?s Q UNIV UNIV =
      (\<lambda>i. if dead_slot os (slots r i) then [] else filter (\<lambda>x. \<not> dead_node os (nodes r x)) (Q i))"
    by (simp add: lists_left_def fun_eq_iff)
  have b: "bare ?s = bare r" by (simp add: bare_def fun_eq_iff)
  from r' show ?thesis unfolding swept_def ll b by auto
qed

theorem auto_sweep_exact_witness:
  "let r = one_waiter TYPE_SEM (pack_sem 2 5) 42; Q = (\<lambda>_. [])(1 := [0]);
       os = after_death\<lparr>clock_ns := 500, locked_clock_ns := 501\<rparr> in
   undisturbed os \<and> (\<forall>k. lock_ret os k = 0) \<and> region_rep r Q [] \<and> (256 :: u64) AND 0xFF = 0 \<and> (100 :: u64) \<noteq> 0 \<and>
   100 \<le> saturating_sub (clock_ns os) (sweep_ns (header r)) \<and>
   100 \<le> saturating_sub (locked_clock_ns os) (sweep_ns (header r)) \<and>
   (\<exists>r' F'. auto_sweep_dead os 256 100 r = Some (257, r') \<and> bare r' 1 = freed_slot (bare r 1) \<and>
      region_rep r' (\<lambda>_. []) F' \<and> sweep_ns (header r') = 501)"
proof -
  let ?r = "one_waiter TYPE_SEM (pack_sem 2 5) 42" and ?Q = "(\<lambda>_. [])(1 := [0::u32])"
  let ?os = "after_death\<lparr>clock_ns := 500, locked_clock_ns := 501\<rparr>"
  have "sem_ok (pack_sem 2 5)" by (simp add: sem_ok_def pack_sem_join word_le_nat_alt)
  then have R: "region_rep ?r ?Q []" by (simp add: one_waiter_rep)
  have z: "sweep_ns (header ?r) = 0"
    by (simp add: one_waiter_def node_alloc_def Let_def NODE_COUNT_def word_le_nat_alt one_object_def
        fresh_region_def init_region_def zero_region_def)
  have os: "undisturbed ?os" "\<forall>k. lock_ret ?os k = 0"
    by (simp_all add: undisturbed_def after_death_def quiet_os_def)
  have t: "(256 :: u64) AND 0xFF = 0" "(100 :: u64) \<noteq> 0"
    "100 \<le> saturating_sub (clock_ns ?os) (sweep_ns (header ?r))"
    "100 \<le> saturating_sub (locked_clock_ns ?os) (sweep_ns (header ?r))"
    by (simp_all add: z saturating_sub_def word_le_nat_alt)
  have d: "dead_slot ?os s = dead_slot after_death s" for s
    by (simp add: dead_slot_def pid_alive_def)
  have l: "(\<lambda>i. if i = 1 then [] else filter (\<lambda>x. \<not> dead_node ?os (nodes ?r x)) (?Q i)) = (\<lambda>_. [])" by auto
  obtain r' F' where "auto_sweep_dead ?os 256 100 ?r = Some (256 + 1, r')" "bare r' 1 = freed_slot (bare ?r 1)"
    "region_rep r' (\<lambda>_. []) F'" "sweep_ns (header r') = locked_clock_ns ?os"
    using auto_sweep_exact [OF os R t] unfolding d one_waiter_dead l by metis
  with R os t show ?thesis by auto
qed


end
