(* ===== verification/Acquire.thy ===== *)
theory Acquire
  imports Signals "HOL-Library.Monad_Syntax"
begin

text \<open>
  Acquiring objects, from \<^verbatim>\<open>src/src/core.rs\<close>: the test \<open>is_locked\<close>, the lock-free
  \<open>try_acquire\<close> and its undoing \<open>rollback_acquire\<close>, and \<open>try_satisfy\<close>, which
  acquires one of several objects or all of them. \<open>nt_wait\<close> is what the NT semantics
  says of one object; \<open>acquirable\<close> is the contract between the test, the acquisition
  and the rollback, and the wait over several objects is proved correct from it.
\<close>

subsection \<open>One object\<close>

definition is_locked :: "Slot \<Rightarrow> u32 \<Rightarrow> u64 \<Rightarrow> bool" where
  "is_locked s owner entry_seq =
     (let w = w0 s in
      if obj_type s = TYPE_SEM then 0 < lo32 w
      else if obj_type s = TYPE_MUTEX then
        (lo32 w = 0 \<or> lo32 w = owner) \<and> mutex_count w < 0x7fffffff
      else if obj_type s = TYPE_EVENT then lo32 w \<noteq> 0 \<or> pulse_seq s \<noteq> entry_seq
      else False)"

definition try_acquire ::
  "Os \<Rightarrow> Region \<Rightarrow> u32 \<Rightarrow> u32 \<Rightarrow> u64 \<Rightarrow> (bool option \<times> Region) option" where
  "try_acquire os r i owner entry_seq =
     (if obj_type (slots r i) = TYPE_SEM then cas_loop os 0 i sem_acquire_body r
      else if obj_type (slots r i) = TYPE_MUTEX then cas_loop os 0 i (mutex_acquire_body owner) r
      else if obj_type (slots r i) = TYPE_EVENT then
        let w = w0 (slots r i) in
        if lo32 w \<noteq> 0 \<and> drop_bit 32 w \<noteq> 0 then Some (Some False, r)
        else do {
          (got, r1) \<leftarrow> (if lo32 w \<noteq> 0 then cas_loop os 0 i event_claim_body (on_check os r)
                       else Some (None, r));
          case got of
            Some od \<Rightarrow> Some (Some od, r1)
          | None \<Rightarrow>
              let r2 = on_cas os r1 in
              Some (if pulse_seq (slots r2 i) \<noteq> entry_seq then Some False else None, r2)
        }
      else Some (None, r))"

definition rollback_acquire :: "Os \<Rightarrow> Region \<Rightarrow> u32 \<Rightarrow> u32 \<Rightarrow> bool \<Rightarrow> Region option" where
  "rollback_acquire os r i owner owner_dead_was =
     (if obj_type (slots r i) = TYPE_SEM then map_option snd (cas_loop os 0 i sem_rollback_body r)
      else if obj_type (slots r i) = TYPE_MUTEX then
        map_option snd (cas_loop os 0 i (mutex_rollback_body owner owner_dead_was) r)
      else if obj_type (slots r i) = TYPE_EVENT then
        map_option snd (cas_loop os 0 i event_rollback_body r)
      else Some r)"

subsection \<open>Several objects\<close>

fun try_any ::
  "Os \<Rightarrow> Region \<Rightarrow> nat \<Rightarrow> u32 list \<Rightarrow> u32 \<Rightarrow> u64 list \<Rightarrow> (WaitOutcome option \<times> Region) option" where
  "try_any os r i [] owner entry_seqs = Some (None, r)"
| "try_any os r i (h # hs) owner entry_seqs = do {
     (got, r1) \<leftarrow> try_acquire os (on_step os i r) (h AND INDEX_MASK) owner (entry_seqs ! i);
     case got of
       Some owner_dead \<Rightarrow> Some (Some (Signaled (of_nat i) owner_dead), r1)
     | None \<Rightarrow> try_any os r1 (Suc i) hs owner entry_seqs
   }"

fun roll_back ::
  "Os \<Rightarrow> Region \<Rightarrow> u32 list \<Rightarrow> (nat \<times> bool) list \<Rightarrow> u32 \<Rightarrow> Region option" where
  "roll_back os r handles [] owner = Some r"
| "roll_back os r handles ((j, od) # acquired) owner = do {
     r1 \<leftarrow> rollback_acquire os (on_undo os j r) (handles ! j AND INDEX_MASK) owner od;
     roll_back os r1 handles acquired owner
   }"

fun try_all ::
  "Os \<Rightarrow> Region \<Rightarrow> nat \<Rightarrow> u32 list \<Rightarrow> u32 list \<Rightarrow> u32 \<Rightarrow> u64 list \<Rightarrow> (nat \<times> bool) list \<Rightarrow> bool \<Rightarrow>
   (WaitOutcome option \<times> Region) option" where
  "try_all os r i [] handles owner entry_seqs acquired owner_dead =
     Some (Some (Signaled 0 owner_dead), r)"
| "try_all os r i (h # hs) handles owner entry_seqs acquired owner_dead = do {
     (got, r1) \<leftarrow> try_acquire os (on_step os i r) (h AND INDEX_MASK) owner (entry_seqs ! i);
     case got of
       Some od \<Rightarrow>
         try_all os r1 (Suc i) hs handles owner entry_seqs (acquired @ [(i, od)]) (owner_dead \<or> od)
     | None \<Rightarrow> do { r2 \<leftarrow> roll_back os r1 handles acquired owner; Some (None, r2) }
   }"

definition try_satisfy ::
  "Os \<Rightarrow> Region \<Rightarrow> u32 list \<Rightarrow> u32 \<Rightarrow> u64 list \<Rightarrow> bool \<Rightarrow> (WaitOutcome option \<times> Region) option" where
  "try_satisfy os r handles owner entry_seqs wait_for_all =
     (if \<not> wait_for_all then try_any os r 0 handles owner entry_seqs
      else try_all os r 0 handles handles owner entry_seqs [] False)"

subsection \<open>What an acquisition grants\<close>

text \<open>
  \<open>grant\<close> is one acquisition as a function of the slot: whether it is granted, whether the
  object was abandoned, and the new word. \<open>ungrant\<close> is the word that a rollback writes.
\<close>

definition granted :: "bool option decision \<Rightarrow> (bool \<times> u64) option" where
  "granted d = (case d of Swap w (Some od) \<Rightarrow> Some (od, w) | _ \<Rightarrow> None)"

definition grant :: "Slot \<Rightarrow> u32 \<Rightarrow> u64 \<Rightarrow> (bool \<times> u64) option" where
  "grant s me entry_seq =
     (if obj_type s = TYPE_SEM then granted (sem_acquire_body (w0 s))
      else if obj_type s = TYPE_MUTEX then granted (mutex_acquire_body me (w0 s))
      else if obj_type s = TYPE_EVENT then
        if lo32 (w0 s) \<noteq> 0 then Some (False, if hi32 (w0 s) = 0 then clear_low (w0 s) else w0 s)
        else if pulse_seq s \<noteq> entry_seq then Some (False, w0 s) else None
      else None)"

definition ungrant :: "Slot \<Rightarrow> u32 \<Rightarrow> bool \<Rightarrow> u64" where
  "ungrant s me od =
     (let w = w0 s in
      if obj_type s = TYPE_SEM then pack_sem (lo32 w + 1) (hi32 w)
      else if obj_type s = TYPE_MUTEX then
        if mutex_count w = 1 then pack_mutex 0 0 od else pack_mutex me (mutex_count w - 1) (mutex_dead w)
      else if obj_type s = TYPE_EVENT then if hi32 w = 0 \<and> lo32 w = 0 then set_low w else w
      else w)"

lemma put_word_same [simp]: "put_word r i (w0 (slots r i)) = r"
  by (simp add: put_word_def upd_slot_def)

lemma put_word_twice [simp]: "put_word (put_word r i v) i w = put_word r i w"
  by (simp add: put_word_def upd_slot_def)

lemma put_word_commute: "i \<noteq> j \<Longrightarrow> put_word (put_word r i v) j w = put_word (put_word r j w) i v"
  by (simp add: put_word_def upd_slot_def fun_upd_twist)

lemma slots_put_word_other [simp]: "j \<noteq> i \<Longrightarrow> slots (put_word r i w) j = slots r j"
  by (simp add: put_word_def upd_slot_def)

lemma slots_put_word_here: "slots (put_word r i w) i = (slots r i)\<lparr>w0 := w\<rparr>"
  by (simp add: put_word_def upd_slot_def)

lemma try_acquire_undisturbed:
  assumes "undisturbed os"
  shows "try_acquire os r i me entry_seq =
    Some (case grant (slots r i) me entry_seq of
      None \<Rightarrow> (None, r) | Some (od, w) \<Rightarrow> (Some od, put_word r i w))"
proof -
  note d = assms [unfolded undisturbed_def]
  show ?thesis
    using d
    by (auto simp: cas_loop_undisturbed [OF assms] try_acquire_def grant_def Let_def atomically_def
        granted_def sem_acquire_body_def mutex_acquire_body_def event_claim_body_def drop32_eq_0
        type_consts)
qed

lemma rollback_acquire_undisturbed:
  assumes "undisturbed os"
  shows "rollback_acquire os r i me od = Some (put_word r i (ungrant (slots r i) me od))"
  by (auto simp: cas_loop_undisturbed [OF assms] rollback_acquire_def ungrant_def Let_def atomically_def sem_rollback_body_def
      mutex_rollback_body_def event_rollback_body_def drop32_eq_0 type_consts)

lemma is_locked_grant: "is_locked s me entry_seq \<longleftrightarrow> grant s me entry_seq \<noteq> None"
  by (auto simp: is_locked_def grant_def granted_def Let_def sem_acquire_body_def
      mutex_acquire_body_def type_consts word_gt_0 not_le)

lemma below_top_bit: "n < LENGTH(32) \<Longrightarrow> n < 31 \<or> n = 31"
  by auto

lemma mutex_dead_bit: "mutex_dead w \<longleftrightarrow> bit (hi32 w) 31"
proof -
  have "drop_bit 31 (hi32 w) = of_bool (bit (hi32 w) 31)"
    by (rule bit_word_eqI) (use bit_imp_le_length in \<open>fastforce simp: bit_simps\<close>)
  then show ?thesis by (simp add: mutex_dead_def)
qed

lemma pack_mutex_halves: "pack_mutex (lo32 w) (mutex_count w) (mutex_dead w) = w"
proof -
  have "(mutex_count w AND 0x7fffffff) OR push_bit 31 (of_bool (mutex_dead w)) = hi32 w"
    unfolding mutex_count_def low31_mask mutex_dead_bit
    by (rule bit_word_eqI, drule below_top_bit) (auto simp: bit_simps)
  then show ?thesis by (simp add: pack_mutex_join)
qed

text \<open>The object that a slot holds, and whether waiting on it is satisfied.\<close>

definition abs_object :: "Slot \<Rightarrow> nt_object option" where
  "abs_object s =
     (if obj_type s = TYPE_SEM then Some (abs_sem (w0 s))
      else if obj_type s = TYPE_MUTEX then Some (abs_mutex (w0 s))
      else if obj_type s = TYPE_EVENT then Some (abs_event (w0 s))
      else None)"

fun nt_pulsed :: "bool \<Rightarrow> nt_object \<Rightarrow> bool" where
  "nt_pulsed pulsed (NtEvent _ _) = pulsed"
| "nt_pulsed pulsed _ = False"

definition nt_wait :: "u32 \<Rightarrow> bool \<Rightarrow> nt_object \<Rightarrow> (bool \<times> nt_object) option" where
  "nt_wait me pulsed ob =
     (case nt_acquire me ob of
        Some x \<Rightarrow> Some x
      | None \<Rightarrow> if nt_pulsed pulsed ob then Some (False, ob) else None)"

lemma grant_sem:
  assumes "obj_type s = TYPE_SEM"
  shows "grant s me q = (if lo32 (w0 s) = 0 then None
    else Some (False, join32 (hi32 (w0 s)) (lo32 (w0 s) - 1)))"
  using assms by (simp add: grant_def granted_def sem_acquire_body_eq)

lemma grant_event:
  assumes "obj_type s = TYPE_EVENT"
  shows "grant s me q = (if lo32 (w0 s) \<noteq> 0
      then Some (False, if hi32 (w0 s) = 0 then clear_low (w0 s) else w0 s)
      else if pulse_seq s \<noteq> q then Some (False, w0 s) else None)"
  using assms by (simp add: grant_def type_consts)

lemma grant_mutex:
  assumes "obj_type s = TYPE_MUTEX" "mutex_ok (w0 s)"
  shows "grant s me q =
    (if lo32 (w0 s) = 0 then Some (mutex_dead (w0 s), pack_mutex me 1 False)
     else if lo32 (w0 s) = me \<and> mutex_count (w0 s) < 0x7fffffff
     then Some (False, pack_mutex me (mutex_count (w0 s) + 1) (mutex_dead (w0 s)))
     else None)"
  using assms mutex_count_le [of "w0 s"]
  by (auto simp: grant_def granted_def mutex_acquire_body_def Let_def mutex_ok_def type_consts not_le)

lemma grant_other:
  "obj_type s \<notin> {TYPE_SEM, TYPE_MUTEX, TYPE_EVENT} \<Longrightarrow> grant s me q = None"
  by (simp add: grant_def)

lemma abs_object_simps:
  "obj_type s = TYPE_SEM \<Longrightarrow> abs_object s = Some (abs_sem (w0 s))"
  "obj_type s = TYPE_MUTEX \<Longrightarrow> abs_object s = Some (abs_mutex (w0 s))"
  "obj_type s = TYPE_EVENT \<Longrightarrow> abs_object s = Some (abs_event (w0 s))"
  by (simp_all add: abs_object_def type_consts)

lemma abs_object_Some:
  "abs_object s = Some ob \<Longrightarrow> obj_type s \<in> {TYPE_SEM, TYPE_MUTEX, TYPE_EVENT}"
  by (auto simp: abs_object_def split: if_splits)

lemma grant_nt_mutex:
  assumes "obj_type s = TYPE_MUTEX" "mutex_ok (w0 s)" "me \<noteq> 0"
  shows "nt_acquire me (abs_mutex (w0 s)) = map_option (\<lambda>(od, w). (od, abs_mutex w)) (grant s me q)"
    and "grant s me q = Some (od, w) \<Longrightarrow> mutex_ok w"
proof -
  have g: "grant s me q = granted (mutex_acquire_body me (w0 s))"
    using assms(1) by (simp add: grant_def type_consts)
  show "nt_acquire me (abs_mutex (w0 s)) = map_option (\<lambda>(od, w). (od, abs_mutex w)) (grant s me q)"
    using mutex_acquire_nt [OF assms(3,2)] unfolding g
    by (auto simp: granted_def split: decision.splits)
  assume "grant s me q = Some (od, w)"
  with g obtain a where "mutex_acquire_body me (w0 s) = Swap w a"
    by (auto simp: granted_def split: decision.splits option.splits)
  then show "mutex_ok w" by (rule word_update.keeps [OF mutex_acquire_keeps [OF assms(3)] assms(2)])
qed

lemma grant_nt_sem:
  assumes "obj_type s = TYPE_SEM" "sem_ok (w0 s)"
  shows "nt_acquire me (abs_sem (w0 s)) = map_option (\<lambda>(od, w). (od, abs_sem w)) (grant s me q)"
    and "grant s me q = Some (od, w) \<Longrightarrow> sem_ok w"
  using word_update.keeps [OF sem_acquire.word_update_axioms assms(2)]
  by (auto simp: grant_sem [OF assms(1)] sem_acquire_body_eq abs_sem_def [of "w0 s"] unat_gt_0 unat_dec
      split: if_splits)

lemma grant_nt_event:
  assumes "obj_type s = TYPE_EVENT" "event_ok (w0 s)"
  shows "nt_wait me (pulse_seq s \<noteq> q) (abs_event (w0 s)) =
      map_option (\<lambda>(od, w). (od, abs_event w)) (grant s me q)"
    and "grant s me q = Some (od, w) \<Longrightarrow> event_ok w"
  using assms(2)
  by (auto simp: grant_event [OF assms(1)] nt_wait_def abs_event_def event_ok_def lo32_clear_low
      split: if_splits)

definition wait_satisfied :: "Slot \<Rightarrow> u32 \<Rightarrow> u64 \<Rightarrow> (bool \<times> nt_object) option" where
  "wait_satisfied s me q = Option.bind (abs_object s) (nt_wait me (pulse_seq s \<noteq> q))"

lemma nt_wait_steady:
  "\<not> nt_pulsed p ob \<Longrightarrow> nt_wait me p ob = nt_acquire me ob"
  by (simp add: nt_wait_def split: option.split)

lemma object_type_cases:
  obtains (sem) "obj_type s = TYPE_SEM" | (mutex) "obj_type s = TYPE_MUTEX"
  | (event) "obj_type s = TYPE_EVENT" | (other) "obj_type s \<notin> {TYPE_SEM, TYPE_MUTEX, TYPE_EVENT}"
  by blast

lemma grant_nt:
  assumes "word_ok (obj_type s) (w0 s)" "me \<noteq> 0"
  shows "wait_satisfied s me q =
      Option.bind (grant s me q) (\<lambda>(od, w). map_option (Pair od) (abs_object (s\<lparr>w0 := w\<rparr>)))"
    and "grant s me q = Some (od, w) \<Longrightarrow> word_ok (obj_type s) w"
proof -
  have "wait_satisfied s me q =
      Option.bind (grant s me q) (\<lambda>(od, w). map_option (Pair od) (abs_object (s\<lparr>w0 := w\<rparr>))) \<and>
    (grant s me q = Some (od, w) \<longrightarrow> word_ok (obj_type s) w)"
  proof (cases s rule: object_type_cases)
    case sem
    with assms show ?thesis using grant_nt_sem(1) [OF sem, of me q] grant_nt_sem(2) [OF sem, of me q od w]
      by (cases "grant s me q")
        (auto simp: wait_satisfied_def abs_object_simps nt_wait_steady abs_sem_def)
  next
    case mutex
    with assms show ?thesis using grant_nt_mutex(1) [OF mutex _ assms(2), of q]
      grant_nt_mutex(2) [OF mutex _ assms(2), of q od w]
      by (cases "grant s me q")
        (auto simp: wait_satisfied_def abs_object_simps nt_wait_steady abs_mutex_def)
  next
    case event
    with assms show ?thesis using grant_nt_event(1) [OF event, of me q] grant_nt_event(2) [OF event, of me q od w]
      by (cases "grant s me q") (auto simp: wait_satisfied_def abs_object_simps)
  qed (simp add: wait_satisfied_def abs_object_def grant_def)
  then show "wait_satisfied s me q =
      Option.bind (grant s me q) (\<lambda>(od, w). map_option (Pair od) (abs_object (s\<lparr>w0 := w\<rparr>)))"
    and "grant s me q = Some (od, w) \<Longrightarrow> word_ok (obj_type s) w" by blast+
qed

lemma set_low_clear_low: "event_ok w \<Longrightarrow> lo32 w \<noteq> 0 \<Longrightarrow> set_low (clear_low w) = w"
  by (rule halves_eqI) (auto simp: event_ok_def lo32_set_low lo32_clear_low)

lemma ungrant_grant:
  assumes "word_ok (obj_type s) (w0 s)" "me \<noteq> 0" "grant s me q = Some (od, w)"
    and "obj_type s = TYPE_EVENT \<longrightarrow> pulse_seq s = q"
  shows "ungrant (s\<lparr>w0 := w\<rparr>) me od = w0 s"
proof (cases s rule: object_type_cases)
  case sem
  with assms show ?thesis
    by (auto simp: grant_sem ungrant_def Let_def pack_sem_join split: if_splits)
next
  case event
  with assms have "event_ok (w0 s)" "lo32 (w0 s) \<noteq> 0"
    and "w = (if hi32 (w0 s) = 0 then clear_low (w0 s) else w0 s)"
    by (auto simp: grant_event split: if_splits)
  with event show ?thesis using set_low_clear_low [of "w0 s"]
    by (auto simp: ungrant_def Let_def type_consts event_ok_def lo32_clear_low)
next
  case mutex
  with assms(1) have ok: "mutex_ok (w0 s)" by simp
  note h = pack_mutex_halves [of "w0 s"]
  show ?thesis
  proof (cases "lo32 (w0 s) = 0")
    case True
    with assms(3) mutex ok have "od = mutex_dead (w0 s)" "w = pack_mutex me 1 False"
      by (simp_all add: grant_mutex)
    with True ok h mutex show ?thesis
      by (simp add: ungrant_def Let_def type_consts mutex_ok_def)
  next
    case False
    with assms(3) mutex ok have lt: "mutex_count (w0 s) < 0x7fffffff" and me: "lo32 (w0 s) = me"
      and w: "w = pack_mutex me (mutex_count (w0 s) + 1) (mutex_dead (w0 s))"
      by (auto simp: grant_mutex split: if_splits)
    have "mutex_count (w0 s) \<noteq> 0" using False ok by (simp add: mutex_ok_def)
    then have "mutex_count w \<noteq> 1" "mutex_count w - 1 = mutex_count (w0 s)"
      using mutex_count_inc(1) [OF lt] w by simp_all
    with h me w mutex show ?thesis by (simp add: ungrant_def Let_def type_consts)
  qed
qed (use assms(3) in \<open>simp add: grant_def\<close>)

subsection \<open>Several objects at once\<close>

abbreviation idx :: "u32 \<Rightarrow> u32" where
  "idx h \<equiv> h AND INDEX_MASK"

text \<open>Different valid handles name different slots.\<close>

lemma slot_inj: "slot r h = Some i \<Longrightarrow> slot r h' = Some i \<Longrightarrow> h = h'"
proof -
  assume "slot r h = Some i" "slot r h' = Some i"
  then have "take_bit 14 h = take_bit 14 h'" "drop_bit 14 h = drop_bit 14 h'"
    by (auto simp: slot_Some_iff INDEX_MASK_mask INDEX_BITS_def take_bit_eq_mask)
  then show ?thesis by (metis bits_ident)
qed

lemma distinct_idx:
  assumes "distinct hs" "\<forall>h\<in>set hs. \<exists>i. slot r h = Some i"
  shows "distinct (map idx hs)"
  unfolding distinct_map
proof (intro conjI inj_onI)
  fix h h' assume "h \<in> set hs" "h' \<in> set hs" "idx h = idx h'"
  with assms(2) slot_inj [of r h _ h'] show "h = h'" by (metis slot_Some_iff)
qed (use assms in simp)

lemma roll_back_append:
  "roll_back os r hs (a @ b) me = Option.bind (roll_back os r hs a me) (\<lambda>r. roll_back os r hs b me)"
  by (induction os r hs a me rule: roll_back.induct)
    (auto simp: bind_eq_Some_conv split: Option.bind_split)

lemma roll_back_frame:
  assumes "undisturbed os"
  shows "i \<notin> (\<lambda>(j, od). idx (hs ! j)) ` set acq \<Longrightarrow>
    roll_back os (put_word r i w) hs acq me = map_option (\<lambda>s. put_word s i w) (roll_back os r hs acq me)"
proof (induction acq arbitrary: r)
  case (Cons a acq)
  obtain j od where a: "a = (j, od)" by (cases a)
  with Cons.prems have "idx (hs ! j) \<noteq> i" by auto
  with Cons a assms show ?case
    by (simp add: rollback_acquire_undisturbed undisturbed_def put_word_commute [of i])
qed simp

text \<open>Success: every object is granted, and nothing else changes.\<close>

lemma try_all_granted:
  assumes os: "undisturbed os"
  shows "distinct (map idx hs) \<Longrightarrow>
    \<forall>j<length hs. grant (slots r (idx (hs ! j))) me (qs ! (k + j)) = Some (od j, w j) \<Longrightarrow>
    \<exists>r'. try_all os r k hs all me qs acq dead =
        Some (Some (Signaled 0 (dead \<or> (\<exists>j<length hs. od j))), r') \<and>
      r' = fold (\<lambda>j s. put_word s (idx (hs ! j)) (w j)) [0..<length hs] r"
proof (induction hs arbitrary: r k acq dead od w)
  case (Cons h hs)
  let ?r = "put_word r (idx h) (w 0)"
  from Cons.prems(2) have g0: "grant (slots r (idx h)) me (qs ! k) = Some (od 0, w 0)"
    by (auto dest: spec [of _ 0])
  have "\<forall>j<length hs. grant (slots ?r (idx (hs ! j))) me (qs ! (Suc k + j)) = Some (od (Suc j), w (Suc j))"
  proof (intro allI impI)
    fix j assume j: "j < length hs"
    then have "idx (hs ! j) \<in> idx ` set hs" by simp
    with Cons.prems(1) have "idx (hs ! j) \<noteq> idx h" by auto
    with j Cons.prems(2) show "grant (slots ?r (idx (hs ! j))) me (qs ! (Suc k + j)) = Some (od (Suc j), w (Suc j))"
      by (auto dest: spec [of _ "Suc j"])
  qed
  from Cons.IH [OF _ this, of "acq @ [(k, od 0)]" "dead \<or> od 0"] Cons.prems(1)
  have "try_all os ?r (Suc k) hs all me qs (acq @ [(k, od 0)]) (dead \<or> od 0) =
      Some (Some (Signaled 0 ((dead \<or> od 0) \<or> (\<exists>j<length hs. od (Suc j)))),
        fold (\<lambda>j s. put_word s (idx (hs ! j)) (w (Suc j))) [0..<length hs] ?r)" by auto
  moreover have "((dead \<or> od 0) \<or> (\<exists>j<length hs. od (Suc j))) = (dead \<or> (\<exists>j<length (h # hs). od j))"
    by (auto simp: less_Suc_eq_0_disj)
  moreover have "[0..<length (h # hs)] = 0 # map Suc [0..<length hs]"
    by (simp only: list.size map_Suc_upt upt_conv_Cons) (simp add: upt_conv_Cons)
  ultimately show ?case
    using g0 os by (simp add: try_acquire_undisturbed undisturbed_def fold_map comp_def)
qed simp

text \<open>Failure: everything acquired so far is given back.\<close>

lemma try_all_busy:
  assumes os: "undisturbed os" and me: "me \<noteq> 0"
  shows "distinct (map idx hs) \<Longrightarrow> all = pre @ hs \<Longrightarrow> distinct (map idx all) \<Longrightarrow>
    roll_back os r all acq me = Some r0 \<Longrightarrow> fst ` set acq \<subseteq> {..<length pre} \<Longrightarrow>
    \<forall>h\<in>set hs. slots r (idx h) = slots r0 (idx h) \<and> word_ok (obj_type (slots r (idx h))) (w0 (slots r (idx h))) \<Longrightarrow>
    \<forall>j<length hs. obj_type (slots r (idx (hs ! j))) = TYPE_EVENT \<longrightarrow>
      pulse_seq (slots r (idx (hs ! j))) = qs ! (length pre + j) \<Longrightarrow>
    \<exists>j<length hs. grant (slots r (idx (hs ! j))) me (qs ! (length pre + j)) = None \<Longrightarrow>
    try_all os r (length pre) hs all me qs acq dead = Some (None, r0)"
proof (induction hs arbitrary: pre r acq dead)
  case (Cons h hs)
  show ?case
  proof (cases "grant (slots r (idx h)) me (qs ! length pre)")
    case None
    with os Cons.prems(4) show ?thesis by (simp add: try_acquire_undisturbed undisturbed_def)
  next
    case (Some g)
    obtain od w where g: "g = (od, w)" by (cases g)
    let ?r = "put_word r (idx h) w" and ?acq = "acq @ [(length pre, od)]"
    have here: "all ! length pre = h" using Cons.prems(2) by simp
    have "idx h \<notin> (\<lambda>(j, od). idx (all ! j)) ` set acq"
    proof
      assume "idx h \<in> (\<lambda>(j, od). idx (all ! j)) ` set acq"
      then obtain j where "j < length pre" "idx (all ! j) = idx h" using Cons.prems(5) by fastforce
      with Cons.prems(2) here have "map idx all ! j = map idx all ! length pre" "j < length all"
        "length pre < length all" by (simp_all add: nth_append)
      with \<open>j < length pre\<close> nth_eq_iff_index_eq [OF Cons.prems(3), of j "length pre"] show False by simp
    qed
    then have "roll_back os ?r all acq me = Some (put_word r0 (idx h) w)"
      using Cons.prems(4) by (simp add: roll_back_frame [OF os])
    moreover have "ungrant (slots (put_word r0 (idx h) w) (idx h)) me od = w0 (slots r0 (idx h))"
      using Cons.prems(6,7) Some g me
      by (auto simp: slots_put_word_here intro!: ungrant_grant dest: spec [of _ 0])
    ultimately have "roll_back os ?r all ?acq me = Some r0"
      using os here by (simp add: roll_back_append rollback_acquire_undisturbed undisturbed_def)
    moreover have ne: "\<forall>h'\<in>set hs. idx h' \<noteq> idx h"
      using Cons.prems(1) by (auto simp: image_iff eq_commute [of "idx h"])
    moreover have "\<exists>j<length hs. grant (slots ?r (idx (hs ! j))) me (qs ! (length (pre @ [h]) + j)) = None"
    proof -
      from Cons.prems(8) obtain j where "j < length (h # hs)"
        "grant (slots r (idx ((h # hs) ! j))) me (qs ! (length pre + j)) = None" by blast
      with Some ne show ?thesis by (cases j) auto
    qed
    ultimately have "try_all os ?r (length (pre @ [h])) hs all me qs ?acq (dead \<or> od) = Some (None, r0)"
      using Cons.prems by (intro Cons.IH) (auto dest: spec [of _ "Suc _"])
    with Some g os show ?thesis by (simp add: try_acquire_undisturbed undisturbed_def)
  qed
qed simp

text \<open>The region after all grants.\<close>

lemma fold_put_word_other:
  "i \<notin> f ` set js \<Longrightarrow> slots (fold (\<lambda>j s. put_word s (f j) (w j)) js r) i = slots r i"
  by (induction js arbitrary: r) auto

lemma fold_put_word_at:
  assumes "inj_on f (set js)" "distinct js" "j \<in> set js"
  shows "slots (fold (\<lambda>j s. put_word s (f j) (w j)) js r) (f j) = (slots r (f j))\<lparr>w0 := w j\<rparr>"
  using assms
proof (induction js arbitrary: r)
  case (Cons a js)
  show ?case
  proof (cases "j = a")
    case True
    with Cons.prems have "f a \<notin> f ` set js" by (auto dest: inj_onD)
    with True show ?thesis by (simp add: fold_put_word_other slots_put_word_here)
  next
    case False
    with Cons.prems(1,3) have "f j \<noteq> f a" using inj_onD [of f "set (a # js)" j a] by auto
    with False Cons show ?thesis by simp
  qed
qed simp

lemma fold_put_word_rep:
  assumes "region_rep r Q F" "\<And>j. j \<in> set js \<Longrightarrow> word_ok (obj_type (slots r (f j))) (w j)"
  shows "region_rep (fold (\<lambda>j s. put_word s (f j) (w j)) js r) Q F"
  using assms
proof (induction js arbitrary: r)
  case (Cons a js)
  then have "region_rep (put_word r (f a) (w a)) Q F" by (simp add: region_rep_put_word)
  with Cons show ?case by simp
qed simp

lemma wait_satisfied_grant:
  assumes "region_rep r Q F" "state (slots r i) = SLOT_USED" "me \<noteq> 0"
    and "grant (slots r i) me q = Some (od, w)"
  obtains ob where "wait_satisfied (slots r i) me q = Some (od, ob)"
    "abs_object ((slots r i)\<lparr>w0 := w\<rparr>) = Some ob" "word_ok (obj_type (slots r i)) w"
proof -
  note g = grant_nt [OF region_word [OF assms(1,2)] assms(3)]
  from g(1) [of q] assms(4) have e: "wait_satisfied (slots r i) me q =
      map_option (Pair od) (abs_object ((slots r i)\<lparr>w0 := w\<rparr>))" by simp
  have "obj_type (slots r i) \<in> {TYPE_SEM, TYPE_MUTEX, TYPE_EVENT}"
    using assms(4) grant_other [of "slots r i" me q] by auto
  then have "\<exists>ob. abs_object ((slots r i)\<lparr>w0 := w\<rparr>) = Some ob" by (auto simp: abs_object_def)
  with e g(2) [OF assms(4)] that show ?thesis by auto
qed

lemma wait_unsatisfied:
  assumes "region_rep r Q F" "state (slots r i) = SLOT_USED" "me \<noteq> 0"
  shows "wait_satisfied (slots r i) me q = None \<longleftrightarrow> grant (slots r i) me q = None"
proof (cases "grant (slots r i) me q")
  case (Some g)
  then obtain ob where "wait_satisfied (slots r i) me q = Some (fst g, ob)"
    using wait_satisfied_grant [OF assms, of q "fst g" "snd g"] by (metis prod.collapse)
  with Some show ?thesis by simp
qed (simp add: grant_nt(1) [OF region_word [OF assms(1,2)] assms(3)])

lemma try_all_spec_granted:
  assumes os: "undisturbed os" and R: "region_rep r Q F" and me: "me \<noteq> 0" and d: "distinct (map idx hs)"
    and used: "\<forall>h\<in>set hs. state (slots r (idx h)) = SLOT_USED"
    and sat: "\<forall>k<length hs. wait_satisfied (slots r (idx (hs ! k))) me (qs ! k) = Some (od k, ob k)"
  obtains r' where
    "try_all os r 0 hs hs me qs [] False = Some (Some (Signaled 0 (\<exists>k<length hs. od k)), r')"
    "region_rep r' Q F" "\<forall>k<length hs. abs_object (slots r' (idx (hs ! k))) = Some (ob k)"
    "\<forall>i. i \<notin> idx ` set hs \<longrightarrow> slots r' i = slots r i"
proof -
  have "\<exists>w. grant (slots r (idx (hs ! k))) me (qs ! k) = Some (od k, w) \<and>
      abs_object ((slots r (idx (hs ! k)))\<lparr>w0 := w\<rparr>) = Some (ob k) \<and>
      word_ok (obj_type (slots r (idx (hs ! k)))) w" if k: "k < length hs" for k
  proof -
    have u: "state (slots r (idx (hs ! k))) = SLOT_USED" using used k by simp
    from sat k have s: "wait_satisfied (slots r (idx (hs ! k))) me (qs ! k) = Some (od k, ob k)" by simp
    then obtain od' w where "grant (slots r (idx (hs ! k))) me (qs ! k) = Some (od', w)"
      using wait_unsatisfied [OF R u me, of "qs ! k"] by auto
    with wait_satisfied_grant [OF R u me this] s show ?thesis by auto
  qed
  then obtain w where w: "\<And>k. k < length hs \<Longrightarrow> grant (slots r (idx (hs ! k))) me (qs ! k) = Some (od k, w k)"
    "\<And>k. k < length hs \<Longrightarrow> abs_object ((slots r (idx (hs ! k)))\<lparr>w0 := w k\<rparr>) = Some (ob k)"
    "\<And>k. k < length hs \<Longrightarrow> word_ok (obj_type (slots r (idx (hs ! k)))) (w k)" by metis
  let ?r = "fold (\<lambda>j s. put_word s (idx (hs ! j)) (w j)) [0..<length hs] r"
  have inj: "inj_on (\<lambda>j. idx (hs ! j)) (set [0..<length hs])"
    using nth_eq_iff_index_eq [OF d] by (auto intro!: inj_onI)
  have "set hs = (\<lambda>j. hs ! j) ` set [0..<length hs]" by (metis map_nth set_map)
  then have im: "(\<lambda>j. idx (hs ! j)) ` set [0..<length hs] = idx ` set hs" by (simp add: image_image)
  have other: "\<forall>i. i \<notin> idx ` set hs \<longrightarrow> slots ?r i = slots r i"
    by (intro allI impI fold_put_word_other) (simp only: im not_False_eq_True)
  have "\<forall>k<length hs. abs_object (slots ?r (idx (hs ! k))) = Some (ob k)"
    using fold_put_word_at [OF inj] w(2) by simp
  moreover have "try_all os r 0 hs hs me qs [] False = Some (Some (Signaled 0 (\<exists>k<length hs. od k)), ?r)"
    using try_all_granted [OF os d, of r me qs 0 od w hs "[]" False] w(1) by simp
  moreover have "region_rep ?r Q F" by (rule fold_put_word_rep [OF R]) (use w(3) in auto)
  ultimately show ?thesis using other that by blast
qed

lemma try_any_none:
  assumes "undisturbed os"
  shows "\<forall>j<length hs. grant (slots r (idx (hs ! j))) me (qs ! (n + j)) = None \<Longrightarrow>
    try_any os r n hs me qs = Some (None, r)"
proof (induction hs arbitrary: n)
  case (Cons h hs)
  from Cons.prems have "grant (slots r (idx h)) me (qs ! n) = None" by (auto dest: spec [of _ 0])
  moreover have "\<forall>j<length hs. grant (slots r (idx (hs ! j))) me (qs ! (Suc n + j)) = None"
    using Cons.prems by (auto dest: spec [of _ "Suc _"])
  ultimately show ?case
    using Cons.IH [of "Suc n"] assms by (simp add: try_acquire_undisturbed undisturbed_def)
qed simp

lemma try_any_some:
  assumes "undisturbed os"
  shows "k < length hs \<Longrightarrow> \<forall>j<k. grant (slots r (idx (hs ! j))) me (qs ! (n + j)) = None \<Longrightarrow>
    grant (slots r (idx (hs ! k))) me (qs ! (n + k)) = Some (od, w) \<Longrightarrow>
    try_any os r n hs me qs = Some (Some (Signaled (of_nat (n + k)) od), put_word r (idx (hs ! k)) w)"
proof (induction hs arbitrary: n k)
  case (Cons h hs)
  show ?case
  proof (cases k)
    case 0
    with Cons.prems(3) assms show ?thesis by (simp add: try_acquire_undisturbed undisturbed_def)
  next
    case (Suc k')
    with Cons.prems(2) have "grant (slots r (idx h)) me (qs ! n) = None" by (auto dest: spec [of _ 0])
    moreover have "\<forall>j<k'. grant (slots r (idx (hs ! j))) me (qs ! (Suc n + j)) = None"
      using Cons.prems(2) Suc by (auto dest: spec [of _ "Suc _"])
    ultimately show ?thesis
      using Cons.IH [of k' "Suc n"] Cons.prems Suc assms
      by (simp add: try_acquire_undisturbed undisturbed_def)
  qed
qed simp

text \<open>A region with two objects, in slots 1 and 2.\<close>

definition two_objects :: "u32 \<Rightarrow> u64 \<Rightarrow> u32 \<Rightarrow> u64 \<Rightarrow> u32 \<Rightarrow> Region" where
  "two_objects ty w ty' w' pid =
     upd_header (upd_slot (one_object ty w pid) 2 (\<lambda>s. s\<lparr>state := SLOT_USED, obj_type := ty', w0 := w',
         slot_pid := pid, waiter_head := NIL\<rparr>)) (\<lambda>h. h\<lparr>next_scan := 3\<rparr>)"

lemma two_objects_sel [simp]:
  "nodes (two_objects ty w ty' w' pid) = (\<lambda>_. zero_node)"
  "futex_log (two_objects ty w ty' w' pid) = []"
  "node_fresh (header (two_objects ty w ty' w' pid)) = 0"
  "node_free_head (header (two_objects ty w ty' w' pid)) = NIL"
  "next_scan (header (two_objects ty w ty' w' pid)) = 3" "header_ok (header (two_objects ty w ty' w' pid))"
  "slots (two_objects ty w ty' w' pid) = (slots (one_object ty w pid))
     (2 := zero_slot\<lparr>state := SLOT_USED, obj_type := ty', w0 := w', slot_pid := pid, waiter_head := NIL\<rparr>)"
  by (simp_all add: two_objects_def)

lemma two_objects_rep:
  assumes "word_ok ty w" "word_ok ty' w'"
  shows "region_rep (two_objects ty w ty' w' pid) (\<lambda>_. []) []"
proof -
  have "pool_rep (two_objects ty w ty' w' pid) (\<lambda>_. []) []"
    by (rule pool_repI) (auto simp: state_consts)
  moreover have "\<not> (3::u32) \<le> 1" "\<not> (3::u32) \<le> 2" "\<not> (16384::u32) \<le> 1" "\<not> (16384::u32) \<le> 2"
    by (simp_all add: word_le_nat_alt)
  ultimately show ?thesis
    using assms
    by (auto simp: region_rep_def reserved_slot_def scan_cursor_def
        scan_wrapped_def SLOT_COUNT_def SCAN_WRAPPED_def state_consts intro!: holders_ok_empty)
qed

lemma two_objects_slot [simp]:
  "slot (two_objects ty w ty' w' pid) 1 = Some 1" "slot (two_objects ty w ty' w' pid) 2 = Some 2"
  by (simp_all add: slot_Some_iff INDEX_MASK_num INDEX_BITS_def)

subsection \<open>Properties\<close>

text \<open>
  C19: acquiring an object that nobody else touches does what the NT object says, for all three
  types: when the wait is satisfied the call reports whether the object was abandoned and leaves
  the object as NT says (one unit less, owned once more, auto-reset cleared, a pulsed event as it
  is), and otherwise it reports failure and nothing changes; no other slot, node or waiter is
  touched and the invariant holds.
\<close>

theorem try_acquire_spec:
  assumes "undisturbed os" "region_rep r Q F" "state (slots r i) = SLOT_USED" "me \<noteq> 0"
  shows "case wait_satisfied (slots r i) me q of
      None \<Rightarrow> try_acquire os r i me q = Some (None, r)
    | Some (dead, ob) \<Rightarrow> \<exists>w. try_acquire os r i me q = Some (Some dead, put_word r i w) \<and>
        abs_object (slots (put_word r i w) i) = Some ob \<and> region_rep (put_word r i w) Q F"
proof (cases "grant (slots r i) me q")
  case None
  then have "wait_satisfied (slots r i) me q = None" by (simp add: wait_unsatisfied [OF assms(2-4)])
  with None assms(1) show ?thesis by (simp add: try_acquire_undisturbed)
next
  case (Some g)
  obtain od w where g: "g = (od, w)" by (cases g)
  obtain ob where "wait_satisfied (slots r i) me q = Some (od, ob)"
    "abs_object ((slots r i)\<lparr>w0 := w\<rparr>) = Some ob" "word_ok (obj_type (slots r i)) w"
    using wait_satisfied_grant [OF assms(2-4)] Some g by metis
  with Some g assms(1,2) show ?thesis
    by (auto simp: try_acquire_undisturbed slots_put_word_here region_rep_put_word)
qed

theorem try_acquire_spec_witness:
  "let r = one_object TYPE_MUTEX (pack_mutex 0 0 True) 42 in
   undisturbed (quiet_os 7) \<and> region_rep r (\<lambda>_. []) [] \<and> state (slots r 1) = SLOT_USED \<and> (7::u32) \<noteq> 0 \<and>
   (\<exists>w. try_acquire (quiet_os 7) r 1 7 0 = Some (Some True, put_word r 1 w) \<and>
      abs_object (slots (put_word r 1 w) 1) = Some (NtMutex (Some 7) 1 False) \<and>
      region_rep (put_word r 1 w) (\<lambda>_. []) [])"
proof -
  let ?r = "one_object TYPE_MUTEX (pack_mutex 0 0 True) 42"
  have "mutex_ok (pack_mutex 0 0 True)" by (simp add: mutex_ok_def)
  then have h: "undisturbed (quiet_os 7)" "region_rep ?r (\<lambda>_. []) []" "state (slots ?r 1) = SLOT_USED"
    "(7::u32) \<noteq> 0"
    by (simp_all add: one_object_rep)
  have "wait_satisfied (slots ?r 1) 7 0 = Some (True, NtMutex (Some 7) 1 False)"
    by (simp add: wait_satisfied_def abs_object_def nt_wait_def abs_mutex_def type_consts)
  with h try_acquire_spec [OF h, of 0] show ?thesis by simp
qed

text \<open>
  C28: the read-only test that the spin loop uses before it tries to acquire is exact: it says
  that the object is available just when an acquisition at that moment would succeed.
\<close>

theorem is_locked_exact:
  assumes "undisturbed os"
  shows "is_locked (slots r i) me q \<longleftrightarrow> (\<exists>od r'. try_acquire os r i me q = Some (Some od, r'))"
  unfolding is_locked_grant by (auto simp: try_acquire_undisturbed [OF assms] split: option.split)

theorem is_locked_exact_witness:
  "let r = one_object TYPE_SEM (pack_sem 1 5) 42 in
   undisturbed (quiet_os 7) \<and> is_locked (slots r 1) 7 0 \<and>
   (\<exists>od r'. try_acquire (quiet_os 7) r 1 7 0 = Some (Some od, r'))"
proof -
  let ?r = "one_object TYPE_SEM (pack_sem 1 5) 42"
  have "is_locked (slots ?r 1) 7 0" by (simp add: is_locked_def pack_sem_join word_gt_0)
  with is_locked_exact [OF undisturbed_quiet, of ?r 1 7 0 7] show ?thesis by simp
qed

text \<open>
  Rolling an acquisition back restores the region exactly, mutexes with their recursion
  count and abandoned mark included, unless the acquisition was granted by a pulse.
\<close>

theorem rollback_undoes_acquire:
  assumes "undisturbed os" "region_rep r Q F" "state (slots r i) = SLOT_USED" "me \<noteq> 0"
    and "obj_type (slots r i) = TYPE_EVENT \<longrightarrow> pulse_seq (slots r i) = q"
    and "try_acquire os r i me q = Some (Some od, r1)"
  shows "rollback_acquire os r1 i me od = Some r"
proof -
  from assms(6) obtain w where g: "grant (slots r i) me q = Some (od, w)" and r1: "r1 = put_word r i w"
    by (auto simp: try_acquire_undisturbed [OF assms(1)] split: option.splits)
  from ungrant_grant [OF region_word [OF assms(2,3)] assms(4) g assms(5)] show ?thesis
    by (simp add: r1 rollback_acquire_undisturbed [OF assms(1)] slots_put_word_here)
qed

theorem rollback_undoes_acquire_witness:
  "let r = one_object TYPE_MUTEX (pack_mutex 0 0 True) 42 in
   undisturbed (quiet_os 7) \<and> region_rep r (\<lambda>_. []) [] \<and> state (slots r 1) = SLOT_USED \<and> (7::u32) \<noteq> 0 \<and>
   (obj_type (slots r 1) = TYPE_EVENT \<longrightarrow> pulse_seq (slots r 1) = 0) \<and>
   (\<exists>r1. try_acquire (quiet_os 7) r 1 7 0 = Some (Some True, r1) \<and> r1 \<noteq> r \<and>
      rollback_acquire (quiet_os 7) r1 1 7 True = Some r)"
proof -
  let ?r = "one_object TYPE_MUTEX (pack_mutex 0 0 True) 42"
  let ?r1 = "put_word ?r 1 (pack_mutex 7 1 False)"
  have ok: "mutex_ok (pack_mutex 0 0 True)" by (simp add: mutex_ok_def)
  then have h: "undisturbed (quiet_os 7)" "region_rep ?r (\<lambda>_. []) []" "state (slots ?r 1) = SLOT_USED"
    "(7::u32) \<noteq> 0" "obj_type (slots ?r 1) = TYPE_EVENT \<longrightarrow> pulse_seq (slots ?r 1) = 0"
    by (simp_all add: one_object_rep)
  have t: "try_acquire (quiet_os 7) ?r 1 7 0 = Some (Some True, ?r1)"
    using ok by (simp add: try_acquire_undisturbed grant_mutex)
  have "lo32 (w0 (slots ?r1 1)) \<noteq> lo32 (w0 (slots ?r 1))" by simp
  then have "?r1 \<noteq> ?r" by metis
  with h t rollback_undoes_acquire [OF h t] show ?thesis by (metis (no_types, lifting))
qed

text \<open>
  Waiting for all of several different objects is all or nothing. If every object is
  available the call takes them all, reports whether one of them was abandoned, and touches no
  other slot; if one is not available the region is exactly as before, whatever was taken and
  given back on the way.
\<close>

theorem wait_all_atomic:
  assumes "undisturbed os" "region_rep r Q F" "me \<noteq> 0" "distinct hs"
    and "\<forall>h\<in>set hs. \<exists>i. slot r h = Some i"
    and "\<forall>k<length hs. obj_type (slots r (idx (hs ! k))) = TYPE_EVENT \<longrightarrow>
      pulse_seq (slots r (idx (hs ! k))) = qs ! k"
  shows "if \<forall>k<length hs. wait_satisfied (slots r (idx (hs ! k))) me (qs ! k) \<noteq> None
    then \<exists>r' od ob. try_satisfy os r hs me qs True = Some (Some (Signaled 0 (\<exists>k<length hs. od k)), r') \<and>
      (\<forall>k<length hs. wait_satisfied (slots r (idx (hs ! k))) me (qs ! k) = Some (od k, ob k) \<and>
         abs_object (slots r' (idx (hs ! k))) = Some (ob k)) \<and>
      (\<forall>i. i \<notin> idx ` set hs \<longrightarrow> slots r' i = slots r i) \<and> region_rep r' Q F
    else try_satisfy os r hs me qs True = Some (None, r)"
proof -
  have d: "distinct (map idx hs)" by (rule distinct_idx [OF assms(4,5)])
  have u: "\<forall>h\<in>set hs. state (slots r (idx h)) = SLOT_USED" using assms(5) by (auto simp: slot_Some_iff)
  show ?thesis
  proof (cases "\<forall>k<length hs. wait_satisfied (slots r (idx (hs ! k))) me (qs ! k) \<noteq> None")
    case True
    then have "\<forall>k. \<exists>x. k < length hs \<longrightarrow> wait_satisfied (slots r (idx (hs ! k))) me (qs ! k) = Some x"
      by auto
    then obtain x where "\<forall>k<length hs. wait_satisfied (slots r (idx (hs ! k))) me (qs ! k) = Some (x k)"
      by metis
    then have x: "\<forall>k<length hs. wait_satisfied (slots r (idx (hs ! k))) me (qs ! k) =
        Some (fst (x k), snd (x k))" by simp
    obtain r' where "try_satisfy os r hs me qs True = Some (Some (Signaled 0 (\<exists>k<length hs. fst (x k))), r')"
      "region_rep r' Q F" "\<forall>k<length hs. abs_object (slots r' (idx (hs ! k))) = Some (snd (x k))"
      "\<forall>i. i \<notin> idx ` set hs \<longrightarrow> slots r' i = slots r i"
      using try_all_spec_granted [OF assms(1-3) d u x] by (auto simp: try_satisfy_def)
    with x show ?thesis
      by (subst if_P [OF True]) (intro exI [of _ r'] exI [of _ "fst \<circ> x"] exI [of _ "snd \<circ> x"], simp)
  next
    case False
    then obtain j where j: "j < length hs" "wait_satisfied (slots r (idx (hs ! j))) me (qs ! j) = None"
      by blast
    with u have "grant (slots r (idx (hs ! j))) me (qs ! j) = None"
      using wait_unsatisfied [OF assms(2) _ assms(3)] by simp
    with j have "\<exists>j<length hs. grant (slots r (idx (hs ! j))) me (qs ! (length [] + j)) = None" by auto
    with False show ?thesis
      using try_all_busy [OF assms(1,3) d, of hs "[]" r "[]" r qs False] assms(6) d u
        region_word [OF assms(2)] by (simp add: try_satisfy_def)
  qed
qed

theorem wait_all_atomic_witness:
  "let r = two_objects TYPE_SEM (pack_sem 2 5) TYPE_EVENT (pack_event False False) 42; os = quiet_os 7 in
   undisturbed os \<and> region_rep r (\<lambda>_. []) [] \<and> (7::u32) \<noteq> 0 \<and> distinct [1, 2::u32] \<and>
   (\<forall>h\<in>set [1, 2]. \<exists>i. slot r h = Some i) \<and>
   (\<forall>k<length [1, 2::u32]. obj_type (slots r (idx ([1, 2] ! k))) = TYPE_EVENT \<longrightarrow>
      pulse_seq (slots r (idx ([1, 2] ! k))) = [0, 0] ! k) \<and>
   try_satisfy os r [1, 2] 7 [0, 0] True = Some (None, r)"
proof -
  let ?r = "two_objects TYPE_SEM (pack_sem 2 5) TYPE_EVENT (pack_event False False) 42"
  have "sem_ok (pack_sem 2 5)" "event_ok (pack_event False False)"
    by (simp_all add: sem_ok_def event_ok_def pack_sem_join pack_event_join word_le_nat_alt)
  then have h: "undisturbed (quiet_os 7)" "region_rep ?r (\<lambda>_. []) []" "(7::u32) \<noteq> 0" "distinct [1, 2::u32]"
    "\<forall>h\<in>set [1, 2]. \<exists>i. slot ?r h = Some i"
    "\<forall>k<length [1, 2::u32]. obj_type (slots ?r (idx ([1, 2] ! k))) = TYPE_EVENT \<longrightarrow>
      pulse_seq (slots ?r (idx ([1, 2] ! k))) = [0, 0] ! k"
    by (auto simp: two_objects_rep less_Suc_eq INDEX_MASK_num)
  have "wait_satisfied (slots ?r (idx ([1, 2] ! 1))) 7 ([0, 0] ! 1) = None"
    by (simp add: INDEX_MASK_num wait_satisfied_def abs_object_def type_consts abs_event_def
        nt_wait_def pack_event_join)
  then have "\<not> (\<forall>k<length [1, 2::u32]. wait_satisfied (slots ?r (idx ([1, 2] ! k))) 7 ([0, 0] ! k) \<noteq> None)"
    by (metis One_nat_def length_Cons lessI list.size(3) nat.simps(1))
  then have "try_satisfy (quiet_os 7) ?r [1, 2] 7 [0, 0] True = Some (None, ?r)"
    using wait_all_atomic [OF h] by (simp only: if_False)
  with h show ?thesis unfolding Let_def by blast
qed

text \<open>
  Waiting for any of several objects takes the first one in the order of the call that is
  available, returns its position and whether it was abandoned, and touches no other object; if
  none is available nothing changes.
\<close>

theorem wait_any_first:
  assumes "undisturbed os" "region_rep r Q F" "me \<noteq> 0"
    and "\<forall>h\<in>set hs. \<exists>i. slot r h = Some i"
  shows "case List.find (\<lambda>k. wait_satisfied (slots r (idx (hs ! k))) me (qs ! k) \<noteq> None) [0..<length hs] of
      None \<Rightarrow> try_satisfy os r hs me qs False = Some (None, r)
    | Some k \<Rightarrow> \<exists>od ob w. wait_satisfied (slots r (idx (hs ! k))) me (qs ! k) = Some (od, ob) \<and>
        try_satisfy os r hs me qs False =
          Some (Some (Signaled (of_nat k) od), put_word r (idx (hs ! k)) w) \<and>
        abs_object (slots (put_word r (idx (hs ! k)) w) (idx (hs ! k))) = Some ob \<and>
        region_rep (put_word r (idx (hs ! k)) w) Q F"
proof -
  have u: "state (slots r (idx (hs ! k))) = SLOT_USED" if "k < length hs" for k
    using assms(4) that by (metis nth_mem slot_Some_iff)
  note w = wait_unsatisfied [OF assms(2) u assms(3)]
  show ?thesis
  proof (cases "List.find (\<lambda>k. wait_satisfied (slots r (idx (hs ! k))) me (qs ! k) \<noteq> None) [0..<length hs]")
    case None
    then have "\<forall>j<length hs. grant (slots r (idx (hs ! j))) me (qs ! (0 + j)) = None"
      using w by (simp add: find_None_iff del: not_None_eq)
    with None show ?thesis by (simp add: try_satisfy_def try_any_none [OF assms(1)])
  next
    case (Some k)
    then have k: "k < length hs" "wait_satisfied (slots r (idx (hs ! k))) me (qs ! k) \<noteq> None"
      and b: "\<forall>j<k. wait_satisfied (slots r (idx (hs ! j))) me (qs ! j) = None"
      by (auto simp: find_Some_iff simp del: not_None_eq)
    obtain od v where g: "grant (slots r (idx (hs ! k))) me (qs ! k) = Some (od, v)"
      using k w [of k "qs ! k"] by (cases "grant (slots r (idx (hs ! k))) me (qs ! k)") auto
    obtain ob where o: "wait_satisfied (slots r (idx (hs ! k))) me (qs ! k) = Some (od, ob)"
      "abs_object ((slots r (idx (hs ! k)))\<lparr>w0 := v\<rparr>) = Some ob"
      "word_ok (obj_type (slots r (idx (hs ! k)))) v"
      using wait_satisfied_grant [OF assms(2) u [OF k(1)] assms(3) g] by metis
    have "\<forall>j<k. grant (slots r (idx (hs ! j))) me (qs ! (0 + j)) = None"
      using b w k(1) by simp
    then have "try_any os r 0 hs me qs = Some (Some (Signaled (of_nat k) od), put_word r (idx (hs ! k)) v)"
      using try_any_some [OF assms(1) k(1), where n = 0] g by simp
    with Some o region_rep_put_word [OF assms(2) o(3)] show ?thesis
      by (auto simp: try_satisfy_def slots_put_word_here)
  qed
qed

theorem wait_any_first_witness:
  "let r = two_objects TYPE_EVENT (pack_event False False) TYPE_SEM (pack_sem 2 5) 42; os = quiet_os 7 in
   undisturbed os \<and> region_rep r (\<lambda>_. []) [] \<and> (7::u32) \<noteq> 0 \<and>
   (\<forall>h\<in>set [1, 2]. \<exists>i. slot r h = Some i) \<and>
   (\<exists>w. try_satisfy os r [1, 2] 7 [0, 0] False = Some (Some (Signaled 1 False), put_word r 2 w) \<and>
      abs_object (slots (put_word r 2 w) 2) = Some (NtSem 1 5))"
proof -
  let ?r = "two_objects TYPE_EVENT (pack_event False False) TYPE_SEM (pack_sem 2 5) 42"
  have "sem_ok (pack_sem 2 5)" "event_ok (pack_event False False)"
    by (simp_all add: sem_ok_def event_ok_def pack_sem_join pack_event_join word_le_nat_alt)
  then have h: "undisturbed (quiet_os 7)" "region_rep ?r (\<lambda>_. []) []" "(7::u32) \<noteq> 0"
    "\<forall>h\<in>set [1, 2]. \<exists>i. slot ?r h = Some i"
    by (auto simp: two_objects_rep)
  have e: "wait_satisfied (slots ?r (idx ([1, 2] ! 0))) 7 ([0, 0] ! 0) = None"
    by (simp add: INDEX_MASK_num wait_satisfied_def abs_object_def type_consts abs_event_def
        nt_wait_def pack_event_join)
  have s: "wait_satisfied (slots ?r (idx ([1, 2] ! 1))) 7 ([0, 0] ! 1) = Some (False, NtSem 1 5)"
    by (simp add: INDEX_MASK_num wait_satisfied_def abs_object_def type_consts abs_sem_def
        nt_wait_def pack_sem_join)
  have two: "[0..<length [1, 2::u32]] = [0, 1]" by (simp add: upt_rec)
  have fnd: "List.find (\<lambda>k. wait_satisfied (slots ?r (idx ([1, 2] ! k))) 7 ([0, 0] ! k) \<noteq> None)
      [0..<length [1, 2::u32]] = Some 1"
    by (simp only: two find.simps e s) simp
  obtain od ob w where w: "wait_satisfied (slots ?r (idx ([1, 2] ! 1))) 7 ([0, 0] ! 1) = Some (od, ob)"
    "try_satisfy (quiet_os 7) ?r [1, 2] 7 [0, 0] False =
       Some (Some (Signaled (of_nat 1) od), put_word ?r (idx ([1, 2] ! 1)) w)"
    "abs_object (slots (put_word ?r (idx ([1, 2] ! 1)) w) (idx ([1, 2] ! 1))) = Some ob"
    using wait_any_first [OF h, of "[0, 0]"] unfolding fnd option.case by blast
  have i: "idx ([1, 2] ! 1) = 2" by (simp add: INDEX_MASK_num)
  from w s have "od = False" "ob = NtSem 1 5" by simp_all
  with w(2,3) h show ?thesis unfolding i Let_def by (metis of_nat_1)
qed

text \<open>
  An auto-reset event that is not signaled but was pulsed during the wait is granted without
  being changed, yet the rollback of a wait for all signals it: the rollback cannot tell a grant
  by pulse from a grant by the signaled state. The event is then left signaled although nobody
  set it.
\<close>

theorem rollback_after_pulse_signals:
  assumes "undisturbed os" "obj_type (slots r i) = TYPE_EVENT"
    and "w0 (slots r i) = pack_event False False" "pulse_seq (slots r i) \<noteq> q"
  shows "try_acquire os r i me q = Some (Some False, r) \<and>
    rollback_acquire os r i me False = Some (put_word r i (pack_event True False))"
proof -
  have "set_low (pack_event False False) = pack_event True False"
    by (rule halves_eqI) (simp_all add: pack_event_join lo32_set_low)
  moreover have "lo32 (pack_event False False) = 0" "hi32 (pack_event False False) = 0"
    by (simp_all add: pack_event_join)
  moreover have "put_word r i (pack_event False False) = r" by (metis assms(3) put_word_same)
  ultimately show ?thesis
    using assms(2-)
    by (simp add: try_acquire_undisturbed [OF assms(1)] rollback_acquire_undisturbed [OF assms(1)]
        grant_event ungrant_def Let_def type_consts)
qed

theorem rollback_after_pulse_signals_witness:
  "let r = one_object TYPE_EVENT (pack_event False False) 42; os = quiet_os 7 in
   undisturbed os \<and> obj_type (slots r 1) = TYPE_EVENT \<and> w0 (slots r 1) = pack_event False False \<and>
   pulse_seq (slots r 1) \<noteq> 3 \<and> read_event r 1 = Inr (False, False) \<and>
   try_acquire os r 1 7 3 = Some (Some False, r) \<and>
   (\<exists>r'. rollback_acquire os r 1 7 False = Some r' \<and> read_event r' 1 = Inr (False, True))"
proof -
  let ?r = "one_object TYPE_EVENT (pack_event False False) 42"
  have h: "undisturbed (quiet_os 7)" "obj_type (slots ?r 1) = TYPE_EVENT"
    "w0 (slots ?r 1) = pack_event False False" "pulse_seq (slots ?r 1) \<noteq> 3" by simp_all
  have "read_event ?r 1 = Inr (False, False)"
    "read_event (put_word ?r 1 (pack_event True False)) 1 = Inr (False, True)"
    by (simp_all add: read_event_def slot_of_type_def drop32_eq_0 pack_event_join)
  with h rollback_after_pulse_signals [OF h, of 7] show ?thesis by simp
qed

end
