(* ===== verification/Lifecycle.thy ===== *)
theory Lifecycle
  imports Sweep Acquire
begin

text \<open>
  The life of an object, from \<^verbatim>\<open>src/src/core.rs\<close>: \<open>create_semaphore\<close>,
  \<open>create_mutex\<close>, \<open>create_event\<close>, \<open>retain\<close>, \<open>release\<close> and \<open>close\<close>. Proved: a created
  object reads back through its handle (as long as the slot's generation fits in a
  handle), no handle is zero, closing invalidates the handle for good and wakes the
  waiters, a retained object survives the death of its creator, and a full table is
  reported or reclaimed.
\<close>

subsection \<open>Operations\<close>

definition create_object :: "Os \<Rightarrow> Region \<Rightarrow> u32 \<Rightarrow> u64 \<Rightarrow> ((Error + u32) \<times> Region) option" where
  "create_object os r ty w =
     with_lock os r (\<lambda>e. Inl (Init e)) (\<lambda>r1. do {
       (got, r2) \<leftarrow> alloc_slot_or_sweep os r1;
       case got of
         None \<Rightarrow> Some (Inl (Init ENOMEM), r2)
       | Some handle \<Rightarrow> Some (Inr handle, slot_publish os r2 handle ty w)
     })"

definition create_semaphore :: "Os \<Rightarrow> Region \<Rightarrow> u32 \<Rightarrow> u32 \<Rightarrow> ((Error + u32) \<times> Region) option" where
  "create_semaphore os r count limit =
     (if count > limit then Some (Inl Invalid, r)
      else create_object os r TYPE_SEM (pack_sem count limit))"

definition create_mutex :: "Os \<Rightarrow> Region \<Rightarrow> u32 \<Rightarrow> u32 \<Rightarrow> ((Error + u32) \<times> Region) option" where
  "create_mutex os r owner count =
     (if (owner = 0) \<noteq> (count = 0) \<or> count > 0x7fffffff then Some (Inl Invalid, r)
      else create_object os r TYPE_MUTEX (pack_mutex owner count False))"

definition create_event :: "Os \<Rightarrow> Region \<Rightarrow> bool \<Rightarrow> bool \<Rightarrow> ((Error + u32) \<times> Region) option" where
  "create_event os r manual signaled =
     create_object os r TYPE_EVENT (pack_event signaled manual)"

text \<open>The common shape of \<open>retain\<close> and \<open>release\<close>: change the holder list of the slot.\<close>

definition holder_op ::
  "(Slot \<Rightarrow> u32 \<Rightarrow> Slot) \<Rightarrow> Os \<Rightarrow> Region \<Rightarrow> u32 \<Rightarrow> ((Error + unit) \<times> Region) option" where
  "holder_op f os r handle =
     (if handle AND INDEX_MASK = 0 then Some (Inl Invalid, r)
      else with_lock os r (\<lambda>e. Inl (Init e)) (\<lambda>r1.
        case slot r1 handle of
          None \<Rightarrow> Some (Inl Invalid, r1)
        | Some i \<Rightarrow> Some (Inr (), upd_slot r1 i (\<lambda>s. f s (getpid os)))))"

definition retain :: "Os \<Rightarrow> Region \<Rightarrow> u32 \<Rightarrow> ((Error + unit) \<times> Region) option" where
  "retain = holder_op holder_add"

definition release :: "Os \<Rightarrow> Region \<Rightarrow> u32 \<Rightarrow> ((Error + unit) \<times> Region) option" where
  "release = holder_op holder_remove"

definition close :: "Os \<Rightarrow> Region \<Rightarrow> u32 \<Rightarrow> (bool \<times> Region) option" where
  "close os r handle =
     (if handle AND INDEX_MASK = 0 then Some (False, r)
      else with_lock os r (\<lambda>_. False) (\<lambda>r1.
        case slot r1 handle of
          None \<Rightarrow> Some (False, r1)
        | Some i \<Rightarrow> do {
            let r2 = upd_slot r1 i (\<lambda>s. holder_remove s (getpid os));
            r3 \<leftarrow> wake_object os (free_slot r2 i) (handle AND INDEX_MASK);
            Some (True, r3)
          }))"

subsection \<open>Creating\<close>

lemma create_object_free:
  assumes os: "undisturbed os" and R: "region_rep r Q F" and w: "word_ok ty w"
    and free: "\<exists>i<SLOT_COUNT. state (slots r i) = SLOT_FREE"
  obtains h r' where "create_object os r ty w = Some (Inr h, r')" "h AND INDEX_MASK \<noteq> 0"
    "state (slots r (h AND INDEX_MASK)) = SLOT_FREE" "region_rep r' Q F"
    "slot r' h = (if generation (slots r (h AND INDEX_MASK)) < 2 ^ 18 then Some (h AND INDEX_MASK) else None)"
    "\<forall>j. j \<noteq> h AND INDEX_MASK \<longrightarrow> slots r' j = slots r j"
    "obj_type (slots r' (h AND INDEX_MASK)) = ty" "w0 (slots r' (h AND INDEX_MASK)) = w"
    "state (slots r' (h AND INDEX_MASK)) = SLOT_USED" "slot_pid (slots r' (h AND INDEX_MASK)) = getpid os"
    "generation (slots r' (h AND INDEX_MASK)) = generation (slots r (h AND INDEX_MASK))"
    "node_fresh (header r') = node_fresh (header r)"
proof -
  have R1: "region_rep (lock_mark os r) Q F" using R by simp
  obtain h r1 where a: "alloc_slot (lock_mark os r) = (Some h, r1)"
    using alloc_slot_None(1) [OF region_cursor [OF R1]] free
    by (cases "alloc_slot (lock_mark os r)"; cases "fst (alloc_slot (lock_mark os r))") auto
  obtain i where i: "i < SLOT_COUNT" "i \<noteq> 0" "state (slots r i) = SLOT_FREE" "h AND INDEX_MASK = i"
    "slots r1 = (slots r)(i := (slots r i)\<lparr>waiter_head := NIL\<rparr>)"
    and hd: "header r1 = (header (lock_mark os r))\<lparr>next_scan := next_scan (header r1)\<rparr>"
    by (rule alloc_slot_Some [OF R1 a]) auto
  have nf: "node_fresh (header r1) = node_fresh (header r)" using arg_cong [OF hd, of node_fresh] by simp
  let ?r = "guard_drop (slot_publish os r1 h ty w)"
  have "create_object os r ty w = Some (Inr h, ?r)"
    using a by (simp add: create_object_def with_lock_undisturbed [OF os] alloc_slot_or_sweep_def)
  moreover have "region_rep ?r Q F" using publish_rep [OF R1 a w] by simp
  moreover have "slot ?r h = (if generation (slots r (h AND INDEX_MASK)) < 2 ^ 18 then Some (h AND INDEX_MASK) else None)"
    using publish_slot [OF R1 a] by simp
  ultimately show ?thesis
    using i nf by (intro that [of h ?r]) (auto simp: slot_publish_def)
qed

lemma sem_word_ok: "c \<le> m \<Longrightarrow> word_ok TYPE_SEM (pack_sem c m)"
  by (simp add: sem_ok_def pack_sem_join)

lemma mutex_word_ok: "(owner = 0) = (c = 0) \<Longrightarrow> c \<le> 0x7fffffff \<Longrightarrow> word_ok TYPE_MUTEX (pack_mutex owner c False)"
  by (simp add: mutex_ok_def low31_id)

lemma event_word_ok: "word_ok TYPE_EVENT (pack_event s m)"
  by (simp add: event_ok_def pack_event_join)

lemma card_less_word: "card {i :: u32. i < n} \<le> unat n"
proof -
  have "{i :: u32. i < n} \<subseteq> of_nat ` {..<unat n}"
  proof
    fix i :: u32 assume "i \<in> {i. i < n}"
    then have "unat i < unat n" by (simp add: word_less_nat_alt)
    moreover have "i = of_nat (unat i)" by simp
    ultimately show "i \<in> of_nat ` {..<unat n}" by (metis imageI lessThan_iff)
  qed
  then have "card {i :: u32. i < n} \<le> card ((of_nat :: nat \<Rightarrow> u32) ` {..<unat n})" by (intro card_mono) auto
  also have "\<dots> \<le> unat n" using card_image_le [of "{..<unat n}" "of_nat :: nat \<Rightarrow> u32"] by simp
  finally show ?thesis .
qed
lemma of_nat_u32_eq_0: "n < 2 ^ 32 \<Longrightarrow> (of_nat n :: u32) = 0 \<longleftrightarrow> n = 0"
  by (simp add: word_unat_eq_iff unat_of_nat)

text \<open>A full table: the sweep decides whether there is room.\<close>

lemma create_object_full:
  assumes os: "undisturbed os" and R: "region_rep r Q F"
    and full: "\<forall>i<SLOT_COUNT. state (slots r i) \<noteq> SLOT_FREE" and live: "\<forall>i. \<not> dead_slot os (slots r i)"
  obtains r' where "create_object os r ty w = Some (Inl (Init ENOMEM), r')" "bare r' = bare r" "region_ok r'"
proof -
  have R1: "region_rep (lock_mark os r) Q F" using R by simp
  have "fst (alloc_slot (lock_mark os r)) = None" using alloc_slot_None(1) [OF region_cursor [OF R1]] full by simp
  then have a: "alloc_slot (lock_mark os r) = (None, lock_mark os r)"
    using alloc_slot_None(2) [OF region_cursor [OF R1]] by (metis prod.collapse)
  obtain n r' where n: "sweep_dead_locked os (lock_mark os r) = Some (n, r')"
    and sw: "swept os (lock_mark os r) Q UNIV UNIV n r'" by (rule sweep_dead_locked_swept [OF R1])
  from sw live have "n = 0" "bare r' = bare r" "region_ok r'"
    by (auto simp: swept_def region_ok_def fun_eq_iff)
  then show ?thesis
    using a n that [of "guard_drop r'"]
    by (simp add: create_object_def with_lock_undisturbed [OF os] alloc_slot_or_sweep_def)
qed

lemma create_object_reclaims:
  assumes os: "undisturbed os" and R: "region_rep r Q F" and w: "word_ok ty w"
    and full: "\<forall>i<SLOT_COUNT. state (slots r i) \<noteq> SLOT_FREE" and d: "dead_slot os (slots r j)"
  obtains h r' where "create_object os r ty w = Some (Inr h, r')" "region_ok r'"
    "dead_slot os (slots r (h AND INDEX_MASK))"
proof -
  have R1: "region_rep (lock_mark os r) Q F" using R by simp
  have "fst (alloc_slot (lock_mark os r)) = None" using alloc_slot_None(1) [OF region_cursor [OF R1]] full by simp
  then have a: "alloc_slot (lock_mark os r) = (None, lock_mark os r)"
    using alloc_slot_None(2) [OF region_cursor [OF R1]] by (metis prod.collapse)
  obtain n r1 where n: "sweep_dead_locked os (lock_mark os r) = Some (n, r1)"
    and sw: "swept os (lock_mark os r) Q UNIV UNIV n r1" by (rule sweep_dead_locked_swept [OF R1])
  obtain F1 where R2: "region_rep r1 (lists_left os (lock_mark os r) Q UNIV UNIV) F1"
    and b: "\<forall>i. bare r1 i = (if dead_slot os (slots r i) then freed_slot (bare r i) else bare r i)"
    and c: "n = of_nat (card {i. dead_slot os (slots r i)})" using sw by (auto simp: swept_def)
  have used: "i < SLOT_COUNT" if "dead_slot os (slots r i)" for i
    using that region_beyond [OF R, of i] by (force simp: dead_slot_def not_le [symmetric])
  have st: "state (slots r1 i) = (if dead_slot os (slots r i) then SLOT_FREE else state (slots r i))" for i
    using b [rule_format, of i] bare_sel(1) [of r1 i] by (auto simp: freed_slot_def bare_sel)
  obtain h r2 where h: "alloc_slot r1 = (Some h, r2)"
    using alloc_slot_None(1) [OF region_cursor [OF R2]] used [OF d] st [of j] d
    by (cases "alloc_slot r1"; cases "fst (alloc_slot r1)") auto
  have "n \<noteq> 0"
  proof -
    let ?D = "{i. dead_slot os (slots r i)}"
    have "?D \<subseteq> {i. i < SLOT_COUNT}" using used by auto
    then have "card ?D \<le> card {i. i < SLOT_COUNT}" by (intro card_mono) auto
    also have "card {i. i < SLOT_COUNT} \<le> unat SLOT_COUNT" by (rule card_less_word)
    finally have "card ?D \<le> 16384" by (simp add: unat_SLOT_COUNT)
    then have "card ?D < 2 ^ 32" by simp
    moreover have "card ?D \<noteq> 0" using d by (auto simp: card_eq_0_iff)
    ultimately show ?thesis unfolding c by (simp only: of_nat_u32_eq_0 not_False_eq_True)
  qed
  obtain i where "state (slots r1 i) = SLOT_FREE" "h AND INDEX_MASK = i" "i < SLOT_COUNT"
    by (rule alloc_slot_Some [OF R2 h]) auto
  then have "dead_slot os (slots r (h AND INDEX_MASK))" using st [of i] full by (auto split: if_splits)
  moreover have "region_ok (slot_publish os r2 h ty w)"
    using publish_rep [OF R2 h w] by (auto simp: region_ok_def)
  ultimately show ?thesis
    using a n h \<open>n \<noteq> 0\<close> that [of h "guard_drop (slot_publish os r2 h ty w)"]
    by (simp add: create_object_def with_lock_undisturbed [OF os] alloc_slot_or_sweep_def word_gt_0)
qed

subsection \<open>Holding and closing\<close>

lemma holder_op_undisturbed:
  assumes "undisturbed os" "slot r h = Some i" "i \<noteq> 0"
  shows "holder_op f os r h = Some (Inr (), guard_drop (upd_slot (lock_mark os r) i (\<lambda>s. f s (getpid os))))"
  using assms slot_Some_iff [of r h i] by (auto simp: holder_op_def with_lock_undisturbed)

lemma region_rep_holders:
  assumes R: "region_rep r Q F" and ok: "holders_ok (f (slots r i))"
    and f: "\<And>s. state (f s) = state s" "\<And>s. obj_type (f s) = obj_type s" "\<And>s. slot_pid (f s) = slot_pid s"
      "\<And>s. waiter_head (f s) = waiter_head s" "\<And>s. w0 (f s) = w0 s"
  shows "region_rep (upd_slot r i f) Q F"
proof -
  have P: "pool_rep (upd_slot r i f) Q F"
    by (rule pool_rep_cong [OF _ _ _ _ _ _ _ _ _ _ region_pool [OF R]]) (auto simp: f split: if_splits)
  have "scan_cursor (upd_slot r i f) = scan_cursor r" "scan_wrapped (upd_slot r i f) = scan_wrapped r"
    by (simp_all add: scan_cursor_def scan_wrapped_def)
  with P ok region_queued [OF R] region_word [OF R] region_reserved [OF R] region_holders [OF R]
    region_cursor [OF R] region_above [OF R] region_beyond [OF R] region_header [OF R]
  show ?thesis unfolding region_rep_def by (auto simp: f reserved_slot_def)
qed

lemma retain_run:
  assumes os: "undisturbed os" and R: "region_rep r Q F" and h: "slot r h = Some i" and i0: "i \<noteq> 0"
  obtains r' where "retain os r h = Some (Inr (), r')" "region_rep r' Q F" "slot r' h = Some i"
    "slots r' = (slots r)(i := holder_add (slots r i) (getpid os))" "nodes r' = nodes r"
proof -
  let ?r = "upd_slot (lock_mark os r) i (\<lambda>s. holder_add s (getpid os))"
  have "region_rep ?r Q F"
    by (rule region_rep_holders) (use R holder_add_set [OF region_holders [OF R, of i]] in simp_all)
  moreover have "slot ?r h = Some i" using h by (auto simp: slot_Some_iff)
  ultimately show ?thesis
    using that [of "guard_drop ?r"] holder_op_undisturbed [OF os h i0] by (simp add: retain_def)
qed

lemma close_run:
  assumes os: "undisturbed os" and R: "region_rep r Q F" and h: "slot r h = Some i" and i0: "i \<noteq> 0"
  obtains r' where "close os r h = Some (True, r')" "region_rep r' (Q(i := [])) F"
    "state (slots r' i) = SLOT_FREE" "generation (slots r' i) = generation (slots r i) + 1"
    "\<forall>j. j \<noteq> i \<longrightarrow> bare r' j = bare r j"
    "futex_log r' = futex_log r @ map (\<lambda>x. wait_word (nodes r x)) (Q i)"
    "\<forall>x\<in>set (Q i). registered (nodes r' x) = 0" "node_fresh (header r') = node_fresh (header r)"
proof -
  let ?r = "upd_slot (lock_mark os r) i (\<lambda>s. holder_remove s (getpid os))"
  have i: "h AND INDEX_MASK = i" and u: "state (slots ?r i) = SLOT_USED" using h by (auto simp: slot_Some_iff)
  have R1: "region_rep ?r Q F"
    by (rule region_rep_holders) (use R holder_remove_set [OF region_holders [OF R, of i]] in simp_all)
  obtain r' where r': "wake_object os (free_slot ?r i) i = Some r'" "region_rep r' (Q(i := [])) F"
    "woken (free_slot ?r i) (Q i) r'" by (rule free_slot_wake [OF R1 u i0])
  have b: "bare r' = bare (free_slot ?r i)" and c: "core r' = core (free_slot ?r i)" using r'(3) by (simp_all add: woken_def)
  have nf: "node_fresh (header r') = node_fresh (header r)" using coreD(2) [OF c] by simp
  have "close os r h = Some (True, guard_drop r')"
    using r'(1) i i0 h by (simp add: close_def with_lock_undisturbed [OF os])
  moreover have "bare r' j = bare r j" if "j \<noteq> i" for j using that by (simp add: b) (simp add: bare_def)
  moreover have "state (slots r' i) = SLOT_FREE" "generation (slots r' i) = generation (slots r i) + 1"
    using bareD(1,2) [OF b, of i] by simp_all
  ultimately show ?thesis
    using r'(2,3) nf by (intro that [of "guard_drop r'"]) (auto simp: woken_def)
qed

subsection \<open>Properties\<close>

text \<open>
  C23: creating a semaphore in a table with room and reading it back. The handle is not zero and
  was not valid before, the semaphore reads back with its count and maximum, every other valid
  handle keeps naming the same object, and the invariant holds, provided that the slot's
  generation still fits in the 18 bits that a handle has for it.
\<close>

theorem create_semaphore_roundtrip:
  assumes "undisturbed os" "region_rep r Q F" "c \<le> m"
    and "\<forall>i<SLOT_COUNT. state (slots r i) = SLOT_FREE \<longrightarrow> generation (slots r i) < 2 ^ 18"
    and "\<exists>i<SLOT_COUNT. state (slots r i) = SLOT_FREE"
  shows "\<exists>h r'. create_semaphore os r c m = Some (Inr h, r') \<and> h \<noteq> 0 \<and> slot r h = None \<and>
    read_sem r' h = Inr (c, m) \<and> (\<forall>h'. slot r h' \<noteq> None \<longrightarrow> slot r' h' = slot r h') \<and> region_rep r' Q F"
proof -
  obtain h r' where c: "create_object os r TYPE_SEM (pack_sem c m) = Some (Inr h, r')" "h AND INDEX_MASK \<noteq> 0"
    "state (slots r (h AND INDEX_MASK)) = SLOT_FREE" "region_rep r' Q F"
    "slot r' h = (if generation (slots r (h AND INDEX_MASK)) < 2 ^ 18 then Some (h AND INDEX_MASK) else None)"
    "\<forall>j. j \<noteq> h AND INDEX_MASK \<longrightarrow> slots r' j = slots r j"
    "obj_type (slots r' (h AND INDEX_MASK)) = TYPE_SEM" "w0 (slots r' (h AND INDEX_MASK)) = pack_sem c m"
    by (rule create_object_free [OF assms(1,2) sem_word_ok [OF assms(3)] assms(5)]) blast
  have "slot r' h = Some (h AND INDEX_MASK)" using c(3,5) assms(4) index_lt [of h] by auto
  then have "read_sem r' h = Inr (c, m)"
    using c(7,8) by (simp add: read_sem_def slot_of_type_def pack_sem_join)
  moreover have "slot r' h' = slot r h'" if "slot r h' \<noteq> None" for h'
  proof -
    from that have "h' AND INDEX_MASK \<noteq> h AND INDEX_MASK" using c(3) by (auto simp: slot_Some_iff)
    with c(6) show ?thesis by (intro slot_cong) auto
  qed
  moreover have "slot r h = None" using c(3) by (simp add: slot_def Let_def)
  ultimately show ?thesis
    using c(1,2,4) assms(3) by (auto simp: create_semaphore_def)
qed

theorem create_semaphore_roundtrip_witness:
  "undisturbed (quiet_os 7) \<and> region_rep fresh_region (\<lambda>_. []) [] \<and> (2 :: u32) \<le> 5 \<and>
   (\<exists>i<SLOT_COUNT. state (slots fresh_region i) = SLOT_FREE) \<and>
   (\<exists>h r'. create_semaphore (quiet_os 7) fresh_region 2 5 = Some (Inr h, r') \<and> h \<noteq> 0 \<and>
      slot fresh_region h = None \<and> read_sem r' h = Inr (2, 5) \<and>
      (\<forall>h'. slot fresh_region h' \<noteq> None \<longrightarrow> slot r' h' = slot fresh_region h') \<and> region_rep r' (\<lambda>_. []) [])"
proof -
  have c: "(2 :: u32) \<le> 5" by (simp add: word_le_nat_alt)
  have g: "\<forall>i<SLOT_COUNT. state (slots fresh_region i) = SLOT_FREE \<longrightarrow> generation (slots fresh_region i) < 2 ^ 18"
    by (simp add: word_less_nat_alt)
  have e: "\<exists>i<SLOT_COUNT. state (slots fresh_region i) = SLOT_FREE"
    by (rule exI [of _ 1]) (simp add: SLOT_COUNT_def state_consts word_less_nat_alt)
  show ?thesis
    using c g e fresh_region_rep create_semaphore_roundtrip [OF undisturbed_quiet fresh_region_rep c g e] by simp
qed

text \<open>
  C36: a handle has 18 bits for the generation of its slot, but the slot counts generations in 32
  bits. When a slot whose generation passed \<open>2 ^ 18\<close> is handed out again, creation succeeds and
  returns a handle that is not valid: the object can be neither used nor closed.
\<close>

theorem create_event_old_slot_unusable:
  assumes "undisturbed os" "region_rep r Q F" "\<exists>i<SLOT_COUNT. state (slots r i) = SLOT_FREE"
    and "\<forall>i<SLOT_COUNT. state (slots r i) = SLOT_FREE \<longrightarrow> 2 ^ 18 \<le> generation (slots r i)"
  shows "\<exists>h r'. create_event os r man sig = Some (Inr h, r') \<and> slot r' h = None \<and>
    read_event r' h = Inl Invalid \<and> state (slots r' (h AND INDEX_MASK)) = SLOT_USED \<and>
    close os r' h = Some (False, guard_drop (lock_mark os r'))"
proof -
  obtain h r' where c: "create_object os r TYPE_EVENT (pack_event sig man) = Some (Inr h, r')" "h AND INDEX_MASK \<noteq> 0"
    "state (slots r (h AND INDEX_MASK)) = SLOT_FREE"
    "slot r' h = (if generation (slots r (h AND INDEX_MASK)) < 2 ^ 18 then Some (h AND INDEX_MASK) else None)"
    "state (slots r' (h AND INDEX_MASK)) = SLOT_USED"
    by (rule create_object_free [OF assms(1,2) event_word_ok assms(3)]) blast
  have n: "slot r' h = None" using c(3,4) assms(4) index_lt [of h] by (auto simp: not_less [symmetric])
  moreover have "close os r' h = Some (False, guard_drop (lock_mark os r'))"
    using n c(2) by (simp add: close_def with_lock_undisturbed [OF assms(1)])
  ultimately show ?thesis
    using c(1,5) by (auto simp: create_event_def read_event_def slot_of_type_def)
qed

text \<open>A region whose slots have all been handed out \<open>2 ^ 18\<close> times.\<close>

definition old_region :: Region where
  "old_region = fresh_region\<lparr>slots := (\<lambda>i. (slots fresh_region i)\<lparr>generation := 2 ^ 18\<rparr>)\<rparr>"

lemma old_region_sel [simp]:
  "slots old_region i = (slots fresh_region i)\<lparr>generation := 2 ^ 18\<rparr>"
  "nodes old_region = nodes fresh_region" "header old_region = header fresh_region"
  by (simp_all add: old_region_def)

lemma old_region_rep: "region_rep old_region (\<lambda>_. []) []"
proof -
  have "pool_rep old_region (\<lambda>_. []) []"
    by (rule pool_rep_cong [OF _ _ _ _ _ _ _ _ _ _ region_pool [OF fresh_region_rep]]) simp_all
  then show ?thesis
    by (rule region_rep_frame [OF fresh_region_rep]) (use region_word [OF fresh_region_rep] in simp_all)
qed

theorem create_event_old_slot_unusable_witness:
  "undisturbed (quiet_os 7) \<and> region_rep old_region (\<lambda>_. []) [] \<and>
   (\<exists>i<SLOT_COUNT. state (slots old_region i) = SLOT_FREE) \<and>
   (\<exists>h r'. create_event (quiet_os 7) old_region True True = Some (Inr h, r') \<and> slot r' h = None \<and>
      read_event r' h = Inl Invalid)"
proof -
  have e: "\<exists>i<SLOT_COUNT. state (slots old_region i) = SLOT_FREE"
    by (rule exI [of _ 1]) (simp add: SLOT_COUNT_def state_consts word_less_nat_alt)
  have g: "\<forall>i<SLOT_COUNT. state (slots old_region i) = SLOT_FREE \<longrightarrow> 2 ^ 18 \<le> generation (slots old_region i)"
    by simp
  from e g old_region_rep create_event_old_slot_unusable [OF undisturbed_quiet old_region_rep e g, of 7 True True]
  show ?thesis by (metis undisturbed_quiet)
qed



text \<open>
  A process that retains a handle keeps the object alive. After it retained the handle, any
  sweep while it lives leaves the handle valid, whether or not the creator has died meanwhile.
\<close>

theorem retain_protects:
  assumes "undisturbed os" "region_rep r Q F" "slot r h = Some i" "i \<noteq> 0"
    and "undisturbed os'" "pid_alive os' (getpid os)"
  shows "\<exists>r1 n r2. retain os r h = Some (Inr (), r1) \<and> region_rep r1 Q F \<and>
    sweep_dead os' r1 = Some (Inr n, r2) \<and> slot r2 h = Some i \<and> region_ok r2"
proof -
  obtain r1 where r1: "retain os r h = Some (Inr (), r1)" "region_rep r1 Q F" "slot r1 h = Some i"
    "slots r1 = (slots r)(i := holder_add (slots r i) (getpid os))"
    by (rule retain_run [OF assms(1-4)]) blast
  have "\<not> dead_slot os' (slots r1 i)"
    using holder_add_set [OF region_holders [OF assms(2), of i], of "getpid os"] assms(6)
    by (auto simp: r1(4) dead_slot_def split: if_splits)
  moreover obtain n r2 where n: "sweep_dead_locked os' (lock_mark os' r1) = Some (n, r2)"
    and sw: "swept os' (lock_mark os' r1) Q UNIV UNIV n r2"
    using sweep_dead_locked_swept [of "lock_mark os' r1" Q F os'] r1(2) by auto
  ultimately have "bare r2 i = bare r1 i" and ok: "region_ok r2" by (auto simp: swept_def region_ok_def)
  then have "slot (guard_drop r2) h = slot r1 h"
    using r1(3) bare_sel(1,2) [of r2 i] bare_sel(1,2) [of r1 i] by (intro slot_cong) (auto simp: slot_Some_iff)
  with r1 n ok show ?thesis
    by (auto simp: sweep_dead_def with_lock_undisturbed [OF assms(5)])
qed

theorem retain_protects_witness:
  "let r = one_object TYPE_EVENT (pack_event False True) 42 in
   undisturbed (quiet_os 7) \<and> region_rep r (\<lambda>_. []) [] \<and> slot r 1 = Some 1 \<and> (1 :: u32) \<noteq> 0 \<and>
   undisturbed after_death \<and> pid_alive after_death (getpid (quiet_os 7)) \<and> \<not> pid_alive after_death 42 \<and>
   (\<exists>r1 n r2. retain (quiet_os 7) r 1 = Some (Inr (), r1) \<and> region_rep r1 (\<lambda>_. []) [] \<and>
      sweep_dead after_death r1 = Some (Inr n, r2) \<and> slot r2 1 = Some 1 \<and> region_ok r2)"
proof -
  let ?r = "one_object TYPE_EVENT (pack_event False True) 42"
  have h: "undisturbed (quiet_os 7)" "region_rep ?r (\<lambda>_. []) []" "slot ?r 1 = Some 1" "(1 :: u32) \<noteq> 0"
    "undisturbed after_death" "pid_alive after_death (getpid (quiet_os 7))"
    using event_word_ok by (simp_all add: one_object_rep) (simp add: quiet_os_def)
  from h retain_protects [OF h] show ?thesis by simp
qed

text \<open>
  C30: creating an object when every slot is in use. If an object of dead processes is among them,
  the table is swept and the new object takes a reclaimed slot; if not, the call fails with
  ENOMEM and every object is as before.
\<close>

theorem create_when_full:
  assumes "undisturbed os" "region_rep r Q F" "c \<le> m"
    and "\<forall>i<SLOT_COUNT. state (slots r i) \<noteq> SLOT_FREE"
  shows "if \<exists>j. dead_slot os (slots r j)
    then \<exists>h r'. create_semaphore os r c m = Some (Inr h, r') \<and> dead_slot os (slots r (h AND INDEX_MASK)) \<and> region_ok r'
    else \<exists>r'. create_semaphore os r c m = Some (Inl (Init ENOMEM), r') \<and> bare r' = bare r \<and> region_ok r'"
proof (cases "\<exists>j. dead_slot os (slots r j)")
  case True
  then obtain j where "dead_slot os (slots r j)" by blast
  from create_object_reclaims [OF assms(1,2) sem_word_ok [OF assms(3)] assms(4) this] obtain h r' where
    "create_object os r TYPE_SEM (pack_sem c m) = Some (Inr h, r')" "region_ok r'"
    "dead_slot os (slots r (h AND INDEX_MASK))" by blast
  with True assms(3) show ?thesis by (auto simp: create_semaphore_def)
next
  case False
  then obtain r' where "create_object os r TYPE_SEM (pack_sem c m) = Some (Inl (Init ENOMEM), r')"
    "bare r' = bare r" "region_ok r'"
    using create_object_full [OF assms(1,2,4)] by blast
  with False assms(3) show ?thesis by (auto simp: create_semaphore_def)
qed

definition full_region :: "u32 \<Rightarrow> Region" where
  "full_region pid = upd_header (fresh_region\<lparr>slots := (\<lambda>i. if i = 0 \<or> SLOT_COUNT \<le> i then slots fresh_region i
     else zero_slot\<lparr>state := SLOT_USED, obj_type := TYPE_EVENT, slot_pid := pid, waiter_head := NIL\<rparr>)\<rparr>)
       (\<lambda>h. h\<lparr>next_scan := SCAN_WRAPPED\<rparr>)"

lemma full_region_sel [simp]:
  "slots (full_region pid) i = (if i = 0 \<or> SLOT_COUNT \<le> i then slots fresh_region i
     else zero_slot\<lparr>state := SLOT_USED, obj_type := TYPE_EVENT, slot_pid := pid, waiter_head := NIL\<rparr>)"
  "nodes (full_region pid) = nodes fresh_region" "next_scan (header (full_region pid)) = SCAN_WRAPPED"
  "node_fresh (header (full_region pid)) = 0" "node_free_head (header (full_region pid)) = NIL"
  "header_ok (header (full_region pid))"
  by (simp_all add: full_region_def)

lemma full_region_rep: "region_rep (full_region pid) (\<lambda>_. []) []"
proof -
  have "pool_rep (full_region pid) (\<lambda>_. []) []"
    by (rule pool_repI) (auto simp: state_consts)
  then show ?thesis
    by (auto simp: region_rep_def reserved_slot_def scan_cursor_def scan_wrapped_def SCAN_WRAPPED_def
        SLOT_COUNT_def state_consts event_ok_def intro!: holders_ok_empty)
qed

theorem create_when_full_witness:
  "undisturbed after_death \<and> region_rep (full_region 42) (\<lambda>_. []) [] \<and> (2 :: u32) \<le> 5 \<and>
   (\<exists>h r'. create_semaphore after_death (full_region 42) 2 5 = Some (Inr h, r') \<and> region_ok r')"
proof -
  have c: "(2 :: u32) \<le> 5" by (simp add: word_le_nat_alt)
  have f: "\<forall>i<SLOT_COUNT. state (slots (full_region 42) i) \<noteq> SLOT_FREE"
    by (auto simp: state_consts)
  have "dead_slot after_death (slots (full_region 42) 1)"
    by (simp add: dead_slot_def spilled_def held_by_def holders_cap_def SLOT_COUNT_def word_le_nat_alt)
  then have d: "\<exists>j. dead_slot after_death (slots (full_region 42) j)" by blast
  have "\<exists>h r'. create_semaphore after_death (full_region 42) 2 5 = Some (Inr h, r') \<and>
      dead_slot after_death (slots (full_region 42) (h AND INDEX_MASK)) \<and> region_ok r'"
    using create_when_full [OF after_death_simps(1) full_region_rep c f] d by (simp only: if_True)
  with c f full_region_rep show ?thesis by auto
qed

end
