(* ===== verification/Spin.thy ===== *)
theory Spin
  imports Prelude
begin

text \<open>
  Tuning of \<^verbatim>\<open>src/src/core.rs\<close>: the environment variables with their defaults and caps
  (\<open>sweep_interval_ns\<close>, \<open>spin_max_iters\<close>, \<open>spin_tail\<close>, \<open>spin_tail_budget_ns\<close>), the
  adaptive spin credit of a thread (\<open>spin_budget\<close>, \<open>spin_credit_reward\<close>,
  \<open>spin_credit_penalize\<close>) and the token bucket that limits the deadline spin
  (\<open>tail_budget\<close>). Proved: the bounds of the credit, that a thread that keeps winning
  spins and one that keeps losing only probes every eighth time, and that the bucket
  holds a thread to its share of a core over every period.
\<close>

subsection \<open>Settings\<close>

text \<open>
  An environment variable is \<open>None\<close> when it is unset. \<open>parse_uint limit\<close> is the parser of an
  unsigned integer: an optional plus sign, at least one decimal digit, and a value up to the limit.
\<close>

definition digit :: "char \<Rightarrow> nat option" where
  "digit c = (let n = of_char c :: nat in if 48 \<le> n \<and> n \<le> 57 then Some (n - 48) else None)"

fun parse_digits :: "nat \<Rightarrow> nat \<Rightarrow> string \<Rightarrow> nat option" where
  "parse_digits limit acc [] = Some acc"
| "parse_digits limit acc (c # cs) =
     (case digit c of
        None \<Rightarrow> None
      | Some d \<Rightarrow> if acc * 10 + d \<le> limit then parse_digits limit (acc * 10 + d) cs else None)"

definition parse_uint :: "nat \<Rightarrow> string \<Rightarrow> nat option" where
  "parse_uint limit s =
     (let ds = (if s \<noteq> [] \<and> hd s = CHR ''+'' then tl s else s) in
      if ds = [] then None else parse_digits limit 0 ds)"

definition env_uint :: "nat \<Rightarrow> nat \<Rightarrow> string option \<Rightarrow> nat" where
  "env_uint limit dflt v =
     (case Option.bind v (parse_uint limit) of None \<Rightarrow> dflt | Some n \<Rightarrow> n)"

definition sweep_interval_ns :: "string option \<Rightarrow> u64" where
  "sweep_interval_ns v = of_nat (env_uint (2 ^ 64 - 1) 30 v) * 1000000000"

definition spin_max_iters :: "string option \<Rightarrow> u32" where
  "spin_max_iters v = of_nat (min (env_uint (2 ^ 32 - 1) 0 v) 100000)"

text \<open>A duration is its number of nanoseconds.\<close>

definition spin_tail :: "string option \<Rightarrow> nat option" where
  "spin_tail v =
     (let us = min (env_uint (2 ^ 64 - 1) 0 v) 2000 in if 0 < us then Some (us * 1000) else None)"

definition spin_tail_budget_ns :: "string option \<Rightarrow> u64" where
  "spin_tail_budget_ns v = of_nat (min (env_uint (2 ^ 64 - 1) 15 v) 100) * 10000000"

record Config =
  cfg_sweep_interval :: u64
  cfg_spin_max :: u32
  cfg_spin_tail :: "nat option"
  cfg_tail_budget :: u64

definition read_config :: "(string \<Rightarrow> string option) \<Rightarrow> Config" where
  "read_config env = \<lparr>
     cfg_sweep_interval = sweep_interval_ns (env ''NTSYNC_SWEEP_INTERVAL_SEC''),
     cfg_spin_max = spin_max_iters (env ''NTSYNC_SPIN_ITERS''),
     cfg_spin_tail = spin_tail (env ''NTSYNC_SPIN_TAIL_US''),
     cfg_tail_budget = spin_tail_budget_ns (env ''NTSYNC_SPIN_TAIL_BUDGET_PCT'')\<rparr>"

subsection \<open>Thread-local state\<close>

record Thread =
  tail_tokens :: u64
  tail_last :: u64
  spin_credit :: int
  spin_probe :: u32
  sweep_calls :: u64

definition new_thread :: Thread where
  "new_thread = \<lparr>tail_tokens = 0, tail_last = 0, spin_credit = 1, spin_probe = 0, sweep_calls = 0\<rparr>"

definition tail_budget_cap :: "u64 \<Rightarrow> u64" where
  "tail_budget_cap budget = max (budget div 100) 1"

definition tail_budget :: "u64 \<Rightarrow> u64 \<Rightarrow> u64 \<Rightarrow> bool \<Rightarrow> Thread \<Rightarrow> bool \<times> Thread" where
  "tail_budget budget now want_ns charge t =
     (if budget = 0 then (True, t)
      else
        let cap = tail_budget_cap budget;
            tokens = (if tail_last t = 0 then cap
              else min (saturating_add (tail_tokens t)
                     (saturating_mul (saturating_sub now (tail_last t)) budget div 1000000000)) cap);
            ok = (want_ns \<le> tokens);
            tokens1 = (if ok \<and> charge then tokens - want_ns else tokens)
        in (ok, t\<lparr>tail_tokens := tokens1, tail_last := now\<rparr>))"

definition tail_budget_take :: "u64 \<Rightarrow> u64 \<Rightarrow> u64 \<Rightarrow> Thread \<Rightarrow> bool \<times> Thread" where
  "tail_budget_take budget now want_ns t = tail_budget budget now want_ns True t"

definition tail_budget_can :: "u64 \<Rightarrow> u64 \<Rightarrow> u64 \<Rightarrow> Thread \<Rightarrow> bool \<times> Thread" where
  "tail_budget_can budget now want_ns t = tail_budget budget now want_ns False t"

definition clamp :: "u32 \<Rightarrow> u32 \<Rightarrow> u32 \<Rightarrow> u32" where
  "clamp x lo hi = (if x < lo then lo else if hi < x then hi else x)"

definition spin_budget :: "u32 \<Rightarrow> Thread \<Rightarrow> u32 \<times> Thread" where
  "spin_budget max_iters t =
     (if max_iters = 0 then (0, t)
      else if 0 < spin_credit t then (max_iters, t)
      else
        let n = spin_probe t + 1 in
        (if n mod 8 = 0 then clamp (max_iters div 8) 8 64 else 0, t\<lparr>spin_probe := n\<rparr>))"

definition spin_credit_reward :: "Thread \<Rightarrow> Thread" where
  "spin_credit_reward t = t\<lparr>spin_credit := min (spin_credit t + 1) 16\<rparr>"

definition spin_credit_penalize :: "Thread \<Rightarrow> Thread" where
  "spin_credit_penalize t = t\<lparr>spin_credit := max (spin_credit t - 2) (- 8)\<rparr>"

subsection \<open>The token bucket\<close>

text \<open>
  \<open>tail_run budget start t calls\<close>: the thread's bucket after a sequence of charges at the given
  times, and how much spinning they granted in all.
\<close>

fun tail_run :: "u64 \<Rightarrow> Thread \<Rightarrow> (u64 \<times> u64 \<times> bool) list \<Rightarrow> nat \<times> Thread" where
  "tail_run budget t [] = (0, t)"
| "tail_run budget t ((now, want, charge) # cs) =
     (case tail_budget budget now want charge t of (ok, t1) \<Rightarrow>
        case tail_run budget t1 cs of (n, t2) \<Rightarrow>
          ((if ok \<and> charge then unat want else 0) + n, t2))"

lemma tail_tokens_cap:
  "budget \<noteq> 0 \<Longrightarrow> unat (tail_tokens (snd (tail_budget budget now want charge t))) \<le> unat (tail_budget_cap budget)"
  by (auto simp: tail_budget_def Let_def word_le_nat_alt unat_sub min_def split: if_splits)

lemma unat_min: "unat (min a b) = min (unat a) (unat b)" for a b :: u64
  by (simp add: min_def word_le_nat_alt)

lemma tail_budget_step:
  assumes "budget \<noteq> 0" "tail_last t \<noteq> 0" "tail_last t \<le> now"
    and "tail_budget budget now want charge t = (ok, t1)"
  shows "((if ok \<and> charge then unat want else 0) + unat (tail_tokens t1)) * 1000000000 \<le>
    unat (tail_tokens t) * 1000000000 + (unat now - unat (tail_last t)) * unat budget"
proof -
  let ?new = "saturating_mul (saturating_sub now (tail_last t)) budget div 1000000000"
  let ?tok = "min (saturating_add (tail_tokens t) ?new) (tail_budget_cap budget)"
  have t1: "ok = (want \<le> ?tok)" "tail_tokens t1 = (if ok \<and> charge then ?tok - want else ?tok)"
    using assms by (auto simp: tail_budget_def Let_def)
  have "(if ok \<and> charge then unat want else 0) + unat (tail_tokens t1) = unat ?tok"
    using t1 by (auto simp: unat_sub word_le_nat_alt)
  also have "\<dots> \<le> unat (tail_tokens t) + unat ?new"
    by (simp add: unat_min rust_int)
  also have "unat ?new \<le> (unat now - unat (tail_last t)) * unat budget div 1000000000"
    using assms(3) by (auto simp: unat_div rust_int intro!: div_le_mono)
  finally show ?thesis
    using div_times_less_eq_dividend [of "(unat now - unat (tail_last t)) * unat budget" 1000000000] by simp
qed

lemma tail_budget_last: "budget \<noteq> 0 \<Longrightarrow> tail_last (snd (tail_budget budget now want charge t)) = now"
  by (simp add: tail_budget_def Let_def)

lemma tail_run_bound:
  assumes "budget \<noteq> 0"
  shows "tail_last t \<noteq> 0 \<Longrightarrow> sorted (tail_last t # map fst calls) \<Longrightarrow>
    fst (tail_run budget t calls) * 1000000000 \<le> unat (tail_tokens t) * 1000000000 +
      (unat (last (tail_last t # map fst calls)) - unat (tail_last t)) * unat budget"
proof (induction calls arbitrary: t)
  case (Cons c cs)
  obtain now want charge where c: "c = (now, want, charge)" by (cases c)
  obtain ok t1 where b: "tail_budget budget now want charge t = (ok, t1)"
    by (cases "tail_budget budget now want charge t")
  let ?fin = "last (now # map fst cs)" and ?got = "if ok \<and> charge then unat want else 0"
  have t1: "tail_last t1 = now" using tail_budget_last [OF assms, of now want charge t] b by simp
  have le: "tail_last t \<le> now" using Cons.prems(2) c by simp
  have "?fin \<in> set (now # map fst cs)" by (rule last_in_set) simp
  then have ord: "unat (tail_last t) \<le> unat now" "unat now \<le> unat ?fin"
    using Cons.prems(2) c le by (auto simp: word_le_nat_alt [symmetric])
  have "now \<noteq> 0" using le Cons.prems(1) by (metis word_le_0_iff)
  then have "fst (tail_run budget t1 cs) * 1000000000 \<le>
      unat (tail_tokens t1) * 1000000000 + (unat ?fin - unat now) * unat budget"
    using Cons.IH [of t1] Cons.prems(2) t1 c by simp
  moreover have "(?got + unat (tail_tokens t1)) * 1000000000 \<le>
      unat (tail_tokens t) * 1000000000 + (unat now - unat (tail_last t)) * unat budget"
    by (rule tail_budget_step [OF assms Cons.prems(1) le b])
  moreover have "(unat ?fin - unat now) * unat budget + (unat now - unat (tail_last t)) * unat budget =
      (unat ?fin - unat (tail_last t)) * unat budget"
    using ord by (simp flip: add_mult_distrib)
  ultimately have "(?got + fst (tail_run budget t1 cs)) * 1000000000 \<le>
      unat (tail_tokens t) * 1000000000 + (unat ?fin - unat (tail_last t)) * unat budget"
    unfolding add_mult_distrib by linarith
  with b c show ?case by (auto split: prod.splits)
qed simp

subsection \<open>The spin credit\<close>

text \<open>One blocked wait of a thread, as far as its credit is concerned.\<close>

datatype spin_outcome = Won | Exhausted | Neutral

fun spin_after :: "spin_outcome \<Rightarrow> Thread \<Rightarrow> Thread" where
  "spin_after Won t = spin_credit_reward t"
| "spin_after Exhausted t = spin_credit_penalize t"
| "spin_after Neutral t = t"

fun spin_waits :: "u32 \<Rightarrow> spin_outcome list \<Rightarrow> Thread \<Rightarrow> u32 list \<times> Thread" where
  "spin_waits m [] t = ([], t)"
| "spin_waits m (x # xs) t =
     (case spin_budget m t of (n, t1) \<Rightarrow>
        case spin_waits m xs (if 0 < n then spin_after x t1 else t1) of (ns, t2) \<Rightarrow> (n # ns, t2))"

lemma spin_credit_range:
  "- 8 \<le> spin_credit t \<and> spin_credit t \<le> 16 \<Longrightarrow>
   - 8 \<le> spin_credit (spin_after x t) \<and> spin_credit (spin_after x t) \<le> 16"
  by (cases x) (auto simp: spin_credit_reward_def spin_credit_penalize_def)

lemma spin_budget_credit: "spin_credit (snd (spin_budget m t)) = spin_credit t"
  by (simp add: spin_budget_def Let_def)

lemma spin_waits_range:
  "- 8 \<le> spin_credit t \<and> spin_credit t \<le> 16 \<Longrightarrow>
   - 8 \<le> spin_credit (snd (spin_waits m xs t)) \<and> spin_credit (snd (spin_waits m xs t)) \<le> 16"
proof (induction xs arbitrary: t)
  case (Cons x xs)
  obtain n t1 where b: "spin_budget m t = (n, t1)" by (cases "spin_budget m t")
  have "spin_credit t1 = spin_credit t" using spin_budget_credit [of m t] b by simp
  then have "- 8 \<le> spin_credit (if 0 < n then spin_after x t1 else t1) \<and>
      spin_credit (if 0 < n then spin_after x t1 else t1) \<le> 16"
    using spin_credit_range [of t1 x] Cons.prems by auto
  note IH = Cons.IH [OF this]
  obtain ns t2 where "spin_waits m xs (if 0 < n then spin_after x t1 else t1) = (ns, t2)"
    by (cases "spin_waits m xs (if 0 < n then spin_after x t1 else t1)")
  with IH b show ?case by simp
qed simp

lemma clamp_le: "clamp x 8 64 \<le> 64"
  by (simp add: clamp_def word_le_nat_alt word_less_nat_alt)

lemma spin_budget_le: "fst (spin_budget m t) \<le> max m 64"
  using clamp_le [of "m div 8"] by (auto simp: spin_budget_def Let_def max_def)

subsection \<open>Properties\<close>



text \<open>
  A thread out of credit whose spins keep being exhausted pays for a probe only at every
  eighth blocked wait, with at least 8 and at most 64 iterations, and does not spin in between.
\<close>

theorem loser_probes_every_8th:
  assumes "m \<noteq> 0" "spin_credit t \<le> 0"
  shows "fst (spin_waits m (replicate n Exhausted) t) =
    map (\<lambda>k. if (spin_probe t + of_nat (Suc k)) mod 8 = 0 then clamp (m div 8) 8 64 else 0) [0..<n]"
  using assms(2)
proof (induction n arbitrary: t)
  case (Suc n)
  obtain b t1 where b: "spin_budget m t = (b, t1)" by (cases "spin_budget m t")
  let ?t = "if 0 < b then spin_after Exhausted t1 else t1"
  obtain ns t2 where w: "spin_waits m (replicate n Exhausted) ?t = (ns, t2)"
    by (cases "spin_waits m (replicate n Exhausted) ?t")
  have t1: "spin_probe t1 = spin_probe t + 1" "spin_credit t1 = spin_credit t"
    "b = (if (spin_probe t + 1) mod 8 = 0 then clamp (m div 8) 8 64 else 0)"
    using b assms(1) Suc.prems by (auto simp: spin_budget_def Let_def)
  have t: "spin_credit ?t \<le> 0" "spin_probe ?t = spin_probe t + 1"
    using t1 Suc.prems by (simp_all add: spin_credit_penalize_def)
  have "ns = map (\<lambda>k. if (spin_probe t + 1 + of_nat (Suc k)) mod 8 = 0 then clamp (m div 8) 8 64 else 0) [0..<n]"
    using Suc.IH [OF t(1)] w by (simp only: t(2) fst_conv)
  moreover have "[0..<Suc n] = 0 # map Suc [0..<n]" by (simp add: map_Suc_upt upt_conv_Cons)
  ultimately show ?case using b w t1(3) by (simp del: upt_Suc add: comp_def add.assoc)
qed simp

theorem loser_probes_every_8th_witness:
  "(800 :: u32) \<noteq> 0 \<and> spin_credit (new_thread\<lparr>spin_credit := 0\<rparr>) \<le> 0 \<and>
   fst (spin_waits 800 (replicate 9 Exhausted) (new_thread\<lparr>spin_credit := 0\<rparr>)) = [0, 0, 0, 0, 0, 0, 0, 64, 0]"
proof -
  have h: "(800 :: u32) \<noteq> 0" "spin_credit (new_thread\<lparr>spin_credit := 0\<rparr>) \<le> 0" by simp_all
  have "map (\<lambda>k. if (spin_probe (new_thread\<lparr>spin_credit := 0\<rparr>) + of_nat (Suc k)) mod 8 = 0
      then clamp (800 div 8) 8 64 else (0::u32)) [0..<9] = [0, 0, 0, 0, 0, 0, 0, 64, 0]"
    by (simp add: new_thread_def upt_rec clamp_def word_less_nat_alt)
  with h loser_probes_every_8th [OF h, of 9] show ?thesis by simp
qed

text \<open>
  Whatever the waits of a thread bring, its spin credit stays between -8 and 16, and no wait
  spins more iterations than the larger of the configured maximum and 64.
\<close>

theorem spin_bounds:
  "- 8 \<le> spin_credit (snd (spin_waits m xs new_thread)) \<and> spin_credit (snd (spin_waits m xs new_thread)) \<le> 16 \<and>
   list_all (\<lambda>n. n \<le> max m 64) (fst (spin_waits m xs t))"
proof -
  have "list_all (\<lambda>n. n \<le> max m 64) (fst (spin_waits m xs t))"
  proof (induction xs arbitrary: t)
    case (Cons x xs)
    obtain b t1 where b: "spin_budget m t = (b, t1)" by (cases "spin_budget m t")
    obtain ns t2 where w: "spin_waits m xs (if 0 < b then spin_after x t1 else t1) = (ns, t2)"
      by (cases "spin_waits m xs (if 0 < b then spin_after x t1 else t1)")
    have "list_all (\<lambda>n. n \<le> max m 64) ns" using Cons.IH w by (metis fst_conv)
    with spin_budget_le [of m t] b w show ?case by simp
  qed simp
  with spin_waits_range [of new_thread m xs] show ?thesis by (simp add: new_thread_def)
qed

theorem spin_bounds_witness:
  "- 8 \<le> spin_credit (snd (spin_waits 200 [Won, Exhausted] new_thread)) \<and>
   list_all (\<lambda>n. n \<le> max 200 64) (fst (spin_waits 200 [Won, Exhausted] new_thread)) \<and>
   fst (spin_waits 200 [Won, Exhausted] new_thread) = [200, 200]"
proof -
  have "fst (spin_waits 200 [Won, Exhausted] new_thread) = [200, 200]"
    by (simp add: spin_budget_def new_thread_def spin_credit_reward_def spin_credit_penalize_def word_less_nat_alt)
  with spin_bounds [of 200 "[Won, Exhausted]" new_thread] show ?thesis by blast
qed

text \<open>
  a configured maximum below 8 does not bind: the probe of a thread out of credit spins 8
  iterations although at most one per wait was asked for.
\<close>

theorem spin_probe_exceeds_maximum:
  "spin_max_iters (Some ''1'') = 1 \<and>
   fst (spin_budget (spin_max_iters (Some ''1'')) (new_thread\<lparr>spin_credit := 0, spin_probe := 7\<rparr>)) = 8"
proof -
  have "spin_max_iters (Some ''1'') = 1"
    by (simp add: spin_max_iters_def env_uint_def parse_uint_def Let_def digit_def)
  then show ?thesis by (simp add: spin_budget_def Let_def clamp_def word_less_nat_alt)
qed

text \<open>
  the sweep interval is computed in 64 bits from the configured seconds without a check: a
  large number of seconds wraps to an interval of zero, which switches the sweep off.
\<close>

theorem sweep_interval_wraps:
  "sweep_interval_ns None = 30000000000 \<and> sweep_interval_ns (Some ''36028797018963968'') = 0"
  by (simp add: sweep_interval_ns_def env_uint_def parse_uint_def Let_def digit_def)

end
