(* ===== verification/Wait.thy ===== *)
theory Wait
  imports Lifecycle Spin
begin

text \<open>
  The blocking wait of \<^verbatim>\<open>src/src/core.rs\<close> (\<open>wait\<close>, \<open>wait_any\<close>, \<open>wait_all\<close>): checking
  the arguments, the lock-free fast path, and the loop of the blocking path, in the order
  of the code: the locked section (validate, test the alert, allocate and register
  nodes, try to acquire, test the deadline, sample the futex word), the bounded spin, the
  opportunistic sweep, the spin tail, the futex sleep, and the detaching of the nodes.
  \<open>WaitEnv\<close> is what one round of the loop observes from outside; a wait is given one
  for each round.
\<close>

subsection \<open>What a wait observes\<close>

text \<open>
  One round of the loop. \<open>lock_os\<close> is the operating system for taking the lock, \<open>retry_os\<close> for
  taking it again after a failure, \<open>try_os\<close> for the attempt to acquire, \<open>spin_os j\<close> for the
  \<open>j\<close>-th round of the spin (its \<open>on_check\<close> is what other threads did just before),
  \<open>sweep_os\<close> and \<open>timeout_sweep_os\<close> for the sweeps and \<open>detach_os\<close> for the detaching. \<open>now_ns\<close> is the
  clock at the deadline test, \<open>tail_clock\<close> at the spin tail. \<open>asleep\<close> is what other threads do
  while the thread spins out its tail or sleeps, and \<open>futex_errno\<close> the outcome of the system
  call, 0 or the error number.
\<close>

record WaitEnv =
  lock_os :: Os
  retry_os :: Os
  try_os :: Os
  spin_os :: "nat \<Rightarrow> Os"
  sweep_os :: Os
  timeout_sweep_os :: Os
  detach_os :: Os
  now_ns :: nat
  tail_clock :: u64
  asleep :: "Region \<Rightarrow> Region"
  futex_errno :: int

text \<open>The arguments of a wait, with the deadline computed at its start.\<close>

record WaitArgs =
  wait_handles :: "u32 list"
  wait_owner :: u32
  wait_deadline :: "nat option"
  wait_for_all :: bool
  wait_alert :: u32

record WaitState =
  ws_region :: Region
  ws_thread :: Thread
  ws_nodes :: "u32 list"
  ws_seqs :: "u64 list"

text \<open>A wait returns an outcome, or panics where the code unwraps a lookup that failed.\<close>

datatype wait_run = Returned WaitOutcome | Panicked

subsection \<open>Nodes of a waiter\<close>

definition waiter_cleanup :: "Region \<Rightarrow> u32 list \<Rightarrow> Region" where
  "waiter_cleanup r ns = fold (\<lambda>i r. node_free r i) ns (fold (\<lambda>i r. node_detach r i) ns r)"

text \<open>\<open>cleanup_if_locked\<close>: the spin gives the nodes back only if it gets the lock.\<close>

definition cleanup_if_locked :: "Os \<Rightarrow> Region \<Rightarrow> u32 list \<Rightarrow> Region option" where
  "cleanup_if_locked os r ns =
     map_option snd (with_lock os r (\<lambda>_. ()) (\<lambda>r1. Some ((), waiter_cleanup r1 ns)))"

fun alloc_nodes :: "Os \<Rightarrow> nat \<Rightarrow> Region \<Rightarrow> u32 list \<Rightarrow> (bool \<times> u32 list) \<times> Region" where
  "alloc_nodes os 0 r ns = ((True, ns), r)"
| "alloc_nodes os (Suc n) r ns =
     (case node_alloc os r of
        (Some i, r1) \<Rightarrow> alloc_nodes os n r1 (ns @ [i])
      | (None, r1) \<Rightarrow> ((False, ns), r1))"

definition register_if_off :: "u32 \<Rightarrow> Region \<Rightarrow> u32 \<Rightarrow> u32 \<Rightarrow> Region" where
  "register_if_off head r node h =
     (if registered (nodes r node) = 0 then node_register r node (h AND INDEX_MASK) head else r)"

fun register_all :: "u32 \<Rightarrow> Region \<Rightarrow> u32 list \<Rightarrow> u32 list \<Rightarrow> Region" where
  "register_all head r (node # ns) (h # hs) = register_all head (register_if_off head r node h) ns hs"
| "register_all head r _ _ = r"

subsection \<open>Validation\<close>

definition waitable :: "u32 \<Rightarrow> bool" where
  "waitable ty \<longleftrightarrow> ty = TYPE_SEM \<or> ty = TYPE_MUTEX \<or> ty = TYPE_EVENT"

fun fast_snapshot :: "Region \<Rightarrow> nat \<Rightarrow> u32 list \<Rightarrow> u64 list \<Rightarrow> bool \<times> u64 list" where
  "fast_snapshot r k [] qs = (True, qs)"
| "fast_snapshot r k (h # hs) qs =
     (case slot r h of
        None \<Rightarrow> (False, qs)
      | Some i \<Rightarrow>
          let s = slots r i;
              qs1 = qs[k := (if obj_type s = TYPE_EVENT then pulse_seq s else 0)] in
          if waitable (obj_type s) then fast_snapshot r (Suc k) hs qs1 else (False, qs1))"

fun locked_snapshot :: "Region \<Rightarrow> bool \<Rightarrow> nat \<Rightarrow> u32 list \<Rightarrow> u64 list \<Rightarrow> bool \<times> u64 list" where
  "locked_snapshot r first k [] qs = (True, qs)"
| "locked_snapshot r first k (h # hs) qs =
     (case slot r h of
        None \<Rightarrow> (False, qs)
      | Some i \<Rightarrow>
          let s = slots r i in
          if \<not> waitable (obj_type s) then (False, qs)
          else locked_snapshot r first (Suc k) hs
                 (if first \<and> obj_type s = TYPE_EVENT then qs[k := pulse_seq s] else qs))"

definition alert_ok :: "Region \<Rightarrow> u32 \<Rightarrow> bool" where
  "alert_ok r alert \<longleftrightarrow> alert = 0 \<or> (\<exists>i. slot_of_type r alert TYPE_EVENT = Inr i)"

definition alert_signaled :: "Region \<Rightarrow> u32 \<Rightarrow> bool" where
  "alert_signaled r alert \<longleftrightarrow>
     alert \<noteq> 0 \<and> (case slot r alert of None \<Rightarrow> False | Some i \<Rightarrow> lo32 (w0 (slots r i)) \<noteq> 0)"

definition alert_outcome :: "WaitArgs \<Rightarrow> WaitOutcome" where
  "alert_outcome a = Signaled (of_nat (length (wait_handles a))) False"

subsection \<open>The fast path\<close>

text \<open>\<open>None\<close> as the first component: nothing decided, go on to the blocking path.\<close>

definition wait_fast ::
  "Os \<Rightarrow> Region \<Rightarrow> WaitArgs \<Rightarrow> bool \<Rightarrow> (wait_run option \<times> u64 list \<times> Region) option" where
  "wait_fast os r a zero_timeout =
     (let (ok, qs) = fast_snapshot r 0 (wait_handles a) (replicate MAX_WAIT_COUNT 0);
          valid = (ok \<and> alert_ok r (wait_alert a));
          r1 = on_check os r in
      if \<not> valid then Some (None, qs, r1)
      else if wait_alert a \<noteq> 0 \<and> slot r1 (wait_alert a) = None then Some (Some Panicked, qs, r1)
      else if alert_signaled r1 (wait_alert a) then Some (Some (Returned (alert_outcome a)), qs, r1)
      else do {
        (got, r2) \<leftarrow> try_satisfy os r1 (wait_handles a) (wait_owner a) qs (wait_for_all a);
        case got of
          Some outcome \<Rightarrow> Some (Some (Returned outcome), qs, r2)
        | None \<Rightarrow> Some (if zero_timeout then Some (Returned Timeout) else None, qs, r2)
      })"

subsection \<open>The locked section\<close>

text \<open>What the locked section decides: return, or block on the sampled word for the time that is left.\<close>

datatype locked_step = Return WaitOutcome | Block u32 "nat option"

definition wait_locked ::
  "WaitEnv \<Rightarrow> WaitArgs \<Rightarrow> Region \<Rightarrow> u32 list \<Rightarrow> u64 list \<Rightarrow>
   (locked_step \<times> u32 list \<times> u64 list \<times> Region) option" where
  "wait_locked env a r ns qs =
     (let hs = wait_handles a; alert = wait_alert a;
          (ok, qs1) = locked_snapshot r (ns = []) 0 hs qs;
          done = (\<lambda>outcome r ns. Some (Return outcome, [], qs1, waiter_cleanup r ns)) in
      if \<not> (ok \<and> alert_ok r alert) then done InvalidWait r ns
      else if alert_signaled r alert then done (alert_outcome a) r ns
      else
        let n_nodes = length hs + (if alert \<noteq> 0 then 1 else 0);
            ((got_nodes, ns1), r1) =
              (if ns = [] then alloc_nodes (lock_os env) n_nodes r [] else ((True, ns), r)) in
        if \<not> got_nodes then done InvalidWait r1 ns1
        else
          let head = ns1 ! 0;
              r2 = register_all head r1 ns1 (hs @ (if alert \<noteq> 0 then [alert] else [])) in
          do {
            (got, r3) \<leftarrow> try_satisfy (try_os env) r2 hs (wait_owner a) qs1 (wait_for_all a);
            case got of
              Some outcome \<Rightarrow> done outcome r3 ns1
            | None \<Rightarrow>
                (case wait_deadline a of
                   Some dl \<Rightarrow>
                     if dl \<le> now_ns env then done Timeout r3 ns1
                     else Some (Block (seq (nodes r3 head)) (Some (dl - now_ns env)), ns1, qs1, r3)
                 | None \<Rightarrow> Some (Block (seq (nodes r3 head)) None, ns1, qs1, r3))
          })"

subsection \<open>Spinning\<close>

datatype spin_result = SpinReturn wait_run | SpinOver spin_outcome

definition spin_peek :: "Region \<Rightarrow> WaitArgs \<Rightarrow> u64 list \<Rightarrow> bool" where
  "spin_peek r a qs =
     (let locked = (\<lambda>(i, h). is_locked (slots r (h AND INDEX_MASK)) (wait_owner a) (qs ! i));
          ihs = zip [0..<length (wait_handles a)] (wait_handles a) in
      list_ex locked ihs \<and> (\<not> wait_for_all a \<or> list_all locked ihs))"

text \<open>\<open>spin_rounds env a qs ns j n r\<close>: rounds \<open>j\<close> to \<open>j + n - 1\<close>.\<close>

fun spin_rounds ::
  "WaitEnv \<Rightarrow> WaitArgs \<Rightarrow> u64 list \<Rightarrow> u32 list \<Rightarrow> nat \<Rightarrow> nat \<Rightarrow> Region \<Rightarrow> (spin_result \<times> Region) option" where
  "spin_rounds env a qs ns j 0 r = Some (SpinOver Exhausted, r)"
| "spin_rounds env a qs ns j (Suc n) r =
     (let os = spin_os env j; r1 = on_check os r; alert = wait_alert a in
      if alert \<noteq> 0 \<and> slot r1 alert = None then Some (SpinReturn Panicked, r1)
      else if alert_signaled r1 alert then do {
        r2 \<leftarrow> cleanup_if_locked os r1 ns;
        Some (SpinReturn (Returned (alert_outcome a)), r2)
      }
      else do {
        (got, r2) \<leftarrow> (if spin_peek r1 a qs
                     then try_satisfy os r1 (wait_handles a) (wait_owner a) qs (wait_for_all a)
                     else Some (None, r1));
        case got of
          Some outcome \<Rightarrow> do {
            r3 \<leftarrow> cleanup_if_locked os r2 ns;
            Some (SpinReturn (Returned outcome), r3)
          }
        | None \<Rightarrow>
            if registered (nodes r2 (ns ! 0)) = 0 then Some (SpinOver Neutral, r2)
            else spin_rounds env a qs ns (Suc j) n r2
      })"

definition wait_spin ::
  "WaitEnv \<Rightarrow> Config \<Rightarrow> WaitArgs \<Rightarrow> u64 list \<Rightarrow> u32 list \<Rightarrow> Thread \<Rightarrow> Region \<Rightarrow>
   (wait_run option \<times> Thread \<times> Region) option" where
  "wait_spin env cfg a qs ns t r =
     (case spin_budget (cfg_spin_max cfg) t of (spin, t1) \<Rightarrow>
        if 0 < spin then do {
          (res, r1) \<leftarrow> spin_rounds env a qs ns 0 (unat spin) r;
          case res of
            SpinReturn Panicked \<Rightarrow> Some (Some Panicked, t1, r1)
          | SpinReturn x \<Rightarrow> Some (Some x, spin_after Won t1, r1)
          | SpinOver outcome \<Rightarrow> Some (None, spin_after outcome t1, r1)
        }
        else Some (None, t1, r))"

subsection \<open>Sleeping\<close>

definition futex_wait :: "int \<Rightarrow> i32" where
  "futex_wait err = (if err = 0 then 0 else - err)"

definition wait_slice :: "bool \<Rightarrow> nat option \<Rightarrow> nat option" where
  "wait_slice debug remaining =
     (if debug then
        Some (case remaining of None \<Rightarrow> 5000000000 | Some left \<Rightarrow> min left 5000000000)
      else remaining)"

text \<open>Whether the thread spins out the rest of the wait, or parks and for how long.\<close>

datatype tail_step = SpinTail | Park "nat option"

definition spin_tail_step :: "Config \<Rightarrow> u64 \<Rightarrow> nat option \<Rightarrow> Thread \<Rightarrow> tail_step \<times> Thread" where
  "spin_tail_step cfg now park t =
     (case (cfg_spin_tail cfg, park) of
        (Some tail, Some left) \<Rightarrow>
          if tail < left then
            (case tail_budget_can (cfg_tail_budget cfg) now (of_nat tail) t of (can, t1) \<Rightarrow>
               (Park (if can then Some (left - tail) else park), t1))
          else
            (case tail_budget_take (cfg_tail_budget cfg) now (of_nat left) t of (paid, t1) \<Rightarrow>
               (if paid then SpinTail else Park park, t1))
      | _ \<Rightarrow> (Park park, t))"

definition wait_sweep :: "Os \<Rightarrow> Config \<Rightarrow> Thread \<Rightarrow> Region \<Rightarrow> (Thread \<times> Region) option" where
  "wait_sweep os cfg t r = do {
     (calls, r1) \<leftarrow> auto_sweep_dead os (sweep_calls t) (cfg_sweep_interval cfg) r;
     Some (t\<lparr>sweep_calls := calls\<rparr>, r1)
   }"

definition detach_registered :: "Os \<Rightarrow> Region \<Rightarrow> u32 list \<Rightarrow> Region option" where
  "detach_registered os r ns =
     (if list_ex (\<lambda>i. registered (nodes r i) \<noteq> 0) ns
      then map_option snd (with_lock os r (\<lambda>_. ())
             (\<lambda>r1. Some ((), fold (\<lambda>i r. node_detach r i) ns r1)))
      else Some r)"

definition wait_sleep ::
  "WaitEnv \<Rightarrow> Config \<Rightarrow> u32 list \<Rightarrow> nat option \<Rightarrow> bool \<Rightarrow> Thread \<Rightarrow> Region \<Rightarrow> (Thread \<times> Region) option" where
  "wait_sleep env cfg ns remaining debug t r =
     (case spin_tail_step cfg (tail_clock env) (wait_slice debug remaining) t of
        (SpinTail, t1) \<Rightarrow> Some (t1, asleep env r)
      | (Park park, t1) \<Rightarrow>
          let r1 = asleep env r; ret = futex_wait (futex_errno env) in
          do {
            (t2, r2) \<leftarrow> (if ret = 0 \<or> ret = EAGAIN then Some (t1, r1)
                        else if ret = ETIMEDOUT then wait_sweep (timeout_sweep_os env) cfg t1 r1
                        else Some (t1, r1));
            r3 \<leftarrow> detach_registered (detach_os env) r2 ns;
            Some (t2, r3)
          })"

subsection \<open>One round, the loop, and the call\<close>

text \<open>\<open>None\<close> as the first component: the wait goes into its next round.\<close>

definition wait_round ::
  "WaitEnv \<Rightarrow> Config \<Rightarrow> bool \<Rightarrow> WaitArgs \<Rightarrow> WaitState \<Rightarrow> (wait_run option \<times> WaitState) option" where
  "wait_round env cfg debug a st =
     (let r = on_lock (lock_os env) (ws_region st) in do {
        g \<leftarrow> lock_guard (lock_os env) 0 r;
        case g of
          Inl e \<Rightarrow> do {
            r1 \<leftarrow> cleanup_if_locked (retry_os env) r (ws_nodes st);
            Some (Some (Returned InvalidWait), st\<lparr>ws_region := r1\<rparr>)
          }
        | Inr r1 \<Rightarrow> do {
            (step, ns, qs, r2) \<leftarrow> wait_locked env a r1 (ws_nodes st) (ws_seqs st);
            let st1 = st\<lparr>ws_region := guard_drop r2, ws_nodes := ns, ws_seqs := qs\<rparr>;
            case step of
              Return outcome \<Rightarrow> Some (Some (Returned outcome), st1)
            | Block sampled remaining \<Rightarrow> do {
                (won, t1, r3) \<leftarrow> wait_spin env cfg a qs ns (ws_thread st) (guard_drop r2);
                case won of
                  Some x \<Rightarrow> Some (Some x, st1\<lparr>ws_region := r3, ws_thread := t1\<rparr>)
                | None \<Rightarrow> do {
                    (t2, r4) \<leftarrow> wait_sweep (sweep_os env) cfg t1 r3;
                    (t3, r5) \<leftarrow> wait_sleep env cfg ns remaining debug t2 r4;
                    Some (None, st1\<lparr>ws_region := r5, ws_thread := t3\<rparr>)
                  }
              }
          }
      })"

partial_function (option) wait_loop ::
  "(nat \<Rightarrow> WaitEnv) \<Rightarrow> nat \<Rightarrow> Config \<Rightarrow> bool \<Rightarrow> WaitArgs \<Rightarrow> WaitState \<Rightarrow> (wait_run \<times> WaitState) option" where
  "wait_loop envs k cfg debug a st = do {
     (res, st1) \<leftarrow> wait_round (envs k) cfg debug a st;
     case res of
       Some x \<Rightarrow> Some (x, st1)
     | None \<Rightarrow> wait_loop envs (Suc k) cfg debug a st1
   }"

text \<open>
  The call. \<open>start\<close> is the clock at its beginning and \<open>timeout\<close> a relative time in nanoseconds.
\<close>

definition wait ::
  "Os \<Rightarrow> (nat \<Rightarrow> WaitEnv) \<Rightarrow> Config \<Rightarrow> bool \<Rightarrow> nat \<Rightarrow> Thread \<Rightarrow> Region \<Rightarrow>
   u32 list \<Rightarrow> u32 \<Rightarrow> nat option \<Rightarrow> bool \<Rightarrow> u32 \<Rightarrow> (wait_run \<times> Thread \<times> Region) option" where
  "wait os envs cfg debug start t r handles owner timeout all_objects alert =
     (if owner = 0 \<or> handles = [] \<or> MAX_WAIT_COUNT < length handles then Some (Returned InvalidWait, t, r)
      else if \<not> distinct handles then Some (Returned InvalidWait, t, r)
      else
        let a = \<lparr>wait_handles = handles, wait_owner = owner,
                 wait_deadline = map_option (\<lambda>d. start + d) timeout,
                 wait_for_all = all_objects, wait_alert = alert\<rparr> in
        do {
          (fast, qs, r1) \<leftarrow> wait_fast os r a (timeout = Some 0);
          case fast of
            Some x \<Rightarrow> Some (x, t, r1)
          | None \<Rightarrow> do {
              (x, st) \<leftarrow> wait_loop envs 0 cfg debug a
                 \<lparr>ws_region = r1, ws_thread = t, ws_nodes = [], ws_seqs = qs\<rparr>;
              Some (x, ws_thread st, ws_region st)
            }
        })"

definition wait_any where
  "wait_any os envs cfg debug start t r handles owner timeout alert =
     wait os envs cfg debug start t r handles owner timeout False alert"

definition wait_all where
  "wait_all os envs cfg debug start t r handles owner timeout alert =
     wait os envs cfg debug start t r handles owner timeout True alert"

subsection \<open>Giving the nodes back\<close>

lemma fold_detach_sel [simp]:
  "header (fold (\<lambda>i r. node_detach r i) ns r) = header r"
  "futex_log (fold (\<lambda>i r. node_detach r i) ns r) = futex_log r"
  "bare (fold (\<lambda>i r. node_detach r i) ns r) = bare r"
  by (induction ns arbitrary: r) simp_all

lemma fold_free_sel [simp]:
  "slots (fold (\<lambda>i r. node_free r i) ns r) = slots r"
  "futex_log (fold (\<lambda>i r. node_free r i) ns r) = futex_log r"
  "next_scan (header (fold (\<lambda>i r. node_free r i) ns r)) = next_scan (header r)"
  "header_ok (header (fold (\<lambda>i r. node_free r i) ns r)) = header_ok (header r)"
  by (induction ns arbitrary: r) simp_all

lemma waiter_cleanup_rep:
  assumes R: "region_rep r Q F" and ns: "distinct ns" "\<forall>x\<in>set ns. node_held r F x"
  shows "region_rep (waiter_cleanup r ns) (\<lambda>i. filter (\<lambda>x. x \<notin> set ns) (Q i)) (rev ns @ F)"
proof -
  have P: "pool_rep (waiter_cleanup r ns) (\<lambda>i. filter (\<lambda>x. x \<notin> set ns) (Q i)) (rev ns @ F)"
    using pool.give_back [OF region_pool [OF R] ns(1)] ns(2)
    by (simp add: waiter_cleanup_def pool.free_all_def pool.detach_all_def)
  have b: "bare (fold (\<lambda>i r. node_detach r i) ns r) = bare r" by simp
  have q: "state (slots r i) = SLOT_USED" if "filter (\<lambda>x. x \<notin> set ns) (Q i) \<noteq> []" for i
    using that region_queued [OF R, of i] by (cases "Q i") auto
  show ?thesis
    by (rule region_rep_frame [OF R P q])
      (use region_word [OF R] in \<open>simp_all add: waiter_cleanup_def bareD [OF b]\<close>)
qed

subsection \<open>Allocating and registering\<close>

lemma region_rep_alloc:
  assumes R: "region_rep r Q F" and a: "node_alloc os r = (Some x, r')"
  shows "region_rep r' Q (remove1 x F)"
  by (rule region_rep_frame [OF R node_alloc_rep(1) [OF region_pool [OF R] a]])
    (use node_alloc_frame [OF a] region_queued [OF R] region_word [OF R] in simp_all)

lemma alloc_nodes_rep:
  "region_rep r Q F \<Longrightarrow> distinct ns \<Longrightarrow> \<forall>x\<in>set ns. node_held r F x \<and> registered (nodes r x) = 0 \<Longrightarrow>
   alloc_nodes os n r ns = ((ok, ns'), r') \<Longrightarrow>
   \<exists>F'. region_rep r' Q F' \<and> distinct ns' \<and> (\<forall>x\<in>set ns'. node_held r' F' x \<and> registered (nodes r' x) = 0) \<and>
     slots r' = slots r \<and> futex_log r' = futex_log r \<and> (ok \<longrightarrow> length ns' = length ns + n)"
proof (induction n arbitrary: r F ns)
  case (Suc n)
  show ?case
  proof (cases "node_alloc os r")
    case (Pair got r1)
    show ?thesis
    proof (cases got)
      case None
      then have "r1 = r" using node_alloc_None(2) [OF region_pool [OF Suc.prems(1)], of os] Pair by simp
      with None Pair Suc.prems show ?thesis by auto
    next
      case (Some x)
      note a = Pair [unfolded Some]
      note al = node_alloc_rep [OF region_pool [OF Suc.prems(1)] a]
      have old: "y \<noteq> x \<and> node_held r1 (remove1 x F) y \<and> registered (nodes r1 y) = 0" if "y \<in> set ns" for y
        using that Suc.prems(3) al(6) [of y] node_alloc_nodes [OF a] by auto
      have "alloc_nodes os n r1 (ns @ [x]) = ((ok, ns'), r')" using Suc.prems(4) a by simp
      from Suc.IH [OF region_rep_alloc [OF Suc.prems(1) a] _ _ this] Suc.prems(2) old al(2,3)
      show ?thesis using node_alloc_frame(1,2) [OF a] by fastforce
    qed
  qed
qed auto

text \<open>
  \<open>owns r F ns hs\<close>: the waiter holds the nodes \<open>ns\<close>, one for each handle, and those that are
  registered are on the list of their object with the first node as futex word.
\<close>

definition owns :: "Region \<Rightarrow> u32 list \<Rightarrow> u32 list \<Rightarrow> u32 list \<Rightarrow> bool" where
  "owns r F ns hs \<longleftrightarrow> distinct ns \<and> length ns = length hs \<and> (\<forall>x\<in>set ns. node_held r F x) \<and>
     (\<forall>k<length ns. registered (nodes r (ns ! k)) \<noteq> 0 \<longrightarrow>
        obj (nodes r (ns ! k)) = idx (hs ! k) \<and> wait_word (nodes r (ns ! k)) = ns ! 0)"

definition all_registered :: "Region \<Rightarrow> u32 list \<Rightarrow> bool" where
  "all_registered r ns \<longleftrightarrow> (\<forall>x\<in>set ns. registered (nodes r x) \<noteq> 0)"

lemma register_if_off_rep:
  assumes R: "region_rep r Q F" and x: "node_held r F x" and h: "slot r h = Some i"
    and head: "head < node_fresh (header r)"
  obtains Q' where "region_rep (register_if_off head r x h) Q' F"
    "registered (nodes (register_if_off head r x h) x) \<noteq> 0"
    "registered (nodes r x) = 0 \<Longrightarrow> obj (nodes (register_if_off head r x h) x) = i \<and>
       wait_word (nodes (register_if_off head r x h) x) = head"
proof (cases "registered (nodes r x) = 0")
  case False
  with R that [of Q] show ?thesis by (simp add: register_if_off_def)
next
  case True
  let ?r = "node_register r x (idx h) head"
  have u: "idx h < SLOT_COUNT" "state (slots r (idx h)) = SLOT_USED" "i = idx h"
    using h index_lt by (auto simp: slot_Some_iff)
  have P: "pool_rep ?r (Q(idx h := x # Q (idx h))) F"
    by (rule node_register_rep [OF region_pool [OF R] x True u(1,2) head])
  have b: "bare ?r = bare r" by simp
  have "region_rep ?r (Q(idx h := x # Q (idx h))) F"
    by (rule region_rep_frame [OF R P])
      (use region_queued [OF R] region_word [OF R] u in \<open>auto simp: bareD [OF b] split: if_splits\<close>)
  with True u that show ?thesis by (simp add: register_if_off_def)
qed

lemma register_if_off_sel [simp]:
  "header (register_if_off head r x h) = header r" "futex_log (register_if_off head r x h) = futex_log r"
  "bare (register_if_off head r x h) = bare r" "seq (nodes (register_if_off head r x h) y) = seq (nodes r y)"
  "y \<noteq> x \<Longrightarrow> registered (nodes (register_if_off head r x h) y) = registered (nodes r y)"
  "y \<noteq> x \<Longrightarrow> obj (nodes (register_if_off head r x h) y) = obj (nodes r y)"
  "y \<noteq> x \<Longrightarrow> wait_word (nodes (register_if_off head r x h) y) = wait_word (nodes r y)"
  by (simp_all add: register_if_off_def)

definition placed :: "Region \<Rightarrow> u32 \<Rightarrow> u32 \<Rightarrow> u32 \<Rightarrow> bool" where
  "placed r head x h \<longleftrightarrow> obj (nodes r x) = idx h \<and> wait_word (nodes r x) = head"

lemma register_all_rep:
  assumes "length ns = length hs"
  shows "region_rep r Q F \<Longrightarrow> distinct ns \<Longrightarrow> \<forall>x\<in>set ns. node_held r F x \<Longrightarrow>
    \<forall>h\<in>set hs. \<exists>i. slot r h = Some i \<Longrightarrow> head < node_fresh (header r) \<Longrightarrow>
    list_all2 (\<lambda>x h. registered (nodes r x) \<noteq> 0 \<longrightarrow> placed r head x h) ns hs \<Longrightarrow>
    \<exists>Q'. region_rep (register_all head r ns hs) Q' F \<and>
      list_all2 (\<lambda>x h. registered (nodes (register_all head r ns hs) x) \<noteq> 0 \<and>
        placed (register_all head r ns hs) head x h) ns hs \<and>
      header (register_all head r ns hs) = header r \<and> futex_log (register_all head r ns hs) = futex_log r \<and>
      bare (register_all head r ns hs) = bare r \<and>
      (\<forall>y. seq (nodes (register_all head r ns hs) y) = seq (nodes r y)) \<and>
      (\<forall>y. y \<notin> set ns \<longrightarrow> registered (nodes (register_all head r ns hs) y) = registered (nodes r y) \<and>
         obj (nodes (register_all head r ns hs) y) = obj (nodes r y) \<and>
         wait_word (nodes (register_all head r ns hs) y) = wait_word (nodes r y))"
  using assms
proof (induction ns hs arbitrary: r Q rule: list_induct2)
  case (Cons x ns h hs)
  let ?r = "register_if_off head r x h"
  obtain i where h: "slot r h = Some i" "i = idx h" using Cons.prems(4) by (auto simp: slot_Some_iff)
  obtain Q1 where R1: "region_rep ?r Q1 F" and reg: "registered (nodes ?r x) \<noteq> 0"
    and new: "registered (nodes r x) = 0 \<Longrightarrow> obj (nodes ?r x) = i \<and> wait_word (nodes ?r x) = head"
    using register_if_off_rep [OF Cons.prems(1) _ h(1) Cons.prems(5), of x] Cons.prems(3) by auto
  have x: "placed ?r head x h"
  proof (cases "registered (nodes r x) = 0")
    case False
    then have "?r = r" by (simp add: register_if_off_def)
    with False Cons.prems(6) show ?thesis by simp
  qed (use new h(2) in \<open>simp add: placed_def\<close>)
  have nx: "x \<notin> set ns" using Cons.prems(2) by simp
  have s: "slot ?r h' = slot r h'" for h' by (rule slot_bare) simp
  have "\<forall>y\<in>set ns. node_held ?r F y" using Cons.prems(3) by (simp add: node_held_def)
  moreover have "list_all2 (\<lambda>y h. registered (nodes ?r y) \<noteq> 0 \<longrightarrow> placed ?r head y h) ns hs"
  proof (rule list.rel_mono_strong)
    show "list_all2 (\<lambda>y h. registered (nodes r y) \<noteq> 0 \<longrightarrow> placed r head y h) ns hs" using Cons.prems(6) by simp
    fix y h' assume y: "y \<in> set ns" and "registered (nodes r y) \<noteq> 0 \<longrightarrow> placed r head y h'"
    moreover have "y \<noteq> x" using y nx by blast
    ultimately show "registered (nodes ?r y) \<noteq> 0 \<longrightarrow> placed ?r head y h'" by (simp add: placed_def)
  qed
  ultimately obtain Q2 where IH: "region_rep (register_all head ?r ns hs) Q2 F"
      "list_all2 (\<lambda>x h. registered (nodes (register_all head ?r ns hs) x) \<noteq> 0 \<and>
        placed (register_all head ?r ns hs) head x h) ns hs"
      "header (register_all head ?r ns hs) = header ?r" "futex_log (register_all head ?r ns hs) = futex_log ?r"
      "bare (register_all head ?r ns hs) = bare ?r"
      "\<forall>y. seq (nodes (register_all head ?r ns hs) y) = seq (nodes ?r y)"
      and rest: "\<forall>y. y \<notin> set ns \<longrightarrow> registered (nodes (register_all head ?r ns hs) y) = registered (nodes ?r y) \<and>
         obj (nodes (register_all head ?r ns hs) y) = obj (nodes ?r y) \<and>
         wait_word (nodes (register_all head ?r ns hs) y) = wait_word (nodes ?r y)"
    using Cons.IH [OF R1] Cons.prems(2,4,5) s by auto
  have "registered (nodes (register_all head ?r ns hs) x) \<noteq> 0" "placed (register_all head ?r ns hs) head x h"
    using rest nx reg x by (simp_all add: placed_def)
  with IH rest show ?case by (intro exI [of _ Q2]) simp
qed auto

lemma owns_placed:
  assumes "owns r F ns hs"
  shows "list_all2 (\<lambda>x h. registered (nodes r x) \<noteq> 0 \<longrightarrow> placed r (ns ! 0) x h) ns hs"
  using assms by (simp add: owns_def placed_def list_all2_conv_all_nth)

text \<open>A waiter's nodes when it is ready to sleep: all registered, each on its object.\<close>

definition armed :: "Region \<Rightarrow> (u32 \<Rightarrow> u32 list) \<Rightarrow> u32 list \<Rightarrow> u32 list \<Rightarrow> bool" where
  "armed r Q ns hs \<longleftrightarrow> length ns = length hs \<and> ns \<noteq> [] \<and>
     (\<forall>k<length hs. ns ! k \<in> set (Q (idx (hs ! k))) \<and> wait_word (nodes r (ns ! k)) = ns ! 0)"

lemma register_all_armed:
  assumes R: "region_rep r Q F" and o: "owns r F ns hs" "hs \<noteq> []"
    and v: "\<forall>h\<in>set hs. \<exists>i. slot r h = Some i"
  obtains Q' where "region_rep (register_all (ns ! 0) r ns hs) Q' F"
    "armed (register_all (ns ! 0) r ns hs) Q' ns hs" "owns (register_all (ns ! 0) r ns hs) F ns hs"
    "bare (register_all (ns ! 0) r ns hs) = bare r" "header (register_all (ns ! 0) r ns hs) = header r"
    "futex_log (register_all (ns ! 0) r ns hs) = futex_log r"
proof -
  let ?r = "register_all (ns ! 0) r ns hs"
  have l: "length ns = length hs" "distinct ns" "\<forall>x\<in>set ns. node_held r F x" using o(1) by (auto simp: owns_def)
  then have "ns ! 0 < node_fresh (header r)" using o(2) by (cases ns) (auto simp: node_held_def)
  from register_all_rep [OF l(1) R l(2,3) v this owns_placed [OF o(1)]] obtain Q' where
    q: "region_rep ?r Q' F" "list_all2 (\<lambda>x h. registered (nodes ?r x) \<noteq> 0 \<and> placed ?r (ns ! 0) x h) ns hs"
      "header ?r = header r" "futex_log ?r = futex_log r" "bare ?r = bare r" by blast
  have k: "ns ! k \<in> set (Q' (idx (hs ! k))) \<and> obj (nodes ?r (ns ! k)) = idx (hs ! k) \<and>
      wait_word (nodes ?r (ns ! k)) = ns ! 0" if "k < length hs" for k
    using q(2) that pool_member [OF region_pool [OF q(1)], of "ns ! k"]
    by (auto simp: list_all2_conv_all_nth placed_def)
  have "armed ?r Q' ns hs" using k l(1) o(2) by (auto simp: armed_def)
  moreover have "owns ?r F ns hs" using k l q(3) by (auto simp: owns_def node_held_def)
  ultimately show ?thesis using q that by blast
qed

text \<open>Waking the object of an armed node moves the waiter's futex word and wakes it.\<close>

lemma count_list_pos: "x \<in> set xs \<Longrightarrow> 0 < count_list xs x"
  using count_list_0_iff [of xs x] by auto

lemma count_list_le: "count_list xs x \<le> length xs"
  by (rule count_le_length)

lemma queue_length:
  assumes "pool_rep r Q F"
  shows "length (Q i) \<le> 8192"
proof -
  have "set (Q i) \<subseteq> {x. x < node_fresh (header r)}"
    using pool_member [OF assms] pool_bounds [OF assms] by blast
  then have "card (set (Q i)) \<le> card {x. x < node_fresh (header r)}" by (intro card_mono) auto
  also have "\<dots> \<le> unat (node_fresh (header r))" by (rule card_less_word)
  also have "\<dots> \<le> 8192" using pool_fresh [OF assms] by (simp add: word_le_nat_alt NODE_COUNT_def)
  finally show ?thesis using pool_distinct [OF assms, of i] by (simp add: distinct_card)
qed

lemma woken_hits:
  assumes "pool_rep r Q F" "armed r Q ns hs" "h \<in> set hs" "woken r0 (Q (idx h)) r'" "nodes r0 = nodes r"
  shows "seq (nodes r' (ns ! 0)) \<noteq> seq (nodes r (ns ! 0)) \<and>
    ns ! 0 \<in> set (drop (length (futex_log r0)) (futex_log r'))"
proof -
  let ?words = "map (\<lambda>x. wait_word (nodes r x)) (Q (idx h))"
  obtain k where k: "k < length hs" "h = hs ! k" using assms(3) by (auto simp: in_set_conv_nth)
  then have "ns ! 0 \<in> set ?words" using assms(2) by (force simp: armed_def)
  then have "0 < count_list ?words (ns ! 0)" by (rule count_list_pos)
  moreover have "count_list ?words (ns ! 0) \<le> 8192"
    using count_list_le [of ?words "ns ! 0"] queue_length [OF assms(1), of "idx h"] by simp
  ultimately have "(of_nat (count_list ?words (ns ! 0)) :: u32) \<noteq> 0"
    by (subst of_nat_u32_eq_0) auto
  moreover have "seq (nodes r' (ns ! 0)) = seq (nodes r (ns ! 0)) + of_nat (count_list ?words (ns ! 0))"
    "futex_log r' = futex_log r0 @ ?words"
    using assms(4,5) by (simp_all add: woken_def)
  ultimately show ?thesis using \<open>ns ! 0 \<in> set ?words\<close> by simp
qed

subsection \<open>Attempts to acquire keep the region well formed\<close>

text \<open>\<open>words_only r r'\<close>: nothing but object words changed.\<close>

definition words_only :: "Region \<Rightarrow> Region \<Rightarrow> bool" where
  "words_only r r' \<longleftrightarrow> nodes r' = nodes r \<and> header r' = header r \<and> futex_log r' = futex_log r \<and>
     (\<forall>i. state (slots r' i) = state (slots r i) \<and> generation (slots r' i) = generation (slots r i) \<and>
        obj_type (slots r' i) = obj_type (slots r i) \<and> pulse_seq (slots r' i) = pulse_seq (slots r i) \<and>
        slot_pid (slots r' i) = slot_pid (slots r i))"

lemma words_only_refl [simp]: "words_only r r"
  by (simp add: words_only_def)

lemma words_only_put_word [simp]: "words_only r (put_word s i w) = words_only r s"
  by (simp add: words_only_def)

lemma words_only_slot: "words_only r r' \<Longrightarrow> slot r' h = slot r h"
  by (rule slot_cong) (simp_all add: words_only_def)

lemma ungrant_ok:
  assumes "word_ok (obj_type s) (w0 s)" "me \<noteq> 0" "grant s me q = Some (od, w)"
  shows "word_ok (obj_type s) (ungrant (s\<lparr>w0 := w\<rparr>) me od)"
proof (cases "obj_type s = TYPE_EVENT")
  case True
  with assms have "event_ok w" using grant_nt(2) [OF assms] by simp
  moreover have "ungrant (s\<lparr>w0 := w\<rparr>) me od = (if hi32 w = 0 \<and> lo32 w = 0 then set_low w else w)"
    using True by (simp add: ungrant_def Let_def type_consts)
  ultimately show ?thesis by (auto simp: True event_ok_def lo32_set_low)
next
  case False
  then show ?thesis using ungrant_grant [OF assms] assms(1) by simp
qed

text \<open>An attempt to acquire may hit a slot that is not in use any more; its word does not matter then.\<close>

lemma region_rep_put_any:
  assumes R: "region_rep r Q F" and w: "state (slots r i) = SLOT_USED \<Longrightarrow> word_ok (obj_type (slots r i)) w"
  shows "region_rep (put_word r i w) Q F"
  by (rule region_rep_frame [OF R put_word_rep [OF region_pool [OF R]]])
    (use w region_word [OF R] region_queued [OF R] in auto)

lemma grant_rep:
  assumes R: "region_rep r Q F" and me: "me \<noteq> 0" and g: "grant (slots r i) me q = Some (od, w)"
  shows "region_rep (put_word r i w) Q F"
  by (rule region_rep_put_any [OF R]) (rule grant_nt(2) [OF region_word [OF R] me g])

lemma try_all_frame:
  assumes os: "undisturbed os" and me: "me \<noteq> 0"
  shows "all = pre @ hs \<Longrightarrow> distinct (map idx all) \<Longrightarrow> region_rep r Q F \<Longrightarrow>
    roll_back os r all acq me = Some r0 \<Longrightarrow> fst ` set acq \<subseteq> {..<length pre} \<Longrightarrow>
    region_rep r0 Q F \<Longrightarrow> words_only r r0 \<Longrightarrow> \<forall>h\<in>set hs. slots r0 (idx h) = slots r (idx h) \<Longrightarrow>
    \<exists>got r'. try_all os r (length pre) hs all me qs acq dead = Some (got, r') \<and> region_rep r' Q F \<and> words_only r r'"
proof (induction hs arbitrary: pre r acq dead r0)
  case (Cons h hs)
  show ?case
  proof (cases "grant (slots r (idx h)) me (qs ! length pre)")
    case None
    with os Cons.prems show ?thesis by (simp add: try_acquire_undisturbed undisturbed_def)
  next
    case (Some g)
    obtain od w where g: "g = (od, w)" by (cases g)
    let ?r = "put_word r (idx h) w" and ?acq = "acq @ [(length pre, od)]"
    let ?s = "slots r (idx h)"
    note gr = Some [unfolded g]
    have here: "all ! length pre = h" using Cons.prems(1) by simp
    have "idx h \<notin> (\<lambda>(j, od). idx (all ! j)) ` set acq"
    proof
      assume "idx h \<in> (\<lambda>(j, od). idx (all ! j)) ` set acq"
      then obtain j where j: "j < length pre" "idx (all ! j) = idx h" using Cons.prems(5) by fastforce
      with Cons.prems(1) here have "map idx all ! j = map idx all ! length pre" "j < length all"
        "length pre < length all" by (simp_all add: nth_append)
      with j nth_eq_iff_index_eq [OF Cons.prems(2), of j "length pre"] show False by simp
    qed
    then have rb: "roll_back os ?r all acq me = Some (put_word r0 (idx h) w)"
      using Cons.prems(4) by (simp add: roll_back_frame [OF os])
    let ?u = "ungrant (?s\<lparr>w0 := w\<rparr>) me od"
    let ?undone = "put_word r0 (idx h) ?u"
    have "roll_back os ?r all ?acq me = Some ?undone"
      using rb os here Cons.prems(8)
      by (simp add: roll_back_append rollback_acquire_undisturbed undisturbed_def slots_put_word_here)
    moreover have "region_rep ?r Q F"
      by (rule grant_rep [OF Cons.prems(3) me gr])
    moreover have "region_rep ?undone Q F"
      by (rule region_rep_put_any [OF Cons.prems(6)])
        (use ungrant_ok [OF _ me gr] region_word [OF Cons.prems(3)] Cons.prems(8) in simp)
    moreover have ne: "\<forall>h'\<in>set hs. idx h' \<noteq> idx h"
      using Cons.prems(1,2) by (auto simp: image_iff eq_commute [of "idx h"])
    moreover have "words_only ?r ?undone" using Cons.prems(7) by (auto simp: words_only_def)
    ultimately obtain got r' where "try_all os ?r (length (pre @ [h])) hs all me qs ?acq (dead \<or> od) = Some (got, r')"
      "region_rep r' Q F" "words_only ?r r'"
      using Cons.IH [of "pre @ [h]" ?r ?acq ?undone "dead \<or> od"] Cons.prems(1,2,5,8)
      by fastforce
    moreover have "words_only r r'" using \<open>words_only ?r r'\<close> by (auto simp: words_only_def)
    ultimately show ?thesis
      using Some g os by (auto simp: try_acquire_undisturbed undisturbed_def)
  qed
qed auto

lemma try_any_words:
  assumes os: "undisturbed os" and me: "me \<noteq> 0" and R: "region_rep r Q F"
  shows "\<exists>got r'. try_any os r n hs me qs = Some (got, r') \<and> region_rep r' Q F \<and> words_only r r'"
proof (induction hs arbitrary: n)
  case (Cons h hs)
  show ?case
  proof (cases "grant (slots r (idx h)) me (qs ! n)")
    case None
    with Cons.IH [of "Suc n"] os show ?thesis by (simp add: try_acquire_undisturbed undisturbed_def)
  next
    case (Some g)
    obtain od w where g: "g = (od, w)" by (cases g)
    with Some os grant_rep [OF R me, of "idx h"] show ?thesis
      by (simp add: try_acquire_undisturbed undisturbed_def)
  qed
qed (use R in simp)

lemma try_satisfy_words:
  assumes os: "undisturbed os" and me: "me \<noteq> 0" and R: "region_rep r Q F" and d: "distinct (map idx hs)"
  shows "\<exists>got r'. try_satisfy os r hs me qs wall = Some (got, r') \<and> region_rep r' Q F \<and> words_only r r'"
proof (cases wall)
  case True
  have "\<exists>got r'. try_all os r (length ([] :: u32 list)) hs hs me qs [] False = Some (got, r') \<and> region_rep r' Q F \<and> words_only r r'"
    by (rule try_all_frame [OF os me _ d R]) (use R in auto)
  with True show ?thesis by (simp add: try_satisfy_def)
qed (use try_any_words [OF os me R] in \<open>simp add: try_satisfy_def\<close>)

lemma try_any_frame:
  assumes os: "undisturbed os" and me: "me \<noteq> 0" and R: "region_rep r Q F"
  shows "\<forall>h\<in>set hs. state (slots r (idx h)) = SLOT_USED \<Longrightarrow>
    \<exists>got r'. try_any os r n hs me qs = Some (got, r') \<and> region_rep r' Q F \<and> words_only r r' \<and>
      (got = None \<longrightarrow> r' = r \<and> (\<forall>k<length hs. wait_satisfied (slots r (idx (hs ! k))) me (qs ! (n + k)) = None))"
proof (induction hs arbitrary: n)
  case (Cons h hs)
  have u: "state (slots r (idx h)) = SLOT_USED" using Cons.prems by simp
  show ?case
  proof (cases "grant (slots r (idx h)) me (qs ! n)")
    case None
    then have "wait_satisfied (slots r (idx h)) me (qs ! n) = None" by (simp add: wait_unsatisfied [OF R u me])
    moreover obtain got r' where "try_any os r (Suc n) hs me qs = Some (got, r')" "region_rep r' Q F"
      "words_only r r'" "got = None \<longrightarrow> r' = r \<and>
        (\<forall>k<length hs. wait_satisfied (slots r (idx (hs ! k))) me (qs ! (Suc n + k)) = None)"
      using Cons.IH [of "Suc n"] Cons.prems by auto
    ultimately show ?thesis
      using None os by (auto simp: try_acquire_undisturbed undisturbed_def less_Suc_eq_0_disj)
  next
    case (Some g)
    obtain od w where g: "g = (od, w)" by (cases g)
    have "region_rep (put_word r (idx h) w) Q F"
      by (rule region_rep_put_word [OF R grant_nt(2) [OF region_word [OF R u] me Some [unfolded g]]])
    with Some g os show ?thesis by (simp add: try_acquire_undisturbed undisturbed_def)
  qed
qed (use R in simp)

lemma try_satisfy_frame:
  assumes "undisturbed os" "me \<noteq> 0" "region_rep r Q F" "distinct hs" "\<forall>h\<in>set hs. \<exists>i. slot r h = Some i"
  obtains got r' where "try_satisfy os r hs me qs wall = Some (got, r')" "region_rep r' Q F" "words_only r r'"
    "got = None \<and> \<not> wall \<longrightarrow> r' = r \<and> (\<forall>k<length hs. wait_satisfied (slots r (idx (hs ! k))) me (qs ! k) = None)"
proof (cases wall)
  case True
  with try_satisfy_words [OF assms(1-3) distinct_idx [OF assms(4,5)], of qs wall] that show ?thesis by blast
next
  case False
  have u: "\<forall>h\<in>set hs. state (slots r (idx h)) = SLOT_USED" using assms(5) by (auto simp: slot_Some_iff)
  from try_any_frame [OF assms(1-3) u, of 0 qs] False that show ?thesis by (auto simp: try_satisfy_def)
qed

subsection \<open>The locked section keeps the region well formed\<close>

abbreviation targets :: "WaitArgs \<Rightarrow> u32 list" where
  "targets a \<equiv> wait_handles a @ (if wait_alert a \<noteq> 0 then [wait_alert a] else [])"

definition args_ok :: "WaitArgs \<Rightarrow> bool" where
  "args_ok a \<longleftrightarrow> wait_owner a \<noteq> 0 \<and> wait_handles a \<noteq> [] \<and> distinct (wait_handles a)"

text \<open>A waiter between two rounds: it holds no nodes yet, or one for every target.\<close>

definition waiting :: "WaitArgs \<Rightarrow> Region \<Rightarrow> u32 list \<Rightarrow> bool" where
  "waiting a r ns \<longleftrightarrow> (\<exists>Q F. region_rep r Q F \<and> (ns = [] \<or> owns r F ns (targets a)))"

lemma locked_snapshot_ok:
  "locked_snapshot r first k hs qs = (True, qs') \<Longrightarrow> \<forall>h\<in>set hs. \<exists>i. slot r h = Some i"
proof (induction r first k hs qs rule: locked_snapshot.induct)
  case (2 r first k h hs qs)
  from "2.prems" obtain i where "slot r h = Some i" "waitable (obj_type (slots r i))"
    by (auto simp: Let_def split: option.splits if_splits)
  with 2 show ?case by (auto simp: Let_def split: if_splits)
qed simp

lemma alert_ok_slot: "alert_ok r alert \<Longrightarrow> alert \<noteq> 0 \<Longrightarrow> \<exists>i. slot r alert = Some i"
  by (auto simp: alert_ok_def slot_of_type_Inr)

lemma cleanup_ok:
  assumes "region_rep r Q F" "distinct ns" "\<forall>x\<in>set ns. node_held r F x"
  shows "region_ok (waiter_cleanup r ns)"
  using waiter_cleanup_rep [OF assms] unfolding region_ok_def by blast

lemma owns_cong:
  "nodes r' = nodes r \<Longrightarrow> header r' = header r \<Longrightarrow> owns r' F ns hs = owns r F ns hs"
  by (simp add: owns_def node_held_def)

lemma armed_cong: "nodes r' = nodes r \<Longrightarrow> armed r' Q ns hs = armed r Q ns hs"
  by (simp add: armed_def)

text \<open>The nodes of a waiter once it has them: fresh ones, or those of the rounds before.\<close>

lemma nodes_ready:
  assumes R: "region_rep r Q F" and o: "ns = [] \<or> owns r F ns hs"
    and a: "(if ns = [] then alloc_nodes os (length hs) r [] else ((True, ns), r)) = ((ok, ns1), r1)"
  obtains F1 where "region_rep r1 Q F1" "distinct ns1" "\<forall>x\<in>set ns1. node_held r1 F1 x"
    "slots r1 = slots r" "futex_log r1 = futex_log r" "ok \<Longrightarrow> owns r1 F1 ns1 hs"
proof (cases "ns = []")
  case True
  with a have al: "alloc_nodes os (length hs) r [] = ((ok, ns1), r1)" by simp
  have "distinct ([] :: u32 list)" "\<forall>x\<in>set []. node_held r F x \<and> registered (nodes r x) = 0" by simp_all
  from alloc_nodes_rep [OF R this al] obtain F1 where
    "region_rep r1 Q F1" "distinct ns1" "\<forall>x\<in>set ns1. node_held r1 F1 x \<and> registered (nodes r1 x) = 0"
    "slots r1 = slots r" "futex_log r1 = futex_log r" "ok \<longrightarrow> length ns1 = length hs" by auto
  then show ?thesis by (intro that [of F1]) (auto simp: owns_def)
next
  case False
  with a o R show ?thesis by (intro that [of F]) (auto simp: owns_def)
qed

text \<open>Registering and trying: either something is acquired, or the waiter is armed and ready to sleep.\<close>

definition ready :: "WaitArgs \<Rightarrow> u32 list \<Rightarrow> u64 list \<Rightarrow> Region \<Rightarrow> bool" where
  "ready a ns qs r \<longleftrightarrow> (\<exists>Q F. region_rep r Q F \<and> owns r F ns (targets a) \<and> armed r Q ns (targets a)) \<and>
     (\<forall>h\<in>set (targets a). \<exists>i. slot r h = Some i) \<and>
     (\<not> wait_for_all a \<longrightarrow> (\<forall>k<length (wait_handles a).
        wait_satisfied (slots r (idx (wait_handles a ! k))) (wait_owner a) (qs ! k) = None))"

lemma attempt_rep:
  assumes a: "args_ok a" and os: "undisturbed os" and R: "region_rep r1 Q F" and o: "owns r1 F ns (targets a)"
    and v: "\<forall>h\<in>set (targets a). \<exists>i. slot r1 h = Some i"
  obtains got r3 where
    "try_satisfy os (register_all (ns ! 0) r1 ns (targets a)) (wait_handles a) (wait_owner a) qs (wait_for_all a)
       = Some (got, r3)"
    "region_ok (waiter_cleanup r3 ns)" "got = None \<longrightarrow> ready a ns qs r3" "futex_log r3 = futex_log r1"
proof -
  let ?r2 = "register_all (ns ! 0) r1 ns (targets a)"
  have ne: "targets a \<noteq> []" using a by (simp add: args_ok_def)
  obtain Q' where q: "region_rep ?r2 Q' F" "armed ?r2 Q' ns (targets a)" "owns ?r2 F ns (targets a)"
    "bare ?r2 = bare r1" "futex_log ?r2 = futex_log r1" by (rule register_all_armed [OF R o ne v])
  have v2: "\<forall>h\<in>set (targets a). \<exists>i. slot ?r2 h = Some i" using v slot_bare [OF q(4)] by simp
  obtain got r3 where t: "try_satisfy os ?r2 (wait_handles a) (wait_owner a) qs (wait_for_all a) = Some (got, r3)"
    "region_rep r3 Q' F" "words_only ?r2 r3"
    and none: "got = None \<and> \<not> wait_for_all a \<longrightarrow> r3 = ?r2 \<and> (\<forall>k<length (wait_handles a).
      wait_satisfied (slots ?r2 (idx (wait_handles a ! k))) (wait_owner a) (qs ! k) = None)"
    by (rule try_satisfy_frame [OF os _ q(1), of "wait_owner a" "wait_handles a" qs "wait_for_all a"])
      (use a v2 in \<open>auto simp: args_ok_def\<close>)
  have n: "nodes r3 = nodes ?r2" "header r3 = header ?r2" "futex_log r3 = futex_log ?r2"
    using t(3) by (auto simp: words_only_def)
  have o3: "owns r3 F ns (targets a)" "armed r3 Q' ns (targets a)"
    using q(2,3) owns_cong [OF n(1,2)] armed_cong [OF n(1)] by auto
  have "region_ok (waiter_cleanup r3 ns)"
    by (rule cleanup_ok [OF t(2)]) (use o3(1) in \<open>auto simp: owns_def\<close>)
  moreover have "got = None \<longrightarrow> ready a ns qs r3"
  proof
    assume g: "got = None"
    have "\<forall>h\<in>set (targets a). \<exists>i. slot r3 h = Some i" using v2 words_only_slot [OF t(3)] by simp
    moreover have "\<exists>Q F. region_rep r3 Q F \<and> owns r3 F ns (targets a) \<and> armed r3 Q ns (targets a)"
      using t(2) o3 by blast
    moreover have "\<not> wait_for_all a \<Longrightarrow> \<forall>k<length (wait_handles a).
        wait_satisfied (slots r3 (idx (wait_handles a ! k))) (wait_owner a) (qs ! k) = None"
      using g none by simp
    ultimately show "ready a ns qs r3" unfolding ready_def by blast
  qed
  ultimately show ?thesis using t(1) n(3) q(5) that by simp
qed

lemma wait_locked_rep:
  assumes a: "args_ok a" and os: "undisturbed (try_os env)" and w: "waiting a r ns"
  obtains step ns' qs' r' where "wait_locked env a r ns qs = Some (step, ns', qs', r')"
    "\<And>out. step = Return out \<Longrightarrow> ns' = [] \<and> region_ok r'"
    "\<And>s rem. step = Block s rem \<Longrightarrow> ready a ns' qs' r' \<and> s = seq (nodes r' (ns' ! 0)) \<and>
       rem = map_option (\<lambda>dl. dl - now_ns env) (wait_deadline a) \<and> (\<forall>dl. wait_deadline a = Some dl \<longrightarrow> now_ns env < dl)"
proof -
  from w obtain Q F where R: "region_rep r Q F" and o: "ns = [] \<or> owns r F ns (targets a)"
    by (auto simp: waiting_def)
  have c: "region_ok (waiter_cleanup r ns)"
    by (rule cleanup_ok [OF R]) (use o in \<open>auto simp: owns_def\<close>)
  obtain ok qs1 where sn: "locked_snapshot r (ns = []) 0 (wait_handles a) qs = (ok, qs1)"
    by (cases "locked_snapshot r (ns = []) 0 (wait_handles a) qs")
  show ?thesis
  proof (cases "ok \<and> alert_ok r (wait_alert a) \<and> \<not> alert_signaled r (wait_alert a)")
    case False
    with sn c show ?thesis
      by (intro that [of "Return (if ok \<and> alert_ok r (wait_alert a) then alert_outcome a else InvalidWait)"
            "[]" qs1 "waiter_cleanup r ns"]) (auto simp: wait_locked_def)
  next
    case True
    obtain got ns1 r1 where al: "(if ns = [] then alloc_nodes (lock_os env) (length (targets a)) r []
        else ((True, ns), r)) = ((got, ns1), r1)" by (metis prod.collapse)
    obtain F1 where f: "region_rep r1 Q F1" "distinct ns1" "\<forall>x\<in>set ns1. node_held r1 F1 x" "slots r1 = slots r"
      and own: "got \<Longrightarrow> owns r1 F1 ns1 (targets a)" by (rule nodes_ready [OF R o al]) blast
    have n: "length (wait_handles a) + (if wait_alert a \<noteq> 0 then 1 else 0) = length (targets a)" by simp
    show ?thesis
    proof (cases got)
      case no: False
      with True sn al cleanup_ok [OF f(1-3)] show ?thesis
        by (intro that [of "Return InvalidWait" "[]" qs1 "waiter_cleanup r1 ns1"])
          (simp_all add: wait_locked_def n del: length_append)
    next
      case yes: True
      have "slot r1 h = slot r h" for h by (rule slot_cong) (simp_all add: f(4))
      then have v: "\<forall>h\<in>set (targets a). \<exists>i. slot r1 h = Some i"
        using True locked_snapshot_ok [of r "ns = []" 0 "wait_handles a" qs qs1] sn alert_ok_slot [of r "wait_alert a"] by auto
      obtain res r3 where t: "try_satisfy (try_os env) (register_all (ns1 ! 0) r1 ns1 (targets a)) (wait_handles a)
          (wait_owner a) qs1 (wait_for_all a) = Some (res, r3)" "region_ok (waiter_cleanup r3 ns1)"
        "res = None \<longrightarrow> ready a ns1 qs1 r3" by (rule attempt_rep [OF a os f(1) own [OF yes] v])
      let ?block = "res = None \<and> (\<forall>dl. wait_deadline a = Some dl \<longrightarrow> now_ns env < dl)"
      let ?out = "case res of Some x \<Rightarrow> x | None \<Rightarrow> Timeout"
      have "wait_locked env a r ns qs = Some (if ?block
          then (Block (seq (nodes r3 (ns1 ! 0))) (map_option (\<lambda>dl. dl - now_ns env) (wait_deadline a)), ns1, qs1, r3)
          else (Return ?out, [], qs1, waiter_cleanup r3 ns1))"
        using True sn al yes t(1)
        by (auto simp: wait_locked_def Let_def n not_le simp del: length_append split: option.split)
      with t(2,3) show ?thesis by (cases ?block) (auto intro!: that)
    qed
  qed
qed

end
