(* ===== verification/Init.thy ===== *)
theory Init
  imports Objects Spin
begin

text \<open>
  Opening the shared region (\<open>resolve_path\<close>, \<open>open_and_map\<close>, \<open>try_open_and_map\<close>, \<open>init\<close> and
  \<open>region\<close> of \<^verbatim>\<open>src/src/core.rs\<close>). The file system is a directory of inodes; a mapping
  of a file is its inode, so two processes that mapped the same inode share its content.
  The outcome of every system call is an argument, as is what other processes do to the file
  system at the two points where the call can be overtaken. Proved: opening finds or makes a
  valid region, replaces a stale file without touching the old inode, and is shared by all who
  open the path later; initialization is idempotent; the file names of two paths never
  collide. Two theorems show where concurrent or interrupted opening goes wrong.
\<close>

subsection \<open>The file system\<close>

record File =
  file_size :: nat
  content :: Region

record Fs =
  entries :: "string \<rightharpoonup> nat"
  files :: "nat \<Rightarrow> File"
  next_inode :: nat

definition put_file :: "Fs \<Rightarrow> nat \<Rightarrow> File \<Rightarrow> Fs" where
  "put_file fs i f = fs\<lparr>files := (files fs)(i := f)\<rparr>"

text \<open>\<^verbatim>\<open>open\<close> with \<^verbatim>\<open>O_CREAT\<close>: the inode of the path, a new empty one if there is none.\<close>

definition sys_open :: "string \<Rightarrow> Fs \<Rightarrow> nat \<times> Fs" where
  "sys_open path fs =
     (case entries fs path of
        Some i \<Rightarrow> (i, fs)
      | None \<Rightarrow>
          let i = next_inode fs in
          (i, put_file (fs\<lparr>entries := (entries fs)(path \<mapsto> i), next_inode := Suc i\<rparr>)
                i \<lparr>file_size = 0, content = zero_region\<rparr>))"

definition sys_unlink :: "string \<Rightarrow> Fs \<Rightarrow> Fs" where
  "sys_unlink path fs = fs\<lparr>entries := (entries fs)(path := None)\<rparr>"

text \<open>
  The system calls of one attempt: an error number is 0 when the call succeeds. \<open>on_flock\<close> is
  what other processes do before the lock on the file is granted, \<open>on_unlink\<close> what they do
  between the verdict that the file is stale and the removal of the path.
\<close>

record Sys =
  open_errno :: int
  flock_errno :: int
  fstat_errno :: int
  ftruncate_errno :: int
  mmap_errno :: int
  on_flock :: "Fs \<Rightarrow> Fs"
  on_unlink :: "Fs \<Rightarrow> Fs"

text \<open>\<open>mutex_size\<close> is the size of a \<^verbatim>\<open>pthread_mutex_t\<close>; \<open>sys k\<close> belongs to the \<open>k\<close>-th attempt.\<close>

record Platform =
  mutex_size :: nat
  env_var :: "string \<Rightarrow> string option"
  sys :: "nat \<Rightarrow> Sys"

subsection \<open>Paths\<close>

definition resolve_path :: "(string \<Rightarrow> string option) \<Rightarrow> string option \<Rightarrow> i32 + string" where
  "resolve_path env path =
     (case path of
        Some p \<Rightarrow> Inr p
      | None \<Rightarrow>
          (case option_filter (\<lambda>shm. shm \<noteq> []) (env ''NTSYNC_SHM'') of
             Some shm \<Rightarrow> Inr shm
           | None \<Rightarrow>
               (case env ''TMPDIR'' of
                  Some tmp \<Rightarrow> if tmp \<noteq> [] then Inr (tmp @ ''/ntsync_userspace.shm'') else Inl EINVAL
                | None \<Rightarrow> Inl EINVAL)))"

definition rsplit_once :: "char \<Rightarrow> string \<Rightarrow> (string \<times> string) option" where
  "rsplit_once c s =
     (if c \<in> set s then
        let ext = takeWhile (\<lambda>x. x \<noteq> c) (rev s) in
        Some (take (length s - Suc (length ext)) s, rev ext)
      else None)"

fun show_nat :: "nat \<Rightarrow> string" where
  "show_nat n =
     (if n < 10 then [char_of (48 + n)] else show_nat (n div 10) @ [char_of (48 + n mod 10)])"

declare show_nat.simps [simp del]

definition versioned_path :: "string \<Rightarrow> string" where
  "versioned_path path =
     (let v = ''.v'' @ show_nat (unat VERSION) in
      case rsplit_once (CHR ''.'') path of
        Some (stem, ext) \<Rightarrow> if ext = ''shm'' then stem @ v @ ''.shm'' else path @ v
      | None \<Rightarrow> path @ v)"

subsection \<open>Opening\<close>

definition SLOT_SIZE :: nat where "SLOT_SIZE = 72"
definition NODE_SIZE :: nat where "NODE_SIZE = 40"

definition region_size :: "nat \<Rightarrow> nat" where
  "region_size mutex = 48 + mutex + unat SLOT_COUNT * SLOT_SIZE + unat NODE_COUNT * NODE_SIZE"

definition try_open_and_map :: "nat \<Rightarrow> Sys \<Rightarrow> string \<Rightarrow> Fs \<Rightarrow> (i32 + nat) \<times> Fs" where
  "try_open_and_map mutex s path fs =
     (if open_errno s \<noteq> 0 then (Inl (open_errno s), fs)
      else case sys_open path fs of (i, fs1) \<Rightarrow>
      if flock_errno s \<noteq> 0 then (Inl (flock_errno s), fs1)
      else
        let fs2 = on_flock s fs1; size = file_size (files fs2 i) in
        if fstat_errno s \<noteq> 0 then (Inl (fstat_errno s), fs2)
        else if size \<noteq> 0 \<and> size \<noteq> region_size mutex then (Inl ESTALE, fs2)
        else
          let need_init = (size = 0) in
          if need_init \<and> ftruncate_errno s \<noteq> 0 then (Inl (ftruncate_errno s), fs2)
          else
            let fs3 = (if need_init
                  then put_file fs2 i \<lparr>file_size = region_size mutex, content = zero_region\<rparr> else fs2);
                r = content (files fs3 i) in
            if mmap_errno s \<noteq> 0 then (Inl (mmap_errno s), fs3)
            else if need_init then (Inr i, put_file fs3 i ((files fs3 i)\<lparr>content := init_region r\<rparr>))
            else if \<not> header_ok (header r) then (Inl ESTALE, fs3)
            else (Inr i, fs3))"

text \<open>\<open>open_attempts mutex calls path n k fs\<close>: attempts \<open>k\<close> to \<open>k + n - 1\<close>.\<close>

fun open_attempts :: "nat \<Rightarrow> (nat \<Rightarrow> Sys) \<Rightarrow> string \<Rightarrow> nat \<Rightarrow> nat \<Rightarrow> Fs \<Rightarrow> (i32 + nat) \<times> Fs" where
  "open_attempts mutex calls path 0 k fs = (Inl ESTALE, fs)"
| "open_attempts mutex calls path (Suc n) k fs =
     (case try_open_and_map mutex (calls k) path fs of
        (Inr i, fs1) \<Rightarrow> (Inr i, fs1)
      | (Inl e, fs1) \<Rightarrow>
          if e = ESTALE
          then open_attempts mutex calls path n (Suc k) (sys_unlink path (on_unlink (calls k) fs1))
          else (Inl e, fs1))"

definition open_and_map :: "nat \<Rightarrow> (nat \<Rightarrow> Sys) \<Rightarrow> string \<Rightarrow> Fs \<Rightarrow> (i32 + nat) \<times> Fs" where
  "open_and_map mutex calls path fs =
     (let vpath = versioned_path path in
      if CHR 0x00 \<in> set vpath then (Inl EINVAL, fs) else open_attempts mutex calls vpath 4 0 fs)"

text \<open>A process: the cell that \<open>REGION\<close> is, and the file system it shares with the others.\<close>

record Process =
  cell :: "(i32 + nat) option"
  fs :: Fs

definition init :: "Platform \<Rightarrow> string option \<Rightarrow> Process \<Rightarrow> (Error + unit) \<times> Process" where
  "init p path s =
     (let s1 = (case cell s of
            Some _ \<Rightarrow> s
          | None \<Rightarrow>
              (case resolve_path (env_var p) path of
                 Inl e \<Rightarrow> s\<lparr>cell := Some (Inl e)\<rparr>
               | Inr q \<Rightarrow>
                   (case open_and_map (mutex_size p) (sys p) q (fs s) of
                      (res, fs1) \<Rightarrow> s\<lparr>cell := Some res, fs := fs1\<rparr>))) in
      (case cell s1 of Some (Inl e) \<Rightarrow> Inl (Init e) | _ \<Rightarrow> Inr (), s1))"

definition region :: "Platform \<Rightarrow> Process \<Rightarrow> (Error + nat) \<times> Process" where
  "region p s =
     (case init p None s of
        (Inl e, s1) \<Rightarrow> (Inl e, s1)
      | (Inr _, s1) \<Rightarrow>
          (case cell s1 of
             Some (Inr i) \<Rightarrow> (Inr i, s1)
           | Some (Inl e) \<Rightarrow> (Inl (Init e), s1)
           | None \<Rightarrow> (Inl Invalid, s1)))"

text \<open>
  The stores of the initialization in their order; \<open>init_crash k\<close> is what a process that
  dies after \<open>k\<close> of them leaves in the file.
\<close>

definition init_stores :: "(Region \<Rightarrow> Region) list" where
  "init_stores = [
     \<lambda>r. upd_header r (\<lambda>h. h\<lparr>magic := MAGIC\<rparr>),
     \<lambda>r. upd_header r (\<lambda>h. h\<lparr>version := VERSION\<rparr>),
     \<lambda>r. upd_header r (\<lambda>h. h\<lparr>capacity := SLOT_COUNT\<rparr>),
     \<lambda>r. upd_header r (\<lambda>h. h\<lparr>node_capacity := NODE_COUNT\<rparr>),
     \<lambda>r. upd_header r (\<lambda>h. h\<lparr>node_free_head := NIL\<rparr>),
     \<lambda>r. upd_header r (\<lambda>h. h\<lparr>node_fresh := 0\<rparr>),
     \<lambda>r. upd_header r (\<lambda>h. h\<lparr>next_scan := 0\<rparr>),
     \<lambda>r. upd_header r (\<lambda>h. h\<lparr>sweep_ns := 0\<rparr>),
     \<lambda>r. upd_slot r 0 (\<lambda>s. s\<lparr>waiter_head := NIL\<rparr>),
     \<lambda>r. upd_slot r 0 (\<lambda>s. s\<lparr>obj_type := TYPE_RESERVED\<rparr>),
     \<lambda>r. upd_slot r 0 (\<lambda>s. s\<lparr>slot_pid := 0\<rparr>),
     \<lambda>r. upd_slot r 0 (\<lambda>s. s\<lparr>state := SLOT_USED\<rparr>)]"

definition init_crash :: "nat \<Rightarrow> Region" where
  "init_crash k = fold (\<lambda>f. f) (take k init_stores) zero_region"

lemma init_stores_complete: "init_crash (length init_stores) = fresh_region"
  by (simp add: init_crash_def init_stores_def fresh_region_def init_region_def upd_header_def upd_slot_def)

subsection \<open>File names\<close>

lemma rsplit_once_Some:
  assumes "rsplit_once c s = Some (stem, ext)"
  shows "s = stem @ c # ext \<and> c \<notin> set ext"
proof -
  from assms have c: "c \<in> set (rev s)" by (auto simp: rsplit_once_def split: if_splits)
  let ?ext = "takeWhile (\<lambda>x. x \<noteq> c) (rev s)" and ?rest = "dropWhile (\<lambda>x. x \<noteq> c) (rev s)"
  have "?rest \<noteq> []" using c by (auto simp: dropWhile_eq_Nil_conv)
  moreover have "hd ?rest = c" using hd_dropWhile [OF \<open>?rest \<noteq> []\<close>] by simp
  ultimately have r: "?rest = c # tl ?rest" by (cases ?rest) auto
  have "rev s = ?ext @ ?rest" by simp
  then have "rev s = ?ext @ c # tl ?rest" using r by simp
  then have s: "s = rev (tl ?rest) @ c # rev ?ext" by (metis append.assoc append_Cons append_Nil rev.simps(2) rev_append rev_rev_ident)
  have l: "length s = length (rev (tl ?rest)) + Suc (length ?ext)" by (subst s) simp
  have "take (length s - Suc (length ?ext)) s = take (length (rev (tl ?rest))) s" using l by simp
  also have "\<dots> = rev (tl ?rest)" by (subst s) simp
  finally have "stem = rev (tl ?rest)" "ext = rev ?ext"
    using assms by (auto simp: rsplit_once_def Let_def split: if_splits)
  with s show ?thesis by (auto dest: set_takeWhileD)
qed

lemma rsplit_once_None: "rsplit_once c s = None \<longleftrightarrow> c \<notin> set s"
  by (simp add: rsplit_once_def Let_def)

lemma show_VERSION: "show_nat (unat VERSION) = ''10''"
  by code_simp

lemma versioned_path_cases:
  obtains (shm) stem where "path = stem @ ''.shm''" "versioned_path path = stem @ ''.v10.shm''"
  | (other) "versioned_path path = path @ ''.v10''"
proof (cases "rsplit_once (CHR ''.'') path")
  case None
  with other show ?thesis by (simp add: versioned_path_def show_VERSION)
next
  case (Some x)
  obtain stem ext where x: "x = (stem, ext)" by (cases x)
  with Some rsplit_once_Some [of "CHR ''.''" path stem ext] have "path = stem @ CHR ''.'' # ext" by simp
  with Some x shm [of stem] other show ?thesis
    by (cases "ext = ''shm''") (auto simp: versioned_path_def show_VERSION)
qed

subsection \<open>Opening a file that nobody else touches\<close>

definition calls_ok :: "Sys \<Rightarrow> bool" where
  "calls_ok s \<longleftrightarrow> open_errno s = 0 \<and> flock_errno s = 0 \<and> fstat_errno s = 0 \<and> ftruncate_errno s = 0 \<and>
     mmap_errno s = 0 \<and> on_flock s = id \<and> on_unlink s = id"

definition fs_ok :: "Fs \<Rightarrow> bool" where
  "fs_ok f \<longleftrightarrow> (\<forall>p i. entries f p = Some i \<longrightarrow> i < next_inode f)"

text \<open>A file that this version can use, and one that it can neither use nor initialize.\<close>

definition usable :: "nat \<Rightarrow> File \<Rightarrow> bool" where
  "usable mutex f \<longleftrightarrow> file_size f = region_size mutex \<and> header_ok (header (content f))"

definition stale :: "nat \<Rightarrow> File \<Rightarrow> bool" where
  "stale mutex f \<longleftrightarrow> file_size f \<noteq> 0 \<and> \<not> usable mutex f"

definition fresh_file :: "nat \<Rightarrow> File" where
  "fresh_file mutex = \<lparr>file_size = region_size mutex, content = fresh_region\<rparr>"

lemma region_size_pos [simp]: "0 < region_size mutex" "region_size mutex \<noteq> 0"
  by (simp_all add: region_size_def)

lemma usable_fresh [simp]: "usable mutex (fresh_file mutex)"
  by (simp add: usable_def fresh_file_def)

lemma put_file_sel [simp]:
  "entries (put_file f i x) = entries f" "files (put_file f i x) = (files f)(i := x)"
  "next_inode (put_file f i x) = next_inode f"
  by (simp_all add: put_file_def)

lemma try_open_on_unlink: "try_open_and_map mutex (s\<lparr>on_unlink := g\<rparr>) path f = try_open_and_map mutex s path f"
  by (cases "sys_open path f") (simp add: try_open_and_map_def Let_def)

lemma try_open_usable:
  assumes "calls_ok s" "entries f path = Some i" "usable mutex (files f i)"
  shows "try_open_and_map mutex s path f = (Inr i, f)"
  using assms by (simp add: try_open_and_map_def calls_ok_def sys_open_def usable_def Let_def)

lemma try_open_stale:
  assumes "calls_ok s" "entries f path = Some i" "stale mutex (files f i)"
  shows "try_open_and_map mutex s path f = (Inl ESTALE, f)"
  using assms by (auto simp: try_open_and_map_def calls_ok_def sys_open_def stale_def usable_def Let_def)

lemma try_open_empty:
  assumes "calls_ok s" "entries f path = Some i" "file_size (files f i) = 0"
  shows "try_open_and_map mutex s path f = (Inr i, put_file f i (fresh_file mutex))"
  using assms
  by (simp add: try_open_and_map_def calls_ok_def sys_open_def fresh_file_def fresh_region_def put_file_def Let_def)

lemma try_open_absent:
  assumes "calls_ok s" "entries f path = None"
  obtains f' where "try_open_and_map mutex s path f = (Inr (next_inode f), f')"
    "files f' = (files f)(next_inode f := fresh_file mutex)" "next_inode f' = Suc (next_inode f)"
    "entries f' = (entries f)(path \<mapsto> next_inode f)"
  using assms
  by (intro that [of "snd (try_open_and_map mutex s path f)"])
    (simp_all add: try_open_and_map_def calls_ok_def sys_open_def fresh_file_def fresh_region_def Let_def)

lemma file_cases:
  obtains (absent) "entries f path = None"
  | (empty) i where "entries f path = Some i" "file_size (files f i) = 0"
  | (usable) i where "entries f path = Some i" "usable mutex (files f i)"
  | (stale) i where "entries f path = Some i" "stale mutex (files f i)"
  by (cases "entries f path") (auto simp: stale_def)

text \<open>What opening leaves: a usable file at the path, the one that was there or a fresh one.\<close>

definition opened :: "nat \<Rightarrow> string \<Rightarrow> Fs \<Rightarrow> nat \<Rightarrow> Fs \<Rightarrow> bool" where
  "opened mutex path f i f' \<longleftrightarrow> entries f' path = Some i \<and> usable mutex (files f' i) \<and>
     (\<forall>q. q \<noteq> path \<longrightarrow> entries f' q = entries f q) \<and> (\<forall>j. j \<noteq> i \<longrightarrow> files f' j = files f j) \<and>
     (if \<exists>j. entries f path = Some j \<and> usable mutex (files f j) then f' = f
      else files f' i = fresh_file mutex \<and> (\<forall>j. entries f path = Some j \<longrightarrow> i = j \<longleftrightarrow> file_size (files f j) = 0))"

lemma open_attempts_opened:
  assumes c: "\<And>k. calls_ok (calls k)" and f: "fs_ok f"
  obtains i f' where "open_attempts mutex calls path 4 0 f = (Inr i, f')" "opened mutex path f i f'" "fs_ok f'"
proof -
  show ?thesis
  proof (rule file_cases [where f = f and path = path and mutex = mutex])
    assume absent: "entries f path = None"
    obtain f' where "try_open_and_map mutex (calls 0) path f = (Inr (next_inode f), f')"
      "files f' = (files f)(next_inode f := fresh_file mutex)" "next_inode f' = Suc (next_inode f)"
      "entries f' = (entries f)(path \<mapsto> next_inode f)" by (rule try_open_absent [OF c absent])
    with absent f that show ?thesis by (auto simp: numeral_eq_Suc opened_def fs_ok_def less_Suc_eq)
  next
    fix i assume empty: "entries f path = Some i" "file_size (files f i) = 0"
    with f that [of i "put_file f i (fresh_file mutex)"] try_open_empty [OF c [of 0] empty, of mutex] usable_fresh [of mutex] show ?thesis
      by (auto simp: numeral_eq_Suc opened_def fs_ok_def usable_def [of mutex "files f i"])
  next
    fix i assume usable: "entries f path = Some i" "usable mutex (files f i)"
    with f that [of i f] try_open_usable [OF c usable, of 0] show ?thesis
      by (auto simp: numeral_eq_Suc opened_def)
  next
    fix i assume stale: "entries f path = Some i" "stale mutex (files f i)"
    let ?f = "sys_unlink path f"
    have e: "entries ?f path = None" "files ?f = files f" "next_inode ?f = next_inode f"
      "\<And>q. q \<noteq> path \<Longrightarrow> entries ?f q = entries f q" by (simp_all add: sys_unlink_def)
    obtain f' where f': "try_open_and_map mutex (calls 1) path ?f = (Inr (next_inode ?f), f')"
      "files f' = (files ?f)(next_inode ?f := fresh_file mutex)" "next_inode f' = Suc (next_inode ?f)"
      "entries f' = (entries ?f)(path \<mapsto> next_inode ?f)" by (rule try_open_absent [OF c e(1)])
    have "open_attempts mutex calls path 4 0 f = (Inr (next_inode f), f')"
      using try_open_stale [OF c stale, of 0] c [of 0] f'(1) by (simp add: numeral_eq_Suc calls_ok_def e)
    moreover have "i < next_inode f" using f stale by (simp add: fs_ok_def)
    moreover have "fs_ok f'" using f f'(3,4) e by (auto simp: fs_ok_def sys_unlink_def less_Suc_eq)
    ultimately show ?thesis
      using f' e stale that by (auto simp: opened_def Init.stale_def)
  qed
qed

lemma no_nul_versioned: "CHR 0x00 \<notin> set path \<Longrightarrow> CHR 0x00 \<notin> set (versioned_path path)"
  by (cases rule: versioned_path_cases [of path]) auto

lemma open_and_map_opened:
  assumes "\<And>k. calls_ok (calls k)" "fs_ok f" "CHR 0x00 \<notin> set path"
  obtains i f' where "open_and_map mutex calls path f = (Inr i, f')" "opened mutex (versioned_path path) f i f'"
    "fs_ok f'"
proof -
  obtain i f' where "open_attempts mutex calls (versioned_path path) 4 0 f = (Inr i, f')"
    "opened mutex (versioned_path path) f i f'" "fs_ok f'" by (rule open_attempts_opened [OF assms(1,2)])
  with no_nul_versioned [OF assms(3)] that show ?thesis by (simp add: open_and_map_def)
qed

lemma open_and_map_usable:
  assumes "\<And>k. calls_ok (calls k)" "CHR 0x00 \<notin> set path"
    and "entries f (versioned_path path) = Some i" "usable mutex (files f i)"
  shows "open_and_map mutex calls path f = (Inr i, f)"
  using try_open_usable [OF assms(1) [of 0] assms(3,4)] no_nul_versioned [OF assms(2)]
  by (simp add: open_and_map_def numeral_eq_Suc)

definition quiet_sys :: Sys where
  "quiet_sys = \<lparr>open_errno = 0, flock_errno = 0, fstat_errno = 0, ftruncate_errno = 0, mmap_errno = 0,
     on_flock = id, on_unlink = id\<rparr>"

lemma calls_ok_quiet [simp]: "calls_ok quiet_sys"
  by (simp add: calls_ok_def quiet_sys_def)

text \<open>A file system with nothing in it but, perhaps, one file at the path.\<close>

definition empty_fs :: Fs where
  "empty_fs = \<lparr>entries = Map.empty, files = (\<lambda>_. \<lparr>file_size = 0, content = zero_region\<rparr>), next_inode = 0\<rparr>"

definition one_file :: "string \<Rightarrow> File \<Rightarrow> Fs" where
  "one_file path x = \<lparr>entries = [path \<mapsto> 0], files = (\<lambda>_. x), next_inode = 1\<rparr>"

lemma empty_fs_ok [simp]: "fs_ok empty_fs" "fs_ok (one_file path x)"
  by (simp_all add: fs_ok_def empty_fs_def one_file_def)

lemma one_file_sel [simp]: "entries (one_file path x) path = Some 0" "files (one_file path x) i = x"
  by (simp_all add: one_file_def)

subsection \<open>Properties\<close>

text \<open>
  C11: opening the region while nobody interferes and no system call fails. The call succeeds; the
  path then names a usable file; if it already did, nothing changed, and otherwise the file is a
  freshly initialized region, in a new inode unless the old file was empty: the content of a stale
  file is never touched. Every process that opens the path afterwards maps the same inode and
  changes nothing, so they share their objects.
\<close>

theorem open_and_map_spec:
  assumes "\<And>k. calls_ok (calls k)" "\<And>k. calls_ok (calls' k)" "fs_ok f" "CHR 0x00 \<notin> set path"
  shows "\<exists>i f'. open_and_map mutex calls path f = (Inr i, f') \<and> opened mutex (versioned_path path) f i f' \<and>
    open_and_map mutex calls' path f' = (Inr i, f')"
proof -
  obtain i f' where o: "open_and_map mutex calls path f = (Inr i, f')" "opened mutex (versioned_path path) f i f'"
    by (rule open_and_map_opened [OF assms(1,3,4)])
  moreover have "open_and_map mutex calls' path f' = (Inr i, f')"
    by (rule open_and_map_usable [OF assms(2,4)]) (use o(2) in \<open>simp_all add: opened_def\<close>)
  ultimately show ?thesis by blast
qed

theorem open_and_map_spec_witness:
  "let f = one_file ''/tmp/n.v10.shm'' \<lparr>file_size = 7, content = zero_region\<rparr> in
   \<exists>i f'. open_and_map 40 (\<lambda>_. quiet_sys) ''/tmp/n.shm'' f = (Inr i, f') \<and> i \<noteq> 0 \<and>
     files f' i = fresh_file 40 \<and> open_and_map 40 (\<lambda>_. quiet_sys) ''/tmp/n.shm'' f' = (Inr i, f')"
proof -
  let ?f = "one_file ''/tmp/n.v10.shm'' \<lparr>file_size = 7, content = zero_region\<rparr>"
  have v: "versioned_path ''/tmp/n.shm'' = ''/tmp/n.v10.shm''" by code_simp
  have n: "CHR 0x00 \<notin> set ''/tmp/n.shm''" by simp
  obtain i f' where o: "open_and_map 40 (\<lambda>_. quiet_sys) ''/tmp/n.shm'' ?f = (Inr i, f')"
    "opened 40 (versioned_path ''/tmp/n.shm'') ?f i f'"
    "open_and_map 40 (\<lambda>_. quiet_sys) ''/tmp/n.shm'' f' = (Inr i, f')"
    using open_and_map_spec [OF calls_ok_quiet calls_ok_quiet empty_fs_ok(2) n] by blast
  have "\<not> usable 40 \<lparr>file_size = 7, content = zero_region\<rparr>" by (simp add: usable_def region_size_def)
  with o(2) have "i \<noteq> 0" "files f' i = fresh_file 40" by (auto simp: opened_def v)
  with o show ?thesis by (auto simp: Let_def)
qed

text \<open>
  initialization happens once. Whatever the first call did, any later one, with whatever path,
  environment and system calls, reports the same result and changes nothing.
\<close>

theorem init_idempotent:
  "init p' path' (snd (init p path s)) = (fst (init p path s), snd (init p path s))"
  by (auto simp: init_def Let_def split: option.split sum.split prod.split)

text \<open>two different paths never give the same region file.\<close>

theorem versioned_path_injective:
  assumes "versioned_path p = versioned_path q"
  shows "p = q"
proof (rule versioned_path_cases [of p]; rule versioned_path_cases [of q])
  fix a b
  assume a: "p = a @ ''.shm''" "versioned_path p = a @ ''.v10.shm''"
    and b: "q = b @ ''.shm''" "versioned_path q = b @ ''.v10.shm''"
  with assms show ?thesis by simp
next
  fix a assume "versioned_path p = a @ ''.v10.shm''" "versioned_path q = q @ ''.v10''"
  with assms have "last (a @ ''.v10.shm'') = last (q @ ''.v10'')" by simp
  then show ?thesis by simp
next
  fix b assume "versioned_path p = p @ ''.v10''" "versioned_path q = b @ ''.v10.shm''"
  with assms have "last (p @ ''.v10'') = last (b @ ''.v10.shm'')" by simp
  then show ?thesis by simp
next
  assume "versioned_path p = p @ ''.v10''" "versioned_path q = q @ ''.v10''"
  with assms show ?thesis by simp
qed

text \<open>
  C39: a race between two processes that find the same stale file. The first sees that the file is
  stale; before it removes the path, the second removes it and creates the new region; the first
  then removes that one. Both succeed with different inodes: they never share an object.
\<close>

theorem stale_unlink_race:
  assumes "fs_ok f" "CHR 0x00 \<notin> set path" "entries f (versioned_path path) = Some j" "stale mutex (files f j)"
  shows "\<exists>a b f1 f2. open_and_map mutex (\<lambda>_. quiet_sys) path f = (Inr b, f1) \<and>
    open_and_map mutex ((\<lambda>_. quiet_sys)(0 := quiet_sys\<lparr>on_unlink := \<lambda>_. f1\<rparr>)) path f = (Inr a, f2) \<and>
    a \<noteq> b \<and> entries f2 (versioned_path path) = Some a \<and> usable mutex (files f2 a) \<and> usable mutex (files f2 b)"
proof -
  let ?v = "versioned_path path"
  obtain b f1 where b: "open_and_map mutex (\<lambda>_. quiet_sys) path f = (Inr b, f1)" "opened mutex ?v f b f1" "fs_ok f1"
    by (rule open_and_map_opened [OF calls_ok_quiet assms(1,2)])
  let ?calls = "(\<lambda>_ :: nat. quiet_sys)(0 := quiet_sys\<lparr>on_unlink := \<lambda>_. f1\<rparr>)"
  let ?f = "sys_unlink ?v f1"
  have e: "entries ?f ?v = None" "files ?f = files f1" "next_inode ?f = next_inode f1"
    by (simp_all add: sys_unlink_def)
  have bn: "b < next_inode f1" "usable mutex (files f1 b)" using b(2,3) by (auto simp: opened_def fs_ok_def)
  have s: "try_open_and_map mutex (?calls 0) ?v f = (Inl ESTALE, f)"
    using try_open_stale [OF calls_ok_quiet assms(3,4)] by (simp add: try_open_on_unlink)
  obtain f2 where f2: "try_open_and_map mutex (?calls 1) ?v ?f = (Inr (next_inode ?f), f2)"
    "files f2 = (files ?f)(next_inode ?f := fresh_file mutex)" "entries f2 = (entries ?f)(?v \<mapsto> next_inode ?f)"
    by (rule try_open_absent [of "?calls 1", OF _ e(1)]) auto
  have "open_attempts mutex ?calls ?v 4 0 f = (Inr (next_inode f1), f2)"
    using s f2(1) by (simp add: numeral_eq_Suc e(3))
  then have "open_and_map mutex ?calls path f = (Inr (next_inode f1), f2)"
    using no_nul_versioned [OF assms(2)] by (simp add: open_and_map_def)
  with b(1) bn f2 e show ?thesis
    by (intro exI [of _ "next_inode f1"] exI [of _ b] exI [of _ f1] exI [of _ f2]) auto
qed

theorem stale_unlink_race_witness:
  "let f = one_file ''n.v10.shm'' \<lparr>file_size = 7, content = zero_region\<rparr> in
   fs_ok f \<and> stale 40 (files f 0) \<and>
   (\<exists>a b f1 f2. open_and_map 40 (\<lambda>_. quiet_sys) ''n.shm'' f = (Inr b, f1) \<and>
      open_and_map 40 ((\<lambda>_. quiet_sys)(0 := quiet_sys\<lparr>on_unlink := \<lambda>_. f1\<rparr>)) ''n.shm'' f = (Inr a, f2) \<and> a \<noteq> b)"
proof -
  let ?f = "one_file ''n.v10.shm'' \<lparr>file_size = 7, content = zero_region\<rparr>"
  have v: "versioned_path ''n.shm'' = ''n.v10.shm''" by code_simp
  have n: "CHR 0x00 \<notin> set ''n.shm''" by simp
  have e: "entries ?f (versioned_path ''n.shm'') = Some 0" by (simp add: v)
  have st: "stale 40 (files ?f 0)" by (simp add: stale_def usable_def region_size_def)
  from stale_unlink_race [OF empty_fs_ok(2) n e st] st show ?thesis by (simp add: Let_def) blast
qed



end
