(* ===== verification/Ffi.thy ===== *)
theory Ffi
  imports Wait Init
begin

text \<open>
  The C interface (\<^verbatim>\<open>src/src/ffi.rs\<close>): argument structures, the translation of errors and
  of absolute timeouts, and every exported function, composed with the opening of the region
  on first use. A pointer is an option, \<open>None\<close> when it is null; a call returns its code
  together with what it left behind the pointers and the process state.
\<close>

subsection \<open>Argument structures\<close>

record ntsync_sem_args =
  sa_count :: u32
  sa_max :: u32

record ntsync_mutex_args =
  ma_owner :: u32
  ma_count :: u32

record ntsync_event_args =
  ea_manual :: u32
  ea_signaled :: u32

text \<open>\<open>wa_objs\<close> is the memory behind the pointer to the handles.\<close>

record ntsync_wait_args =
  wa_timeout :: u64
  wa_objs :: "u32 list option"
  wa_count :: u32
  wa_index :: u32
  wa_flags :: u32
  wa_owner :: u32
  wa_alert :: u32
  wa_pad :: u32

definition NTSYNC_WAIT_REALTIME :: u32 where "NTSYNC_WAIT_REALTIME = 1"
definition NTSYNC_MAX_WAIT_COUNT :: u32 where "NTSYNC_MAX_WAIT_COUNT = of_nat MAX_WAIT_COUNT"

subsection \<open>Errors and timeouts\<close>

fun errno :: "Error \<Rightarrow> i32" where
  "errno Invalid = - EINVAL"
| "errno Perm = - EPERM"
| "errno Overflow = - EOVERFLOW"
| "errno (Init e) = - e"

text \<open>\<open>clock realtime\<close> is what the chosen clock reads: seconds and nanoseconds.\<close>

definition timeout_to_duration :: "(bool \<Rightarrow> u64 \<times> u64) \<Rightarrow> u64 \<Rightarrow> u32 \<Rightarrow> nat option" where
  "timeout_to_duration clock timeout flags =
     (if timeout = - 1 then None
      else
        let (tv_sec, tv_nsec) = clock (flags AND NTSYNC_WAIT_REALTIME \<noteq> 0);
            now = tv_sec * 1000000000 + tv_nsec in
        Some (unat (saturating_sub timeout now)))"

definition read_wait ::
  "(bool \<Rightarrow> u64 \<times> u64) \<Rightarrow> ntsync_wait_args option \<Rightarrow> i32 + u32 list \<times> u32 \<times> u32 \<times> nat option" where
  "read_wait clock args =
     (case args of
        None \<Rightarrow> Inl (- EFAULT)
      | Some a \<Rightarrow>
          if wa_count a = 0 \<or> wa_count a > NTSYNC_MAX_WAIT_COUNT then Inl (- EINVAL)
          else
            (case wa_objs a of
               None \<Rightarrow> Inl (- EFAULT)
             | Some objs \<Rightarrow>
                 Inr (take (unat (wa_count a)) objs, wa_owner a, wa_alert a,
                   timeout_to_duration clock (wa_timeout a) (wa_flags a))))"

subsection \<open>Calls on the region of a process\<close>

text \<open>
  Every operation starts with \<open>region()\<close>; \<open>fail\<close> is what it returns when that fails. The mapped
  file is read and written in place.
\<close>

definition put_region :: "Process \<Rightarrow> nat \<Rightarrow> Region \<Rightarrow> Process" where
  "put_region s i r = s\<lparr>fs := put_file (fs s) i ((files (fs s) i)\<lparr>content := r\<rparr>)\<rparr>"

definition with_region ::
  "Platform \<Rightarrow> Process \<Rightarrow> (Error \<Rightarrow> 'a) \<Rightarrow> (Region \<Rightarrow> ('a \<times> Region) option) \<Rightarrow> ('a \<times> Process) option" where
  "with_region p s fail f =
     (case region p s of
        (Inl e, s1) \<Rightarrow> Some (fail e, s1)
      | (Inr i, s1) \<Rightarrow> map_option (\<lambda>(a, r). (a, put_region s1 i r)) (f (content (files (fs s1) i))))"

text \<open>\<open>refused\<close> is the check that an operation makes before it looks for the region.\<close>

definition call ::
  "Platform \<Rightarrow> Process \<Rightarrow> bool \<Rightarrow> (Region \<Rightarrow> ((Error + 'a) \<times> Region) option) \<Rightarrow> ((Error + 'a) \<times> Process) option" where
  "call p s refused f = (if refused then Some (Inl Invalid, s) else with_region p s Inl f)"

text \<open>The code of a call and what it stores: \<open>f\<close> of the result on success, the old value otherwise.\<close>

definition reply :: "('a \<Rightarrow> 'b) \<Rightarrow> 'b \<Rightarrow> Error + 'a \<Rightarrow> i32 \<times> 'b" where
  "reply f old res = (case res of Inr a \<Rightarrow> (0, f a) | Inl e \<Rightarrow> (errno e, old))"

definition answer :: "('a \<Rightarrow> 'b) \<Rightarrow> 'b \<Rightarrow> ((Error + 'a) \<times> Process) option \<Rightarrow> ((i32 \<times> 'b) \<times> Process) option" where
  "answer f old = map_option (\<lambda>(res, s). (reply f old res, s))"

subsection \<open>Exported functions\<close>

text \<open>\<open>ntsync_init\<close>: the path is \<open>None\<close> when null, and \<open>Some None\<close> when it is not valid UTF-8.\<close>

definition ntsync_init :: "Platform \<Rightarrow> string option option \<Rightarrow> Process \<Rightarrow> i32 \<times> Process" where
  "ntsync_init p path s =
     (case path of
        Some None \<Rightarrow> (- EINVAL, s)
      | Some (Some q) \<Rightarrow> (case init p (Some q) s of (Inr _, s1) \<Rightarrow> (0, s1) | (Inl e, s1) \<Rightarrow> (errno e, s1))
      | None \<Rightarrow> (case init p None s of (Inr _, s1) \<Rightarrow> (0, s1) | (Inl e, s1) \<Rightarrow> (errno e, s1)))"

definition ntsync_sweep_dead :: "Platform \<Rightarrow> Os \<Rightarrow> Process \<Rightarrow> (i32 \<times> Process) option" where
  "ntsync_sweep_dead p os s =
     map_option (\<lambda>(res, s1). (case res of Inr n \<Rightarrow> sint (n :: u32) | Inl e \<Rightarrow> errno e, s1))
       (call p s False (sweep_dead os))"

definition ntsync_create_sem ::
  "Platform \<Rightarrow> Os \<Rightarrow> u32 option \<Rightarrow> ntsync_sem_args option \<Rightarrow> Process \<Rightarrow> ((i32 \<times> u32 option) \<times> Process) option" where
  "ntsync_create_sem p os out args s =
     (case (out, args) of
        (Some _, Some a) \<Rightarrow>
          answer Some out (call p s (sa_count a > sa_max a)
            (\<lambda>r. create_semaphore os r (sa_count a) (sa_max a)))
      | _ \<Rightarrow> Some ((- EFAULT, out), s))"

definition ntsync_create_mutex ::
  "Platform \<Rightarrow> Os \<Rightarrow> u32 option \<Rightarrow> ntsync_mutex_args option \<Rightarrow> Process \<Rightarrow> ((i32 \<times> u32 option) \<times> Process) option" where
  "ntsync_create_mutex p os out args s =
     (case (out, args) of
        (Some _, Some a) \<Rightarrow>
          answer Some out (call p s ((ma_owner a = 0) \<noteq> (ma_count a = 0) \<or> ma_count a > 0x7fffffff)
            (\<lambda>r. create_mutex os r (ma_owner a) (ma_count a)))
      | _ \<Rightarrow> Some ((- EFAULT, out), s))"

definition ntsync_create_event ::
  "Platform \<Rightarrow> Os \<Rightarrow> u32 option \<Rightarrow> ntsync_event_args option \<Rightarrow> Process \<Rightarrow> ((i32 \<times> u32 option) \<times> Process) option" where
  "ntsync_create_event p os out args s =
     (case (out, args) of
        (Some _, Some a) \<Rightarrow>
          answer Some out (call p s False (\<lambda>r. create_event os r (ea_manual a \<noteq> 0) (ea_signaled a \<noteq> 0)))
      | _ \<Rightarrow> Some ((- EFAULT, out), s))"

definition ntsync_close :: "Platform \<Rightarrow> Os \<Rightarrow> u32 \<Rightarrow> Process \<Rightarrow> (i32 \<times> Process) option" where
  "ntsync_close p os handle s =
     map_option (\<lambda>(done, s1). (if done then 0 else - EINVAL, s1))
       (if handle AND INDEX_MASK = 0 then Some (False, s)
        else with_region p s (\<lambda>_. False) (\<lambda>r. close os r handle))"

definition ntsync_retain :: "Platform \<Rightarrow> Os \<Rightarrow> u32 \<Rightarrow> Process \<Rightarrow> (i32 \<times> Process) option" where
  "ntsync_retain p os handle s =
     map_option (\<lambda>(res, s1). (case res of Inr _ \<Rightarrow> 0 | Inl (Init e) \<Rightarrow> - e | Inl _ \<Rightarrow> - EINVAL, s1))
       (call p s (handle AND INDEX_MASK = 0) (\<lambda>r. retain os r handle))"

definition ntsync_release :: "Platform \<Rightarrow> Os \<Rightarrow> u32 \<Rightarrow> Process \<Rightarrow> (i32 \<times> Process) option" where
  "ntsync_release p os handle s =
     map_option (\<lambda>(res, s1). (case res of Inr _ \<Rightarrow> 0 | Inl (Init e) \<Rightarrow> - e | Inl _ \<Rightarrow> - EINVAL, s1))
       (call p s (handle AND INDEX_MASK = 0) (\<lambda>r. release os r handle))"

definition ntsync_sem_release ::
  "Platform \<Rightarrow> Os \<Rightarrow> u32 \<Rightarrow> u32 option \<Rightarrow> Process \<Rightarrow> ((i32 \<times> u32 option) \<times> Process) option" where
  "ntsync_sem_release p os handle count s =
     (case count of
        None \<Rightarrow> Some ((- EFAULT, count), s)
      | Some n \<Rightarrow> answer Some count (call p s False (\<lambda>r. sem_release os r handle n)))"

definition ntsync_sem_read ::
  "Platform \<Rightarrow> u32 \<Rightarrow> ntsync_sem_args option \<Rightarrow> Process \<Rightarrow> ((i32 \<times> ntsync_sem_args option) \<times> Process) option" where
  "ntsync_sem_read p handle args s =
     (case args of
        None \<Rightarrow> Some ((- EFAULT, args), s)
      | Some _ \<Rightarrow>
          answer (\<lambda>(count, limit). Some \<lparr>sa_count = count, sa_max = limit\<rparr>) args
            (call p s False (\<lambda>r. Some (read_sem r handle, r))))"

definition ntsync_mutex_unlock ::
  "Platform \<Rightarrow> Os \<Rightarrow> u32 \<Rightarrow> ntsync_mutex_args option \<Rightarrow> Process \<Rightarrow> ((i32 \<times> ntsync_mutex_args option) \<times> Process) option" where
  "ntsync_mutex_unlock p os handle args s =
     (case args of
        None \<Rightarrow> Some ((- EFAULT, args), s)
      | Some a \<Rightarrow>
          answer (\<lambda>prev. Some (a\<lparr>ma_count := prev\<rparr>)) args
            (call p s (ma_owner a = 0) (\<lambda>r. mutex_unlock os r handle (ma_owner a))))"

definition ntsync_mutex_kill :: "Platform \<Rightarrow> Os \<Rightarrow> u32 \<Rightarrow> u32 \<Rightarrow> Process \<Rightarrow> (i32 \<times> Process) option" where
  "ntsync_mutex_kill p os handle owner s =
     map_option (\<lambda>(res, s1). (case res of Inr _ \<Rightarrow> 0 | Inl e \<Rightarrow> errno e, s1))
       (call p s (owner = 0) (\<lambda>r. mutex_kill os r handle owner))"

definition ntsync_mutex_read ::
  "Platform \<Rightarrow> u32 \<Rightarrow> ntsync_mutex_args option \<Rightarrow> Process \<Rightarrow> ((i32 \<times> ntsync_mutex_args option) \<times> Process) option" where
  "ntsync_mutex_read p handle args s =
     (case args of
        None \<Rightarrow> Some ((- EFAULT, args), s)
      | Some _ \<Rightarrow>
          map_option (\<lambda>(res, s1).
            (case res of
               Inr (count, owner, ownerdead) \<Rightarrow>
                 (if ownerdead then - EOWNERDEAD else 0, Some \<lparr>ma_owner = owner, ma_count = count\<rparr>)
             | Inl e \<Rightarrow> (errno e, args), s1))
            (call p s False (\<lambda>r. Some (read_mutex r handle, r))))"

text \<open>The three event operations share their shape; the pointer may be null.\<close>

definition event_call ::
  "(Os \<Rightarrow> Region \<Rightarrow> u32 \<Rightarrow> ((Error + u32) \<times> Region) option) \<Rightarrow>
   Platform \<Rightarrow> Os \<Rightarrow> u32 \<Rightarrow> u32 option \<Rightarrow> Process \<Rightarrow> ((i32 \<times> u32 option) \<times> Process) option" where
  "event_call f p os handle prev s =
     answer (\<lambda>x. case prev of None \<Rightarrow> None | Some _ \<Rightarrow> Some x) prev (call p s False (\<lambda>r. f os r handle))"

definition ntsync_event_set where "ntsync_event_set = event_call event_set"
definition ntsync_event_reset where "ntsync_event_reset = event_call event_reset"
definition ntsync_event_pulse where "ntsync_event_pulse = event_call event_pulse"

definition ntsync_event_read ::
  "Platform \<Rightarrow> u32 \<Rightarrow> ntsync_event_args option \<Rightarrow> Process \<Rightarrow> ((i32 \<times> ntsync_event_args option) \<times> Process) option" where
  "ntsync_event_read p handle args s =
     (case args of
        None \<Rightarrow> Some ((- EFAULT, args), s)
      | Some _ \<Rightarrow>
          answer (\<lambda>(manual, signaled). Some \<lparr>ea_manual = of_bool manual, ea_signaled = of_bool signaled\<rparr>) args
            (call p s False (\<lambda>r. Some (read_event r handle, r))))"

subsection \<open>Waiting\<close>

text \<open>
  What a wait observes from outside, gathered: the fast path, the rounds, whether the debug mode
  is on, the time at the start of the wait and the clock that the timeout is converted with.
\<close>

record WaitCall =
  fast_os :: Os
  rounds :: "nat \<Rightarrow> WaitEnv"
  wait_debug :: bool
  wait_start :: nat
  wait_clock :: "bool \<Rightarrow> u64 \<times> u64"

definition core_wait ::
  "Platform \<Rightarrow> WaitCall \<Rightarrow> u32 list \<Rightarrow> u32 \<Rightarrow> nat option \<Rightarrow> bool \<Rightarrow> u32 \<Rightarrow> Thread \<Rightarrow> Process \<Rightarrow>
   ((wait_run \<times> Thread) \<times> Process) option" where
  "core_wait p c handles owner timeout all_objects alert t s =
     (if owner = 0 \<or> handles = [] \<or> MAX_WAIT_COUNT < length handles \<or> \<not> distinct handles
      then Some ((Returned InvalidWait, t), s)
      else with_region p s (\<lambda>_. (Returned InvalidWait, t)) (\<lambda>r.
        map_option (\<lambda>(x, t1, r1). ((x, t1), r1))
          ((if all_objects then wait_all else wait_any)
             (fast_os c) (rounds c) (read_config (env_var p)) (wait_debug c) (wait_start c)
             t r handles owner timeout alert)))"

text \<open>A panic cannot cross the C interface: the process aborts, and there is no code.\<close>

definition do_wait ::
  "Platform \<Rightarrow> WaitCall \<Rightarrow> ntsync_wait_args option \<Rightarrow> bool \<Rightarrow> Thread \<Rightarrow> Process \<Rightarrow>
   (i32 option \<times> ntsync_wait_args option \<times> Thread \<times> Process) option" where
  "do_wait p c args all_objects t s =
     (case args of
        None \<Rightarrow> Some (Some (- EFAULT), args, t, s)
      | Some a \<Rightarrow>
          (case read_wait (wait_clock c) args of
             Inl e \<Rightarrow> Some (Some e, args, t, s)
           | Inr (handles, owner, alert, timeout) \<Rightarrow> do {
               ((run, t1), s1) \<leftarrow> core_wait p c handles owner timeout all_objects alert t s;
               Some (case run of
                 Returned (Signaled index owner_dead) \<Rightarrow>
                   (Some (if owner_dead then - EOWNERDEAD else 0), Some (a\<lparr>wa_index := index\<rparr>), t1, s1)
               | Returned Timeout \<Rightarrow> (Some (- ETIMEDOUT), args, t1, s1)
               | Returned InvalidWait \<Rightarrow> (Some (- EINVAL), args, t1, s1)
               | Panicked \<Rightarrow> (None, args, t1, s1))
             }))"

definition ntsync_wait_any where
  "ntsync_wait_any p c args t s = do_wait p c args False t s"

definition ntsync_wait_all where
  "ntsync_wait_all p c args t s = do_wait p c args True t s"

subsection \<open>Opening on first use\<close>

text \<open>The region that a process has mapped, and a process that has one.\<close>

definition mapped :: "Process \<Rightarrow> nat \<Rightarrow> Region \<Rightarrow> bool" where
  "mapped s i r \<longleftrightarrow> cell s = Some (Inr i) \<and> content (files (fs s) i) = r"

lemma region_mapped: "cell s = Some (Inr i) \<Longrightarrow> region p s = (Inr i, s)"
  by (simp add: region_def init_def)

lemma with_region_mapped:
  assumes "mapped s i r"
  shows "with_region p s fail f = map_option (\<lambda>(a, r'). (a, put_region s i r')) (f r)"
  using assms by (simp add: with_region_def region_mapped mapped_def)

lemma mapped_put_region [simp]: "mapped s i r \<Longrightarrow> mapped (put_region s i r') i r'"
  by (simp add: mapped_def put_region_def)

lemma put_region_sel [simp]:
  "cell (put_region s i r) = cell s" "entries (fs (put_region s i r)) = entries (fs s)"
  "content (files (fs (put_region s i r)) i) = r"
  "file_size (files (fs (put_region s i r)) j) = file_size (files (fs s) j)"
  by (simp_all add: put_region_def)

text \<open>
  \<open>finds p path\<close>: the platform resolves the default path to \<open>path\<close> and its system calls succeed
  undisturbed.
\<close>

definition finds :: "Platform \<Rightarrow> string \<Rightarrow> bool" where
  "finds p path \<longleftrightarrow> resolve_path (env_var p) None = Inr path \<and> CHR 0x00 \<notin> set path \<and> (\<forall>k. calls_ok (sys p k))"

lemma region_first_use:
  assumes p: "finds p path" and s: "cell s = None" and f: "fs_ok (fs s)"
  obtains i f' where "region p s = (Inr i, \<lparr>cell = Some (Inr i), fs = f'\<rparr>)"
    "opened (mutex_size p) (versioned_path path) (fs s) i f'" "fs_ok f'"
proof -
  have c: "\<And>k. calls_ok (sys p k)" "CHR 0x00 \<notin> set path" using p by (auto simp: finds_def)
  obtain i f' where "open_and_map (mutex_size p) (sys p) path (fs s) = (Inr i, f')"
    "opened (mutex_size p) (versioned_path path) (fs s) i f'" "fs_ok f'" by (rule open_and_map_opened [OF c(1) f c(2)])
  with p s that show ?thesis by (cases s) (simp add: region_def init_def finds_def)
qed

lemma with_region_first_use:
  assumes p: "finds p path" and s: "cell s = None"
    and e: "entries (fs s) (versioned_path path) = Some i" "usable (mutex_size p) (files (fs s) i)"
  shows "with_region p s fail f =
    map_option (\<lambda>(a, r). (a, put_region (s\<lparr>cell := Some (Inr i)\<rparr>) i r)) (f (content (files (fs s) i)))"
proof -
  have "open_and_map (mutex_size p) (sys p) path (fs s) = (Inr i, fs s)"
    by (rule open_and_map_usable [OF _ _ e]) (use p in \<open>auto simp: finds_def\<close>)
  with p s show ?thesis by (cases s) (simp add: with_region_def region_def init_def finds_def)
qed

subsection \<open>Properties\<close>

text \<open>
  C10: two processes that resolve to the same path share their objects through the C interface. The
  first call of one process creates the region and a semaphore in it; the other process, which has
  not opened anything yet, releases the semaphore by its handle and is told the count that the
  first one gave it; the first process then reads the sum.
\<close>

theorem shared_semaphore:
  assumes "finds p path" "finds q path" "mutex_size q = mutex_size p"
    and "fs_ok f" "entries f (versioned_path path) = None"
    and "undisturbed os" "undisturbed os'" "c \<le> m" "unat c + unat n \<le> unat m"
  shows "\<exists>h sa sb sc.
    ntsync_create_sem p os (Some out) (Some \<lparr>sa_count = c, sa_max = m\<rparr>) \<lparr>cell = None, fs = f\<rparr> = Some ((0, Some h), sa) \<and>
    ntsync_sem_release q os' h (Some n) \<lparr>cell = None, fs = fs sa\<rparr> = Some ((0, Some c), sb) \<and>
    ntsync_sem_read p h (Some args) \<lparr>cell = cell sa, fs = fs sb\<rparr> =
      Some ((0, Some \<lparr>sa_count = c + n, sa_max = m\<rparr>), sc)"
proof -
  obtain i f' where reg: "region p \<lparr>cell = None, fs = f\<rparr> = (Inr i, \<lparr>cell = Some (Inr i), fs = f'\<rparr>)"
    and o: "opened (mutex_size p) (versioned_path path) f i f'"
    by (rule region_first_use [OF assms(1), of "\<lparr>cell = None, fs = f\<rparr>"]) (use assms(4) in auto)
  have fl: "files f' i = fresh_file (mutex_size p)" "entries f' (versioned_path path) = Some i"
    using o assms(5) by (auto simp: opened_def)
  have free: "\<exists>j<SLOT_COUNT. state (slots fresh_region j) = SLOT_FREE"
    by (rule exI [of _ 1]) (simp add: SLOT_COUNT_def state_consts word_less_nat_alt)
  obtain h r1 where h: "create_object os fresh_region TYPE_SEM (pack_sem c m) = Some (Inr h, r1)"
    "region_rep r1 (\<lambda>_. []) []" and sl: "slot_of_type r1 h TYPE_SEM = Inr (h AND INDEX_MASK)"
    "w0 (slots r1 (h AND INDEX_MASK)) = pack_sem c m"
    by (rule create_object_free [OF assms(6) fresh_region_rep sem_word_ok [OF assms(8)] free])
      (auto simp: slot_of_type_Inr word_less_nat_alt split: if_splits)
  let ?sa = "put_region \<lparr>cell = Some (Inr i), fs = f'\<rparr> i r1"
  have create: "ntsync_create_sem p os (Some out) (Some \<lparr>sa_count = c, sa_max = m\<rparr>) \<lparr>cell = None, fs = f\<rparr> =
      Some ((0, Some h), ?sa)"
    using h(1) reg fl assms(8)
    by (simp add: ntsync_create_sem_def call_def with_region_def create_semaphore_def fresh_file_def answer_def
        reply_def flip: not_le)
  obtain r2 where r2: "sem_release os' r1 h n = Some (Inr c, r2)" "read_sem r2 h = Inr (c + n, m)"
    by (rule sem_release_run [OF assms(7) h(2) sl assms(9)])
  have u: "usable (mutex_size q) (files (fs ?sa) i)"
    using fl region_header [OF h(2)] assms(3) by (simp add: usable_def fresh_file_def)
  let ?sb = "put_region (\<lparr>cell = None, fs = fs ?sa\<rparr>\<lparr>cell := Some (Inr i)\<rparr>) i r2"
  have "ntsync_sem_release q os' h (Some n) \<lparr>cell = None, fs = fs ?sa\<rparr> = Some ((0, Some c), ?sb)"
    using with_region_first_use [OF assms(2), of "\<lparr>cell = None, fs = fs ?sa\<rparr>" i Inl "\<lambda>r. sem_release os' r h n"] fl(2) u r2(1)
    by (simp add: ntsync_sem_release_def call_def answer_def reply_def)
  moreover have "mapped \<lparr>cell = cell ?sa, fs = fs ?sb\<rparr> i r2" by (simp add: mapped_def)
  then have "ntsync_sem_read p h (Some args) \<lparr>cell = cell ?sa, fs = fs ?sb\<rparr> = Some ((0, Some \<lparr>sa_count = c + n, sa_max = m\<rparr>),
      put_region \<lparr>cell = cell ?sa, fs = fs ?sb\<rparr> i r2)"
    using r2(2) by (simp add: ntsync_sem_read_def call_def with_region_mapped answer_def reply_def)
  ultimately show ?thesis using create by blast
qed

text \<open>A platform whose default path is in the directory named by \<^verbatim>\<open>TMPDIR\<close>, and one with an explicit path.\<close>

definition tmp_platform :: "string \<Rightarrow> Platform" where
  "tmp_platform dir = \<lparr>mutex_size = 40, env_var = [''TMPDIR'' \<mapsto> dir], sys = (\<lambda>_. quiet_sys)\<rparr>"

definition shm_platform :: "string \<Rightarrow> Platform" where
  "shm_platform path = \<lparr>mutex_size = 40, env_var = [''NTSYNC_SHM'' \<mapsto> path], sys = (\<lambda>_. quiet_sys)\<rparr>"

theorem shared_semaphore_witness:
  "\<exists>h sa sb sc.
    ntsync_create_sem (tmp_platform ''/t'') (quiet_os 7) (Some 0) (Some \<lparr>sa_count = 2, sa_max = 5\<rparr>)
      \<lparr>cell = None, fs = empty_fs\<rparr> = Some ((0, Some h), sa) \<and>
    ntsync_sem_release (shm_platform ''/t/ntsync_userspace.shm'') (quiet_os 8) h (Some 3)
      \<lparr>cell = None, fs = fs sa\<rparr> = Some ((0, Some 2), sb) \<and>
    ntsync_sem_read (tmp_platform ''/t'') h (Some \<lparr>sa_count = 0, sa_max = 0\<rparr>) \<lparr>cell = cell sa, fs = fs sb\<rparr> =
      Some ((0, Some \<lparr>sa_count = 5, sa_max = 5\<rparr>), sc)"
proof -
  have f: "finds (tmp_platform ''/t'') ''/t/ntsync_userspace.shm''"
    "finds (shm_platform ''/t/ntsync_userspace.shm'') ''/t/ntsync_userspace.shm''"
    by (simp_all add: finds_def tmp_platform_def shm_platform_def resolve_path_def)
  have m: "mutex_size (shm_platform ''/t/ntsync_userspace.shm'') = mutex_size (tmp_platform ''/t'')"
    by (simp add: tmp_platform_def shm_platform_def)
  have e: "entries empty_fs (versioned_path ''/t/ntsync_userspace.shm'') = None" by (simp add: empty_fs_def)
  have c: "(2 :: u32) \<le> 5" "unat (2 :: u32) + unat (3 :: u32) \<le> unat (5 :: u32)" by (simp_all add: word_le_nat_alt)
  from shared_semaphore [OF f m empty_fs_ok(1) e undisturbed_quiet undisturbed_quiet c, of 7 0 8
      "\<lparr>sa_count = 0, sa_max = 0\<rparr>"]
  show ?thesis by simp
qed

end
