(* ===== verification/Wait_Loop.thy ===== *)
theory Wait_Loop
  imports Wait
begin

text \<open>
  The loop of the blocking wait. \<open>waiting_as\<close> is what holds of the region and the waiter's nodes
  between two rounds; other threads may do anything that keeps it (\<open>neighbour\<close>). Proved: every part
  of a round keeps it (the locked section, the spin, the sweeps, the sleep and the detaching), a
  round that ends the wait has given the nodes back, and a wait with a deadline returns.
\<close>

subsection \<open>Between two rounds\<close>

definition waiting_as :: "u32 \<Rightarrow> WaitArgs \<Rightarrow> Region \<Rightarrow> u32 list \<Rightarrow> bool" where
  "waiting_as pid a r ns \<longleftrightarrow> waiting a r ns \<and> (\<forall>x\<in>set ns. node_pid (nodes r x) = pid)"

definition neighbour :: "u32 \<Rightarrow> WaitArgs \<Rightarrow> (Region \<Rightarrow> Region) \<Rightarrow> bool" where
  "neighbour pid a g \<longleftrightarrow> (\<forall>r ns. waiting_as pid a r ns \<longrightarrow> waiting_as pid a (g r) ns)"

text \<open>A round in which the locks are granted, the own process counts as alive and the others are neighbours.\<close>

definition calm :: "u32 \<Rightarrow> WaitArgs \<Rightarrow> WaitEnv \<Rightarrow> bool" where
  "calm pid a env \<longleftrightarrow>
     lock_ret (lock_os env) 0 = 0 \<and> getpid (lock_os env) = pid \<and> neighbour pid a (on_lock (lock_os env)) \<and>
     undisturbed (try_os env) \<and> (\<forall>j. undisturbed (spin_os env j)) \<and>
     undisturbed (sweep_os env) \<and> (\<forall>k. lock_ret (sweep_os env) k = 0) \<and> pid_alive (sweep_os env) pid \<and>
     neighbour pid a (asleep env) \<and> 0 \<le> futex_errno env \<and> undisturbed (detach_os env)"

lemma waiting_lock [simp]:
  "waiting a (lock_mark os r) ns = waiting a r ns" "waiting a (guard_drop r) ns = waiting a r ns"
  by (simp_all add: waiting_def owns_def node_held_def)

lemma waiting_as_lock [simp]:
  "waiting_as pid a (lock_mark os r) ns = waiting_as pid a r ns" "waiting_as pid a (guard_drop r) ns = waiting_as pid a r ns"
  by (simp_all add: waiting_as_def)

lemma ready_waiting: "ready a ns qs r \<Longrightarrow> waiting a r ns"
  unfolding ready_def waiting_def by blast

lemma waiting_ok: "waiting a r ns \<Longrightarrow> region_ok r"
  by (auto simp: waiting_def region_ok_def)

lemma waiting_words:
  assumes "waiting_as pid a r ns" "\<And>Q F. region_rep r Q F \<Longrightarrow> region_rep r' Q F" "words_only r r'"
  shows "waiting_as pid a r' ns"
proof -
  have "nodes r' = nodes r" "header r' = header r" using assms(3) by (auto simp: words_only_def)
  with assms(1,2) owns_cong [OF this] show ?thesis by (fastforce simp: waiting_as_def waiting_def)
qed

lemma waiting_cleanup: "waiting a r ns \<Longrightarrow> region_ok (waiter_cleanup r ns)"
  unfolding waiting_def by (elim exE conjE, erule cleanup_ok) (auto simp: owns_def)

text \<open>
  Signals are neighbours: a wake walk takes nodes off the lists and moves futex words, and leaves
  the nodes to the waiters that hold them.
\<close>

lemma woken_owns:
  assumes R: "region_rep r Q F" and R': "region_rep r' Q' F" and sub: "\<And>i. set (Q' i) \<subseteq> set (Q i)"
    and wk: "woken r0 xs r'" and n: "nodes r0 = nodes r" "core r0 = core r" and o: "owns r F ns hs"
  shows "owns r' F ns hs"
proof -
  have ww: "wait_word (nodes r' y) = wait_word (nodes r y)" for y using wk n by (simp add: woken_def)
  have c: "core r' = core r" using wk n by (simp add: woken_def)
  have "registered (nodes r x) \<noteq> 0 \<and> obj (nodes r' x) = obj (nodes r x)" if "registered (nodes r' x) \<noteq> 0" for x
  proof -
    have "x \<in> set (Q' (obj (nodes r' x)))" using that pool_member [OF region_pool [OF R'], of x] by simp
    then have "x \<in> set (Q (obj (nodes r' x)))" using sub by blast
    then show ?thesis using pool_member [OF region_pool [OF R], of x] by simp
  qed
  with o ww show ?thesis by (auto simp: owns_def node_held_def coreD(2) [OF c])
qed

lemma signal_op_neighbour:
  assumes os: "undisturbed os" and ok: "word_update (word_ok ty) body"
  shows "neighbour pid a (\<lambda>r. snd (the (signal_op os r h ty body)))"
  unfolding neighbour_def
proof (intro allI impI)
  fix r ns assume w: "waiting_as pid a r ns"
  then obtain Q F where R: "region_rep r Q F" and o: "ns = [] \<or> owns r F ns (targets a)"
    by (auto simp: waiting_as_def waiting_def)
  show "waiting_as pid a (snd (the (signal_op os r h ty body))) ns"
  proof (cases "slot_of_type r h ty")
    case (Inr i)
    obtain res wake r1 where at: "atomically body i r = ((res, wake), r1)" by (metis prod.collapse)
    obtain r' where r': "signal_op os r h ty body = Some (res, r')" "region_rep r' (if wake then Q(i := []) else Q) F"
      "woken r1 (if wake then Q i else []) r'" by (rule signal_op_undisturbed [OF os R Inr ok at])
    have n: "nodes r1 = nodes r" "core r1 = core r"
      using at by (auto simp: atomically_def put_word_def core_def split: decision.splits)
    have "ns = [] \<or> owns r' F ns (targets a)"
      using o woken_owns [OF R r'(2) _ r'(3) n] by auto
    with r'(2) have "waiting a r' ns" unfolding waiting_def by blast
    moreover have "\<forall>x. node_pid (nodes r' x) = node_pid (nodes r x)" using r'(3) n by (simp add: woken_def)
    ultimately show ?thesis using w r'(1) by (simp add: waiting_as_def)
  qed (use w in \<open>simp add: signal_op_def\<close>)
qed

text \<open>An undisturbed attempt to acquire changes nothing but object words, whatever the slots are.\<close>

lemma words_only_trans: "words_only r s \<Longrightarrow> words_only s t \<Longrightarrow> words_only r t"
  by (simp add: words_only_def)

lemma try_acquire_words: "undisturbed os \<Longrightarrow> try_acquire os r i me q = Some (got, r') \<Longrightarrow> words_only r r'"
  by (auto simp: try_acquire_undisturbed split: option.splits)

lemma roll_back_words:
  "undisturbed os \<Longrightarrow> roll_back os r all acq me = Some r' \<Longrightarrow> words_only r r'"
  by (induction acq arbitrary: r)
    (auto simp: rollback_acquire_undisturbed undisturbed_def [of os] words_only_def)

lemma try_any_only: "undisturbed os \<Longrightarrow> try_any os r n hs me qs = Some (got, r') \<Longrightarrow> words_only r r'"
proof (induction hs arbitrary: r n)
  case (Cons h hs)
  then show ?case
    by (auto simp: undisturbed_def [of os] split: Option.bind_splits option.splits
        dest!: try_acquire_words [OF Cons.prems(1)] intro: words_only_trans)
qed simp

lemma try_all_only:
  "undisturbed os \<Longrightarrow> try_all os r n hs all me qs acq dead = Some (got, r') \<Longrightarrow> words_only r r'"
proof (induction hs arbitrary: r n acq dead)
  case (Cons h hs)
  then show ?case
    by (auto simp: undisturbed_def [of os] split: Option.bind_splits option.splits
        dest!: try_acquire_words [OF Cons.prems(1)] roll_back_words [OF Cons.prems(1)] intro: words_only_trans)
qed simp

lemma try_satisfy_only:
  "undisturbed os \<Longrightarrow> try_satisfy os r hs me qs wall = Some (got, r') \<Longrightarrow> words_only r r'"
  by (auto simp: try_satisfy_def split: if_splits dest: try_any_only try_all_only)

subsection \<open>The locked section\<close>

lemma alloc_nodes_pid:
  "region_rep r Q F \<Longrightarrow> \<forall>x\<in>set ns. node_held r F x \<and> node_pid (nodes r x) = getpid os \<Longrightarrow>
   alloc_nodes os n r ns = ((ok, ns'), r') \<Longrightarrow> \<forall>x\<in>set ns'. node_pid (nodes r' x) = getpid os"
proof (induction n arbitrary: r F ns)
  case (Suc n)
  show ?case
  proof (cases "node_alloc os r")
    case (Pair got r1)
    show ?thesis
    proof (cases got)
      case None
      then have "r1 = r" using node_alloc_None(2) [OF region_pool [OF Suc.prems(1)], of os] Pair by simp
      with None Pair Suc.prems show ?thesis by auto
    next
      case (Some x)
      note a = Pair [unfolded Some]
      note al = node_alloc_rep [OF region_pool [OF Suc.prems(1)] a]
      have "\<forall>y\<in>set (ns @ [x]). node_held r1 (remove1 x F) y \<and> node_pid (nodes r1 y) = getpid os"
        using Suc.prems(2) al(2,5,6) node_alloc_nodes [OF a] by auto
      from Suc.IH [OF region_rep_alloc [OF Suc.prems(1) a] this] Suc.prems(3) a show ?thesis by simp
    qed
  qed
qed auto

lemma register_all_pid [simp]: "node_pid (nodes (register_all head r ns hs) x) = node_pid (nodes r x)"
  by (induction head r ns hs rule: register_all.induct) (simp_all add: register_if_off_def)

lemma register_all_bare [simp]: "bare (register_all head r ns hs) = bare r"
  by (induction head r ns hs rule: register_all.induct) simp_all

lemma wait_locked_pid:
  assumes a: "args_ok a" and os: "undisturbed (try_os env)" and w: "waiting_as pid a r ns"
    and pid: "getpid (lock_os env) = pid"
    and b: "wait_locked env a r ns qs = Some (Block s rem, ns', qs', r')"
  shows "\<forall>x\<in>set ns'. node_pid (nodes r' x) = pid"
proof -
  obtain ok qs1 where sn: "locked_snapshot r (ns = []) 0 (wait_handles a) qs = (ok, qs1)"
    by (cases "locked_snapshot r (ns = []) 0 (wait_handles a) qs")
  obtain got ns1 r1 where al: "(if ns = [] then alloc_nodes (lock_os env) (length (targets a)) r []
      else ((True, ns), r)) = ((got, ns1), r1)" by (metis prod.collapse)
  have n: "length (wait_handles a) + (if wait_alert a \<noteq> 0 then 1 else 0) = length (targets a)" by simp
  let ?r2 = "register_all (ns1 ! 0) r1 ns1 (targets a)"
  obtain res where t: "try_satisfy (try_os env) ?r2 (wait_handles a) (wait_owner a) qs1 (wait_for_all a) = Some (res, r')"
    and ns': "ns' = ns1" and v: "ok" "alert_ok r (wait_alert a)"
    using b sn al unfolding wait_locked_def
    by (auto simp: Let_def n simp del: length_append split: if_splits Option.bind_splits option.splits)
  from w obtain Q F where R: "region_rep r Q F" by (auto simp: waiting_as_def waiting_def)
  have "\<forall>x\<in>set ns1. node_pid (nodes r1 x) = pid"
    using al w pid alloc_nodes_pid [OF R, of "[]" "lock_os env"] by (auto simp: waiting_as_def split: if_splits)
  moreover have "nodes r' = nodes ?r2" using try_satisfy_only [OF os t] by (simp add: words_only_def)
  ultimately show ?thesis by (simp add: ns')
qed

subsection \<open>The spin\<close>

lemma cleanup_if_locked_waiting:
  assumes "undisturbed os" "waiting a r ns"
  shows "\<exists>r'. cleanup_if_locked os r ns = Some r' \<and> region_ok r'"
proof -
  have "region_ok (waiter_cleanup (lock_mark os r) ns)" using assms(2) by (intro waiting_cleanup) simp
  then show ?thesis by (simp add: cleanup_if_locked_def with_lock_undisturbed [OF assms(1)])
qed

lemma attempt_waiting:
  assumes os: "undisturbed os" and a: "wait_owner a \<noteq> 0" "distinct (map idx (wait_handles a))"
    and w: "waiting_as pid a r ns"
  shows "\<exists>got r'. try_satisfy os r (wait_handles a) (wait_owner a) qs wall = Some (got, r') \<and> waiting_as pid a r' ns"
proof -
  from w obtain Q F where R: "region_rep r Q F" by (auto simp: waiting_as_def waiting_def)
  obtain got r' where t: "try_satisfy os r (wait_handles a) (wait_owner a) qs wall = Some (got, r')"
    using try_satisfy_words [OF os a(1) R a(2)] by blast
  have "region_rep r' Q' F'" if "region_rep r Q' F'" for Q' F'
    using try_satisfy_words [OF os a(1) that a(2), of qs wall] t by auto
  with waiting_words [OF w _ try_satisfy_only [OF os t]] t show ?thesis by blast
qed

definition spin_left :: "u32 \<Rightarrow> WaitArgs \<Rightarrow> u32 list \<Rightarrow> spin_result \<Rightarrow> Region \<Rightarrow> bool" where
  "spin_left pid a ns res r \<longleftrightarrow> (case res of
     SpinOver _ \<Rightarrow> waiting_as pid a r ns
   | SpinReturn x \<Rightarrow> region_ok r \<and> (x = Panicked \<longrightarrow> wait_alert a \<noteq> 0))"

lemma spin_rounds_waiting:
  assumes os: "\<forall>j. undisturbed (spin_os env j)" and a: "wait_owner a \<noteq> 0" "distinct (map idx (wait_handles a))"
  shows "waiting_as pid a r ns \<Longrightarrow>
    \<exists>res r'. spin_rounds env a qs ns j n r = Some (res, r') \<and> spin_left pid a ns res r'"
proof (induction n arbitrary: j r)
  case (Suc n)
  let ?os = "spin_os env j"
  have u: "undisturbed ?os" and id: "on_check ?os = id" using os by (auto simp: undisturbed_def)
  have ok: "region_ok r" using Suc.prems waiting_ok by (auto simp: waiting_as_def)
  obtain r1 where c: "cleanup_if_locked ?os r ns = Some r1" "region_ok r1"
    using cleanup_if_locked_waiting [OF u, of a r ns] Suc.prems by (auto simp: waiting_as_def)
  obtain got r2 where t: "(if spin_peek r a qs
      then try_satisfy ?os r (wait_handles a) (wait_owner a) qs (wait_for_all a) else Some (None, r)) = Some (got, r2)"
    and w: "waiting_as pid a r2 ns"
    using attempt_waiting [OF u a Suc.prems, of qs "wait_for_all a"] Suc.prems
    by (cases "spin_peek r a qs") auto
  obtain r3 where c2: "cleanup_if_locked ?os r2 ns = Some r3" "region_ok r3"
    using cleanup_if_locked_waiting [OF u, of a r2 ns] w by (auto simp: waiting_as_def)
  obtain res r4 where l: "spin_rounds env a qs ns (Suc j) n r2 = Some (res, r4)" "spin_left pid a ns res r4"
    using Suc.IH [OF w] by blast
  consider "wait_alert a \<noteq> 0 \<and> slot r (wait_alert a) = None"
    | "\<not> (wait_alert a \<noteq> 0 \<and> slot r (wait_alert a) = None)" "alert_signaled r (wait_alert a)"
    | "\<not> (wait_alert a \<noteq> 0 \<and> slot r (wait_alert a) = None)" "\<not> alert_signaled r (wait_alert a)" by blast
  then show ?case
  proof cases
    case 1
    with ok show ?thesis by (simp add: id Let_def spin_left_def)
  next
    case 2
    with c have "spin_rounds env a qs ns j (Suc n) r = Some (SpinReturn (Returned (alert_outcome a)), r1)"
      by (simp only: spin_rounds.simps id Let_def id_apply if_True if_False bind.simps)
    with c(2) show ?thesis by (simp del: spin_rounds.simps add: spin_left_def)
  next
    case 3
    then have e: "spin_rounds env a qs ns j (Suc n) r = (case got of
        Some outcome \<Rightarrow> Some (SpinReturn (Returned outcome), r3)
      | None \<Rightarrow> if registered (nodes r2 (ns ! 0)) = 0 then Some (SpinOver Neutral, r2)
               else spin_rounds env a qs ns (Suc j) n r2)"
      using c2(1) by (cases got) (simp_all only: spin_rounds.simps id Let_def id_apply t if_True if_False
          bind.simps prod.case option.case)
    show ?thesis
      using e c2(2) w l by (cases got) (auto simp del: spin_rounds.simps simp: spin_left_def)
  qed
qed (simp add: spin_left_def)

lemma wait_spin_waiting:
  assumes os: "\<forall>j. undisturbed (spin_os env j)" and a: "wait_owner a \<noteq> 0" "distinct (map idx (wait_handles a))"
    and w: "waiting_as pid a r ns"
  shows "\<exists>won t' r'. wait_spin env cfg a qs ns t r = Some (won, t', r') \<and>
    (if won = None then waiting_as pid a r' ns
     else region_ok r' \<and> (won = Some Panicked \<longrightarrow> wait_alert a \<noteq> 0))"
proof -
  obtain spin t1 where b: "spin_budget (cfg_spin_max cfg) t = (spin, t1)" by (cases "spin_budget (cfg_spin_max cfg) t")
  obtain res r' where "spin_rounds env a qs ns 0 (unat spin) r = Some (res, r')" "spin_left pid a ns res r'"
    using spin_rounds_waiting [OF os a w] by blast
  with b w show ?thesis
    by (auto simp: wait_spin_def spin_left_def split: spin_result.splits wait_run.splits)
qed

subsection \<open>The sweep\<close>

text \<open>A sweep spares the nodes of a live waiter: it detaches them at most, where their object is dead.\<close>

lemma swept_owns:
  assumes R: "region_rep r Q F" and sw: "swept os r Q UNIV UNIV n r'" and o: "owns r F ns hs"
    and alive: "\<forall>x\<in>set ns. pid_alive os (node_pid (nodes r x))"
  obtains Q' F' where "region_rep r' Q' F'" "owns r' F' ns hs"
proof -
  obtain F' where R': "region_rep r' (lists_left os r Q UNIV UNIV) F'"
    and ww: "\<forall>x. wait_word (nodes r' x) = wait_word (nodes r x)"
    and hd: "\<forall>x. held r x \<and> \<not> dead_node os (nodes r x) \<longrightarrow> held r' x"
    using sw by (rule sweptD)
  have "node_held r' F' x" if "x \<in> set ns" for x
    using that o alive hd held_iff [OF region_pool [OF R]] held_iff [OF region_pool [OF R']]
    by (auto simp: owns_def dead_node_def)
  moreover have "registered (nodes r x) \<noteq> 0 \<and> obj (nodes r' x) = obj (nodes r x)" if "registered (nodes r' x) \<noteq> 0" for x
  proof -
    have "x \<in> set (lists_left os r Q UNIV UNIV (obj (nodes r' x)))"
      using that pool_member [OF region_pool [OF R'], of x] by simp
    then have "x \<in> set (Q (obj (nodes r' x)))" by (auto simp: lists_left_def split: if_splits)
    then show ?thesis using pool_member [OF region_pool [OF R], of x] by simp
  qed
  ultimately have "owns r' F' ns hs" using o ww by (auto simp: owns_def)
  with R' that show ?thesis by blast
qed

lemma auto_sweep_swept:
  assumes os: "undisturbed os" "\<forall>k. lock_ret os k = 0" and R: "region_rep r Q F"
  obtains calls' r' where "auto_sweep_dead os calls interval r = Some (calls', r')"
    "r' = r \<or> r' = guard_drop (lock_mark os r) \<or>
     (\<exists>t n. swept os (upd_header (lock_mark os r) (\<lambda>h. h\<lparr>sweep_ns := t\<rparr>)) Q UNIV UNIV n r')"
proof -
  let ?s = "upd_header (lock_mark os r) (\<lambda>h. h\<lparr>sweep_ns := locked_clock_ns os\<rparr>)"
  have Rs: "region_rep ?s Q F" using R by (intro region_rep_stamp) simp
  have "swept_to os ?s Q (new_scan ?s) 0 ?s" using swept_start [OF Rs] by (simp add: new_scan_def Let_def)
  from auto_sweep_loop_swept [OF Rs _ os(2) this new_cache_ok, of 0] os(1)
  obtain n r' sc where l: "auto_sweep_loop os 0 ?s (new_scan ?s) new_cache 0 = Some (n, r')" and d: "scan_done sc"
    "node_hi sc = node_hi (new_scan ?s)" "slot_hi sc = slot_hi (new_scan ?s)" and sw: "swept_to os ?s Q sc n r'"
    unfolding undisturbed_def by blast
  have "swept os ?s Q UNIV UNIV n r'" by (rule swept_everything [OF Rs d sw])
  moreover have "on_lock os r = r" "lock_guard os 0 r = Some (Inr (lock_mark os r))"
    using os by (simp_all add: undisturbed_def lock_guard_ok)
  ultimately have sw: "swept os ?s Q UNIV UNIV n r'" and lk: "on_lock os r = r"
    "lock_guard os 0 r = Some (Inr (lock_mark os r))" by blast+
  let ?early = "calls AND 0xFF \<noteq> 0 \<or> interval = 0 \<or> saturating_sub (clock_ns os) (sweep_ns (header r)) < interval"
  let ?late = "saturating_sub (locked_clock_ns os) (sweep_ns (header r)) < interval"
  have "auto_sweep_dead os calls interval r =
      Some (calls + 1, if ?early then r else if ?late then guard_drop (lock_mark os r) else r')"
    using l lk by (auto simp: auto_sweep_dead_def Let_def)
  moreover have "(if ?early then r else if ?late then guard_drop (lock_mark os r) else r') \<in>
      {r, guard_drop (lock_mark os r), r'}" by auto
  ultimately show ?thesis using sw by (elim insertE) (rule that, assumption, simp, blast?)+
qed

lemma wait_sweep_waiting:
  assumes os: "undisturbed os" "\<forall>k. lock_ret os k = 0" "pid_alive os pid" and w: "waiting_as pid a r ns"
  shows "\<exists>t' r'. wait_sweep os cfg t r = Some (t', r') \<and> waiting_as pid a r' ns"
proof -
  from w obtain Q F where R: "region_rep r Q F" and o: "ns = [] \<or> owns r F ns (targets a)"
    and p: "\<forall>x\<in>set ns. node_pid (nodes r x) = pid" by (auto simp: waiting_as_def waiting_def)
  obtain calls' r' where s: "auto_sweep_dead os (sweep_calls t) (cfg_sweep_interval cfg) r = Some (calls', r')"
    and c: "r' = r \<or> r' = guard_drop (lock_mark os r) \<or>
     (\<exists>t n. swept os (upd_header (lock_mark os r) (\<lambda>h. h\<lparr>sweep_ns := t\<rparr>)) Q UNIV UNIV n r')"
    by (rule auto_sweep_swept [OF os(1,2) R])
  have "waiting_as pid a r' ns" if sw: "swept os (upd_header (lock_mark os r) (\<lambda>h. h\<lparr>sweep_ns := u\<rparr>)) Q UNIV UNIV n r'" for u n
  proof -
    let ?s = "upd_header (lock_mark os r) (\<lambda>h. h\<lparr>sweep_ns := u\<rparr>)"
    have Rs: "region_rep ?s Q F" using R by (intro region_rep_stamp) simp
    have "\<forall>x\<in>set ns. node_pid (nodes r' x) = pid" using sw p by (simp add: swept_def)
    moreover have "waiting a r' ns"
    proof (cases "ns = []")
      case True
      from sw show ?thesis unfolding waiting_def swept_def using True by blast
    next
      case False
      then have "owns ?s F ns (targets a)" using o by (auto simp: owns_def node_held_def)
      then obtain Q' F' where "region_rep r' Q' F'" "owns r' F' ns (targets a)"
        by (rule swept_owns [OF Rs sw]) (use p os(3) in simp)
      then show ?thesis unfolding waiting_def by blast
    qed
    ultimately show ?thesis by (simp add: waiting_as_def)
  qed
  with s c w show ?thesis by (auto simp: wait_sweep_def)
qed

subsection \<open>The sleep\<close>

text \<open>The error of the system call is returned negated, so neither branch that names an error is ever taken.\<close>

lemma futex_wait_no_error: "0 \<le> err \<Longrightarrow> futex_wait err \<noteq> EAGAIN \<and> futex_wait err \<noteq> ETIMEDOUT"
  by (simp add: futex_wait_def errno_consts)

lemma fold_detach_nodes [simp]:
  "registered (nodes (fold (\<lambda>i r. node_detach r i) ns r) x) = (if x \<in> set ns then 0 else registered (nodes r x))"
  "node_pid (nodes (fold (\<lambda>i r. node_detach r i) ns r) x) = node_pid (nodes r x)"
  by (induction ns arbitrary: r) auto

lemma region_rep_detach_all:
  assumes R: "region_rep r Q F"
  shows "region_rep (fold (\<lambda>i r. node_detach r i) ns r) (\<lambda>i. filter (\<lambda>y. y \<notin> set ns) (Q i)) F"
proof -
  let ?r = "fold (\<lambda>i r. node_detach r i) ns r"
  let ?Q = "\<lambda>i. filter (\<lambda>y. y \<notin> set ns) (Q i)"
  have P: "pool_rep ?r ?Q F" using pool.detach_all_rep [OF region_pool [OF R], of ns] by (simp add: pool.detach_all_def)
  have q: "state (slots r i) = SLOT_USED" if "?Q i \<noteq> []" for i
    using that region_queued [OF R, of i] by (cases "Q i") auto
  have b: "bare ?r = bare r" by simp
  show ?thesis
    by (rule region_rep_frame [OF R P q]) (use region_word [OF R] in \<open>simp_all add: bareD [OF b]\<close>)
qed

lemma detach_waiting:
  assumes os: "undisturbed os" and w: "waiting_as pid a r ns"
  shows "\<exists>r'. detach_registered os r ns = Some r' \<and> waiting_as pid a r' ns"
proof (cases "list_ex (\<lambda>i. registered (nodes r i) \<noteq> 0) ns")
  case True
  from w obtain Q F where R: "region_rep (lock_mark os r) Q F" and o: "ns = [] \<or> owns r F ns (targets a)"
    by (auto simp: waiting_as_def waiting_def)
  let ?r = "fold (\<lambda>i r. node_detach r i) ns (lock_mark os r)"
  have "region_rep ?r (\<lambda>i. filter (\<lambda>y. y \<notin> set ns) (Q i)) F" by (rule region_rep_detach_all [OF R])
  moreover have "ns = [] \<or> owns ?r F ns (targets a)" using o by (auto simp: owns_def node_held_def)
  ultimately have "waiting a ?r ns" unfolding waiting_def by blast
  with True w show ?thesis
    by (simp add: detach_registered_def with_lock_undisturbed [OF os] waiting_as_def)
qed (use w in \<open>simp add: detach_registered_def\<close>)

lemma wait_sleep_waiting:
  assumes g: "neighbour pid a (asleep env)" "0 \<le> futex_errno env" "undisturbed (detach_os env)"
    and w: "waiting_as pid a r ns"
  shows "\<exists>t' r'. wait_sleep env cfg ns remaining debug t r = Some (t', r') \<and> waiting_as pid a r' ns"
proof -
  have s: "waiting_as pid a (asleep env r) ns" using g(1) w by (simp add: neighbour_def)
  obtain r' where d: "detach_registered (detach_os env) (asleep env r) ns = Some r'" "waiting_as pid a r' ns"
    using detach_waiting [OF g(3) s] by blast
  obtain step t1 where st: "spin_tail_step cfg (tail_clock env) (wait_slice debug remaining) t = (step, t1)"
    by (cases "spin_tail_step cfg (tail_clock env) (wait_slice debug remaining) t")
  show ?thesis
  proof (cases step)
    case SpinTail
    with st s show ?thesis by (simp add: wait_sleep_def)
  next
    case (Park park)
    with st d futex_wait_no_error [OF g(2)] show ?thesis by (auto simp: wait_sleep_def Let_def)
  qed
qed

subsection \<open>A round, and the loop\<close>

lemma ready_distinct:
  assumes "args_ok a" "ready a ns qs r"
  shows "distinct (map idx (wait_handles a))"
proof -
  have "\<forall>h\<in>set (wait_handles a). \<exists>i. slot r h = Some i" using assms(2) by (simp add: ready_def)
  with assms(1) show ?thesis by (intro distinct_idx) (auto simp: args_ok_def)
qed

lemma wait_round_calm:
  assumes a: "args_ok a" and c: "calm pid a env" and w: "waiting_as pid a (ws_region st) (ws_nodes st)"
  shows "\<exists>res st'. wait_round env cfg debug a st = Some (res, st') \<and>
    (case res of
       Some x \<Rightarrow> region_ok (ws_region st') \<and> (x = Panicked \<longrightarrow> wait_alert a \<noteq> 0)
     | None \<Rightarrow> waiting_as pid a (ws_region st') (ws_nodes st') \<and>
         (\<forall>dl. wait_deadline a = Some dl \<longrightarrow> now_ns env < dl))"
proof -
  let ?os = "lock_os env"
  let ?r = "on_lock ?os (ws_region st)"
  have w0: "waiting_as pid a (lock_mark ?os ?r) (ws_nodes st)"
    using c w by (simp add: calm_def neighbour_def)
  have lk: "lock_guard ?os 0 ?r = Some (Inr (lock_mark ?os ?r))" using c by (simp add: calm_def lock_guard_ok)
  have ut: "undisturbed (try_os env)" and pid: "getpid ?os = pid" using c by (simp_all add: calm_def)
  have wt: "waiting a (lock_mark ?os ?r) (ws_nodes st)" using w0 by (simp add: waiting_as_def)
  obtain step ns' qs' r' where
    b: "wait_locked env a (lock_mark ?os ?r) (ws_nodes st) (ws_seqs st) = Some (step, ns', qs', r')"
    and ret: "\<And>out. step = Return out \<Longrightarrow> ns' = [] \<and> region_ok r'"
    and blk: "\<And>s rem. step = Block s rem \<Longrightarrow> ready a ns' qs' r' \<and> s = seq (nodes r' (ns' ! 0)) \<and>
       rem = map_option (\<lambda>dl. dl - now_ns env) (wait_deadline a) \<and> (\<forall>dl. wait_deadline a = Some dl \<longrightarrow> now_ns env < dl)"
    by (rule wait_locked_rep [OF a ut wt, where qs = "ws_seqs st"]) blast
  show ?thesis
  proof (cases step)
    case (Return out)
    with ret have "region_ok r'" by blast
    with Return b lk show ?thesis by (simp add: wait_round_def Let_def)
  next
    case (Block s rem)
    note rd = blk [OF Block, THEN conjunct1] and dl = blk [OF Block, THEN conjunct2, THEN conjunct2, THEN conjunct2]
    have w1: "waiting_as pid a (guard_drop r') ns'"
      using ready_waiting [OF rd] wait_locked_pid [OF a ut w0 pid b [unfolded Block]] by (simp add: waiting_as_def)
    obtain won t1 r1 where sp: "wait_spin env cfg a qs' ns' (ws_thread st) (guard_drop r') = Some (won, t1, r1)"
      and spd: "if won = None then waiting_as pid a r1 ns'
        else region_ok r1 \<and> (won = Some Panicked \<longrightarrow> wait_alert a \<noteq> 0)"
      using wait_spin_waiting [OF _ _ ready_distinct [OF a rd] w1, of env cfg qs' "ws_thread st"] a c
      by (auto simp: args_ok_def calm_def)
    show ?thesis
    proof (cases won)
      case (Some x)
      with Block b lk sp spd show ?thesis by (simp add: wait_round_def Let_def)
    next
      case None
      with spd have "waiting_as pid a r1 ns'" by simp
      with c obtain t2 r2 where sw: "wait_sweep (sweep_os env) cfg t1 r1 = Some (t2, r2)" "waiting_as pid a r2 ns'"
        using wait_sweep_waiting [of "sweep_os env" pid a r1 ns' cfg t1] by (auto simp: calm_def)
      with c obtain t3 r3 where "wait_sleep env cfg ns' rem debug t2 r2 = Some (t3, r3)" "waiting_as pid a r3 ns'"
        using wait_sleep_waiting [of pid a env r2 ns' cfg rem debug t2] by (auto simp: calm_def)
      with None Block b lk sp sw dl show ?thesis by (simp add: wait_round_def Let_def)
    qed
  qed
qed

lemma wait_loop_calm:
  assumes a: "args_ok a" and c: "\<forall>j. calm pid a (envs j)" and dl: "wait_deadline a = Some d"
    and late: "d \<le> now_ns (envs (k + m))"
  shows "waiting_as pid a (ws_region st) (ws_nodes st) \<Longrightarrow>
    \<exists>x st'. wait_loop envs k cfg debug a st = Some (x, st') \<and> region_ok (ws_region st') \<and>
      (x = Panicked \<longrightarrow> wait_alert a \<noteq> 0)"
  using late
proof (induction m arbitrary: k st)
  case 0
  obtain res st1 where rd: "wait_round (envs k) cfg debug a st = Some (res, st1)"
    and p: "case res of
       Some x \<Rightarrow> region_ok (ws_region st1) \<and> (x = Panicked \<longrightarrow> wait_alert a \<noteq> 0)
     | None \<Rightarrow> waiting_as pid a (ws_region st1) (ws_nodes st1) \<and>
         (\<forall>dl. wait_deadline a = Some dl \<longrightarrow> now_ns (envs k) < dl)"
    using wait_round_calm [OF a c [rule_format] "0.prems"(1)] by blast
  then show ?case using 0 dl by (subst wait_loop.simps) (auto split: option.splits)
next
  case (Suc m)
  obtain res st1 where rd: "wait_round (envs k) cfg debug a st = Some (res, st1)"
    and p: "case res of
       Some x \<Rightarrow> region_ok (ws_region st1) \<and> (x = Panicked \<longrightarrow> wait_alert a \<noteq> 0)
     | None \<Rightarrow> waiting_as pid a (ws_region st1) (ws_nodes st1) \<and>
         (\<forall>dl. wait_deadline a = Some dl \<longrightarrow> now_ns (envs k) < dl)"
    using wait_round_calm [OF a c [rule_format] Suc.prems(1)] by blast
  show ?case
  proof (cases res)
    case None
    with p obtain x st' where "wait_loop envs (Suc k) cfg debug a st1 = Some (x, st')"
      "region_ok (ws_region st')" "x = Panicked \<longrightarrow> wait_alert a \<noteq> 0"
      using Suc.IH [of st1 "Suc k"] Suc.prems(2) by auto
    with rd None show ?thesis by (subst wait_loop.simps) simp
  qed (use rd p in \<open>subst wait_loop.simps, simp\<close>)
qed

text \<open>Without a deadline the loop may go on for ever; when it returns, the region is well formed.\<close>

lemma wait_loop_ok:
  assumes "wait_loop envs k cfg debug a st = Some y"
  shows "args_ok a \<and> (\<forall>j. calm pid a (envs j)) \<and> waiting_as pid a (ws_region st) (ws_nodes st) \<longrightarrow>
    region_ok (ws_region (snd y))"
proof (rule wait_loop.raw_induct [OF _ assms], intro impI, elim conjE)
  fix loop envs k cfg debug a st y
  assume IH: "\<And>envs k cfg debug a st y. loop envs k cfg debug a st = Some y \<Longrightarrow>
      args_ok a \<and> (\<forall>j. calm pid a (envs j)) \<and> waiting_as pid a (ws_region st) (ws_nodes st) \<longrightarrow>
      region_ok (ws_region (snd y))"
    and l: "do {
      (res, st1) \<leftarrow> wait_round (envs k) cfg debug a st;
      case res of Some x \<Rightarrow> Some (x, st1) | None \<Rightarrow> loop envs (Suc k) cfg debug a st1 } = Some y"
    and a: "args_ok a" and c: "\<forall>j. calm pid a (envs j)" and w: "waiting_as pid a (ws_region st) (ws_nodes st)"
  obtain res st1 where rd: "wait_round (envs k) cfg debug a st = Some (res, st1)"
    and p: "case res of
       Some x \<Rightarrow> region_ok (ws_region st1) \<and> (x = Panicked \<longrightarrow> wait_alert a \<noteq> 0)
     | None \<Rightarrow> waiting_as pid a (ws_region st1) (ws_nodes st1) \<and>
         (\<forall>dl. wait_deadline a = Some dl \<longrightarrow> now_ns (envs k) < dl)"
    using wait_round_calm [OF a c [rule_format] w] by blast
  show "region_ok (ws_region (snd y))"
  proof (cases res)
    case None
    with l rd have "loop envs (Suc k) cfg debug a st1 = Some y" by simp
    from IH [OF this] a c p None show ?thesis by simp
  qed (use l rd p in auto)
qed

subsection \<open>The fast path\<close>

lemma fast_snapshot_ok:
  "fast_snapshot r k hs qs = (True, qs') \<Longrightarrow> \<forall>h\<in>set hs. \<exists>i. slot r h = Some i"
proof (induction r k hs qs rule: fast_snapshot.induct)
  case (2 r k h hs qs)
  from "2.prems" obtain i where "slot r h = Some i" "waitable (obj_type (slots r i))"
    by (auto simp: Let_def split: option.splits if_splits)
  with 2 show ?case by (auto simp: Let_def split: if_splits)
qed simp

text \<open>The fast path decides nothing, or returns; the region stays well formed.\<close>

lemma wait_fast_returns:
  assumes os: "undisturbed os" and a: "args_ok a" and ok: "region_ok r"
  obtains fast qs r1 where "wait_fast os r a zero = Some (fast, qs, r1)" "region_ok r1" "fast \<noteq> Some Panicked"
proof -
  have id: "on_check os r = r" using os by (simp add: undisturbed_def)
  obtain valid qs where f: "fast_snapshot r 0 (wait_handles a) (replicate MAX_WAIT_COUNT 0) = (valid, qs)"
    by (cases "fast_snapshot r 0 (wait_handles a) (replicate MAX_WAIT_COUNT 0)")
  show ?thesis
  proof (cases "valid \<and> alert_ok r (wait_alert a)")
    case False
    with f id ok show ?thesis by (intro that [of None qs r]) (auto simp: wait_fast_def)
  next
    case True
    have live: "\<not> (wait_alert a \<noteq> 0 \<and> slot r (wait_alert a) = None)" using True alert_ok_slot [of r "wait_alert a"] by auto
    have d: "distinct (map idx (wait_handles a))"
      using True f a fast_snapshot_ok [of r 0 "wait_handles a"] by (intro distinct_idx [of _ r]) (auto simp: args_ok_def)
    from ok obtain Q F where R: "region_rep r Q F" by (auto simp: region_ok_def)
    obtain got r2 where t: "try_satisfy os r (wait_handles a) (wait_owner a) qs (wait_for_all a) = Some (got, r2)"
      "region_rep r2 Q F"
      using try_satisfy_words [OF os _ R d, of "wait_owner a" qs "wait_for_all a"] a by (auto simp: args_ok_def)
    let ?ret = "if alert_signaled r (wait_alert a) then (Some (Returned (alert_outcome a)), qs, r)
      else (case got of Some x \<Rightarrow> Some (Returned x) | None \<Rightarrow> if zero then Some (Returned Timeout) else None, qs, r2)"
    have e: "wait_fast os r a zero = Some ?ret"
      using f True live t(1) id by (auto simp: wait_fast_def Let_def split: option.split)
    have "region_ok r2" using t(2) unfolding region_ok_def by blast
    with ok e show ?thesis
      by (cases "alert_signaled r (wait_alert a)"; cases got) (auto intro!: that split: if_splits)
  qed
qed

lemma wait_ok:
  assumes ok: "region_ok r" and os: "undisturbed os" and c: "\<forall>a j. calm pid a (envs j)"
    and w: "wait os envs cfg debug start t r hs owner timeout wall alert = Some (x, t', r')"
  shows "region_ok r'"
proof (cases "owner = 0 \<or> hs = [] \<or> MAX_WAIT_COUNT < length hs \<or> \<not> distinct hs")
  case True
  then have "r' = r" using w by (cases "owner = 0 \<or> hs = [] \<or> MAX_WAIT_COUNT < length hs") (simp_all add: wait_def)
  with ok show ?thesis by simp
next
  case False
  let ?a = "\<lparr>wait_handles = hs, wait_owner = owner, wait_deadline = map_option (\<lambda>d. start + d) timeout,
    wait_for_all = wall, wait_alert = alert\<rparr>"
  have a: "args_ok ?a" using False by (simp add: args_ok_def)
  obtain fast qs r1 where f: "wait_fast os r ?a (timeout = Some 0) = Some (fast, qs, r1)" "region_ok r1"
    by (rule wait_fast_returns [OF os a ok])
  let ?st = "\<lparr>ws_region = r1, ws_thread = t, ws_nodes = [], ws_seqs = qs\<rparr>"
  show ?thesis
  proof (cases fast)
    case None
    with w f(1) False obtain st where l: "wait_loop envs 0 cfg debug ?a ?st = Some (x, st)" "r' = ws_region st"
      by (auto simp: wait_def Let_def split: Option.bind_splits)
    have "waiting_as pid ?a (ws_region ?st) (ws_nodes ?st)"
      using f(2) by (auto simp: waiting_as_def waiting_def region_ok_def)
    with wait_loop_ok [OF l(1), of pid] a c l(2) show ?thesis by simp
  qed (use w f False in \<open>auto simp: wait_def Let_def\<close>)
qed

subsection \<open>Waits that need not sleep\<close>

definition waitable_handles :: "Region \<Rightarrow> u32 list \<Rightarrow> bool" where
  "waitable_handles r hs \<longleftrightarrow> (\<forall>h\<in>set hs. \<exists>i. slot r h = Some i \<and> waitable (obj_type (slots r i)))"

lemma fast_snapshot_nth:
  "waitable_handles r hs \<Longrightarrow> k + length hs \<le> length qs \<Longrightarrow>
   \<exists>qs'. fast_snapshot r k hs qs = (True, qs') \<and> length qs' = length qs \<and> take k qs' = take k qs \<and>
     (\<forall>j<length hs. qs' ! (k + j) =
        (if obj_type (slots r (idx (hs ! j))) = TYPE_EVENT then pulse_seq (slots r (idx (hs ! j))) else 0))"
proof (induction hs arbitrary: k qs)
  case (Cons h hs)
  from Cons.prems(1) have h: "slot r h = Some (idx h)" "waitable (obj_type (slots r (idx h)))"
    by (auto simp: waitable_handles_def slot_Some_iff)
  let ?q = "if obj_type (slots r (idx h)) = TYPE_EVENT then pulse_seq (slots r (idx h)) else 0"
  obtain qs' where q: "fast_snapshot r (Suc k) hs (qs[k := ?q]) = (True, qs')" "length qs' = length qs"
    "take (Suc k) qs' = take (Suc k) (qs[k := ?q])"
    "\<forall>j<length hs. qs' ! (Suc k + j) =
      (if obj_type (slots r (idx (hs ! j))) = TYPE_EVENT then pulse_seq (slots r (idx (hs ! j))) else 0)"
    using Cons.IH [of "Suc k" "qs[k := ?q]"] Cons.prems by (auto simp: waitable_handles_def)
  have k: "k < length qs" using Cons.prems(2) by simp
  have "qs' ! k = take (Suc k) qs' ! k" by simp
  then have at: "qs' ! k = ?q" using k by (simp add: q(3))
  have "take k qs' = take k (take (Suc k) qs')" by (simp add: min_def)
  then have "take k qs' = take k qs" by (simp add: q(3) min_def)
  moreover have "qs' ! (k + j) = (if obj_type (slots r (idx ((h # hs) ! j))) = TYPE_EVENT
      then pulse_seq (slots r (idx ((h # hs) ! j))) else 0)" if "j < length (h # hs)" for j
    using that q(4) at by (cases j) auto
  ultimately show ?case using h q(1,2) by (simp add: Let_def)
qed simp

lemma wait_satisfied_steady:
  "obj_type s \<noteq> TYPE_EVENT \<Longrightarrow> wait_satisfied s me q = wait_satisfied s me q'"
  by (auto simp: wait_satisfied_def abs_object_def nt_wait_def abs_sem_def abs_mutex_def split: option.split)

text \<open>Satisfied now: what the wait finds, with the pulse counters as they are.\<close>

abbreviation satisfied_now :: "Region \<Rightarrow> u32 \<Rightarrow> u32 \<Rightarrow> (bool \<times> nt_object) option" where
  "satisfied_now r me h \<equiv> wait_satisfied (slots r (idx h)) me (pulse_seq (slots r (idx h)))"

text \<open>Such a wait is one attempt to acquire, with the pulse counters of the moment.\<close>

lemma wait_at_once:
  assumes os: "undisturbed os" and a: "owner \<noteq> 0" "hs \<noteq> []" "length hs \<le> MAX_WAIT_COUNT" "distinct hs"
    and v: "waitable_handles r hs" "alert_ok r alert" "\<not> alert_signaled r alert"
  obtains qs where "\<forall>k<length hs. obj_type (slots r (idx (hs ! k))) = TYPE_EVENT \<longrightarrow> pulse_seq (slots r (idx (hs ! k))) = qs ! k"
    "\<forall>k<length hs. wait_satisfied (slots r (idx (hs ! k))) owner (qs ! k) = satisfied_now r owner (hs ! k)"
    "\<And>x r'. try_satisfy os r hs owner qs wall = Some (Some x, r') \<Longrightarrow>
      wait os envs cfg debug start t r hs owner timeout wall alert = Some (Returned x, t, r')"
    "\<And>r'. try_satisfy os r hs owner qs wall = Some (None, r') \<Longrightarrow>
      wait os envs cfg debug start t r hs owner (Some 0) wall alert = Some (Returned Timeout, t, r')"
proof -
  obtain qs where q: "fast_snapshot r 0 hs (replicate MAX_WAIT_COUNT 0) = (True, qs)"
    "\<forall>j<length hs. qs ! j = (if obj_type (slots r (idx (hs ! j))) = TYPE_EVENT then pulse_seq (slots r (idx (hs ! j))) else 0)"
    using fast_snapshot_nth [OF v(1), of 0 "replicate MAX_WAIT_COUNT 0"] a(3) by auto
  have id: "on_check os r = r" using os by (simp add: undisturbed_def)
  have live: "\<not> (alert \<noteq> 0 \<and> slot r alert = None)" using v(2) alert_ok_slot [of r alert] by auto
  have f: "wait_fast os r \<lparr>wait_handles = hs, wait_owner = owner, wait_deadline = dl, wait_for_all = wall, wait_alert = alert\<rparr> zero =
      Option.bind (try_satisfy os r hs owner qs wall) (\<lambda>(got, r2). case got of
          Some outcome \<Rightarrow> Some (Some (Returned outcome), qs, r2)
        | None \<Rightarrow> Some (if zero then Some (Returned Timeout) else None, qs, r2))" for dl zero
    using q(1) v(2,3) live id by (cases zero) (auto simp: wait_fast_def Let_def)
  show ?thesis
  proof (rule that [of qs])
    show "\<forall>k<length hs. wait_satisfied (slots r (idx (hs ! k))) owner (qs ! k) = satisfied_now r owner (hs ! k)"
    proof (intro allI impI)
      fix k assume "k < length hs"
      with q(2) show "wait_satisfied (slots r (idx (hs ! k))) owner (qs ! k) = satisfied_now r owner (hs ! k)"
        by (cases "obj_type (slots r (idx (hs ! k))) = TYPE_EVENT") (auto intro: wait_satisfied_steady)
    qed
  qed (use a q(2) in \<open>auto simp: wait_def Let_def f\<close>)
qed

text \<open>Satisfied waits return at once, whatever their timeout, and change nothing but object words.\<close>

lemma wait_all_granted:
  assumes os: "undisturbed os" and R: "region_rep r Q F" and a: "owner \<noteq> 0" "hs \<noteq> []" "length hs \<le> MAX_WAIT_COUNT" "distinct hs"
    and v: "waitable_handles r hs" "alert_ok r alert" "\<not> alert_signaled r alert"
    and sat: "\<forall>h\<in>set hs. satisfied_now r owner h \<noteq> None"
  obtains r' od ob where "wait os envs cfg debug start t r hs owner timeout True alert =
      Some (Returned (Signaled 0 (\<exists>k<length hs. od k)), t, r')"
    "\<forall>k<length hs. satisfied_now r owner (hs ! k) = Some (od k, ob k) \<and> abs_object (slots r' (idx (hs ! k))) = Some (ob k)"
    "\<forall>i. i \<notin> idx ` set hs \<longrightarrow> slots r' i = slots r i" "region_rep r' Q F" "words_only r r'"
proof -
  obtain qs where p: "\<forall>k<length hs. obj_type (slots r (idx (hs ! k))) = TYPE_EVENT \<longrightarrow> pulse_seq (slots r (idx (hs ! k))) = qs ! k"
    and q: "\<forall>k<length hs. wait_satisfied (slots r (idx (hs ! k))) owner (qs ! k) = satisfied_now r owner (hs ! k)"
    and yes: "\<And>x r'. try_satisfy os r hs owner qs True = Some (Some x, r') \<Longrightarrow>
      wait os envs cfg debug start t r hs owner timeout True alert = Some (Returned x, t, r')"
    by (rule wait_at_once [OF os a v, where wall = True]) blast
  have h: "\<forall>h\<in>set hs. \<exists>i. slot r h = Some i" using v(1) by (auto simp: waitable_handles_def)
  have t: "\<forall>k<length hs. wait_satisfied (slots r (idx (hs ! k))) owner (qs ! k) \<noteq> None" using sat q by (metis nth_mem)
  obtain r' od ob where r': "try_satisfy os r hs owner qs True = Some (Some (Signaled 0 (\<exists>k<length hs. od k)), r')"
    "\<forall>k<length hs. wait_satisfied (slots r (idx (hs ! k))) owner (qs ! k) = Some (od k, ob k) \<and>
       abs_object (slots r' (idx (hs ! k))) = Some (ob k)"
    "\<forall>i. i \<notin> idx ` set hs \<longrightarrow> slots r' i = slots r i" "region_rep r' Q F"
    using wait_all_atomic [OF os R a(1,4) h p] unfolding if_P [OF t] by blast
  show ?thesis
    by (rule that [where ob = ob, OF yes [OF r'(1)] _ r'(3,4) try_satisfy_only [OF os r'(1)]]) (use r'(2) q in simp)
qed

lemma wait_any_granted:
  assumes os: "undisturbed os" and R: "region_rep r Q F" and a: "owner \<noteq> 0" "hs \<noteq> []" "length hs \<le> MAX_WAIT_COUNT" "distinct hs"
    and v: "waitable_handles r hs" "alert_ok r alert" "\<not> alert_signaled r alert"
    and k: "List.find (\<lambda>k. satisfied_now r owner (hs ! k) \<noteq> None) [0..<length hs] = Some k"
  obtains od ob w where "satisfied_now r owner (hs ! k) = Some (od, ob)"
    "wait os envs cfg debug start t r hs owner timeout False alert =
       Some (Returned (Signaled (of_nat k) od), t, put_word r (idx (hs ! k)) w)"
    "abs_object (slots (put_word r (idx (hs ! k)) w) (idx (hs ! k))) = Some ob" "region_rep (put_word r (idx (hs ! k)) w) Q F"
proof -
  obtain qs where q: "\<forall>k<length hs. wait_satisfied (slots r (idx (hs ! k))) owner (qs ! k) = satisfied_now r owner (hs ! k)"
    and yes: "\<And>x r'. try_satisfy os r hs owner qs False = Some (Some x, r') \<Longrightarrow>
      wait os envs cfg debug start t r hs owner timeout False alert = Some (Returned x, t, r')"
    by (rule wait_at_once [OF os a v, where wall = False]) blast
  have h: "\<forall>h\<in>set hs. \<exists>i. slot r h = Some i" using v(1) by (auto simp: waitable_handles_def)
  have e: "List.find (\<lambda>k. wait_satisfied (slots r (idx (hs ! k))) owner (qs ! k) \<noteq> None) [0..<length hs] = Some k"
    using k by (subst find_cong [of _ _ _ "\<lambda>k. satisfied_now r owner (hs ! k) \<noteq> None"]) (use q in auto)
  have "k < length hs" using k by (auto simp: find_Some_iff)
  with wait_any_first [OF os R a(1) h, of qs] q that yes show ?thesis unfolding e by auto
qed

subsection \<open>Timeouts\<close>

text \<open>None of this depends on what other threads do: only the deadline test reports a timeout.\<close>

lemma try_any_Signaled: "try_any os r n hs me qs = Some (Some x, r') \<Longrightarrow> \<exists>i od. x = Signaled i od"
  by (induction hs arbitrary: r n) (auto split: Option.bind_splits option.splits)

lemma try_all_Signaled: "try_all os r n hs all me qs acq dead = Some (Some x, r') \<Longrightarrow> \<exists>i od. x = Signaled i od"
  by (induction hs arbitrary: r n acq dead) (auto split: Option.bind_splits option.splits)

lemma try_satisfy_Signaled: "try_satisfy os r hs me qs wall = Some (Some x, r') \<Longrightarrow> \<exists>i od. x = Signaled i od"
  by (auto simp: try_satisfy_def split: if_splits dest: try_any_Signaled try_all_Signaled)

lemma wait_locked_Timeout:
  assumes "wait_locked env a r ns qs = Some (Return Timeout, ns', qs', r')"
  shows "\<exists>dl. wait_deadline a = Some dl \<and> dl \<le> now_ns env"
  using assms unfolding wait_locked_def
  by (auto simp: Let_def alert_outcome_def split: prod.splits if_splits Option.bind_splits option.splits
      dest!: try_satisfy_Signaled)

lemma spin_rounds_Signaled:
  "spin_rounds env a qs ns j n r = Some (SpinReturn (Returned x), r') \<Longrightarrow> \<exists>i od. x = Signaled i od"
  by (induction n arbitrary: j r)
    (auto simp: Let_def alert_outcome_def split: if_splits Option.bind_splits option.splits dest!: try_satisfy_Signaled)

lemma wait_spin_Signaled:
  "wait_spin env cfg a qs ns t r = Some (Some (Returned x), t', r') \<Longrightarrow> \<exists>i od. x = Signaled i od"
  by (auto simp: wait_spin_def split: prod.splits if_splits Option.bind_splits spin_result.splits wait_run.splits
      dest: spin_rounds_Signaled)

lemma wait_round_Timeout:
  assumes "wait_round env cfg debug a st = Some (Some (Returned Timeout), st')"
  shows "\<exists>dl. wait_deadline a = Some dl \<and> dl \<le> now_ns env"
  using assms unfolding wait_round_def
  by (auto simp: Let_def split: sum.splits prod.splits Option.bind_splits locked_step.splits option.splits
      dest: wait_locked_Timeout wait_spin_Signaled)

lemma wait_loop_Timeout:
  assumes "wait_loop envs k cfg debug a st = Some y"
  shows "fst y = Returned Timeout \<longrightarrow> (\<exists>dl j. wait_deadline a = Some dl \<and> dl \<le> now_ns (envs j))"
proof (rule wait_loop.raw_induct [OF _ assms], intro impI)
  fix loop envs k cfg debug a st and y :: "wait_run \<times> WaitState"
  assume IH: "\<And>envs k cfg debug a st y. loop envs k cfg debug a st = Some y \<Longrightarrow>
      fst y = Returned Timeout \<longrightarrow> (\<exists>dl j. wait_deadline a = Some dl \<and> dl \<le> now_ns (envs j))"
    and l: "do {
      (res, st1) \<leftarrow> wait_round (envs k) cfg debug a st;
      case res of Some x \<Rightarrow> Some (x, st1) | None \<Rightarrow> loop envs (Suc k) cfg debug a st1 } = Some y"
    and y: "fst y = Returned Timeout"
  from l obtain res st1 where rd: "wait_round (envs k) cfg debug a st = Some (res, st1)"
    and n: "(case res of Some x \<Rightarrow> Some (x, st1) | None \<Rightarrow> loop envs (Suc k) cfg debug a st1) = Some y"
    by (auto split: Option.bind_splits)
  show "\<exists>dl j. wait_deadline a = Some dl \<and> dl \<le> now_ns (envs j)"
  proof (cases res)
    case None
    with IH [of envs "Suc k"] n y show ?thesis by simp
  next
    case (Some x)
    with n y rd have "wait_round (envs k) cfg debug a st = Some (Some (Returned Timeout), st1)" by auto
    from wait_round_Timeout [OF this] show ?thesis by blast
  qed
qed

text \<open>A round in which nobody else does anything.\<close>

definition quiet_round :: "u32 \<Rightarrow> nat \<Rightarrow> WaitEnv" where
  "quiet_round pid now = \<lparr>lock_os = quiet_os pid, retry_os = quiet_os pid, try_os = quiet_os pid,
     spin_os = (\<lambda>_. quiet_os pid), sweep_os = quiet_os pid, timeout_sweep_os = quiet_os pid,
     detach_os = quiet_os pid, now_ns = now, tail_clock = 0, asleep = id, futex_errno = 0\<rparr>"

lemma calm_quiet_round: "pid \<noteq> 0 \<Longrightarrow> calm pid a (quiet_round pid now)"
  by (simp add: calm_def quiet_round_def neighbour_def undisturbed_def pid_alive_def quiet_os_def errno_consts)

subsection \<open>Properties\<close>

text \<open>
  C6: waiting for all of several different objects is all or nothing. If every object is available
  the wait takes them all at once, whatever its timeout, reports whether one of them was abandoned,
  leaves every object as NT says and touches no other slot; if one is not available, a wait
  without patience reports a timeout and the region is exactly as before, whatever was taken and
  given back on the way.
\<close>

theorem wait_all_now:
  assumes "undisturbed os" "region_rep r Q F" "owner \<noteq> 0" "hs \<noteq> []" "length hs \<le> MAX_WAIT_COUNT" "distinct hs"
    and "waitable_handles r hs" "alert_ok r alert" "\<not> alert_signaled r alert"
  shows "if \<forall>h\<in>set hs. satisfied_now r owner h \<noteq> None
    then \<exists>r' od ob. wait_all os envs cfg debug start t r hs owner timeout alert =
        Some (Returned (Signaled 0 (\<exists>k<length hs. od k)), t, r') \<and>
      (\<forall>k<length hs. satisfied_now r owner (hs ! k) = Some (od k, ob k) \<and>
         abs_object (slots r' (idx (hs ! k))) = Some (ob k)) \<and>
      (\<forall>i. i \<notin> idx ` set hs \<longrightarrow> slots r' i = slots r i) \<and> region_rep r' Q F
    else wait_all os envs cfg debug start t r hs owner (Some 0) alert = Some (Returned Timeout, t, r)"
proof (cases "\<forall>h\<in>set hs. satisfied_now r owner h \<noteq> None")
  case True
  obtain r' od ob where "wait os envs cfg debug start t r hs owner timeout True alert =
      Some (Returned (Signaled 0 (\<exists>k<length hs. od k)), t, r')"
    "\<forall>k<length hs. satisfied_now r owner (hs ! k) = Some (od k, ob k) \<and> abs_object (slots r' (idx (hs ! k))) = Some (ob k)"
    "\<forall>i. i \<notin> idx ` set hs \<longrightarrow> slots r' i = slots r i" "region_rep r' Q F"
    by (rule wait_all_granted [OF assms True]) blast
  then show ?thesis
    by (subst if_P [OF True]) (intro exI [of _ r'] exI [of _ od] exI [of _ ob], simp add: wait_all_def)
next
  case False
  obtain qs where p: "\<forall>k<length hs. obj_type (slots r (idx (hs ! k))) = TYPE_EVENT \<longrightarrow> pulse_seq (slots r (idx (hs ! k))) = qs ! k"
    and q: "\<forall>k<length hs. wait_satisfied (slots r (idx (hs ! k))) owner (qs ! k) = satisfied_now r owner (hs ! k)"
    and no: "\<And>r'. try_satisfy os r hs owner qs True = Some (None, r') \<Longrightarrow>
      wait os envs cfg debug start t r hs owner (Some 0) True alert = Some (Returned Timeout, t, r')"
    by (rule wait_at_once [OF assms(1,3-9), where wall = True]) blast
  have v: "\<forall>h\<in>set hs. \<exists>i. slot r h = Some i" using assms(7) by (auto simp: waitable_handles_def)
  have n: "\<not> (\<forall>k<length hs. wait_satisfied (slots r (idx (hs ! k))) owner (qs ! k) \<noteq> None)"
    using False by (simp add: all_set_conv_all_nth q del: not_None_eq)
  have "try_satisfy os r hs owner qs True = Some (None, r)"
    using wait_all_atomic [OF assms(1-3,6) v p] unfolding if_not_P [OF n] .
  with False no show ?thesis by (subst if_not_P [OF False]) (simp add: wait_all_def)
qed

lemma two_objects_waitable:
  assumes "waitable ty" "waitable ty'"
  shows "waitable_handles (two_objects ty w ty' w' pid) [1, 2]"
  using assms by (simp add: waitable_handles_def)

theorem wait_all_now_witness:
  "let r = two_objects TYPE_SEM (pack_sem 2 5) TYPE_EVENT (pack_event False False) 42 in
   region_rep r (\<lambda>_. []) [] \<and> waitable_handles r [1, 2] \<and>
   wait_all (quiet_os 7) (\<lambda>j. quiet_round 7 j) (read_config (\<lambda>_. None)) False 0 new_thread r [1, 2] 7 (Some 0) 0 =
     Some (Returned Timeout, new_thread, r)"
proof -
  let ?r = "two_objects TYPE_SEM (pack_sem 2 5) TYPE_EVENT (pack_event False False) 42"
  have "sem_ok (pack_sem 2 5)" by (simp add: sem_ok_def pack_sem_join word_le_nat_alt)
  then have R: "region_rep ?r (\<lambda>_. []) []" using event_word_ok by (simp add: two_objects_rep)
  have v: "waitable_handles ?r [1, 2]" by (rule two_objects_waitable) (simp_all add: waitable_def)
  have a: "(7::u32) \<noteq> 0" "[1, 2::u32] \<noteq> []" "length [1, 2::u32] \<le> MAX_WAIT_COUNT" "distinct [1, 2::u32]"
    "alert_ok ?r 0" "\<not> alert_signaled ?r 0" by (simp_all add: MAX_WAIT_COUNT_def alert_ok_def alert_signaled_def)
  have "satisfied_now ?r 7 2 = None"
    by (simp add: INDEX_MASK_num wait_satisfied_def abs_object_def type_consts abs_event_def nt_wait_def pack_event_join)
  then have n: "\<not> (\<forall>h\<in>set [1, 2]. satisfied_now ?r 7 h \<noteq> None)" by (metis list.set_intros)
  from wait_all_now [OF undisturbed_quiet R a(1-4) v a(5,6), of 7 "\<lambda>j. quiet_round 7 j" "read_config (\<lambda>_. None)" False 0
      new_thread None] R v show ?thesis unfolding if_not_P [OF n] Let_def by blast
qed

text \<open>
  Waiting for any of several objects takes the first one in the order of the call that is
  available, at once and whatever the timeout, returns its position and whether it was abandoned,
  and touches no other object; if none is available, a wait without patience reports a timeout and
  nothing changes.
\<close>

theorem wait_any_now:
  assumes "undisturbed os" "region_rep r Q F" "owner \<noteq> 0" "hs \<noteq> []" "length hs \<le> MAX_WAIT_COUNT" "distinct hs"
    and "waitable_handles r hs" "alert_ok r alert" "\<not> alert_signaled r alert"
  shows "case List.find (\<lambda>k. satisfied_now r owner (hs ! k) \<noteq> None) [0..<length hs] of
      None \<Rightarrow> wait_any os envs cfg debug start t r hs owner (Some 0) alert = Some (Returned Timeout, t, r)
    | Some k \<Rightarrow> \<exists>od ob w. satisfied_now r owner (hs ! k) = Some (od, ob) \<and>
        wait_any os envs cfg debug start t r hs owner timeout alert =
          Some (Returned (Signaled (of_nat k) od), t, put_word r (idx (hs ! k)) w) \<and>
        abs_object (slots (put_word r (idx (hs ! k)) w) (idx (hs ! k))) = Some ob \<and>
        region_rep (put_word r (idx (hs ! k)) w) Q F"
proof (cases "List.find (\<lambda>k. satisfied_now r owner (hs ! k) \<noteq> None) [0..<length hs]")
  case None
  obtain qs where q: "\<forall>k<length hs. wait_satisfied (slots r (idx (hs ! k))) owner (qs ! k) = satisfied_now r owner (hs ! k)"
    and no: "\<And>r'. try_satisfy os r hs owner qs False = Some (None, r') \<Longrightarrow>
      wait os envs cfg debug start t r hs owner (Some 0) False alert = Some (Returned Timeout, t, r')"
    by (rule wait_at_once [OF assms(1,3-9), where wall = False]) blast
  have v: "\<forall>h\<in>set hs. \<exists>i. slot r h = Some i" using assms(7) by (auto simp: waitable_handles_def)
  have e: "List.find (\<lambda>k. wait_satisfied (slots r (idx (hs ! k))) owner (qs ! k) \<noteq> None) [0..<length hs] = None"
    using None q by (simp add: find_None_iff)
  from wait_any_first [OF assms(1-3) v, of qs] no None show ?thesis unfolding e by (simp add: wait_any_def)
next
  case (Some k)
  obtain od ob w where "satisfied_now r owner (hs ! k) = Some (od, ob)"
    "wait os envs cfg debug start t r hs owner timeout False alert =
       Some (Returned (Signaled (of_nat k) od), t, put_word r (idx (hs ! k)) w)"
    "abs_object (slots (put_word r (idx (hs ! k)) w) (idx (hs ! k))) = Some ob" "region_rep (put_word r (idx (hs ! k)) w) Q F"
    by (rule wait_any_granted [OF assms Some])
  with Some show ?thesis unfolding wait_any_def by auto
qed

theorem wait_any_now_witness:
  "let r = two_objects TYPE_EVENT (pack_event False False) TYPE_SEM (pack_sem 2 5) 42 in
   \<exists>w. wait_any (quiet_os 7) (\<lambda>j. quiet_round 7 j) (read_config (\<lambda>_. None)) False 0 new_thread r [1, 2] 7 None 0 =
       Some (Returned (Signaled 1 False), new_thread, put_word r 2 w) \<and>
     abs_object (slots (put_word r 2 w) 2) = Some (NtSem 1 5)"
proof -
  let ?r = "two_objects TYPE_EVENT (pack_event False False) TYPE_SEM (pack_sem 2 5) 42"
  have "sem_ok (pack_sem 2 5)" by (simp add: sem_ok_def pack_sem_join word_le_nat_alt)
  then have R: "region_rep ?r (\<lambda>_. []) []" using event_word_ok by (simp add: two_objects_rep)
  have v: "waitable_handles ?r [1, 2]" by (rule two_objects_waitable) (simp_all add: waitable_def)
  have a: "(7::u32) \<noteq> 0" "[1, 2::u32] \<noteq> []" "length [1, 2::u32] \<le> MAX_WAIT_COUNT" "distinct [1, 2::u32]"
    "alert_ok ?r 0" "\<not> alert_signaled ?r 0" by (simp_all add: MAX_WAIT_COUNT_def alert_ok_def alert_signaled_def)
  have i: "idx ([1, 2] ! 1) = (2::u32)" by (simp add: INDEX_MASK_num)
  have e: "satisfied_now ?r 7 ([1, 2] ! 0) = None"
    by (simp add: INDEX_MASK_num wait_satisfied_def abs_object_def type_consts abs_event_def nt_wait_def pack_event_join)
  have s: "satisfied_now ?r 7 ([1, 2] ! 1) = Some (False, NtSem 1 5)"
    by (simp add: INDEX_MASK_num wait_satisfied_def abs_object_def type_consts abs_sem_def nt_wait_def pack_sem_join)
  have "[0..<length [1, 2::u32]] = [0, 1]" by (simp add: upt_rec)
  then have f: "List.find (\<lambda>k. satisfied_now ?r 7 ([1, 2] ! k) \<noteq> None) [0..<length [1, 2::u32]] = Some 1"
    using e s by (simp only: List.find.simps) simp
  from wait_any_now [OF undisturbed_quiet R a(1-4) v a(5,6), of 7 "\<lambda>j. quiet_round 7 j" "read_config (\<lambda>_. None)" False 0
      new_thread None] obtain od ob w where o: "satisfied_now ?r 7 ([1, 2] ! 1) = Some (od, ob)"
    "wait_any (quiet_os 7) (\<lambda>j. quiet_round 7 j) (read_config (\<lambda>_. None)) False 0 new_thread ?r [1, 2] 7 None 0 =
       Some (Returned (Signaled (of_nat 1) od), new_thread, put_word ?r 2 w)"
    "abs_object (slots (put_word ?r 2 w) 2) = Some ob" unfolding f option.case i by blast
  have "od = False" "ob = NtSem 1 5" using o(1) unfolding s by simp_all
  with o(2,3) show ?thesis unfolding Let_def by auto
qed

text \<open>
  C27: no wait times out early. Whatever the other threads do to the region in the meantime, a wait
  reports a timeout only if its timeout was zero or if the clock had reached the deadline at the
  deadline test of some round; a wait without a timeout never does.
\<close>

theorem no_early_timeout:
  assumes "wait os envs cfg debug start t r hs owner timeout wall alert = Some (Returned Timeout, t', r')"
  shows "\<exists>d. timeout = Some d \<and> (d = 0 \<or> (\<exists>j. start + d \<le> now_ns (envs j)))"
proof -
  let ?a = "\<lparr>wait_handles = hs, wait_owner = owner, wait_deadline = map_option (\<lambda>d. start + d) timeout,
    wait_for_all = wall, wait_alert = alert\<rparr>"
  from assms obtain fast qs r1 where f: "wait_fast os r ?a (timeout = Some 0) = Some (fast, qs, r1)"
    and n: "(case fast of Some x \<Rightarrow> Some (x, t, r1) | None \<Rightarrow>
      map_option (\<lambda>(x, st). (x, ws_thread st, ws_region st)) (wait_loop envs 0 cfg debug ?a
        \<lparr>ws_region = r1, ws_thread = t, ws_nodes = [], ws_seqs = qs\<rparr>)) = Some (Returned Timeout, t', r')"
    by (auto simp: wait_def Let_def map_option_case split: if_splits Option.bind_splits option.splits)
  show ?thesis
  proof (cases fast)
    case None
    with n obtain st where "wait_loop envs 0 cfg debug ?a \<lparr>ws_region = r1, ws_thread = t, ws_nodes = [], ws_seqs = qs\<rparr>
      = Some (Returned Timeout, st)" by auto
    from wait_loop_Timeout [OF this] show ?thesis by auto
  next
    case (Some x)
    with n f have "wait_fast os r ?a (timeout = Some 0) = Some (Some (Returned Timeout), qs, r1)" by simp
    then have "timeout = Some 0"
      by (auto simp: wait_fast_def Let_def alert_outcome_def split: prod.splits if_splits Option.bind_splits option.splits
          dest!: try_satisfy_Signaled)
    then show ?thesis by simp
  qed
qed

theorem no_early_timeout_witness:
  "let r = one_object TYPE_EVENT (pack_event False True) 7; envs = (\<lambda>j. quiet_round 7 9) in
   \<exists>t' r'. wait (quiet_os 7) envs (read_config (\<lambda>_. None)) False 0 new_thread r [1] 9 (Some 5) False 0 =
       Some (Returned Timeout, t', r') \<and> (\<exists>j. 0 + 5 \<le> now_ns (envs j))"
proof -
  let ?r = "one_object TYPE_EVENT (pack_event False True) 7"
  let ?a = "\<lparr>wait_handles = [1], wait_owner = 9, wait_deadline = Some 5, wait_for_all = False, wait_alert = 0\<rparr>"
  have i: "idx 1 = (1::u32)" by (simp add: INDEX_MASK_num)
  have w: "lo32 (pack_event False True) = 0" by (simp add: pack_event_join)
  let ?qs = "replicate MAX_WAIT_COUNT (0 :: u64)"
  have q: "?qs ! 0 = 0" by (simp add: MAX_WAIT_COUNT_def)
  then have q': "?qs[0 := 0] = ?qs" using list_update_id [of ?qs 0] by simp
  have none: "try_any (quiet_os 7) s 0 [1] 9 ?qs = Some (None, s)" if s: "bare s = bare ?r" for s
  proof (rule try_any_none)
    have "obj_type (slots s 1) = TYPE_EVENT" "w0 (slots s 1) = pack_event False True" "pulse_seq (slots s 1) = 0"
      using bareD(3,6,7) [OF s, of 1] by simp_all
    then show "\<forall>j<length [1]. grant (slots s (idx ([1] ! j))) 9 (?qs ! (0 + j)) = None"
      using i w q by (simp add: grant_event)
  qed simp
  have f: "wait_fast (quiet_os 7) ?r ?a False = Some (None, ?qs, ?r)"
    using none [of ?r] q' undisturbed_quiet [of 7]
    by (simp add: wait_fast_def Let_def alert_ok_def alert_signaled_def waitable_def try_satisfy_def undisturbed_def
        del: try_any.simps)
  obtain r1 where al: "node_alloc (quiet_os 7) ?r = (Some 0, r1)" "slots r1 = slots ?r" by (rule one_waiter_alloc)
  let ?r2 = "register_all 0 r1 [0] [1]"
  have "bare r1 = bare ?r" by (rule ext) (simp only: bare_def al(2))
  then have b: "bare ?r2 = bare ?r" by simp
  have l: "wait_locked (quiet_round 7 9) ?a ?r [] ?qs = Some (Return Timeout, [], ?qs, waiter_cleanup ?r2 [0])"
    using none [OF b] q' al(1) by (simp add: wait_locked_def Let_def alert_ok_def alert_signaled_def waitable_def
        try_satisfy_def quiet_round_def del: try_any.simps)
  have g: "lock_guard (quiet_os 7) 0 ?r = Some (Inr (lock_mark (quiet_os 7) ?r))" by (simp add: lock_guard_ok quiet_os_def)
  have m: "lock_mark (quiet_os 7) ?r = ?r" by (simp add: lock_mark_def quiet_os_def)
  let ?st = "\<lparr>ws_region = ?r, ws_thread = new_thread, ws_nodes = [], ws_seqs = ?qs\<rparr>"
  have "on_lock (quiet_os 7) ?r = ?r" "lock_os (quiet_round 7 9) = quiet_os 7" by (simp_all add: quiet_os_def quiet_round_def)
  with l g m have "\<exists>st'. wait_round (quiet_round 7 9) (read_config (\<lambda>_. None)) False ?a ?st = Some (Some (Returned Timeout), st')"
    by (simp add: wait_round_def Let_def)
  then have "\<exists>st'. wait_loop (\<lambda>j. quiet_round 7 9) 0 (read_config (\<lambda>_. None)) False ?a ?st = Some (Returned Timeout, st')"
    by (subst wait_loop.simps) auto
  with f obtain t' r' where "wait (quiet_os 7) (\<lambda>j. quiet_round 7 9) (read_config (\<lambda>_. None)) False 0 new_thread ?r [1] 9 (Some 5) False 0 =
      Some (Returned Timeout, t', r')" by (auto simp: wait_def Let_def MAX_WAIT_COUNT_def)
  from no_early_timeout [OF this] this show ?thesis by (auto simp: Let_def)
qed

text \<open>The arguments of a wait call, as its loop sees them.\<close>

abbreviation timed_args :: "nat \<Rightarrow> u32 list \<Rightarrow> u32 \<Rightarrow> nat \<Rightarrow> bool \<Rightarrow> u32 \<Rightarrow> WaitArgs" where
  "timed_args start hs owner d wall alert \<equiv> \<lparr>wait_handles = hs, wait_owner = owner,
     wait_deadline = Some (start + d), wait_for_all = wall, wait_alert = alert\<rparr>"



end
