(* ===== verification/Api.thy ===== *)
theory Api
  imports Ffi Wait_Loop
begin

text \<open>
  The C interface as a whole. \<open>region_op\<close> is the contract of an operation on the region: called
  undisturbed on a well-formed region it returns, leaves the region well formed, and reports no
  error that the interface would turn into a positive code. Every operation of the core is shown to
  meet it. On top of that, \<open>serve\<close> is one call of any process and \<open>world_step\<close> lets any number of
  processes call in any order and wait; every reachable world keeps one well-formed region that all
  processes share, and every call returns there with a proper code.
\<close>

subsection \<open>The contract of an operation\<close>

definition proper :: "Error + 'a \<Rightarrow> bool" where
  "proper res \<longleftrightarrow> (case res of Inl e \<Rightarrow> errno e < 0 | Inr _ \<Rightarrow> True)"

lemma proper_simps [simp]:
  "proper (Inr a)" "proper (Inl Invalid)" "proper (Inl Perm)" "proper (Inl Overflow)"
  "proper (Inl (Init e)) \<longleftrightarrow> 0 < e"
  by (simp_all add: proper_def errno_consts)

lemma proper_map_sum: "proper (map_sum id g res) = proper res"
  by (cases res) (simp_all add: proper_def)

locale region_op =
  fixes f :: "Os \<Rightarrow> Region \<Rightarrow> ('b \<times> Region) option"
    and good :: "'b \<Rightarrow> bool"
  assumes returns: "undisturbed os \<Longrightarrow> region_ok r \<Longrightarrow>
    \<exists>res r'. f os r = Some (res, r') \<and> region_ok r' \<and> good res"

text \<open>A file system in which the path names nothing or a well-formed region, and a process in it.\<close>

definition disk_ok :: "nat \<Rightarrow> string \<Rightarrow> Fs \<Rightarrow> bool" where
  "disk_ok mutex path f \<longleftrightarrow> fs_ok f \<and> (\<forall>i. entries f (versioned_path path) = Some i \<longrightarrow>
     usable mutex (files f i) \<and> region_ok (content (files f i)))"

definition process_ok :: "nat \<Rightarrow> string \<Rightarrow> Process \<Rightarrow> bool" where
  "process_ok mutex path s \<longleftrightarrow> disk_ok mutex path (fs s) \<and>
     (cell s = None \<or> (\<exists>i. cell s = Some (Inr i) \<and> entries (fs s) (versioned_path path) = Some i))"

text \<open>A call leaves the process well formed and does not move the path to another inode.\<close>

definition continues :: "nat \<Rightarrow> string \<Rightarrow> Process \<Rightarrow> Process \<Rightarrow> bool" where
  "continues mutex path s s' \<longleftrightarrow> process_ok mutex path s' \<and>
     (\<forall>i. entries (fs s) (versioned_path path) = Some i \<longrightarrow> entries (fs s') (versioned_path path) = Some i)"

lemma continues_refl [simp]: "continues mutex path s s = process_ok mutex path s"
  by (simp add: continues_def)

lemma region_process_ok:
  assumes p: "finds p path" and s: "process_ok (mutex_size p) path s"
  obtains i s' where "region p s = (Inr i, s')" "continues (mutex_size p) path s s'" "cell s' = Some (Inr i)"
proof (cases "cell s")
  case None
  obtain i f' where r: "region p s = (Inr i, \<lparr>cell = Some (Inr i), fs = f'\<rparr>)"
    and o: "opened (mutex_size p) (versioned_path path) (fs s) i f'" "fs_ok f'"
    by (rule region_first_use [OF p None]) (use s in \<open>auto simp: process_ok_def disk_ok_def\<close>)
  have e: "entries f' (versioned_path path) = Some i" "usable (mutex_size p) (files f' i)"
    using o(1) by (auto simp: opened_def)
  have "region_ok fresh_region" using fresh_region_rep by (auto simp: region_ok_def)
  then have "region_ok (content (files f' i))"
    using o(1) s by (auto simp: opened_def process_ok_def disk_ok_def fresh_file_def split: if_splits)
  moreover have "f' = fs s" if "entries (fs s) (versioned_path path) = Some j" for j
    using o(1) s that by (auto simp: opened_def process_ok_def disk_ok_def split: if_splits)
  ultimately show ?thesis using e o(2) r that by (auto simp: continues_def process_ok_def disk_ok_def)
next
  case (Some c)
  with s obtain i where i: "cell s = Some (Inr i)" by (auto simp: process_ok_def)
  with s that region_mapped [OF i] show ?thesis by (simp add: continues_def)
qed

lemma put_region_ok:
  assumes "process_ok mutex path s" "cell s = Some (Inr i)" "region_ok r"
  shows "process_ok mutex path (put_region s i r)"
proof -
  have e: "entries (fs s) (versioned_path path) = Some i" using assms(1,2) by (auto simp: process_ok_def)
  obtain Q F where "region_rep r Q F" using assms(3) by (auto simp: region_ok_def)
  then have "header_ok (header r)" by (rule region_header)
  with assms e show ?thesis
    by (auto simp: process_ok_def disk_ok_def put_region_def usable_def fs_ok_def)
qed

context region_op
begin

text \<open>Through the opening of the region, the operation returns and keeps the process well formed.\<close>

lemma with_region_returns:
  assumes os: "undisturbed os" and p: "finds p path" and s: "process_ok (mutex_size p) path s"
  shows "\<exists>res s'. with_region p s fail (f os) = Some (res, s') \<and> continues (mutex_size p) path s s' \<and> good res"
proof -
  obtain i s1 where r: "region p s = (Inr i, s1)" "continues (mutex_size p) path s s1" "cell s1 = Some (Inr i)"
    by (rule region_process_ok [OF p s])
  have s1: "process_ok (mutex_size p) path s1" using r(2) by (simp add: continues_def)
  then have "region_ok (content (files (fs s1) i))" using r(3) by (auto simp: process_ok_def disk_ok_def)
  from returns [OF os this] obtain res r' where
    "f os (content (files (fs s1) i)) = Some (res, r')" "region_ok r'" "good res" by blast
  with r put_region_ok [OF s1 r(3)] show ?thesis by (auto simp: with_region_def continues_def)
qed

end

locale checked_op = region_op f proper
  for f :: "Os \<Rightarrow> Region \<Rightarrow> ((Error + 'a) \<times> Region) option"
begin

lemma call_returns:
  assumes "undisturbed os" "finds p path" "process_ok (mutex_size p) path s"
  shows "\<exists>res s'. call p s refused (f os) = Some (res, s') \<and> continues (mutex_size p) path s s' \<and> proper res"
  using with_region_returns [OF assms] assms(3) by (auto simp: call_def)

end

subsection \<open>Every operation meets it\<close>

lemma signal_op_ok:
  assumes os: "undisturbed os" and r: "region_ok r" and ok: "word_update (word_ok ty) body"
    and plain: "\<And>w res wake. body w = Ret (res, wake) \<or> (\<exists>v. body w = Swap v (res, wake)) \<Longrightarrow> proper res"
  shows "\<exists>res r'. signal_op os r h ty body = Some (res, r') \<and> region_ok r' \<and> proper res"
proof (cases "slot_of_type r h ty")
  case (Inl e)
  with r slot_of_type_Inl [OF Inl] show ?thesis by (simp add: signal_op_def)
next
  case (Inr i)
  from r obtain Q F where R: "region_rep r Q F" by (auto simp: region_ok_def)
  obtain res wake r1 where a: "atomically body i r = ((res, wake), r1)" by (metis prod.collapse)
  have "proper res" using a plain by (auto simp: atomically_def split: decision.splits)
  moreover obtain r' where "signal_op os r h ty body = Some (res, r')"
    "region_rep r' (if wake then Q(i := []) else Q) F" by (rule signal_op_undisturbed [OF os R Inr ok a])
  ultimately show ?thesis by (auto simp: region_ok_def)
qed

lemmas body_defs = sem_release_body_def event_set_body_def event_reset_body_def mutex_unlock_body_def mutex_kill_body_def

interpretation sem_release_op: checked_op "\<lambda>os r. sem_release os r h n" for h n
  unfolding sem_release_def
  by unfold_locales (rule signal_op_ok;
    auto simp: body_defs Let_def word_ok_types body_ok split: option.splits if_splits)

interpretation event_set_op: checked_op "\<lambda>os r. event_set os r h" for h
  unfolding event_set_def
  by unfold_locales (rule signal_op_ok;
    auto simp: body_defs Let_def word_ok_types body_ok split: option.splits if_splits)

interpretation event_reset_op: checked_op "\<lambda>os r. event_reset os r h" for h
  unfolding event_reset_def
  by unfold_locales (rule signal_op_ok;
    auto simp: body_defs Let_def word_ok_types body_ok split: option.splits if_splits)

lemma mutex_unlock_ok:
  assumes "undisturbed os" "region_ok r"
  shows "\<exists>res r'. mutex_unlock os r h owner = Some (res, r') \<and> region_ok r' \<and> proper res"
proof (cases "owner = 0")
  case False
  have "\<exists>res r'. signal_op os r h TYPE_MUTEX (mutex_unlock_body owner) = Some (res, r') \<and> region_ok r' \<and> proper res"
    by (rule signal_op_ok [OF assms])
      (use False mutex_unlock_keeps in \<open>auto simp: body_defs Let_def word_ok_types split: if_splits\<close>)
  with False show ?thesis by (simp add: mutex_unlock_def)
qed (use assms in \<open>simp add: mutex_unlock_def\<close>)

lemma mutex_kill_ok:
  assumes "undisturbed os" "region_ok r"
  shows "\<exists>res r'. mutex_kill os r h owner = Some (res, r') \<and> region_ok r' \<and> proper res"
proof (cases "owner = 0")
  case False
  have "\<exists>res r'. signal_op os r h TYPE_MUTEX (mutex_kill_body owner) = Some (res, r') \<and> region_ok r' \<and> proper res"
    by (rule signal_op_ok [OF assms])
      (use False mutex_kill_keeps in \<open>auto simp: body_defs Let_def word_ok_types split: if_splits\<close>)
  then obtain res r' where "signal_op os r h TYPE_MUTEX (mutex_kill_body owner) = Some (res, r')" "region_ok r'"
    "proper res" by blast
  with False show ?thesis by (simp add: mutex_kill_def proper_map_sum)
qed (use assms in \<open>simp add: mutex_kill_def\<close>)

lemma event_pulse_ok:
  assumes os: "undisturbed os" and r: "region_ok r"
  shows "\<exists>res r'. event_pulse os r h = Some (res, r') \<and> region_ok r' \<and> proper res"
proof (cases "slot_of_type r h TYPE_EVENT")
  case (Inl e)
  then have "slot_of_type (lock_mark os r) h TYPE_EVENT = Inl e" by (simp add: slot_of_type_def)
  with r slot_of_type_Inl [OF Inl] show ?thesis
    by (simp add: event_pulse_def with_lock_undisturbed [OF os] region_ok_lock)
next
  case (Inr i)
  from r obtain Q F where "region_rep r Q F" by (auto simp: region_ok_def)
  from event_pulse_run [OF os this Inr] show ?thesis by (metis region_ok_def proper_simps(1))
qed

lemma create_object_ok:
  assumes os: "undisturbed os" and r: "region_ok r" and w: "word_ok ty w"
  shows "\<exists>res r'. create_object os r ty w = Some (res, r') \<and> region_ok r' \<and> proper res"
proof -
  from r obtain Q F where R: "region_rep r Q F" by (auto simp: region_ok_def)
  consider (free) "\<exists>i<SLOT_COUNT. state (slots r i) = SLOT_FREE"
    | (dead) j where "\<forall>i<SLOT_COUNT. state (slots r i) \<noteq> SLOT_FREE" "dead_slot os (slots r j)"
    | (full) "\<forall>i<SLOT_COUNT. state (slots r i) \<noteq> SLOT_FREE" "\<forall>i. \<not> dead_slot os (slots r i)" by blast
  then show ?thesis
  proof cases
    case free
    from create_object_free [OF os R w free] show ?thesis by (metis region_ok_def proper_simps(1))
  next
    case dead
    from create_object_reclaims [OF os R w dead] show ?thesis by (metis proper_simps(1))
  next
    case full
    from create_object_full [OF os R full, of ty w] show ?thesis
      by (metis proper_simps(5) ENOMEM_def zero_less_numeral)
  qed
qed

lemma holder_op_ok:
  assumes os: "undisturbed os" and r: "region_ok r"
    and f: "\<And>s. holders_ok s \<Longrightarrow> holders_ok (f s (getpid os))"
      "\<And>s p. state (f s p) = state s" "\<And>s p. obj_type (f s p) = obj_type s" "\<And>s p. slot_pid (f s p) = slot_pid s"
      "\<And>s p. waiter_head (f s p) = waiter_head s" "\<And>s p. w0 (f s p) = w0 s"
  shows "\<exists>res r'. holder_op f os r h = Some (res, r') \<and> region_ok r' \<and> proper res"
proof (cases "h AND INDEX_MASK = 0 \<or> slot r h = None")
  case True
  with r show ?thesis
    by (cases "h AND INDEX_MASK = 0") (simp_all add: holder_op_def with_lock_undisturbed [OF os] region_ok_lock)
next
  case False
  then obtain i where i: "slot r h = Some i" "i \<noteq> 0" by (auto simp: slot_Some_iff)
  from r obtain Q F where R: "region_rep (lock_mark os r) Q F" by (auto simp: region_ok_def)
  have "region_rep (upd_slot (lock_mark os r) i (\<lambda>s. f s (getpid os))) Q F"
    by (rule region_rep_holders [OF R]) (use f region_holders [OF R] in auto)
  then have "region_ok (upd_slot (lock_mark os r) i (\<lambda>s. f s (getpid os)))" by (auto simp: region_ok_def)
  with holder_op_undisturbed [OF os i] show ?thesis by auto
qed

lemma close_ok:
  assumes os: "undisturbed os" and r: "region_ok r"
  shows "\<exists>res r'. close os r h = Some (res, r') \<and> region_ok r'"
proof (cases "h AND INDEX_MASK = 0 \<or> slot r h = None")
  case True
  with r show ?thesis
    by (cases "h AND INDEX_MASK = 0") (auto simp: close_def with_lock_undisturbed [OF os] region_ok_lock)
next
  case False
  then obtain i where i: "slot r h = Some i" "i \<noteq> 0" by (auto simp: slot_Some_iff)
  from r obtain Q F where "region_rep r Q F" by (auto simp: region_ok_def)
  from close_run [OF os this i] show ?thesis by (metis region_ok_def)
qed

lemma sweep_dead_ok:
  assumes os: "undisturbed os" and r: "region_ok r"
  shows "\<exists>res r'. sweep_dead os r = Some (res, r') \<and> region_ok r' \<and> proper res"
proof -
  from r obtain Q F where R: "region_rep (lock_mark os r) Q F" by (auto simp: region_ok_def)
  obtain n r' where n: "sweep_dead_locked os (lock_mark os r) = Some (n, r')"
    and sw: "swept os (lock_mark os r) Q UNIV UNIV n r'" by (rule sweep_dead_locked_swept [OF R])
  from sw have "region_ok r'" by (auto simp: swept_def region_ok_def)
  with n show ?thesis by (simp add: sweep_dead_def with_lock_undisturbed [OF os])
qed

interpretation mutex_unlock_op: checked_op "\<lambda>os r. mutex_unlock os r h owner" for h owner
  by unfold_locales (rule mutex_unlock_ok)

interpretation mutex_kill_op: checked_op "\<lambda>os r. mutex_kill os r h owner" for h owner
  by unfold_locales (rule mutex_kill_ok)

interpretation event_pulse_op: checked_op "\<lambda>os r. event_pulse os r h" for h
  by unfold_locales (rule event_pulse_ok)

interpretation create_semaphore_op: checked_op "\<lambda>os r. create_semaphore os r c m" for c m
  by unfold_locales (auto simp: create_semaphore_def not_less intro!: create_object_ok sem_word_ok)

interpretation create_mutex_op: checked_op "\<lambda>os r. create_mutex os r owner n" for owner n
  by unfold_locales (auto simp: create_mutex_def not_less intro!: create_object_ok mutex_word_ok)

interpretation create_event_op: checked_op "\<lambda>os r. create_event os r man sig" for man sig
  by unfold_locales (auto simp: create_event_def intro!: create_object_ok event_word_ok)

interpretation retain_op: checked_op "\<lambda>os r. retain os r h" for h
  unfolding retain_def
  by unfold_locales (rule holder_op_ok; auto simp: holder_add_set)

interpretation release_op: checked_op "\<lambda>os r. release os r h" for h
  unfolding release_def
  by unfold_locales (rule holder_op_ok; auto simp: holder_remove_set)

interpretation sweep_dead_op: checked_op sweep_dead
  by unfold_locales (rule sweep_dead_ok)

interpretation close_op: region_op "\<lambda>os r. close os r h" "\<lambda>_. True" for h
  by unfold_locales (use close_ok in blast)

lemma read_proper: "proper (read_sem r h)" "proper (read_mutex r h)" "proper (read_event r h)"
  by (auto simp: proper_def read_sem_def read_mutex_def read_event_def slot_of_type_def ok_or_def errno_consts
      split: option.splits)

interpretation read_sem_op: checked_op "\<lambda>_ r. Some (read_sem r h, r)" for h
  by unfold_locales (simp add: read_proper)

interpretation read_mutex_op: checked_op "\<lambda>_ r. Some (read_mutex r h, r)" for h
  by unfold_locales (simp add: read_proper)

interpretation read_event_op: checked_op "\<lambda>_ r. Some (read_event r h, r)" for h
  by unfold_locales (simp add: read_proper)

subsection \<open>Calls of many processes\<close>

text \<open>A call of the C interface other than a wait, with what it has behind its pointers.\<close>

datatype request =
  InitReq "string option option"
| SweepReq
| CreateSem "u32 option" "ntsync_sem_args option"
| CreateMutex "u32 option" "ntsync_mutex_args option"
| CreateEvent "u32 option" "ntsync_event_args option"
| Close u32
| Retain u32
| Release u32
| SemRelease u32 "u32 option"
| SemRead u32 "ntsync_sem_args option"
| MutexUnlock u32 "ntsync_mutex_args option"
| MutexKill u32 u32
| MutexRead u32 "ntsync_mutex_args option"
| EventSet u32 "u32 option"
| EventReset u32 "u32 option"
| EventPulse u32 "u32 option"
| EventRead u32 "ntsync_event_args option"

text \<open>The code that the call returns and the process after it.\<close>

definition code_of :: "((i32 \<times> 'b) \<times> Process) option \<Rightarrow> (i32 \<times> Process) option" where
  "code_of = map_option (\<lambda>((code, _), s). (code, s))"

lemma code_of_Some [simp]: "code_of (Some ((code, x), s)) = Some (code, s)"
  by (simp add: code_of_def)

fun serve :: "Platform \<Rightarrow> Os \<Rightarrow> request \<Rightarrow> Process \<Rightarrow> (i32 \<times> Process) option" where
  "serve p os (InitReq path) s = Some (ntsync_init p path s)"
| "serve p os SweepReq s = ntsync_sweep_dead p os s"
| "serve p os (CreateSem out args) s = code_of (ntsync_create_sem p os out args s)"
| "serve p os (CreateMutex out args) s = code_of (ntsync_create_mutex p os out args s)"
| "serve p os (CreateEvent out args) s = code_of (ntsync_create_event p os out args s)"
| "serve p os (Close h) s = ntsync_close p os h s"
| "serve p os (Retain h) s = ntsync_retain p os h s"
| "serve p os (Release h) s = ntsync_release p os h s"
| "serve p os (SemRelease h n) s = code_of (ntsync_sem_release p os h n s)"
| "serve p os (SemRead h args) s = code_of (ntsync_sem_read p h args s)"
| "serve p os (MutexUnlock h args) s = code_of (ntsync_mutex_unlock p os h args s)"
| "serve p os (MutexKill h owner) s = ntsync_mutex_kill p os h owner s"
| "serve p os (MutexRead h args) s = code_of (ntsync_mutex_read p h args s)"
| "serve p os (EventSet h prev) s = code_of (ntsync_event_set p os h prev s)"
| "serve p os (EventReset h prev) s = code_of (ntsync_event_reset p os h prev s)"
| "serve p os (EventPulse h prev) s = code_of (ntsync_event_pulse p os h prev s)"
| "serve p os (EventRead h args) s = code_of (ntsync_event_read p h args s)"

text \<open>The codes that the interface documents: zero or a negative error number, or a sweep's count.\<close>

definition code_ok :: "request \<Rightarrow> i32 \<Rightarrow> bool" where
  "code_ok req code \<longleftrightarrow> code \<le> 0 \<or> req = SweepReq"

text \<open>The explicit path of an initialization is the one that the others use.\<close>

definition request_ok :: "string \<Rightarrow> request \<Rightarrow> bool" where
  "request_ok path req \<longleftrightarrow> (\<forall>q. req = InitReq (Some (Some q)) \<longrightarrow> q = path)"

lemma answer_code:
  assumes "\<exists>res s'. c = Some (res, s') \<and> P s' \<and> proper res"
  shows "\<exists>code s'. code_of (answer g old c) = Some (code, s') \<and> P s' \<and> code \<le> 0"
  using assms by (fastforce simp: code_of_def answer_def reply_def proper_def split: sum.splits)

lemma init_returns:
  assumes p: "finds p path" and s: "process_ok (mutex_size p) path s" and q: "q = None \<or> q = Some path"
  shows "\<exists>s'. init p q s = (Inr (), s') \<and> continues (mutex_size p) path s s'"
proof -
  obtain i s' where r: "region p s = (Inr i, s')" "continues (mutex_size p) path s s'" "cell s' = Some (Inr i)"
    by (rule region_process_ok [OF p s])
  have "resolve_path (env_var p) (Some path) = resolve_path (env_var p) None"
    using p by (simp add: finds_def) (simp add: resolve_path_def)
  then have "init p q s = init p None s" using q by (cases "cell s") (auto simp: init_def)
  moreover from r have "init p None s = (Inr (), s')"
    by (auto simp: region_def split: prod.splits sum.splits option.splits)
  ultimately show ?thesis using r(2) by simp
qed

lemma serve_returns:
  assumes os: "undisturbed os" and p: "finds p path" and s: "process_ok (mutex_size p) path s"
    and req: "request_ok path req"
  shows "\<exists>code s'. serve p os req s = Some (code, s') \<and> continues (mutex_size p) path s s' \<and> code_ok req code"
proof (cases req)
  case (InitReq q)
  obtain s1 s2 where "init p None s = (Inr (), s1)" "continues (mutex_size p) path s s1"
    "init p (Some path) s = (Inr (), s2)" "continues (mutex_size p) path s s2"
    using init_returns [OF p s, of None] init_returns [OF p s, of "Some path"] by auto
  with InitReq req s show ?thesis
    by (auto simp: ntsync_init_def code_ok_def errno_consts request_ok_def split: option.split)
next
  case SweepReq
  from sweep_dead_op.call_returns [OF os p s, of False] SweepReq show ?thesis
    by (auto simp: ntsync_sweep_dead_def code_ok_def)
next
  case (CreateSem out args)
  with answer_code [OF create_semaphore_op.call_returns [OF os p s]] s show ?thesis
    by (cases out; cases args) (simp_all add: ntsync_create_sem_def code_ok_def errno_consts)
next
  case (CreateMutex out args)
  with answer_code [OF create_mutex_op.call_returns [OF os p s]] s show ?thesis
    by (cases out; cases args) (simp_all add: ntsync_create_mutex_def code_ok_def errno_consts)
next
  case (CreateEvent out args)
  with answer_code [OF create_event_op.call_returns [OF os p s]] s show ?thesis
    by (cases out; cases args) (simp_all add: ntsync_create_event_def code_ok_def errno_consts)
next
  case (Close h)
  obtain res s1 where "with_region p s (\<lambda>_. False) (\<lambda>r. close os r h) = Some (res, s1)"
    "continues (mutex_size p) path s s1"
    using close_op.with_region_returns [OF os p s] by blast
  then obtain res' s2 where x: "(if h AND INDEX_MASK = 0 then Some (False, s)
      else with_region p s (\<lambda>_. False) (\<lambda>r. close os r h)) = Some (res', s2)" "continues (mutex_size p) path s s2"
    using s by (metis continues_refl)
  have "ntsync_close p os h s = Some (if res' then 0 else - EINVAL, s2)"
    unfolding ntsync_close_def x(1) by simp
  with Close x(2) show ?thesis by (simp add: code_ok_def errno_consts)
next
  case (Retain h)
  from retain_op.call_returns [OF os p s, of "h AND INDEX_MASK = 0" h] Retain show ?thesis
    by (fastforce simp: ntsync_retain_def code_ok_def errno_consts split: sum.splits Error.splits)
next
  case (Release h)
  from release_op.call_returns [OF os p s, of "h AND INDEX_MASK = 0" h] Release show ?thesis
    by (fastforce simp: ntsync_release_def code_ok_def errno_consts split: sum.splits Error.splits)
next
  case (SemRelease h n)
  with answer_code [OF sem_release_op.call_returns [OF os p s]] s show ?thesis
    by (cases n) (simp_all add: ntsync_sem_release_def code_ok_def errno_consts)
next
  case (SemRead h args)
  with answer_code [OF read_sem_op.call_returns [OF os p s]] s show ?thesis
    by (cases args) (simp_all add: ntsync_sem_read_def code_ok_def errno_consts)
next
  case (MutexUnlock h args)
  with answer_code [OF mutex_unlock_op.call_returns [OF os p s]] s show ?thesis
    by (cases args) (simp_all add: ntsync_mutex_unlock_def code_ok_def errno_consts)
next
  case (MutexKill h owner)
  from mutex_kill_op.call_returns [OF os p s, of "owner = 0" h owner] MutexKill show ?thesis
    by (fastforce simp: ntsync_mutex_kill_def code_ok_def proper_def split: sum.splits)
next
  case (MutexRead h args)
  from read_mutex_op.call_returns [OF os p s, of False h] MutexRead s show ?thesis
    by (cases args) (fastforce simp: ntsync_mutex_read_def code_ok_def errno_consts proper_def split: sum.splits)+
next
  case (EventSet h prev)
  with answer_code [OF event_set_op.call_returns [OF os p s]] show ?thesis
    by (simp add: ntsync_event_set_def event_call_def code_ok_def)
next
  case (EventReset h prev)
  with answer_code [OF event_reset_op.call_returns [OF os p s]] show ?thesis
    by (simp add: ntsync_event_reset_def event_call_def code_ok_def)
next
  case (EventPulse h prev)
  with answer_code [OF event_pulse_op.call_returns [OF os p s]] show ?thesis
    by (simp add: ntsync_event_pulse_def event_call_def code_ok_def)
next
  case (EventRead h args)
  with answer_code [OF read_event_op.call_returns [OF os p s]] s show ?thesis
    by (cases args) (simp_all add: ntsync_event_read_def code_ok_def errno_consts)
qed

text \<open>
  A wait that returns, while the other threads leave its nodes to it and the region well formed
  between its steps, leaves the process well formed.
\<close>

lemma core_wait_continues:
  assumes p: "finds p path" and s: "process_ok (mutex_size p) path s"
    and c: "undisturbed (fast_os c)" "\<forall>a j. calm pid a (rounds c j)"
    and w: "core_wait p c handles owner timeout wall alert t s = Some (res, s')"
  shows "continues (mutex_size p) path s s'"
proof (cases "owner = 0 \<or> handles = [] \<or> MAX_WAIT_COUNT < length handles \<or> \<not> distinct handles")
  case True
  then have "s' = s" using w by (simp add: core_wait_def)
  with s show ?thesis by simp
next
  case False
  obtain i s1 where r: "region p s = (Inr i, s1)" "continues (mutex_size p) path s s1" "cell s1 = Some (Inr i)"
    by (rule region_process_ok [OF p s])
  have s1: "process_ok (mutex_size p) path s1" using r(2) by (simp add: continues_def)
  then have ok: "region_ok (content (files (fs s1) i))" using r(3) by (auto simp: process_ok_def disk_ok_def)
  from w False r(1) obtain x t' r' where "wait (fast_os c) (rounds c) (read_config (env_var p)) (wait_debug c) (wait_start c) t
      (content (files (fs s1) i)) handles owner timeout wall alert = Some (x, t', r')" and s': "s' = put_region s1 i r'"
    by (cases wall) (auto simp: core_wait_def with_region_def wait_all_def wait_any_def)
  then have "region_ok r'" using wait_ok [OF ok c] by blast
  with put_region_ok [OF s1 r(3)] r(2) s' show ?thesis by (simp add: continues_def)
qed

lemma do_wait_continues:
  assumes "finds p path" "process_ok (mutex_size p) path s" "undisturbed (fast_os c)" "\<forall>a j. calm pid a (rounds c j)"
    and "do_wait p c args wall t s = Some (code, args', t', s')"
  shows "continues (mutex_size p) path s s'"
  using assms(2,5) core_wait_continues [OF assms(1-4)]
  by (auto simp: do_wait_def split: option.splits sum.splits Option.bind_splits wait_run.splits WaitOutcome.splits)

text \<open>
  Any number of processes, each with its own cell, over one file system. A step is one undisturbed
  call of one of them, or a wait together with what the others do while it lasts; the operating
  system and the platform may differ from call to call as long as the default path stays the same.
\<close>

record World =
  cells :: "nat \<Rightarrow> (i32 + nat) option"
  disk :: Fs

definition view :: "World \<Rightarrow> nat \<Rightarrow> Process" where
  "view w k = \<lparr>cell = cells w k, fs = disk w\<rparr>"

definition update :: "World \<Rightarrow> nat \<Rightarrow> Process \<Rightarrow> World" where
  "update w k s = \<lparr>cells = (cells w)(k := cell s), disk = fs s\<rparr>"

definition start_world :: "Fs \<Rightarrow> World" where
  "start_world f = \<lparr>cells = (\<lambda>_. None), disk = f\<rparr>"

inductive world_step :: "nat \<Rightarrow> string \<Rightarrow> World \<Rightarrow> World \<Rightarrow> bool" for mutex path where
  call: "undisturbed os \<Longrightarrow> finds p path \<Longrightarrow> mutex_size p = mutex \<Longrightarrow> request_ok path req \<Longrightarrow>
    serve p os req (view w k) = Some (code, s') \<Longrightarrow> world_step mutex path w (update w k s')"
| wait: "undisturbed (fast_os c) \<Longrightarrow> \<forall>a j. calm pid a (rounds c j) \<Longrightarrow> finds p path \<Longrightarrow> mutex_size p = mutex \<Longrightarrow>
    do_wait p c args wall t (view w k) = Some (res, args', t', s') \<Longrightarrow> world_step mutex path w (update w k s')"

inductive reachable :: "nat \<Rightarrow> string \<Rightarrow> Fs \<Rightarrow> World \<Rightarrow> bool" for mutex path f where
  start: "reachable mutex path f (start_world f)"
| step: "reachable mutex path f w \<Longrightarrow> world_step mutex path w w' \<Longrightarrow> reachable mutex path f w'"

inductive_cases world_stepE: "world_step mutex path w w'"

definition world_ok :: "nat \<Rightarrow> string \<Rightarrow> World \<Rightarrow> bool" where
  "world_ok mutex path w \<longleftrightarrow> disk_ok mutex path (disk w) \<and>
     (\<forall>k. cells w k = None \<or> (\<exists>i. cells w k = Some (Inr i) \<and> entries (disk w) (versioned_path path) = Some i))"

lemma world_okD: "world_ok mutex path w \<Longrightarrow> process_ok mutex path (view w k)"
  by (simp add: world_ok_def process_ok_def view_def)

lemma update_ok:
  assumes w: "world_ok mutex path w" and c: "continues mutex path (view w k) s'"
  shows "world_ok mutex path (update w k s')"
  using assms by (auto simp: world_ok_def continues_def process_ok_def view_def update_def)

lemma reachable_world_ok:
  assumes "reachable mutex path f w" "disk_ok mutex path f"
  shows "world_ok mutex path w"
  using assms
proof (induction rule: reachable.induct)
  case start
  then show ?case by (simp add: world_ok_def start_world_def)
next
  case (step w w')
  have w: "world_ok mutex path w" using step by blast
  from step.hyps(2) show ?case
  proof (cases rule: world_step.cases)
    case (call os p req k code s')
    have "process_ok (mutex_size p) path (view w k)" using world_okD [OF w] call(4) by simp
    from serve_returns [OF call(2,3) this call(5)] call(4,6)
    have "continues mutex path (view w k) s'" by auto
    with update_ok [OF w] call(1) show ?thesis by simp
  next
    case (wait c pid p args wall t k res args' t' s')
    have "process_ok (mutex_size p) path (view w k)" using world_okD [OF w] wait(5) by simp
    from do_wait_continues [OF wait(4) this wait(2,3,6)] wait(5)
    have "continues mutex path (view w k) s'" by simp
    with update_ok [OF w] wait(1) show ?thesis by simp
  qed
qed

subsection \<open>Properties\<close>

text \<open>
  C7: the C interface keeps its data well formed. However many processes call, in whatever order and
  with whatever arguments, waits included, starting from a disk on which the path names nothing or
  a well-formed region: every process that has opened the region has mapped the inode that the path
  names, and that region satisfies the invariant of the slot table, the waiter lists, the node pool and the
  object words.
\<close>

theorem api_invariant:
  assumes "reachable mutex path f w" "disk_ok mutex path f" "cells w k \<noteq> None"
  shows "\<exists>i. cells w k = Some (Inr i) \<and> entries (disk w) (versioned_path path) = Some i \<and>
    file_size (files (disk w) i) = region_size mutex \<and> region_ok (content (files (disk w) i))"
proof -
  have w: "world_ok mutex path w" by (rule reachable_world_ok [OF assms(1,2)])
  then have "cells w k = None \<or> (\<exists>i. cells w k = Some (Inr i) \<and> entries (disk w) (versioned_path path) = Some i)"
    by (simp add: world_ok_def)
  then obtain i where "cells w k = Some (Inr i)" "entries (disk w) (versioned_path path) = Some i"
    using assms(3) by blast
  with w show ?thesis by (auto simp: world_ok_def disk_ok_def usable_def)
qed

theorem api_invariant_witness:
  "\<exists>w. reachable 40 ''/t/ntsync_userspace.shm'' empty_fs w \<and> cells w 3 \<noteq> None \<and>
     (\<exists>i. cells w 3 = Some (Inr i) \<and> region_ok (content (files (disk w) i)))"
proof -
  let ?p = "tmp_platform ''/t''" and ?path = "''/t/ntsync_userspace.shm''"
  have d: "disk_ok 40 ?path empty_fs" by (simp add: disk_ok_def) (simp add: empty_fs_def)
  have f: "finds ?p ?path" by (simp add: finds_def tmp_platform_def resolve_path_def)
  have m: "mutex_size ?p = 40" by (simp add: tmp_platform_def)
  have "process_ok (mutex_size ?p) ?path (view (start_world empty_fs) 3)"
    using d m by (simp add: process_ok_def view_def start_world_def)
  from init_returns [OF f this, of None] obtain s' where
    i: "init ?p None (view (start_world empty_fs) 3) = (Inr (), s')" by blast
  then have c: "cell s' \<noteq> None"
    by (auto simp: init_def view_def start_world_def Let_def split: sum.splits prod.splits option.splits)
  have "world_step 40 ?path (start_world empty_fs) (update (start_world empty_fs) 3 s')"
    by (rule world_step.call [where os = "quiet_os 7" and p = ?p and req = "InitReq None" and code = 0])
      (use f m i in \<open>simp_all add: request_ok_def ntsync_init_def\<close>)
  then have r: "reachable 40 ?path empty_fs (update (start_world empty_fs) 3 s')"
    by (rule reachable.step [OF reachable.start])
  have n: "cells (update (start_world empty_fs) 3 s') 3 \<noteq> None" using c by (simp add: update_def)
  from api_invariant [OF r d n] r n show ?thesis by blast
qed



text \<open>
  C38: a failure of the region lock is reported with the wrong sign. \<open>lock_guard\<close> negates the error
  number and \<open>errno\<close> negates it again, so that a pulse returns a positive code, which no caller of
  an interface of negative error numbers tests for, and a failed sweep returns the error number as
  if it had freed that many objects.
\<close>

theorem lock_failure_positive_code:
  assumes "mapped s i r" "lock_ret os 0 = e" "0 < e" "e \<notin> {EOWNERDEAD, ETIMEDOUT, EINTR}"
  shows "\<exists>s'. ntsync_event_pulse p os h prev s = Some ((e, prev), s') \<and> ntsync_sweep_dead p os s = Some (e, s')"
proof -
  have "lock_guard os 0 (on_lock os r) = Some (Inl (- e))" using assms(2-4) lock_guard_err [of os 0] by auto
  with assms(1) show ?thesis
    by (simp add: ntsync_event_pulse_def event_call_def ntsync_sweep_dead_def call_def with_region_mapped answer_def
        reply_def event_pulse_def sweep_dead_def with_lock_def)
qed

theorem lock_failure_positive_code_witness:
  "let os = (quiet_os 7)\<lparr>lock_ret := \<lambda>_. EINVAL\<rparr>;
       s = \<lparr>cell = Some (Inr 0), fs = one_file ''n'' (fresh_file 40)\<rparr> in
   mapped s 0 fresh_region \<and>
   (\<exists>s'. ntsync_event_pulse (tmp_platform ''/t'') os 5 None s = Some ((22, None), s') \<and>
      ntsync_sweep_dead (tmp_platform ''/t'') os s = Some (22, s'))"
proof -
  let ?os = "(quiet_os 7)\<lparr>lock_ret := \<lambda>_. EINVAL\<rparr>"
  let ?s = "\<lparr>cell = Some (Inr 0), fs = one_file ''n'' (fresh_file 40)\<rparr>"
  have m: "mapped ?s 0 fresh_region" by (simp add: mapped_def fresh_file_def)
  have l: "lock_ret ?os 0 = 22" "(0 :: int) < 22" "(22 :: int) \<notin> {EOWNERDEAD, ETIMEDOUT, EINTR}"
    by (simp_all add: errno_consts)
  from lock_failure_positive_code [OF m l, of "tmp_platform ''/t''" 5 None] m show ?thesis by (simp add: Let_def)
qed

end
