(* ===== verification/Protocol.thy ===== *)
theory Protocol
  imports Wait_Loop
begin

text \<open>
  Sleeping and waking, interleaved. The waiter registers its nodes under the region lock, tries its
  objects one by one while other threads may change them without the lock, samples its futex word
  and parks; a signaler changes an object with one exchange, and only later looks at the list of
  waiters and walks it under the lock. \<open>wait_step\<close> is the step relation of one waiter of any of
  several objects among any number of other threads, its steps carried out by the operations of the
  model. Proved by rule induction: no wakeup is lost (as long as no acquisition is rolled
  back); a rollback loses one, and so does the alert event, which is tested before it is registered on.
\<close>

subsection \<open>The steps\<close>

text \<open>
  Where the waiter is: outside the lock; in the lock, with the alert tested; in the lock, registered,
  with the first objects tried in vain; parked on the sampled word; or done.
\<close>

datatype phase = Outside | Tested | Checking nat | Parked u32 | Finished

text \<open>\<open>owed t\<close> is the object whose waiters thread \<open>t\<close> has still to wake after its exchange.\<close>

record Protocol =
  shared :: Region
  owed :: "nat \<Rightarrow> u32 option"
  phase :: phase

definition unlocked :: "Protocol \<Rightarrow> bool" where
  "unlocked s \<longleftrightarrow> phase s \<noteq> Tested \<and> (\<forall>k. phase s \<noteq> Checking k)"

text \<open>
  The exchanges of the signalling operations, by the type of the object. A mutex is unlocked by a
  thread other than the waiter, which sleeps.
\<close>

inductive signal_body :: "u32 \<Rightarrow> u32 \<Rightarrow> (u64 \<Rightarrow> signal_result decision) \<Rightarrow> bool" for me where
  release: "signal_body me TYPE_SEM (sem_release_body n)"
| set: "signal_body me TYPE_EVENT event_set_body"
| reset: "signal_body me TYPE_EVENT event_reset_body"
| unlock: "owner \<noteq> 0 \<Longrightarrow> owner \<noteq> me \<Longrightarrow> signal_body me TYPE_MUTEX (mutex_unlock_body owner)"
| kill: "owner \<noteq> 0 \<Longrightarrow> signal_body me TYPE_MUTEX (mutex_kill_body owner)"

text \<open>
  \<open>signal\<close>, \<open>skip\<close> and \<open>wake\<close> are the three parts of a signalling operation: the exchange, the
  look at an empty list, and the walk under the lock. \<open>pulse\<close> happens under the lock as a whole.
  \<open>acquire\<close> is another thread that takes an object; \<open>alloc\<close>, \<open>free\<close>, \<open>register\<close> and \<open>detach\<close> are
  other waiters at work on their own nodes. The rest are the steps of the waiter.
\<close>

inductive wait_step :: "WaitArgs \<Rightarrow> u32 list \<Rightarrow> u64 list \<Rightarrow> Protocol \<Rightarrow> Protocol \<Rightarrow> bool" for a ns qs where
  signal: "owed s t = None \<Longrightarrow> slot (shared s) h = Some i \<Longrightarrow>
    signal_body (wait_owner a) (obj_type (slots (shared s) i)) body \<Longrightarrow>
    atomically body i (shared s) = ((res, wake), r) \<Longrightarrow>
    wait_step a ns qs s (s\<lparr>shared := r, owed := (owed s)(t := if wake then Some i else None)\<rparr>)"
| skip: "owed s t = Some i \<Longrightarrow> waiter_head (slots (shared s) i) = NIL \<Longrightarrow>
    wait_step a ns qs s (s\<lparr>owed := (owed s)(t := None)\<rparr>)"
| wake: "owed s t = Some i \<Longrightarrow> unlocked s \<Longrightarrow> wake_object os (shared s) i = Some r \<Longrightarrow>
    wait_step a ns qs s (s\<lparr>shared := r, owed := (owed s)(t := None)\<rparr>)"
| pulse: "unlocked s \<Longrightarrow> undisturbed os \<Longrightarrow> event_pulse os (shared s) h = Some (res, r) \<Longrightarrow>
    wait_step a ns qs s (s\<lparr>shared := r\<rparr>)"
| acquire: "undisturbed os \<Longrightarrow> owner \<noteq> 0 \<Longrightarrow> owner \<noteq> wait_owner a \<Longrightarrow> slot (shared s) h = Some i \<Longrightarrow>
    try_acquire os (shared s) i owner q = Some (got, r) \<Longrightarrow>
    wait_step a ns qs s (s\<lparr>shared := r\<rparr>)"
| alloc: "unlocked s \<Longrightarrow> node_alloc os (shared s) = (got, r) \<Longrightarrow>
    wait_step a ns qs s (s\<lparr>shared := r\<rparr>)"
| free: "unlocked s \<Longrightarrow> x \<notin> set ns \<Longrightarrow> held (shared s) x \<Longrightarrow> registered (nodes (shared s) x) = 0 \<Longrightarrow>
    wait_step a ns qs s (s\<lparr>shared := node_free (shared s) x\<rparr>)"
| register: "unlocked s \<Longrightarrow> x \<notin> set ns \<Longrightarrow> held (shared s) x \<Longrightarrow> registered (nodes (shared s) x) = 0 \<Longrightarrow>
    slot (shared s) h = Some i \<Longrightarrow> held (shared s) word \<Longrightarrow> word \<notin> set ns \<Longrightarrow>
    wait_step a ns qs s (s\<lparr>shared := node_register (shared s) x i word\<rparr>)"
| detach: "unlocked s \<Longrightarrow> x \<notin> set ns \<Longrightarrow>
    wait_step a ns qs s (s\<lparr>shared := node_detach (shared s) x\<rparr>)"
| test: "phase s = Outside \<Longrightarrow>
    wait_step a ns qs s (s\<lparr>phase := if alert_signaled (shared s) (wait_alert a) then Finished else Tested\<rparr>)"
| enlist: "phase s = Tested \<Longrightarrow>
    wait_step a ns qs s (s\<lparr>shared := register_all (ns ! 0) (shared s) ns (targets a), phase := Checking 0\<rparr>)"
| check: "phase s = Checking k \<Longrightarrow> k < length (wait_handles a) \<Longrightarrow> undisturbed os \<Longrightarrow>
    try_acquire os (shared s) (idx (wait_handles a ! k)) (wait_owner a) (qs ! k) = Some (got, r) \<Longrightarrow>
    wait_step a ns qs s (s\<lparr>shared := r, phase := if got = None then Checking (Suc k) else Finished\<rparr>)"
| park: "phase s = Checking (length (wait_handles a)) \<Longrightarrow>
    wait_step a ns qs s (s\<lparr>phase := Parked (seq (nodes (shared s) (ns ! 0)))\<rparr>)"
| unpark: "phase s = Parked v \<Longrightarrow>
    wait_step a ns qs s (s\<lparr>shared := fold (\<lambda>x r. node_detach r x) ns (shared s), phase := Outside\<rparr>)"

inductive_cases wait_stepE: "wait_step a ns qs s s'"

subsection \<open>The invariant\<close>

text \<open>The waiter's nodes are its own: it holds them, and no other node wakes its futex word.\<close>

definition own_nodes :: "WaitArgs \<Rightarrow> u32 list \<Rightarrow> Region \<Rightarrow> bool" where
  "own_nodes a ns r \<longleftrightarrow> ns \<noteq> [] \<and> (\<exists>Q F. region_rep r Q F \<and> owns r F ns (targets a)) \<and>
     (\<forall>x. registered (nodes r x) \<noteq> 0 \<and> x \<notin> set ns \<longrightarrow> wait_word (nodes r x) \<noteq> ns ! 0) \<and>
     (\<forall>h\<in>set (targets a). slot r h \<noteq> None)"

definition off_list :: "Region \<Rightarrow> u32 list \<Rightarrow> nat" where
  "off_list r ns = card {x \<in> set ns. registered (nodes r x) = 0}"

text \<open>Every one of the first \<open>k\<close> objects that the waiter could take has a thread that will wake its waiters.\<close>

definition promised :: "WaitArgs \<Rightarrow> u64 list \<Rightarrow> nat \<Rightarrow> Protocol \<Rightarrow> bool" where
  "promised a qs k s \<longleftrightarrow> (\<forall>j<k. is_locked (slots (shared s) (idx (wait_handles a ! j))) (wait_owner a) (qs ! j) \<longrightarrow>
     (\<exists>t. owed s t = Some (idx (wait_handles a ! j))))"

definition no_loss :: "WaitArgs \<Rightarrow> u32 list \<Rightarrow> u64 list \<Rightarrow> Protocol \<Rightarrow> bool" where
  "no_loss a ns qs s \<longleftrightarrow> own_nodes a ns (shared s) \<and>
     (\<forall>t i. owed s t = Some i \<longrightarrow> state (slots (shared s) i) = SLOT_USED) \<and>
     (case phase s of
        Checking k \<Rightarrow> k \<le> length (wait_handles a) \<and> off_list (shared s) ns = 0 \<and> promised a qs k s
      | Parked v \<Rightarrow> seq (nodes (shared s) (ns ! 0)) = v + of_nat (off_list (shared s) ns) \<and>
          (off_list (shared s) ns = 0 \<longrightarrow> promised a qs (length (wait_handles a)) s)
      | _ \<Rightarrow> True)"

subsection \<open>Exchanges\<close>

lemma signal_body_ok: "signal_body me ty body \<Longrightarrow> word_update (word_ok ty) body"
  by (induction rule: signal_body.induct)
    (use body_ok mutex_unlock_keeps mutex_kill_keeps in \<open>auto simp: word_ok_types\<close>)

text \<open>An exchange that wakes nobody, and an acquisition by another thread, make no object takable.\<close>

lemma signal_silent:
  assumes "signal_body me (obj_type s) body" "body (w0 s) = Swap w (res, False)"
    and "is_locked (s\<lparr>w0 := w\<rparr>) me q"
  shows "is_locked s me q"
  using assms
  by (cases rule: signal_body.cases)
    (auto simp: sem_release_body_def event_set_body_def event_reset_body_def mutex_unlock_body_def mutex_kill_body_def
      is_locked_def Let_def type_consts lo32_clear_low split: option.splits if_splits)

lemma grant_silent:
  assumes "grant s owner q' = Some (od, w)" "owner \<noteq> 0" "owner \<noteq> me" "word_ok (obj_type s) (w0 s)"
    and l: "is_locked (s\<lparr>w0 := w\<rparr>) me q"
  shows "is_locked s me q"
proof (cases s rule: object_type_cases)
  case mutex
  then have "mutex_ok (w0 s)" using assms(4) by simp
  with assms mutex show ?thesis by (auto simp: grant_mutex is_locked_def Let_def type_consts split: if_splits)
qed (use assms in \<open>auto simp: grant_sem grant_event grant_other is_locked_def Let_def type_consts lo32_clear_low word_gt_0
      split: if_splits\<close>)

subsection \<open>Steps that change object words only\<close>

lemma own_nodesD:
  assumes "own_nodes a ns r"
  obtains Q F where "region_rep r Q F" "owns r F ns (targets a)"
  using assms by (auto simp: own_nodes_def)

lemma own_nodes_words:
  assumes "own_nodes a ns r" "\<And>Q F. region_rep r Q F \<Longrightarrow> region_rep r' Q F" "words_only r r'"
  shows "own_nodes a ns r'"
proof -
  have n: "nodes r' = nodes r" "header r' = header r" using assms(3) by (auto simp: words_only_def)
  show ?thesis
    using assms(1,2) unfolding own_nodes_def n(1) owns_cong [OF n] words_only_slot [OF assms(3)] by blast
qed

lemma own_nodes_word_ok:
  "own_nodes a ns r \<Longrightarrow> slot r h = Some i \<Longrightarrow> word_ok (obj_type (slots r i)) (w0 (slots r i))"
  by (auto elim!: own_nodesD simp: region_word slot_Some_iff)

lemma own_nodes_put_word:
  assumes "own_nodes a ns r" "slot r h = Some i" "word_ok (obj_type (slots r i)) w"
  shows "own_nodes a ns (put_word r i w)"
  by (rule own_nodes_words [OF assms(1) region_rep_put_word]) (use assms(3) in auto)

lemma off_list_nodes: "nodes r' = nodes r \<Longrightarrow> off_list r' ns = off_list r ns"
  by (simp add: off_list_def)

lemma put_word_nodes [simp]: "nodes (put_word r i w) = nodes r"
  by (simp add: put_word_def)

text \<open>The invariant after a step that left the nodes and the phase alone.\<close>

lemma no_loss_words:
  assumes "no_loss a ns qs s" "own_nodes a ns r" "nodes r = nodes (shared s)"
    and st: "\<And>i. state (slots r i) = state (slots (shared s) i)"
      "\<And>t i. ow t = Some i \<Longrightarrow> owed s t = Some i \<or> state (slots (shared s) i) = SLOT_USED"
    and p: "\<And>k. off_list r ns = 0 \<Longrightarrow> k \<le> length (wait_handles a) \<Longrightarrow> promised a qs k s \<Longrightarrow>
      promised a qs k (s\<lparr>shared := r, owed := ow\<rparr>)"
  shows "no_loss a ns qs (s\<lparr>shared := r, owed := ow\<rparr>)"
proof -
  have "\<forall>t i. ow t = Some i \<longrightarrow> state (slots r i) = SLOT_USED"
    using assms(1) st unfolding no_loss_def by metis
  then show ?thesis
    using assms(1,2) p off_list_nodes [OF assms(3), of ns] by (auto simp: no_loss_def assms(3) split: phase.splits)
qed

lemma no_loss_signal:
  assumes s: "no_loss a ns qs s" and t: "owed s t = None" and i: "slot (shared s) h = Some i"
    and b: "signal_body (wait_owner a) (obj_type (slots (shared s) i)) body"
    and at: "atomically body i (shared s) = ((res, wake), r)"
  shows "no_loss a ns qs (s\<lparr>shared := r, owed := (owed s)(t := if wake then Some i else None)\<rparr>)"
proof -
  let ?r = "shared s"
  have o: "own_nodes a ns ?r" using s by (simp add: no_loss_def)
  note ok = own_nodes_word_ok [OF o i]
  have r: "(\<exists>w. body (w0 (slots ?r i)) = Swap w (res, wake) \<and> r = put_word ?r i w) \<or>
      (body (w0 (slots ?r i)) = Ret (res, wake) \<and> r = ?r)"
    using at by (auto simp: atomically_def split: decision.splits)
  have o': "own_nodes a ns r"
    using r o own_nodes_put_word [OF o i word_update.keeps [OF signal_body_ok [OF b] ok]] by auto
  have quiet: "\<not> wake \<Longrightarrow> is_locked (slots r j) me q \<Longrightarrow> me = wait_owner a \<Longrightarrow> is_locked (slots ?r j) me q" for j me q
    using r signal_silent [OF b, of _ res q] by (cases "j = i") (auto simp: slots_put_word_here)
  have other: "j \<noteq> i \<Longrightarrow> slots r j = slots ?r j" for j using r by auto
  show ?thesis
  proof (rule no_loss_words [OF s o'])
    show "nodes r = nodes ?r" "\<And>j. state (slots r j) = state (slots ?r j)" using r by auto
    show "((owed s)(t := if wake then Some i else None)) u = Some j \<Longrightarrow>
        owed s u = Some j \<or> state (slots ?r j) = SLOT_USED" for u j
      using i by (auto simp: slot_Some_iff split: if_splits)
    fix k assume p: "promised a qs k s"
    show "promised a qs k (s\<lparr>shared := r, owed := (owed s)(t := if wake then Some i else None)\<rparr>)"
      unfolding promised_def
    proof (intro allI impI)
      fix j let ?i = "idx (wait_handles a ! j)"
      assume j: "j < k" and l: "is_locked (slots (shared (s\<lparr>shared := r, owed := (owed s)(t := if wake then Some i else None)\<rparr>)) ?i)
        (wait_owner a) (qs ! j)"
      have "is_locked (slots ?r ?i) (wait_owner a) (qs ! j)" if "\<not> (wake \<and> ?i = i)"
        using that l quiet other [of ?i] by auto
      then have "\<not> (wake \<and> ?i = i) \<Longrightarrow> \<exists>u. u \<noteq> t \<and> owed s u = Some ?i"
        using p j t unfolding promised_def by (metis option.distinct(1))
      then show "\<exists>u. owed (s\<lparr>shared := r, owed := (owed s)(t := if wake then Some i else None)\<rparr>) u = Some ?i"
        using t by (cases "wake \<and> ?i = i") auto
    qed
  qed
qed

lemma no_loss_acquire:
  assumes s: "no_loss a ns qs s" and os: "undisturbed os" "owner \<noteq> 0" "owner \<noteq> wait_owner a"
    and i: "slot (shared s) h = Some i" and t: "try_acquire os (shared s) i owner q = Some (got, r)"
  shows "no_loss a ns qs (s\<lparr>shared := r\<rparr>)"
proof -
  let ?r = "shared s"
  have o: "own_nodes a ns ?r" using s by (simp add: no_loss_def)
  note ok = own_nodes_word_ok [OF o i]
  have r: "r = ?r \<or> (\<exists>od w. grant (slots ?r i) owner q = Some (od, w) \<and> r = put_word ?r i w)"
    using t by (auto simp: try_acquire_undisturbed [OF os(1)] split: option.splits)
  have o': "own_nodes a ns r" using r o own_nodes_put_word [OF o i grant_nt(2) [OF ok os(2)]] by auto
  have quiet: "is_locked (slots r j) (wait_owner a) q' \<Longrightarrow> is_locked (slots ?r j) (wait_owner a) q'" for j q'
    using r grant_silent [OF _ os(2,3) ok] by (cases "j = i") (auto simp: slots_put_word_here)
  have "no_loss a ns qs (s\<lparr>shared := r, owed := owed s\<rparr>)"
    by (rule no_loss_words [OF s o']) (use r quiet in \<open>auto simp: promised_def\<close>)
  then show ?thesis by simp
qed

subsection \<open>Steps that wake\<close>

lemma card_off_list:
  assumes "\<forall>y. registered (nodes r' y) = (if y \<in> X then 0 else registered (nodes r y))"
    and "\<forall>x\<in>X. registered (nodes r x) \<noteq> 0"
  shows "off_list r' ns = off_list r ns + card (set ns \<inter> X)"
proof -
  have "{x \<in> set ns. registered (nodes r' x) = 0} = {x \<in> set ns. registered (nodes r x) = 0} \<union> (set ns \<inter> X)"
    using assms(1) by auto
  moreover have "{x \<in> set ns. registered (nodes r x) = 0} \<inter> (set ns \<inter> X) = {}" using assms(2) by auto
  ultimately show ?thesis unfolding off_list_def by (simp add: card_Un_disjoint)
qed

lemma count_list_map: "distinct xs \<Longrightarrow> count_list (map f xs) y = card {x \<in> set xs. f x = y}"
proof (induction xs)
  case (Cons z xs)
  have "{x \<in> set (z # xs). f x = y} = (if f z = y then insert z {x \<in> set xs. f x = y} else {x \<in> set xs. f x = y})"
    by auto
  with Cons show ?case by auto
qed simp

lemma is_locked_bare: "is_locked (bare r j) me q = is_locked (slots r j) me q"
  by (simp only: is_locked_def bare_sel)

lemma own_nodes_woken:
  assumes o: "own_nodes a ns r" and R: "region_rep r Q F" and ow: "owns r F ns (targets a)"
    and R': "region_rep r' (Q(i := [])) F" and wk: "woken r0 (Q i) r'" and n: "nodes r0 = nodes r" "core r0 = core r"
    and sl: "\<forall>h\<in>set (targets a). slot r' h \<noteq> None"
  shows "own_nodes a ns r'" "off_list r' ns = off_list r ns + card (set ns \<inter> set (Q i))"
    "seq (nodes r' (ns ! 0)) = seq (nodes r (ns ! 0)) + of_nat (card (set ns \<inter> set (Q i)))"
proof -
  have reg: "\<forall>y. registered (nodes r' y) = (if y \<in> set (Q i) then 0 else registered (nodes r y))"
    and ww: "\<And>y. wait_word (nodes r' y) = wait_word (nodes r y)" and c: "core r' = core r"
    using wk n by (simp_all add: woken_def)
  have "owns r' F ns (targets a)" by (rule woken_owns [OF R R' _ wk n ow]) simp
  with R' o sl reg show "own_nodes a ns r'" unfolding own_nodes_def ww by (metis (lifting))
  have xs: "\<forall>x\<in>set (Q i). registered (nodes r x) \<noteq> 0" using pool_member [OF region_pool [OF R]] by simp
  show "off_list r' ns = off_list r ns + card (set ns \<inter> set (Q i))" by (rule card_off_list [OF reg xs])
  have "wait_word (nodes r x) = ns ! 0 \<longleftrightarrow> x \<in> set ns" if "x \<in> set (Q i)" for x
  proof -
    have reg: "registered (nodes r x) \<noteq> 0" using xs that by blast
    then have "x \<notin> set ns \<Longrightarrow> wait_word (nodes r x) \<noteq> ns ! 0" using o by (simp add: own_nodes_def)
    moreover have "wait_word (nodes r x) = ns ! 0" if "x \<in> set ns"
      using that reg ow unfolding owns_def in_set_conv_nth by metis
    ultimately show ?thesis by blast
  qed
  then have "{x \<in> set (Q i). wait_word (nodes r x) = ns ! 0} = set ns \<inter> set (Q i)" by auto
  moreover have "count_list (map (\<lambda>x. wait_word (nodes r x)) (Q i)) (ns ! 0) =
      card {x \<in> set (Q i). wait_word (nodes r x) = ns ! 0}"
    by (rule count_list_map [OF pool_distinct [OF region_pool [OF R]]])
  ultimately show "seq (nodes r' (ns ! 0)) = seq (nodes r (ns ! 0)) + of_nat (card (set ns \<inter> set (Q i)))"
    using wk n by (simp add: woken_def)
qed

text \<open>A registered node of the waiter is on the list of its object.\<close>

lemma listed:
  assumes "region_rep r Q F" "owns r F ns (targets a)" "off_list r ns = 0" "j < length (wait_handles a)"
  shows "ns ! j \<in> set ns \<inter> set (Q (idx (wait_handles a ! j)))"
proof -
  have "finite {x \<in> set ns. registered (nodes r x) = 0}" by simp
  then have "\<forall>x\<in>set ns. registered (nodes r x) \<noteq> 0" using assms(3) by (auto simp: off_list_def)
  moreover have "j < length ns" using assms(2,4) by (auto simp: owns_def)
  ultimately show ?thesis
    using assms(2,4) pool_member [OF region_pool [OF assms(1)]] by (auto simp: owns_def nth_append)
qed

lemma no_loss_woken:
  assumes s: "no_loss a ns qs s" and u: "unlocked s"
    and R: "region_rep (shared s) Q F" and ow: "owns (shared s) F ns (targets a)"
    and R': "region_rep r (Q(i := [])) F" and wk: "woken r0 (Q i) r"
    and n: "nodes r0 = nodes (shared s)" "core r0 = core (shared s)"
    and sl: "\<forall>h\<in>set (targets a). slot r h \<noteq> None"
    and same: "\<And>j. j \<noteq> i \<Longrightarrow> bare r j = bare (shared s) j"
    and kept: "\<And>t j. j \<noteq> i \<Longrightarrow> owed s t = Some j \<Longrightarrow> ow' t = Some j"
    and st: "\<And>j. state (slots r j) = state (slots (shared s) j)" "\<And>t j. ow' t = Some j \<Longrightarrow> owed s t = Some j"
  shows "no_loss a ns qs (s\<lparr>shared := r, owed := ow'\<rparr>)"
proof -
  have o: "own_nodes a ns (shared s)" using s by (simp add: no_loss_def)
  note w = own_nodes_woken [OF o R ow R' wk n sl]
  have "promised a qs (length (wait_handles a)) (s\<lparr>shared := r, owed := ow'\<rparr>)"
    if z: "off_list r ns = 0" and p: "promised a qs (length (wait_handles a)) s"
    unfolding promised_def
  proof (intro allI impI)
    fix j let ?i = "idx (wait_handles a ! j)"
    assume j: "j < length (wait_handles a)"
      and l: "is_locked (slots (shared (s\<lparr>shared := r, owed := ow'\<rparr>)) ?i) (wait_owner a) (qs ! j)"
    have e: "off_list (shared s) ns = 0" "card (set ns \<inter> set (Q i)) = 0" using w(2) z by auto
    have "ns ! j \<in> set ns \<inter> set (Q ?i)" by (rule listed [OF R ow e(1) j])
    with e(2) have i: "?i \<noteq> i" by auto
    have "is_locked (slots (shared s) ?i) (wait_owner a) (qs ! j)"
      using l same [OF i] by (simp flip: is_locked_bare)
    with p j kept [OF i] show "\<exists>t. owed (s\<lparr>shared := r, owed := ow'\<rparr>) t = Some ?i" by (auto simp: promised_def)
  qed
  moreover have "\<forall>t i. ow' t = Some i \<longrightarrow> state (slots r i) = SLOT_USED"
    using s st unfolding no_loss_def by metis
  ultimately show ?thesis using s u w by (auto simp: no_loss_def unlocked_def split: phase.splits)
qed

lemma slot_woken: "woken r xs r' \<Longrightarrow> slot r' h = slot r h"
  by (rule slot_bare) (rule woken_bare)

lemma no_loss_wake:
  assumes s: "no_loss a ns qs s" and t: "owed s t = Some i" and u: "unlocked s"
    and w: "wake_object os (shared s) i = Some r"
  shows "no_loss a ns qs (s\<lparr>shared := r, owed := (owed s)(t := None)\<rparr>)"
proof -
  let ?r = "shared s"
  have o: "own_nodes a ns ?r" using s by (simp add: no_loss_def)
  then obtain Q F where R: "region_rep ?r Q F" and ow: "owns ?r F ns (targets a)" by (rule own_nodesD)
  have sl: "\<forall>h\<in>set (targets a). slot ?r h \<noteq> None" using o by (simp add: own_nodes_def)
  have "state (slots ?r i) = SLOT_USED" using s t by (simp add: no_loss_def)
  then obtain r' where r': "wake_object os ?r i = Some r'" "pool_rep r' (Q(i := [])) F" "woken ?r (Q i) r'"
    using wake_object_rep [OF region_pool [OF R] region_used_list [OF R], of i] by blast
  with w have wk: "woken ?r (Q i) r" and P: "pool_rep r (Q(i := [])) F" by auto
  note b = woken_bare [OF wk]
  show ?thesis
  proof (rule no_loss_woken [OF s u R ow region_rep_woken [OF R P wk] wk])
    show "\<forall>h\<in>set (targets a). slot r h \<noteq> None" using sl by (simp only: slot_woken [OF wk])
    show "((owed s)(t := None)) t' = Some j" if "j \<noteq> i" "owed s t' = Some j" for t' j using that t by auto
  qed (auto simp: b bareD [OF b] split: if_splits)
qed

lemma no_loss_pulse:
  assumes s: "no_loss a ns qs s" and u: "unlocked s" and os: "undisturbed os"
    and e: "event_pulse os (shared s) h = Some (res, r)"
  shows "no_loss a ns qs (s\<lparr>shared := r\<rparr>)"
proof -
  let ?r = "shared s"
  have o: "own_nodes a ns ?r" using s by (simp add: no_loss_def)
  then obtain Q F where R: "region_rep ?r Q F" and ow: "owns ?r F ns (targets a)" by (rule own_nodesD)
  have "no_loss a ns qs (s\<lparr>shared := r, owed := owed s\<rparr>)"
  proof (cases "slot_of_type ?r h TYPE_EVENT")
    case (Inl err)
    then have "slot_of_type (lock_mark os ?r) h TYPE_EVENT = Inl err" by (simp add: slot_of_type_def)
    with e os have r: "r = guard_drop (lock_mark os ?r)" by (simp add: event_pulse_def with_lock_undisturbed)
    have "own_nodes a ns r" using o unfolding r by (simp add: own_nodes_def owns_def node_held_def)
    then show ?thesis by (rule no_loss_words [OF s]) (auto simp: r promised_def)
  next
    case (Inr i)
    let ?c = "upd_slot ?r i (\<lambda>s. s\<lparr>pulse_seq := pulse_seq s + 1, w0 := clear_low (w0 s)\<rparr>)"
    obtain r' where r': "event_pulse os ?r h = Some (Inr (lo32 (w0 (slots ?r i))), r')" "region_rep r' (Q(i := [])) F"
      "woken ?c (Q i) r'" by (rule event_pulse_run [OF os R Inr]) blast
    with e have R': "region_rep r (Q(i := [])) F" and wk: "woken ?c (Q i) r" by auto
    note b = woken_bare [OF wk]
    have sl: "slot r h = slot ?r h" for h unfolding slot_woken [OF wk] by (rule slot_cong) auto
    show ?thesis
      by (rule no_loss_woken [OF s u R ow R' wk])
        (use o sl in \<open>auto simp: own_nodes_def b bareD [OF b] bare_def core_def\<close>)
  qed
  then show ?thesis by simp
qed

subsection \<open>Steps of the other waiters\<close>

lemma no_loss_foreign:
  assumes s: "no_loss a ns qs s" and o: "own_nodes a ns r" and b: "bare r = bare (shared s)"
    and n: "\<And>x. x \<in> set ns \<Longrightarrow> registered (nodes r x) = registered (nodes (shared s) x) \<and> seq (nodes r x) = seq (nodes (shared s) x)"
  shows "no_loss a ns qs (s\<lparr>shared := r\<rparr>)"
proof -
  have "ns ! 0 \<in> set ns" using o by (simp add: own_nodes_def)
  moreover have "off_list r ns = off_list (shared s) ns" unfolding off_list_def using n by (metis (lifting))
  moreover have "promised a qs k (s\<lparr>shared := r\<rparr>) = promised a qs k s" for k
    by (simp add: promised_def b flip: is_locked_bare)
  ultimately show ?thesis using s o n by (auto simp: no_loss_def bareD [OF b] split: phase.splits)
qed

lemma own_nodes_foreign:
  assumes o: "own_nodes a ns r" and R: "region_rep r' Q' F'" and h: "\<And>x. x \<in> set ns \<Longrightarrow> held r x \<Longrightarrow> held r' x"
    and b: "bare r' = bare r"
    and n: "\<And>x. x \<in> set ns \<Longrightarrow> registered (nodes r' x) = registered (nodes r x) \<and> obj (nodes r' x) = obj (nodes r x) \<and>
      wait_word (nodes r' x) = wait_word (nodes r x)"
    and w: "\<And>x. x \<notin> set ns \<Longrightarrow> registered (nodes r' x) \<noteq> 0 \<Longrightarrow> registered (nodes r x) \<noteq> 0 \<and> wait_word (nodes r' x) = wait_word (nodes r x) \<or>
      wait_word (nodes r' x) \<noteq> ns ! 0"
  shows "own_nodes a ns r'"
proof -
  from o obtain Q F where R0: "region_rep r Q F" and ow: "owns r F ns (targets a)" by (rule own_nodesD)
  have "owns r' F' ns (targets a)"
    using ow h n held_iff [OF region_pool [OF R0]] held_iff [OF region_pool [OF R]] by (auto simp: owns_def)
  with R have "\<exists>Q F. region_rep r' Q F \<and> owns r' F ns (targets a)" by blast
  moreover have "\<forall>x. registered (nodes r' x) \<noteq> 0 \<and> x \<notin> set ns \<longrightarrow> wait_word (nodes r' x) \<noteq> ns ! 0"
    using o w unfolding own_nodes_def by (metis (no_types))
  ultimately show ?thesis using o slot_bare [OF b] by (simp add: own_nodes_def)
qed

lemma no_loss_alloc:
  assumes s: "no_loss a ns qs s" and al: "node_alloc os (shared s) = (got, r)"
  shows "no_loss a ns qs (s\<lparr>shared := r\<rparr>)"
proof (cases got)
  case None
  have o: "own_nodes a ns (shared s)" using s by (simp add: no_loss_def)
  then obtain Q F where R: "region_rep (shared s) Q F" by (rule own_nodesD)
  then have "r = shared s" using node_alloc_None(2) [OF region_pool, of "shared s" Q F os] al None by simp
  with s show ?thesis by simp
next
  case (Some x)
  note al' = al [unfolded Some]
  have o: "own_nodes a ns (shared s)" using s by (simp add: no_loss_def)
  then obtain Q F where R: "region_rep (shared s) Q F" and ow: "owns (shared s) F ns (targets a)" by (rule own_nodesD)
  note R' = region_rep_alloc [OF R al'] and nds = node_alloc_nodes [OF al']
  have h: "y \<noteq> x \<and> held r y" if "held (shared s) y" for y
    using that node_alloc_rep(6) [OF region_pool [OF R] al'] held_iff [OF region_pool [OF R]] held_iff [OF region_pool [OF R']] by blast
  have x: "x \<notin> set ns" using h ow held_iff [OF region_pool [OF R]] by (auto simp: owns_def)
  have "own_nodes a ns r"
    by (rule own_nodes_foreign [OF o R']) (use x h node_alloc_frame(3) [OF al'] in \<open>auto simp: nds split: if_splits\<close>)
  then show ?thesis
    by (rule no_loss_foreign [OF s]) (use x node_alloc_frame(3) [OF al'] in \<open>auto simp: nds split: if_splits\<close>)
qed

lemma no_loss_free:
  assumes s: "no_loss a ns qs s" and x: "x \<notin> set ns" "held (shared s) x" "registered (nodes (shared s) x) = 0"
  shows "no_loss a ns qs (s\<lparr>shared := node_free (shared s) x\<rparr>)"
proof -
  let ?r = "node_free (shared s) x"
  have o: "own_nodes a ns (shared s)" using s by (simp add: no_loss_def)
  then obtain Q F where R: "region_rep (shared s) Q F" by (rule own_nodesD)
  note H = held_iff [OF region_pool [OF R]]
  have P: "pool_rep ?r Q (x # F)" by (rule node_free_rep [OF region_pool [OF R]]) (use x H in auto)
  have R': "region_rep ?r Q (x # F)"
    by (rule region_rep_frame [OF R P]) (use region_queued [OF R] region_word [OF R] in auto)
  have "own_nodes a ns ?r"
    by (rule own_nodes_foreign [OF o R']) (use x held_iff [OF P] H in \<open>auto simp: node_held_free\<close>)
  then show ?thesis by (rule no_loss_foreign [OF s]) simp_all
qed

lemma no_loss_register:
  assumes s: "no_loss a ns qs s" and x: "x \<notin> set ns" "held (shared s) x" "registered (nodes (shared s) x) = 0"
    and i: "slot (shared s) h = Some i" and w: "held (shared s) word" "word \<notin> set ns"
  shows "no_loss a ns qs (s\<lparr>shared := node_register (shared s) x i word\<rparr>)"
proof -
  let ?r = "node_register (shared s) x i word"
  have o: "own_nodes a ns (shared s)" using s by (simp add: no_loss_def)
  then obtain Q F where R: "region_rep (shared s) Q F" by (rule own_nodesD)
  note H = held_iff [OF region_pool [OF R]]
  have e: "register_if_off word (shared s) x h = ?r" using x(3) i by (auto simp: register_if_off_def slot_Some_iff)
  obtain Q' where R': "region_rep ?r Q' F"
    using register_if_off_rep [OF R _ i, of x word] x(2) w(1) H unfolding e by (auto simp: node_held_def)
  have "ns ! 0 \<in> set ns" using o by (simp add: own_nodes_def)
  with w(2) have "word \<noteq> ns ! 0" by auto
  then have "own_nodes a ns ?r"
    by (intro own_nodes_foreign [OF o R'])
      (use x held_iff [OF region_pool [OF R']] H in \<open>auto simp: node_held_def split: if_splits\<close>)
  then show ?thesis by (rule no_loss_foreign [OF s]) (use x in auto)
qed

lemma no_loss_detach:
  assumes s: "no_loss a ns qs s" and x: "x \<notin> set ns"
  shows "no_loss a ns qs (s\<lparr>shared := node_detach (shared s) x\<rparr>)"
proof -
  let ?r = "node_detach (shared s) x"
  have o: "own_nodes a ns (shared s)" using s by (simp add: no_loss_def)
  then obtain Q F where R: "region_rep (shared s) Q F" by (rule own_nodesD)
  have R': "region_rep ?r (\<lambda>i. filter (\<lambda>y. y \<notin> set [x]) (Q i)) F" using region_rep_detach_all [OF R, of "[x]"] by simp
  have obj: "obj (nodes ?r y) = obj (nodes (shared s) y)" if "y \<in> set ns" for y using that x by (intro node_detach_sel) auto
  have "own_nodes a ns ?r"
    by (rule own_nodes_foreign [OF o R'])
      (use x obj held_iff [OF region_pool [OF R']] held_iff [OF region_pool [OF R]] in
        \<open>auto simp: node_held_def split: if_splits\<close>)
  then show ?thesis by (rule no_loss_foreign [OF s]) (use x in auto)
qed

subsection \<open>Steps of the waiter\<close>

lemma register_all_other:
  "y \<notin> set ns \<Longrightarrow> registered (nodes (register_all head r ns hs) y) = registered (nodes r y) \<and>
   wait_word (nodes (register_all head r ns hs) y) = wait_word (nodes r y)"
  by (induction head r ns hs rule: register_all.induct) auto

lemma no_loss_enlist:
  assumes s: "no_loss a ns qs s" and a: "args_ok a"
  shows "no_loss a ns qs (s\<lparr>shared := register_all (ns ! 0) (shared s) ns (targets a), phase := Checking 0\<rparr>)"
proof -
  let ?r = "register_all (ns ! 0) (shared s) ns (targets a)"
  have o: "own_nodes a ns (shared s)" using s by (simp add: no_loss_def)
  then obtain Q F where R: "region_rep (shared s) Q F" and ow: "owns (shared s) F ns (targets a)" by (rule own_nodesD)
  have v: "\<forall>h\<in>set (targets a). \<exists>i. slot (shared s) h = Some i" using o by (auto simp: own_nodes_def)
  have ne: "targets a \<noteq> []" using a by (simp add: args_ok_def)
  obtain Q' where q: "region_rep ?r Q' F" "armed ?r Q' ns (targets a)" "owns ?r F ns (targets a)"
    "bare ?r = bare (shared s)" by (rule register_all_armed [OF R ow ne v])
  have reg: "\<forall>x\<in>set ns. registered (nodes ?r x) \<noteq> 0"
  proof
    fix x assume "x \<in> set ns"
    then obtain k where "k < length (targets a)" "x = ns ! k" using q(2) by (auto simp: armed_def in_set_conv_nth)
    with q(2) have "x \<in> set (Q' (idx (targets a ! k)))" by (simp add: armed_def)
    then show "registered (nodes ?r x) \<noteq> 0" using pool_member [OF region_pool [OF q(1)]] by simp
  qed
  have "\<exists>Q F. region_rep ?r Q F \<and> owns ?r F ns (targets a)" using q(1,3) by blast
  moreover have "wait_word (nodes ?r x) \<noteq> ns ! 0" if "registered (nodes ?r x) \<noteq> 0" "x \<notin> set ns" for x
    using that o by (simp add: register_all_other own_nodes_def)
  ultimately have "own_nodes a ns ?r" using o unfolding own_nodes_def slot_bare [OF q(4)] by blast
  moreover have "off_list ?r ns = 0" using reg by (auto simp: off_list_def)
  ultimately show ?thesis using s by (simp add: no_loss_def promised_def bareD [OF q(4)])
qed

lemma no_loss_check:
  assumes s: "no_loss a ns qs s" and p: "phase s = Checking k" and k: "k < length (wait_handles a)"
    and a: "args_ok a" and os: "undisturbed os"
    and t: "try_acquire os (shared s) (idx (wait_handles a ! k)) (wait_owner a) (qs ! k) = Some (got, r)"
  shows "no_loss a ns qs (s\<lparr>shared := r, phase := if got = None then Checking (Suc k) else Finished\<rparr>)"
proof -
  let ?i = "idx (wait_handles a ! k)" and ?r = "shared s"
  have o: "own_nodes a ns ?r" using s by (simp add: no_loss_def)
  show ?thesis
  proof (cases "grant (slots ?r ?i) (wait_owner a) (qs ! k)")
    case None
    then have g: "got = None" "r = ?r" using t by (auto simp: try_acquire_undisturbed [OF os])
    have "\<not> is_locked (slots ?r ?i) (wait_owner a) (qs ! k)" using None by (simp add: is_locked_grant)
    then have "promised a qs (Suc k) (s\<lparr>phase := Checking (Suc k)\<rparr>)"
      using s p by (auto simp: no_loss_def promised_def less_Suc_eq)
    then show ?thesis using s p k g by (simp add: no_loss_def)
  next
    case (Some g)
    obtain od w where g: "g = (od, w)" by (cases g)
    then have r: "got = Some od" "r = put_word ?r ?i w" using t Some by (auto simp: try_acquire_undisturbed [OF os])
    obtain h where h: "slot ?r h = Some ?i" using o k by (auto simp: own_nodes_def slot_Some_iff)
    have "own_nodes a ns r" unfolding r(2)
      by (rule own_nodes_put_word [OF o h grant_nt(2) [OF own_nodes_word_ok [OF o h] _ Some [unfolded g]]])
        (use a in \<open>simp add: args_ok_def\<close>)
    with s r show ?thesis by (simp add: no_loss_def)
  qed
qed

lemma fold_detach_word: "wait_word (nodes (fold (\<lambda>x r. node_detach r x) ns r) y) = wait_word (nodes r y)"
  by (induction ns arbitrary: r) simp_all

lemma no_loss_unpark:
  assumes s: "no_loss a ns qs s"
  shows "no_loss a ns qs (s\<lparr>shared := fold (\<lambda>x r. node_detach r x) ns (shared s), phase := Outside\<rparr>)"
proof -
  let ?r = "fold (\<lambda>x r. node_detach r x) ns (shared s)"
  have o: "own_nodes a ns (shared s)" using s by (simp add: no_loss_def)
  then obtain Q F where R: "region_rep (shared s) Q F" and ow: "owns (shared s) F ns (targets a)" by (rule own_nodesD)
  note R' = region_rep_detach_all [OF R, of ns]
  have b: "bare ?r = bare (shared s)" by simp
  note ww = fold_detach_word [of ns "shared s"]
  have "owns ?r F ns (targets a)" using ow by (auto simp: owns_def node_held_def)
  with R' have "\<exists>Q F. region_rep ?r Q F \<and> owns ?r F ns (targets a)" by blast
  then have "own_nodes a ns ?r" using o slot_bare [OF b] by (auto simp: own_nodes_def ww split: if_splits)
  with s show ?thesis by (simp add: no_loss_def bareD [OF b])
qed

lemma no_loss_step:
  assumes "wait_step a ns qs s s'" "no_loss a ns qs s" "args_ok a"
  shows "no_loss a ns qs s'"
  using assms
proof (induction rule: wait_step.induct)
  case (skip s t i)
  then have o: "own_nodes a ns (shared s)" by (simp add: no_loss_def)
  then obtain Q F where R: "region_rep (shared s) Q F" and ow: "owns (shared s) F ns (targets a)" by (rule own_nodesD)
  have "state (slots (shared s) i) = SLOT_USED" using skip by (simp add: no_loss_def)
  then have e: "Q i = []" using region_used_list [OF R, of i] skip(2) dseg_NIL_head by metis
  have "no_loss a ns qs (s\<lparr>shared := shared s, owed := (owed s)(t := None)\<rparr>)"
  proof (rule no_loss_words [OF skip.prems(1) o])
    fix k assume k: "off_list (shared s) ns = 0" "k \<le> length (wait_handles a)" "promised a qs k s"
    have "idx (wait_handles a ! j) \<noteq> i" if "j < k" for j
      using listed [OF R ow k(1), of j] that k(2) e by auto
    then show "promised a qs k (s\<lparr>shared := shared s, owed := (owed s)(t := None)\<rparr>)"
      using k(3) skip(1) unfolding promised_def by (force split: if_splits)
  qed (auto split: if_splits)
  then show ?case by simp
next
  case (park s)
  then show ?case by (simp add: no_loss_def promised_def)
next
  case (test s)
  then show ?case by (simp add: no_loss_def)
qed (blast intro: no_loss_signal no_loss_wake no_loss_pulse no_loss_acquire no_loss_alloc no_loss_free no_loss_register
    no_loss_detach no_loss_enlist no_loss_check no_loss_unpark)+

lemma no_loss_reachable:
  assumes "rtranclp (wait_step a ns qs) s0 s" "args_ok a" "own_nodes a ns (shared s0)" "phase s0 = Outside"
    and "\<forall>t. owed s0 t = None"
  shows "no_loss a ns qs s"
  using assms(1)
proof (induction rule: rtranclp_induct)
  case base
  from assms(3-5) show ?case by (simp add: no_loss_def)
next
  case (step s s')
  with no_loss_step assms(2) show ?case by blast
qed

lemma off_list_zero:
  assumes "own_nodes a ns r" "(of_nat (off_list r ns) :: u32) = 0"
  shows "off_list r ns = 0"
proof -
  obtain Q F where R: "region_rep r Q F" and ow: "owns r F ns (targets a)" using assms(1) by (rule own_nodesD)
  have "{x \<in> set ns. registered (nodes r x) = 0} \<subseteq> {x. x < node_fresh (header r)}"
    using ow by (auto simp: owns_def node_held_def)
  then have "off_list r ns \<le> card {x. x < node_fresh (header r)}" unfolding off_list_def by (intro card_mono) auto
  also have "\<dots> \<le> unat (node_fresh (header r))" by (rule card_less_word)
  also have "\<dots> \<le> 8192" using pool_fresh [OF region_pool [OF R]] by (simp add: word_le_nat_alt NODE_COUNT_def)
  finally show ?thesis using assms(2) of_nat_u32_eq_0 [of "off_list r ns"] by auto
qed

lemma owns_armed:
  assumes R: "region_rep r Q F" and ow: "owns r F ns (targets a)" and z: "off_list r ns = 0" and ne: "ns \<noteq> []"
  shows "armed r Q ns (targets a)"
proof -
  have reg: "\<forall>x\<in>set ns. registered (nodes r x) \<noteq> 0" using z by (auto simp: off_list_def)
  have "ns ! k \<in> set (Q (idx (targets a ! k))) \<and> wait_word (nodes r (ns ! k)) = ns ! 0" if "k < length (targets a)" for k
  proof -
    have k: "k < length ns" using ow that by (simp add: owns_def)
    then have g: "registered (nodes r (ns ! k)) \<noteq> 0" using reg by simp
    then have "obj (nodes r (ns ! k)) = idx (targets a ! k) \<and> wait_word (nodes r (ns ! k)) = ns ! 0"
      using ow k unfolding owns_def by blast
    with g show ?thesis using pool_member [OF region_pool [OF R]] by simp
  qed
  with ow ne show ?thesis by (simp add: armed_def owns_def)
qed

subsection \<open>Runs that lose a wakeup\<close>

lemma run_first: "wait_step a ns qs s s1 \<Longrightarrow> rtranclp (wait_step a ns qs) s1 s2 \<Longrightarrow> rtranclp (wait_step a ns qs) s s2"
  by simp

lemma run_last: "rtranclp (wait_step a ns qs) s s1 \<Longrightarrow> wait_step a ns qs s1 s2 \<Longrightarrow> rtranclp (wait_step a ns qs) s s2"
  by simp

lemma register_all_log [simp]: "futex_log (register_all head r ns hs) = futex_log r"
  by (induction head r ns hs rule: register_all.induct) simp_all

lemma check_run:
  assumes "phase s = Checking k" "k + m = length (wait_handles a)"
    and "\<forall>j<length (wait_handles a). \<not> is_locked (slots (shared s) (idx (wait_handles a ! j))) (wait_owner a) (qs ! j)"
  shows "rtranclp (wait_step a ns qs) s (s\<lparr>phase := Checking (length (wait_handles a))\<rparr>)"
  using assms
proof (induction m arbitrary: s k)
  case 0
  then have "s\<lparr>phase := Checking (length (wait_handles a))\<rparr> = s" by simp
  then show ?case by simp
next
  case (Suc m)
  have "grant (slots (shared s) (idx (wait_handles a ! k))) (wait_owner a) (qs ! k) = None"
  proof -
    have "\<not> is_locked (slots (shared s) (idx (wait_handles a ! k))) (wait_owner a) (qs ! k)" using Suc.prems(2,3) by simp
    then show ?thesis by (simp only: is_locked_grant not_not)
  qed
  then have "try_acquire (quiet_os 1) (shared s) (idx (wait_handles a ! k)) (wait_owner a) (qs ! k) = Some (None, shared s)"
    by (simp add: try_acquire_undisturbed)
  from wait_step.check [OF Suc.prems(1) _ undisturbed_quiet this, of ns]
  have "wait_step a ns qs s (s\<lparr>phase := Checking (Suc k)\<rparr>)" using Suc.prems(2) by simp
  moreover have "rtranclp (wait_step a ns qs) (s\<lparr>phase := Checking (Suc k)\<rparr>)
      (s\<lparr>phase := Checking (Suc k), phase := Checking (length (wait_handles a))\<rparr>)"
    by (rule Suc.IH) (use Suc.prems in auto)
  ultimately show ?case by simp
qed

text \<open>A waiter that can take nothing registers, tries everything in vain and parks.\<close>

lemma park_run:
  assumes "phase s = Tested"
    and u: "\<forall>j<length (wait_handles a). \<not> is_locked (slots (shared s) (idx (wait_handles a ! j))) (wait_owner a) (qs ! j)"
  shows "rtranclp (wait_step a ns qs) s (s\<lparr>shared := register_all (ns ! 0) (shared s) ns (targets a),
    phase := Parked (seq (nodes (register_all (ns ! 0) (shared s) ns (targets a)) (ns ! 0)))\<rparr>)"
proof -
  let ?r = "register_all (ns ! 0) (shared s) ns (targets a)" and ?n = "length (wait_handles a)"
  let ?s = "s\<lparr>shared := ?r, phase := Checking 0\<rparr>"
  have "is_locked (slots ?r j) me q = is_locked (slots (shared s) j) me q" for j me q
    by (simp flip: is_locked_bare)
  then have "rtranclp (wait_step a ns qs) ?s (?s\<lparr>phase := Checking ?n\<rparr>)"
    by (intro check_run [of _ 0 ?n]) (use u in auto)
  moreover have "wait_step a ns qs (?s\<lparr>phase := Checking ?n\<rparr>)
      (?s\<lparr>phase := Checking ?n, phase := Parked (seq (nodes (shared (?s\<lparr>phase := Checking ?n\<rparr>)) (ns ! 0)))\<rparr>)"
    by (rule wait_step.park) simp
  moreover have "wait_step a ns qs s ?s" by (rule wait_step.enlist [OF assms(1)])
  ultimately show ?thesis by simp
qed

text \<open>
  The steps of the waiter are the locked section of the wait, cut where other threads can come in:
  when nobody does, a locked section that decides to sleep is such a run.
\<close>

lemma locked_snapshot_again: "locked_snapshot r False k hs qs = (ok, qs') \<Longrightarrow> qs' = qs"
  by (induction r False k hs qs rule: locked_snapshot.induct)
    (auto simp: Let_def split: option.splits if_splits)

lemma wait_locked_run:
  assumes a: "args_ok a" and os: "undisturbed (try_os env)" and o: "own_nodes a ns (shared s)"
    and w: "\<not> wait_for_all a" and p: "phase s = Outside"
    and l: "wait_locked env a (shared s) ns qs = Some (Block v rem, ns', qs', r)"
  shows "ns' = ns \<and> qs' = qs \<and> rtranclp (wait_step a ns qs) s (s\<lparr>shared := r, phase := Parked v\<rparr>)"
proof -
  let ?r = "register_all (ns ! 0) (shared s) ns (targets a)"
  have ne: "(ns = []) = False" using o by (simp add: own_nodes_def)
  obtain ok qs1 where sn: "locked_snapshot (shared s) False 0 (wait_handles a) qs = (ok, qs1)"
    by (cases "locked_snapshot (shared s) False 0 (wait_handles a) qs")
  have q: "qs1 = qs" by (rule locked_snapshot_again [OF sn])
  from l have al: "\<not> alert_signaled (shared s) (wait_alert a)"
    and t: "try_any (try_os env) ?r 0 (wait_handles a) (wait_owner a) qs = Some (None, r)"
    and e: "ns' = ns" "qs' = qs" "v = seq (nodes r (ns ! 0))"
    using w unfolding wait_locked_def
    by (auto simp: ne sn q Let_def try_satisfy_def split: if_splits Option.bind_splits option.splits)
  from o obtain Q F where R: "region_rep (shared s) Q F" and ow: "owns (shared s) F ns (targets a)" by (rule own_nodesD)
  have v: "\<forall>h\<in>set (targets a). \<exists>i. slot (shared s) h = Some i" using o by (auto simp: own_nodes_def)
  have "targets a \<noteq> []" using a by (simp add: args_ok_def)
  then obtain Q' where R': "region_rep ?r Q' F" by (rule register_all_armed [OF R ow _ v])
  have used: "\<forall>h\<in>set (wait_handles a). state (slots ?r (idx h)) = SLOT_USED"
    using v by (auto simp: slot_Some_iff bareD [OF register_all_bare])
  have me: "wait_owner a \<noteq> 0" using a by (simp add: args_ok_def)
  have "r = ?r \<and> (\<forall>k<length (wait_handles a). wait_satisfied (slots ?r (idx (wait_handles a ! k))) (wait_owner a) (qs ! k) = None)"
    using try_any_frame [OF os me R' used, of 0 qs] t by simp
  then have r: "r = ?r" and "\<forall>k<length (wait_handles a). \<not> is_locked (slots ?r (idx (wait_handles a ! k))) (wait_owner a) (qs ! k)"
    using wait_unsatisfied [OF R' _ me] used by (simp_all add: is_locked_grant)
  then have u: "\<forall>k<length (wait_handles a). \<not> is_locked (slots (shared s) (idx (wait_handles a ! k))) (wait_owner a) (qs ! k)"
    by (simp flip: is_locked_bare)
  have st: "wait_step a ns qs s (s\<lparr>phase := Tested\<rparr>)" using wait_step.test [OF p, of a ns qs] al by simp
  have "rtranclp (wait_step a ns qs) (s\<lparr>phase := Tested\<rparr>) (s\<lparr>shared := r, phase := Parked v\<rparr>)"
    using park_run [of "s\<lparr>phase := Tested\<rparr>" a qs ns] u r e(3) by simp
  then show ?thesis using run_first [OF st] e by simp
qed

subsection \<open>Properties\<close>

text \<open>
  C2: no wakeup is lost. In every interleaving of a waiter of any of several objects with other
  threads that signal, pulse, acquire and wait, with the exchange, the look at the waiter list and
  the walk as separate steps: if the waiter is parked, its futex word still has the sampled value
  and one of its objects could be taken, then some thread has still to walk the list of that
  object, it will not find the list empty, and its walk changes the word and wakes the waiter.
\<close>

theorem no_lost_wakeup:
  assumes "rtranclp (wait_step a ns qs) s0 s" "args_ok a" "own_nodes a ns (shared s0)" "phase s0 = Outside"
    and "\<forall>t. owed s0 t = None"
    and "phase s = Parked v" "seq (nodes (shared s) (ns ! 0)) = v" "k < length (wait_handles a)"
    and "wait_satisfied (slots (shared s) (idx (wait_handles a ! k))) (wait_owner a) (qs ! k) \<noteq> None"
  shows "\<exists>t r. owed s t = Some (idx (wait_handles a ! k)) \<and>
    waiter_head (slots (shared s) (idx (wait_handles a ! k))) \<noteq> NIL \<and>
    wake_object os (shared s) (idx (wait_handles a ! k)) = Some r \<and> seq (nodes r (ns ! 0)) \<noteq> v \<and>
    ns ! 0 \<in> set (drop (length (futex_log (shared s))) (futex_log r))"
proof -
  let ?i = "idx (wait_handles a ! k)" and ?r = "shared s"
  have inv: "no_loss a ns qs s" by (rule no_loss_reachable [OF assms(1-5)])
  then have o: "own_nodes a ns ?r" and e: "seq (nodes ?r (ns ! 0)) = v + of_nat (off_list ?r ns)"
    and p: "off_list ?r ns = 0 \<longrightarrow> promised a qs (length (wait_handles a)) s"
    using assms(6) by (simp_all add: no_loss_def)
  have z: "off_list ?r ns = 0" by (rule off_list_zero [OF o]) (use e assms(7) in simp)
  obtain Q F where R: "region_rep ?r Q F" and ow: "owns ?r F ns (targets a)" using o by (rule own_nodesD)
  have used: "state (slots ?r ?i) = SLOT_USED" using o assms(8) by (auto simp: own_nodes_def slot_Some_iff)
  have "is_locked (slots ?r ?i) (wait_owner a) (qs ! k)"
    using assms(2,9) wait_unsatisfied [OF R used, of "wait_owner a" "qs ! k"] by (simp add: is_locked_grant args_ok_def)
  then obtain t where t: "owed s t = Some ?i" using p z assms(8) by (auto simp: promised_def)
  have l: "dseg (nodes ?r) NIL (waiter_head (slots ?r ?i)) (Q ?i) NIL" by (rule region_used_list [OF R used])
  obtain r where w: "wake_object os ?r ?i = Some r" "woken ?r (Q ?i) r"
    using wake_object_rep [OF region_pool [OF R] l] by blast
  have "waiter_head (slots ?r ?i) \<noteq> NIL" using l dseg_NIL_head listed [OF R ow z assms(8)] by fastforce
  moreover have "armed ?r Q ns (targets a)" by (rule owns_armed [OF R ow z]) (use o in \<open>simp add: own_nodes_def\<close>)
  from woken_hits [OF region_pool [OF R] this _ w(2) refl] assms(8)
  have "seq (nodes r (ns ! 0)) \<noteq> seq (nodes ?r (ns ! 0))" "ns ! 0 \<in> set (drop (length (futex_log ?r)) (futex_log r))"
    by auto
  ultimately show ?thesis using t w(1) assms(7) by blast
qed

text \<open>Concrete starting states: a waiter that has just taken its nodes from a pool that nobody else uses.\<close>

abbreviation idle :: "Region \<Rightarrow> Protocol" where
  "idle r \<equiv> \<lparr>shared = r, owed = (\<lambda>_. None), phase = Outside\<rparr>"

lemma allocated_own:
  assumes R: "region_rep r (\<lambda>_. []) F" and al: "alloc_nodes os (length (targets a)) r [] = ((True, ns), r1)"
    and a: "args_ok a" and v: "\<forall>h\<in>set (targets a). slot r h \<noteq> None"
  shows "own_nodes a ns r1"
proof -
  obtain F1 where f: "region_rep r1 (\<lambda>_. []) F1" "slots r1 = slots r" "owns r1 F1 ns (targets a)"
    by (rule nodes_ready [OF R, of "[]" "targets a" os True ns r1]) (use al in auto)
  have "registered (nodes r1 x) = 0" for x using pool_member [OF region_pool [OF f(1)], of x "obj (nodes r1 x)"] by simp
  moreover have "slot r1 h = slot r h" for h by (rule slot_cong) (simp_all add: f(2))
  moreover have "ns \<noteq> []" using f(3) a by (auto simp: owns_def args_ok_def)
  moreover have "\<exists>Q F. region_rep r1 Q F \<and> owns r1 F ns (targets a)" using f by blast
  ultimately show ?thesis using v by (simp add: own_nodes_def)
qed

abbreviation plain_wait :: "u32 list \<Rightarrow> u32 \<Rightarrow> WaitArgs" where
  "plain_wait hs alert \<equiv> \<lparr>wait_handles = hs, wait_owner = 9, wait_deadline = None, wait_for_all = False, wait_alert = alert\<rparr>"

definition one_node :: "u32 \<Rightarrow> u64 \<Rightarrow> Region" where
  "one_node ty w = snd (alloc_nodes (quiet_os 7) 1 (one_object ty w 7) [])"

lemma one_node_slots [simp]: "slots (one_node ty w) = slots (one_object ty w 7)"
  by (simp add: one_node_def node_alloc_def Let_def NODE_COUNT_def word_le_nat_alt)

lemma one_node_own:
  assumes "word_ok ty w"
  shows "own_nodes (plain_wait [1] 0) [0] (one_node ty w)"
proof -
  have "alloc_nodes (quiet_os 7) (Suc 0) (one_object ty w 7) [] = ((True, [0]), one_node ty w)"
    by (simp add: one_node_def node_alloc_def Let_def NODE_COUNT_def word_le_nat_alt)
  then show ?thesis
    by (intro allocated_own [OF one_object_rep]) (use assms in \<open>auto simp: args_ok_def\<close>)
qed

theorem no_lost_wakeup_witness:
  "\<exists>s v t r. rtranclp (wait_step (plain_wait [1] 0) [0] [0]) (idle (one_node TYPE_EVENT (pack_event False True))) s \<and>
     phase s = Parked v \<and> owed s t = Some 1 \<and>
     wake_object (quiet_os 7) (shared s) 1 = Some r \<and> seq (nodes r 0) \<noteq> v \<and>
     0 \<in> set (drop (length (futex_log (shared s))) (futex_log r))"
proof -
  let ?a = "plain_wait [1] 0" and ?n = "one_node TYPE_EVENT (pack_event False True)"
  let ?r = "register_all 0 ?n [0] [1]" and ?v = "seq (nodes (register_all 0 ?n [0] [1]) 0)"
  have i: "idx 1 = (1::u32)" by (simp add: INDEX_MASK_num)
  have w0: "lo32 (pack_event False True) = 0" by (simp add: pack_event_join)
  let ?s1 = "(idle ?n)\<lparr>phase := Tested\<rparr>" and ?s2 = "\<lparr>shared = ?r, owed = (\<lambda>_. None), phase = Parked ?v\<rparr>"
  have st1: "wait_step ?a [0] [0] (idle ?n) ?s1"
    using wait_step.test [of "idle ?n" ?a "[0]" "[0]"] by (simp add: alert_signaled_def)
  have st2: "rtranclp (wait_step ?a [0] [0]) ?s1 ?s2"
    using park_run [of ?s1 ?a "[0]" "[0]"] w0
    by (simp del: register_all.simps add: i is_locked_def Let_def type_consts one_node_slots)
  have ev: "w0 (slots ?r 1) = pack_event False True" "obj_type (slots ?r 1) = TYPE_EVENT" "pulse_seq (slots ?r 1) = 0"
    using bareD(3,6,7) [OF register_all_bare [of 0 ?n "[0]" "[1]"], of 1] by (simp_all add: one_node_slots)
  let ?w = "set_low (pack_event False True)"
  let ?s3 = "?s2\<lparr>shared := put_word ?r 1 ?w, owed := (owed ?s2)(5 := if True then Some 1 else None)\<rparr>"
  have "slot ?r 1 = slot ?n 1" by (rule slot_bare) (rule register_all_bare)
  also have "\<dots> = slot (one_object TYPE_EVENT (pack_event False True) 7) 1"
    by (rule slot_cong) (simp_all only: one_node_slots)
  also have "\<dots> = Some 1" by simp
  finally have st3: "wait_step ?a [0] [0] ?s2 ?s3"
    by (intro wait_step.signal [where body = event_set_body and res = "Inr 0" and h = 1])
      (use ev w0 in \<open>auto simp del: register_all.simps simp: event_set_body_def signal_body.simps atomically_def\<close>)
  have run: "rtranclp (wait_step ?a [0] [0]) (idle ?n) ?s3"
    by (rule run_last [OF run_first [OF st1 st2] st3])
  have l: "lo32 ?w = 1" using w0 by (simp add: lo32_set_low_0)
  have "wait_satisfied (slots (shared ?s3) (idx ([1] ! 0))) 9 ([0] ! 0) \<noteq> None"
    using ev l by (simp del: register_all.simps add: i wait_satisfied_def abs_object_simps slots_put_word_here nt_wait_def
        abs_event_def)
  with no_lost_wakeup [OF run, of ?v 0 "quiet_os 7"] run one_node_own [OF event_word_ok, of False True]
  have "\<exists>t r. owed ?s3 t = Some 1 \<and> wake_object (quiet_os 7) (shared ?s3) 1 = Some r \<and> seq (nodes r 0) \<noteq> ?v \<and>
      0 \<in> set (drop (length (futex_log (shared ?s3))) (futex_log r))"
    by (simp del: register_all.simps add: i args_ok_def)
  moreover have "phase ?s3 = Parked ?v" by simp
  ultimately show ?thesis using run by blast
qed

text \<open>
  C34: the rollback of a wait for all loses wakeups. A thread that waits for all of its objects takes
  a semaphore, the last unit; a waiter of any object finds nothing to take and parks; the first
  thread cannot have its other objects and puts the unit back. Now the waiter could take the
  semaphore, but its futex word is the one it sampled, no futex was woken and nobody has
  a walk to do.
\<close>

theorem rollback_loses_wakeup:
  assumes "args_ok a" "own_nodes a ns r" "\<not> alert_signaled r (wait_alert a)"
    and "k < length (wait_handles a)" "obj_type (slots r (idx (wait_handles a ! k))) = TYPE_SEM"
    and "lo32 (w0 (slots r (idx (wait_handles a ! k)))) = 1" "0 < hi32 (w0 (slots r (idx (wait_handles a ! k))))"
    and "\<forall>j<length (wait_handles a). j \<noteq> k \<longrightarrow> \<not> is_locked (slots r (idx (wait_handles a ! j))) (wait_owner a) (qs ! j)"
    and "owner \<noteq> 0" "owner \<noteq> wait_owner a" "undisturbed os"
  shows "\<exists>s v r1 r2. try_acquire os r (idx (wait_handles a ! k)) owner q = Some (Some False, r1) \<and>
    rtranclp (wait_step a ns qs) (idle r1) s \<and> phase s = Parked v \<and> (\<forall>t. owed s t = None) \<and>
    rollback_acquire os (shared s) (idx (wait_handles a ! k)) owner False = Some r2 \<and>
    wait_satisfied (slots r2 (idx (wait_handles a ! k))) (wait_owner a) (qs ! k) \<noteq> None \<and>
    seq (nodes r2 (ns ! 0)) = v \<and> futex_log r2 = futex_log r"
proof -
  let ?i = "idx (wait_handles a ! k)"
  let ?w = "join32 (hi32 (w0 (slots r ?i))) 0"
  let ?r1 = "put_word r ?i ?w"
  have t: "try_acquire os r ?i owner q = Some (Some False, ?r1)"
    using assms(5,6) by (simp add: try_acquire_undisturbed [OF assms(11)] grant_sem)
  have d: "distinct (map idx (wait_handles a))"
    by (rule distinct_idx [of _ r]) (use assms(1,2) in \<open>auto simp: args_ok_def own_nodes_def\<close>)
  then have other: "j < length (wait_handles a) \<Longrightarrow> j \<noteq> k \<Longrightarrow> idx (wait_handles a ! j) \<noteq> ?i" for j
    using assms(4) by (simp add: distinct_conv_nth)
  have u: "\<forall>j<length (wait_handles a). \<not> is_locked (slots ?r1 (idx (wait_handles a ! j))) (wait_owner a) (qs ! j)"
  proof (intro allI impI)
    fix j assume j: "j < length (wait_handles a)"
    show "\<not> is_locked (slots ?r1 (idx (wait_handles a ! j))) (wait_owner a) (qs ! j)"
      using assms(5,8) j other by (cases "j = k") (auto simp: is_locked_def Let_def slots_put_word_here)
  qed
  have al: "\<not> alert_signaled ?r1 (wait_alert a)"
    using assms(3,6) by (auto simp: alert_signaled_def split: option.splits if_splits)
  let ?r = "register_all (ns ! 0) ?r1 ns (targets a)"
  let ?s = "\<lparr>shared = ?r, owed = (\<lambda>_. None), phase = Parked (seq (nodes ?r (ns ! 0)))\<rparr>"
  have st: "wait_step a ns qs (idle ?r1) ((idle ?r1)\<lparr>phase := Tested\<rparr>)"
    using wait_step.test [of "idle ?r1" a ns qs] al by simp
  have "rtranclp (wait_step a ns qs) ((idle ?r1)\<lparr>phase := Tested\<rparr>) ?s"
    using park_run [of "(idle ?r1)\<lparr>phase := Tested\<rparr>" a qs ns] u by simp
  then have run: "rtranclp (wait_step a ns qs) (idle ?r1) ?s" by (rule run_first [OF st])
  have b: "obj_type (slots ?r ?i) = TYPE_SEM" "w0 (slots ?r ?i) = ?w"
    using bareD(3,6) [OF register_all_bare [of "ns ! 0" ?r1 ns "targets a"], of ?i] assms(5) by (simp_all add: slots_put_word_here)
  let ?r2 = "put_word ?r ?i (pack_sem 1 (hi32 (w0 (slots r ?i))))"
  have "rollback_acquire os ?r ?i owner False = Some ?r2"
    using b by (simp add: rollback_acquire_undisturbed [OF assms(11)] ungrant_def Let_def)
  moreover have "wait_satisfied (slots ?r2 ?i) (wait_owner a) (qs ! k) \<noteq> None"
    using b assms(7) by (simp add: wait_satisfied_def abs_object_simps slots_put_word_here nt_wait_def pack_sem_join)
  ultimately show ?thesis using t run by (intro exI [of _ ?s] exI [of _ "seq (nodes ?r (ns ! 0))"] exI) auto
qed

theorem rollback_loses_wakeup_witness:
  "\<exists>s v r1 r2. try_acquire (quiet_os 8) (one_node TYPE_SEM (pack_sem 1 5)) 1 8 0 = Some (Some False, r1) \<and>
     rtranclp (wait_step (plain_wait [1] 0) [0] [0]) (idle r1) s \<and> phase s = Parked v \<and> (\<forall>t. owed s t = None) \<and>
     rollback_acquire (quiet_os 8) (shared s) 1 8 False = Some r2 \<and> wait_satisfied (slots r2 1) 9 0 \<noteq> None \<and> seq (nodes r2 0) = v"
proof -
  let ?n = "one_node TYPE_SEM (pack_sem 1 5)" and ?a = "plain_wait [1] 0"
  have i: "idx (wait_handles ?a ! 0) = (1::u32)" by (simp add: INDEX_MASK_num)
  have "word_ok TYPE_SEM (pack_sem 1 5)" by (simp add: sem_ok_def pack_sem_join word_le_nat_alt)
  from one_node_own [OF this] have o: "own_nodes ?a [0] ?n" .
  have a: "args_ok ?a" "\<not> alert_signaled ?n (wait_alert ?a)" by (simp_all add: args_ok_def alert_signaled_def)
  from rollback_loses_wakeup [OF a(1) o a(2), of 0 "[0]" 8 "quiet_os 8" 0] obtain s v r1 r2 where
    p: "try_acquire (quiet_os 8) ?n 1 8 0 = Some (Some False, r1)" "rtranclp (wait_step ?a [0] [0]) (idle r1) s"
      "phase s = Parked v" "\<forall>t. owed s t = None" "rollback_acquire (quiet_os 8) (shared s) 1 8 False = Some r2"
      "wait_satisfied (slots r2 1) 9 0 \<noteq> None" "seq (nodes r2 0) = v"
    unfolding i by (auto simp: pack_sem_join word_less_nat_alt)
  then show ?thesis by blast
qed

text \<open>
  C35: the alert event can be set unnoticed. The locked section tests the alert before it registers
  on it: a thread that sets the event in between finds no waiter on its list and wakes nobody, and
  the waiter then registers and parks on a signaled alert, with nobody left to wake it.
\<close>

theorem alert_set_lost:
  assumes "args_ok a" "own_nodes a ns r" "wait_alert a \<noteq> 0"
    and "obj_type (slots r (idx (wait_alert a))) = TYPE_EVENT" "lo32 (w0 (slots r (idx (wait_alert a)))) = 0"
    and "waiter_head (slots r (idx (wait_alert a))) = NIL" "idx (wait_alert a) \<notin> idx ` set (wait_handles a)"
    and "\<forall>j<length (wait_handles a). \<not> is_locked (slots r (idx (wait_handles a ! j))) (wait_owner a) (qs ! j)"
  shows "\<exists>s v. rtranclp (wait_step a ns qs) (idle r) s \<and> phase s = Parked v \<and> (\<forall>t. owed s t = None) \<and>
    alert_signaled (shared s) (wait_alert a) \<and> seq (nodes (shared s) (ns ! 0)) = v \<and> futex_log (shared s) = futex_log r"
proof -
  let ?h = "wait_alert a" and ?i = "idx (wait_alert a)"
  have sl: "slot r ?h = Some ?i" using assms(2,3) by (auto simp: own_nodes_def slot_Some_iff)
  let ?w = "set_low (w0 (slots r ?i))"
  let ?r1 = "put_word r ?i ?w" and ?s1 = "(idle r)\<lparr>phase := Tested\<rparr>"
  have st1: "wait_step a ns qs (idle r) ?s1"
    using wait_step.test [of "idle r" a ns qs] sl assms(5) by (simp add: alert_signaled_def)
  let ?s2 = "?s1\<lparr>shared := ?r1, owed := (owed ?s1)(0 := if True then Some ?i else None)\<rparr>"
  have st2: "wait_step a ns qs ?s1 ?s2"
    by (rule wait_step.signal [where body = event_set_body and res = "Inr 0" and h = ?h])
      (use sl assms(4,5) in \<open>auto simp: event_set_body_def signal_body.simps atomically_def\<close>)
  let ?s3 = "?s2\<lparr>owed := (owed ?s2)(0 := None)\<rparr>"
  have st3: "wait_step a ns qs ?s2 ?s3"
    by (rule wait_step.skip [where i = ?i]) (use assms(6) in \<open>simp_all add: put_word_def\<close>)
  have "slots ?r1 (idx h) = slots r (idx h)" if "h \<in> set (wait_handles a)" for h
    by (rule slots_put_word_other) (use that assms(7) in \<open>metis image_eqI\<close>)
  then have u: "\<forall>j<length (wait_handles a). \<not> is_locked (slots ?r1 (idx (wait_handles a ! j))) (wait_owner a) (qs ! j)"
    using assms(8) by simp
  let ?r = "register_all (ns ! 0) ?r1 ns (targets a)"
  let ?s = "\<lparr>shared = ?r, owed = (\<lambda>_. None), phase = Parked (seq (nodes ?r (ns ! 0)))\<rparr>"
  have "rtranclp (wait_step a ns qs) ?s3 ?s" using park_run [of ?s3 a qs ns] u by (simp add: fun_upd_idem)
  from run_first [OF st1 run_first [OF st2 run_first [OF st3 this]]]
  have run: "rtranclp (wait_step a ns qs) (idle r) ?s" .
  have "slot ?r ?h = Some ?i" using sl slot_bare [OF register_all_bare, of "ns ! 0" ?r1 ns "targets a"] by simp
  moreover have "w0 (slots ?r ?i) = ?w"
    using bareD(6) [OF register_all_bare [of "ns ! 0" ?r1 ns "targets a"], of ?i] by (simp add: slots_put_word_here)
  ultimately have "alert_signaled ?r ?h" using assms(3,5) by (simp add: alert_signaled_def lo32_set_low_0)
  with run show ?thesis by (intro exI [of _ ?s] exI [of _ "seq (nodes ?r (ns ! 0))"]) simp
qed

definition two_nodes :: "u32 \<Rightarrow> u64 \<Rightarrow> u32 \<Rightarrow> u64 \<Rightarrow> Region" where
  "two_nodes ty w ty' w' = snd (alloc_nodes (quiet_os 7) (Suc (Suc 0)) (two_objects ty w ty' w' 7) [])"

lemma two_nodes_alloc:
  "alloc_nodes (quiet_os 7) (Suc (Suc 0)) (two_objects ty w ty' w' 7) [] = ((True, [0, 1]), two_nodes ty w ty' w')"
  by (simp add: two_nodes_def node_alloc_def Let_def NODE_COUNT_def word_le_nat_alt NIL_def)

lemma two_nodes_slots [simp]: "slots (two_nodes ty w ty' w') = slots (two_objects ty w ty' w' 7)"
  by (simp add: two_nodes_def node_alloc_def Let_def NODE_COUNT_def word_le_nat_alt NIL_def)

theorem alert_set_lost_witness:
  "\<exists>s v. rtranclp (wait_step (plain_wait [1] 2) [0, 1] [0])
       (idle (two_nodes TYPE_SEM (pack_sem 0 5) TYPE_EVENT (pack_event False True))) s \<and>
     phase s = Parked v \<and> (\<forall>t. owed s t = None) \<and> alert_signaled (shared s) 2 \<and> seq (nodes (shared s) 0) = v"
proof -
  let ?n = "two_nodes TYPE_SEM (pack_sem 0 5) TYPE_EVENT (pack_event False True)" and ?a = "plain_wait [1] 2"
  have i: "idx 1 = (1::u32)" "idx 2 = (2::u32)" by (simp_all add: INDEX_MASK_num)
  have w: "word_ok TYPE_SEM (pack_sem 0 5)" by (simp add: sem_ok_def pack_sem_join)
  have "own_nodes ?a [0, 1] ?n"
    by (rule allocated_own [OF two_objects_rep [OF w event_word_ok [of False True], of 7], where os = "quiet_os 7"])
      (simp_all add: two_nodes_alloc args_ok_def del: alloc_nodes.simps)
  from alert_set_lost [OF _ this, of "[0]"] show ?thesis
    by (auto simp: i args_ok_def is_locked_def Let_def pack_sem_join pack_event_join)
qed

end
