(* ===== verification/Lone_Wait.thy ===== *)
theory Lone_Wait
  imports Wait_Loop
begin

text \<open>
  A wait on a region that is otherwise at rest. \<open>vacant\<close> is a well-formed region in which nobody
  waits; \<open>guest\<close> is such a region with one waiter. Proved: when nobody has died a sweep changes
  nothing but its time stamp, a lone waiter never runs out of nodes, and every round of a wait that
  finds its objects taken leaves every object as it is, until the deadline passes, or until
  another thread signals while the waiter sleeps. The theorems: a wait on objects that stay taken
  reports the timeout with the region as before, and a thread that sleeps on an object returns from
  its wait once another thread makes the object available.
\<close>

subsection \<open>A sweep when nobody has died\<close>

definition nobody_dead :: "Os \<Rightarrow> Region \<Rightarrow> bool" where
  "nobody_dead os r \<longleftrightarrow> (\<forall>x. \<not> dead_node os (nodes r x)) \<and> (\<forall>i. \<not> dead_slot os (slots r i))"

lemma nobody_dead_cong: "nodes r' = nodes r \<Longrightarrow> slots r' = slots r \<Longrightarrow> nobody_dead os r' = nobody_dead os r"
  by (simp add: nobody_dead_def)

lemma visit_idle:
  assumes "nobody_dead os r" "c \<in> set (visit_node r x) \<union> set (visit_slot r x)"
  shows "alive_cand os c \<or> reap_one os r c = Some (0, r)"
  using assms
  by (auto simp: nobody_dead_def visit_node_def visit_slot_def dead_node_def dead_slot_def reap_one_def Let_def
      alive_cand_def held_by_def spilled_def holders_cap_def split: if_splits)

lemma reap_all_idle:
  "\<forall>c\<in>set cs. alive_cand os c \<or> reap_one os r c = Some (0, r) \<Longrightarrow> reap_all os r cs = Some (0, r)"
  by (induction cs) auto

lemma next_chunk_idle:
  assumes "nobody_dead os r" "next_chunk r sc = (sc', cs)"
  shows "reap_all os r cs = Some (0, r)"
proof (rule reap_all_idle)
  let ?P = "\<lambda>cs. \<forall>c\<in>set cs. alive_cand os c \<or> reap_one os r c = Some (0, r)"
  have "?P out \<longrightarrow> (case chunk_loop r sc out of (sc', out') \<Rightarrow> ?P out')" for out
  proof (induction rule: chunk_loop_induct [where r = r])
    case (node sc out x)
    with visit_idle [OF assms(1), of _ "next_node sc"] show ?case by fastforce
  next
    case (slot sc out x)
    with visit_idle [OF assms(1), of _ "next_slot sc"] show ?case by fastforce
  qed simp
  from this [of "[]"] assms(2) show "?P cs" by (simp add: next_chunk_def)
qed

lemma sweep_loop_idle:
  "nobody_dead os r \<Longrightarrow> cache_ok os cache \<Longrightarrow> sweep_loop os r sc cache freed = Some (freed, r)"
proof (induction "scan_left sc" arbitrary: sc cache rule: less_induct)
  case less
  obtain sc1 cands where c: "next_chunk r sc = (sc1, cands)" by (cases "next_chunk r sc")
  obtain vs cache1 where v: "verdicts os cache cands = (vs, cache1)" by (cases "verdicts os cache cands")
  have "vs = map (alive_cand os) cands" "cache_ok os cache1" using verdicts_ok [OF less.prems(2), of cands] v by simp_all
  with less.hyps [OF next_chunk_left [OF c] less.prems(1), of cache1] next_chunk_idle [OF less.prems(1) c] c v
  show ?case by (cases "cands = []") (simp_all add: sweep_loop.simps [of os r] reap_all_def)
qed

lemma sweep_dead_idle: "nobody_dead os r \<Longrightarrow> sweep_dead_locked os r = Some (0, r)"
  by (simp add: sweep_dead_locked_def sweep_loop_idle)

text \<open>\<open>at_rest r r'\<close>: nothing changed but the record of the lock holder and the time of the last sweep.\<close>

definition at_rest :: "Region \<Rightarrow> Region \<Rightarrow> bool" where
  "at_rest r r' \<longleftrightarrow> slots r' = slots r \<and> nodes r' = nodes r \<and>
     core r' = (core r)\<lparr>sweep_ns := sweep_ns (core r')\<rparr>"

lemma at_rest_refl [simp]: "at_rest r r"
  by (simp add: at_rest_def)

lemma at_rest_lock [simp]:
  "at_rest r (lock_mark os r') = at_rest r r'" "at_rest r (guard_drop r') = at_rest r r'"
  by (simp_all add: at_rest_def)

lemma at_rest_stamp: "at_rest r (upd_header (lock_mark os r) (\<lambda>h. h\<lparr>sweep_ns := t\<rparr>))"
  by (simp add: at_rest_def core_def lock_mark_def)

lemma at_restD:
  assumes "at_rest r r'"
  shows "slots r' = slots r" "nodes r' = nodes r" "node_fresh (header r') = node_fresh (header r)"
    "node_free_head (header r') = node_free_head (header r)" "next_scan (header r') = next_scan (header r)"
    "header_ok (header r') = header_ok (header r)"
proof -
  from assms have c: "core r' = (core r)\<lparr>sweep_ns := sweep_ns (core r')\<rparr>" by (simp add: at_rest_def)
  show "slots r' = slots r" "nodes r' = nodes r" using assms by (simp_all add: at_rest_def)
  show "node_fresh (header r') = node_fresh (header r)"
    "node_free_head (header r') = node_free_head (header r)" "next_scan (header r') = next_scan (header r)"
    using arg_cong [OF c, of node_fresh] arg_cong [OF c, of node_free_head] arg_cong [OF c, of next_scan]
    by (simp_all add: core_sel)
  show "header_ok (header r') = header_ok (header r)"
    using arg_cong [OF c, of header_ok] by (simp add: header_ok_core)
qed

lemma at_rest_bare: "at_rest r r' \<Longrightarrow> bare r' = bare r"
  by (rule ext) (simp add: bare_def at_restD(1))

lemma at_rest_rep: "at_rest r r' \<Longrightarrow> region_rep r Q F \<Longrightarrow> region_rep r' Q F"
  by (simp add: region_rep_def pool_rep_def scan_cursor_def scan_wrapped_def at_restD)

lemma at_rest_held: "at_rest r r' \<Longrightarrow> held r' x = held r x"
  by (simp add: held_def at_restD)

lemma auto_sweep_loop_idle:
  assumes os: "on_step os = (\<lambda>_. id)" "\<forall>k. lock_ret os k = 0"
  shows "nobody_dead os r \<Longrightarrow> at_rest r0 r \<Longrightarrow> cache_ok os cache \<Longrightarrow>
    \<exists>r'. auto_sweep_loop os k r sc cache freed = Some (freed, r') \<and> at_rest r0 r' \<and>
      sweep_ns (header r') = sweep_ns (header r)"
proof (induction "scan_left sc" arbitrary: k r sc cache rule: less_induct)
  case less
  obtain sc1 cands where c: "next_chunk r sc = (sc1, cands)" by (cases "next_chunk r sc")
  obtain vs cache1 where v: "verdicts os cache cands = (vs, cache1)" by (cases "verdicts os cache cands")
  have vs: "vs = map (alive_cand os) cands" "cache_ok os cache1" using verdicts_ok [OF less.prems(3), of cands] v by simp_all
  let ?r = "lock_mark os (guard_drop r)"
  have d: "nobody_dead os ?r" using less.prems(1) nobody_dead_cong [of ?r r os] by simp
  have "next_chunk ?r sc = (sc1, cands)" using c chunk_loop_cong [of ?r r sc "[]"] by (simp add: next_chunk_def)
  from next_chunk_idle [OF d this] have m: "reap_dead_locked os ?r cands vs = Some (0, ?r)" by (simp add: vs(1) reap_all_def)
  show ?case
  proof (cases "cands = []")
    case True
    with c less.prems(2) show ?thesis by (auto simp: auto_sweep_loop.simps [of os k r])
  next
    case False
    have "at_rest r0 ?r" using less.prems(2) by simp
    from less.hyps [OF next_chunk_left [OF c False] d this vs(2), of "Suc k"] m False c v os
    show ?thesis by (simp add: auto_sweep_loop.simps [of os k r] lock_guard_ok)
  qed
qed

lemma wait_sweep_idle:
  assumes os: "undisturbed os" "\<forall>k. lock_ret os k = 0" and d: "nobody_dead os r"
  obtains t' r' where "wait_sweep os cfg t r = Some (t', r')" "at_rest r r'"
    "sweep_ns (header r') \<in> {sweep_ns (header r), locked_clock_ns os}"
proof -
  let ?s = "upd_header (lock_mark os r) (\<lambda>h. h\<lparr>sweep_ns := locked_clock_ns os\<rparr>)"
  have "nobody_dead os ?s" using d nobody_dead_cong [of ?s r os] by simp
  from auto_sweep_loop_idle [OF _ os(2) this at_rest_stamp new_cache_ok, of 0 "new_scan ?s" 0] os(1)
  obtain r1 where l: "auto_sweep_loop os 0 ?s (new_scan ?s) new_cache 0 = Some (0, r1)" "at_rest r r1"
    "sweep_ns (header r1) = locked_clock_ns os" by (auto simp: undisturbed_def)
  have lk: "on_lock os r = r" "lock_guard os 0 r = Some (Inr (lock_mark os r))"
    using os by (simp_all add: undisturbed_def lock_guard_ok)
  let ?early = "sweep_calls t AND 0xFF \<noteq> 0 \<or> cfg_sweep_interval cfg = 0 \<or>
    saturating_sub (clock_ns os) (sweep_ns (header r)) < cfg_sweep_interval cfg"
  let ?late = "saturating_sub (locked_clock_ns os) (sweep_ns (header r)) < cfg_sweep_interval cfg"
  have "wait_sweep os cfg t r = Some (t\<lparr>sweep_calls := sweep_calls t + 1\<rparr>,
      if ?early then r else if ?late then guard_drop (lock_mark os r) else r1)"
    using l lk by (auto simp: wait_sweep_def auto_sweep_dead_def Let_def)
  moreover have "at_rest r (if ?early then r else if ?late then guard_drop (lock_mark os r) else r1)"
    using l(2) by simp
  moreover have "sweep_ns (header (if ?early then r else if ?late then guard_drop (lock_mark os r) else r1)) \<in>
      {sweep_ns (header r), locked_clock_ns os}" using l(3) by simp
  ultimately show ?thesis by (rule that)
qed

subsection \<open>One waiter\<close>

definition vacant :: "Region \<Rightarrow> bool" where
  "vacant r \<longleftrightarrow> region_ok r \<and> (\<forall>x. \<not> held r x)"

definition guest :: "u32 \<Rightarrow> WaitArgs \<Rightarrow> Region \<Rightarrow> u32 list \<Rightarrow> bool" where
  "guest pid a r ns \<longleftrightarrow> waiting_as pid a r ns \<and> (\<forall>x. held r x \<longrightarrow> x \<in> set ns)"

lemma held_lock [simp]: "held (lock_mark os r) x = held r x" "held (guard_drop r) x = held r x"
  by (simp_all add: held_def)

lemma vacant_lock [simp]: "vacant (lock_mark os r) = vacant r" "vacant (guard_drop r) = vacant r"
  by (simp_all add: vacant_def)

lemma guest_lock [simp]:
  "guest pid a (lock_mark os r) ns = guest pid a r ns" "guest pid a (guard_drop r) ns = guest pid a r ns"
  by (simp_all add: guest_def)

lemma vacant_guest: "guest pid a r [] \<longleftrightarrow> vacant r"
  by (auto simp: guest_def vacant_def waiting_as_def waiting_def region_ok_def)

lemma vacant_rep:
  assumes "vacant r"
  obtains F where "region_rep r (\<lambda>_. []) F" "\<forall>x. \<not> node_held r F x" "\<forall>x. registered (nodes r x) = 0"
proof -
  from assms obtain Q F where R: "region_rep r Q F" by (auto simp: vacant_def region_ok_def)
  have n: "\<not> node_held r F x" for x using assms held_iff [OF region_pool [OF R]] by (simp add: vacant_def)
  then have g: "registered (nodes r x) = 0" for x using pool_registered_held [OF region_pool [OF R], of x] by blast
  then have "x \<notin> set (Q i)" for x i using pool_member [OF region_pool [OF R], of x i] by simp
  then have "Q = (\<lambda>_. [])" by (intro ext) (metis list.set_intros(1) neq_Nil_conv)
  with R n g that show ?thesis by blast
qed

lemma vacantI:
  assumes "region_rep r Q F" "\<And>x. \<not> node_held r F x"
  shows "vacant r"
  using assms held_iff [OF region_pool [OF assms(1)]] unfolding vacant_def region_ok_def by blast

lemma at_rest_guest: "at_rest r r' \<Longrightarrow> guest pid a r ns \<Longrightarrow> guest pid a r' ns"
  unfolding guest_def waiting_as_def waiting_def
  by (auto simp: at_rest_held at_restD(2) owns_def node_held_def at_restD(3)) (use at_rest_rep in blast)+

lemma at_rest_vacant: "at_rest r r' \<Longrightarrow> vacant r \<Longrightarrow> vacant r'"
  using at_rest_guest [of r r' 0 undefined "[]"] by (simp add: vacant_guest)

text \<open>A guest that gives its nodes back leaves the region vacant, and every object as it is.\<close>

lemma node_fresh_fold_free [simp]: "node_fresh (header (fold (\<lambda>i r. node_free r i) ns r)) = node_fresh (header r)"
  by (induction ns arbitrary: r) simp_all

lemma bare_cleanup [simp]: "bare (waiter_cleanup r ns) = bare r"
proof -
  have "bare (waiter_cleanup r ns) = bare (fold (\<lambda>i r. node_detach r i) ns r)"
    by (rule ext) (simp only: bare_def waiter_cleanup_def fold_free_sel(1))
  then show ?thesis by simp
qed

lemma guest_cleanup:
  assumes "guest pid a r ns"
  shows "vacant (waiter_cleanup r ns)"
proof -
  from assms obtain Q F where R: "region_rep r Q F" and o: "ns = [] \<or> owns r F ns (targets a)"
    and h: "\<forall>x. held r x \<longrightarrow> x \<in> set ns" by (auto simp: guest_def waiting_as_def waiting_def)
  have ns: "distinct ns" "\<forall>x\<in>set ns. node_held r F x" using o by (auto simp: owns_def)
  have "\<not> node_held (waiter_cleanup r ns) (rev ns @ F) x" for x
    using h held_iff [OF region_pool [OF R], of x] by (auto simp: node_held_def waiter_cleanup_def)
  with waiter_cleanup_rep [OF R ns] show ?thesis by (rule vacantI)
qed

text \<open>Waiters leave the time of the last sweep alone.\<close>

abbreviation stamp :: "Region \<Rightarrow> u64" where
  "stamp r \<equiv> sweep_ns (header r)"

lemma stamp_detach [simp]: "stamp (node_detach r x) = stamp r"
  by (simp add: node_detach_def Let_def)

lemma stamp_register_all [simp]: "stamp (register_all x r ns hs) = stamp r"
  by (induction x r ns hs rule: register_all.induct) (simp_all add: register_if_off_def node_register_def Let_def)

lemma stamp_fold [simp]:
  "stamp (fold (\<lambda>i r. node_detach r i) ns r) = stamp r" "stamp (fold (\<lambda>i r. node_free r i) ns r) = stamp r"
  by (induction ns arbitrary: r) (simp_all add: node_free_def)

lemma stamp_cleanup [simp]: "stamp (waiter_cleanup r ns) = stamp r"
  by (simp add: waiter_cleanup_def)

lemma stamp_alloc: "alloc_nodes os n r ns = (res, r') \<Longrightarrow> stamp r' = stamp r"
proof (induction os n r ns rule: alloc_nodes.induct)
  case (2 os n r ns)
  obtain x r1 where a: "node_alloc os r = (x, r1)" by (cases "node_alloc os r")
  then have "stamp r1 = stamp r" by (auto simp: node_alloc_def Let_def split: if_splits)
  with 2 a show ?case by (cases x) auto
qed simp

subsection \<open>Nodes do not run out\<close>

lemma alloc_nodes_guest:
  "region_rep r Q F \<Longrightarrow> \<forall>x. node_held r F x \<longrightarrow> x \<in> set ns \<Longrightarrow> length ns + n \<le> 8192 \<Longrightarrow>
   \<exists>ns' r'. alloc_nodes os n r ns = ((True, ns'), r') \<and> (\<forall>x. held r' x \<longrightarrow> x \<in> set ns')"
proof (induction n arbitrary: r F ns)
  case 0
  with held_iff [OF region_pool [OF "0.prems"(1)]] show ?case by simp
next
  case (Suc n)
  note P = region_pool [OF Suc.prems(1)]
  have "fst (node_alloc os r) \<noteq> None"
  proof
    assume "fst (node_alloc os r) = None"
    then have "F = []" "node_fresh (header r) = NODE_COUNT" using node_alloc_None(1) [OF P, of os] by simp_all
    then have "{x. x < NODE_COUNT} \<subseteq> set ns" using Suc.prems(2) by (auto simp: node_held_def)
    moreover have "of_nat ` {..<8192} \<subseteq> {x :: u32. x < NODE_COUNT}"
      by (auto simp: NODE_COUNT_def word_less_nat_alt unat_of_nat)
    ultimately have "card ((of_nat :: nat \<Rightarrow> u32) ` {..<8192}) \<le> card (set ns)" by (intro card_mono) auto
    moreover have "inj_on (of_nat :: nat \<Rightarrow> u32) {..<8192}"
      by (rule inj_onI) (auto simp: word_unat_eq_iff unat_of_nat)
    ultimately show False using Suc.prems(3) card_length [of ns] by (simp add: card_image)
  qed
  then obtain x r1 where a: "node_alloc os r = (Some x, r1)" by (cases "node_alloc os r") auto
  have "y \<in> set (ns @ [x])" if "node_held r1 (remove1 x F) y" for y
  proof (cases rule: node_alloc_Some [OF P a])
    case 1
    with that Suc.prems(2) show ?thesis by (auto simp: node_held_def)
  next
    case 2
    then have "y < node_fresh (header r) \<or> y = x"
      using that unat_less_Suc [of "node_fresh (header r)" NODE_COUNT]
      by (auto simp: node_held_def word_less_nat_alt word_unat_eq_iff)
    with 2 Suc.prems(2) show ?thesis by (auto simp: node_held_def)
  qed
  with Suc.IH [OF region_rep_alloc [OF Suc.prems(1) a], of "ns @ [x]"] Suc.prems(3) a show ?case by simp
qed

lemma alloc_guest:
  assumes v: "vacant r" and n: "length (targets a) \<le> 8192" and pid: "getpid os = pid"
  obtains ns r' where "alloc_nodes os (length (targets a)) r [] = ((True, ns), r')" "guest pid a r' ns"
    "slots r' = slots r" "length ns = length (targets a)"
proof -
  obtain F where R: "region_rep r (\<lambda>_. []) F" and f: "\<forall>x. \<not> node_held r F x"
    by (rule vacant_rep [OF v])
  obtain ns r' where a: "alloc_nodes os (length (targets a)) r [] = ((True, ns), r')" "\<forall>x. held r' x \<longrightarrow> x \<in> set ns"
    using alloc_nodes_guest [OF R, of "[]" "length (targets a)" os] f n by auto
  have e: "(if [] = [] then alloc_nodes os (length (targets a)) r [] else ((True, []), r)) = ((True, ns), r')"
    using a(1) by simp
  obtain F1 where F1: "region_rep r' (\<lambda>_. []) F1" "slots r' = slots r" "owns r' F1 ns (targets a)"
    by (rule nodes_ready [OF R _ e]) auto
  have "\<forall>x\<in>set ns. node_pid (nodes r' x) = pid" using alloc_nodes_pid [OF R _ a(1)] pid by simp
  with F1 a(2) have "guest pid a r' ns" unfolding guest_def waiting_as_def waiting_def by blast
  with a(1) F1 that show ?thesis by (simp add: owns_def)
qed

subsection \<open>Objects that are taken\<close>

text \<open>
  \<open>taken r hs owner wall\<close>: the wait is not satisfied by the objects as they are. \<open>seqs_now\<close>: the
  recorded pulse counters are those of the events now.
\<close>

definition taken :: "Region \<Rightarrow> u32 list \<Rightarrow> u32 \<Rightarrow> bool \<Rightarrow> bool" where
  "taken r hs owner wall \<longleftrightarrow>
     (if wall then \<exists>h\<in>set hs. satisfied_now r owner h = None else \<forall>h\<in>set hs. satisfied_now r owner h = None)"

definition seqs_now :: "Region \<Rightarrow> u32 list \<Rightarrow> u64 list \<Rightarrow> bool" where
  "seqs_now r hs qs \<longleftrightarrow> (\<forall>k<length hs. obj_type (slots r (idx (hs ! k))) = TYPE_EVENT \<longrightarrow>
     pulse_seq (slots r (idx (hs ! k))) = qs ! k)"

lemma satisfied_bare:
  assumes "bare r' = bare r"
  shows "satisfied_now r' me h = satisfied_now r me h"
  by (simp add: wait_satisfied_def abs_object_def bareD [OF assms])

lemma taken_bare:
  assumes "bare r' = bare r"
  shows "taken r' hs owner wall = taken r hs owner wall"
  by (simp add: taken_def satisfied_bare [OF assms])

lemma seqs_now_bare:
  assumes "bare r' = bare r"
  shows "seqs_now r' hs qs = seqs_now r hs qs"
  by (simp add: seqs_now_def bareD [OF assms])

lemma waitable_handles_bare:
  assumes "bare r' = bare r"
  shows "waitable_handles r' hs = waitable_handles r hs"
  by (simp add: waitable_handles_def slot_bare [OF assms] bareD [OF assms])

lemmas bare_facts = taken_bare seqs_now_bare waitable_handles_bare

lemma seqs_now_satisfied:
  assumes "seqs_now r hs qs" "k < length hs"
  shows "wait_satisfied (slots r (idx (hs ! k))) owner (qs ! k) = satisfied_now r owner (hs ! k)"
  using assms wait_satisfied_steady [of "slots r (idx (hs ! k))"] by (auto simp: seqs_now_def)

lemma locked_snapshot_now:
  "waitable_handles r hs \<Longrightarrow> \<forall>j<length hs. obj_type (slots r (idx (hs ! j))) = TYPE_EVENT \<longrightarrow>
     pulse_seq (slots r (idx (hs ! j))) = qs ! (k + j) \<Longrightarrow> locked_snapshot r first k hs qs = (True, qs)"
proof (induction hs arbitrary: k)
  case (Cons h hs)
  from Cons.prems(1) have h: "slot r h = Some (idx h)" "waitable (obj_type (slots r (idx h)))"
    by (auto simp: waitable_handles_def slot_Some_iff)
  have "obj_type (slots r (idx h)) = TYPE_EVENT \<Longrightarrow> qs[k := pulse_seq (slots r (idx h))] = qs"
    using Cons.prems(2) by (auto dest: spec [of _ 0])
  moreover have "locked_snapshot r first (Suc k) hs qs = (True, qs)"
    using Cons.prems by (intro Cons.IH) (auto simp: waitable_handles_def dest: spec [of _ "Suc _"])
  ultimately show ?case using h by (cases "first \<and> obj_type (slots r (idx h)) = TYPE_EVENT") (auto simp: Let_def)
qed simp

lemma try_satisfy_taken:
  assumes "undisturbed os" "region_rep r Q F" "owner \<noteq> 0" "distinct hs" "waitable_handles r hs"
    and q: "seqs_now r hs qs" and t: "taken r hs owner wall"
  shows "try_satisfy os r hs owner qs wall = Some (None, r)"
proof -
  have v: "\<forall>h\<in>set hs. \<exists>i. slot r h = Some i" using assms(5) by (auto simp: waitable_handles_def)
  note e = seqs_now_satisfied [OF q, of _ owner]
  show ?thesis
  proof (cases wall)
    case True
    have n: "\<not> (\<forall>k<length hs. wait_satisfied (slots r (idx (hs ! k))) owner (qs ! k) \<noteq> None)"
    proof -
      from t True obtain k where "k < length hs" "satisfied_now r owner (hs ! k) = None"
        by (auto simp: taken_def in_set_conv_nth)
      with e show ?thesis by metis
    qed
    have p: "\<forall>k<length hs. obj_type (slots r (idx (hs ! k))) = TYPE_EVENT \<longrightarrow>
      pulse_seq (slots r (idx (hs ! k))) = qs ! k" using q by (simp add: seqs_now_def)
    show ?thesis using wait_all_atomic [OF assms(1-4) v p] unfolding if_not_P [OF n] by (simp add: True)
  next
    case False
    have "List.find (\<lambda>k. wait_satisfied (slots r (idx (hs ! k))) owner (qs ! k) \<noteq> None) [0..<length hs] = None"
      using t e False by (auto simp: taken_def find_None_iff)
    with wait_any_first [OF assms(1-3) v, of qs] False show ?thesis by simp
  qed
qed

subsection \<open>A round that finds the objects taken\<close>

text \<open>
  What such a wait asks for: valid arguments without an alert event, on objects that are taken.
  \<open>lone pid env\<close>: in this round nobody else comes in, except possibly while the waiter sleeps;
  \<open>restful pid r env\<close>: moreover the sweep finds no object whose processes are all dead.
\<close>

definition patient :: "WaitArgs \<Rightarrow> Region \<Rightarrow> u64 list \<Rightarrow> bool" where
  "patient a r qs \<longleftrightarrow> args_ok a \<and> length (wait_handles a) \<le> MAX_WAIT_COUNT \<and> wait_alert a = 0 \<and>
     waitable_handles r (wait_handles a) \<and> seqs_now r (wait_handles a) qs \<and>
     taken r (wait_handles a) (wait_owner a) (wait_for_all a)"

definition lone :: "u32 \<Rightarrow> WaitEnv \<Rightarrow> bool" where
  "lone pid env \<longleftrightarrow>
     lock_ret (lock_os env) 0 = 0 \<and> getpid (lock_os env) = pid \<and> on_lock (lock_os env) = id \<and>
     undisturbed (try_os env) \<and> (\<forall>j. undisturbed (spin_os env j)) \<and>
     undisturbed (sweep_os env) \<and> (\<forall>k. lock_ret (sweep_os env) k = 0) \<and> pid_alive (sweep_os env) pid \<and>
     0 \<le> futex_errno env \<and> undisturbed (detach_os env)"

definition restful :: "u32 \<Rightarrow> Region \<Rightarrow> WaitEnv \<Rightarrow> bool" where
  "restful pid r env \<longleftrightarrow> lone pid env \<and> (\<forall>i. \<not> dead_slot (sweep_os env) (slots r i))"

lemma restful_lone: "restful pid r env \<Longrightarrow> lone pid env"
  by (simp add: restful_def)

lemma patient_bare:
  assumes "bare r' = bare r"
  shows "patient a r' qs = patient a r qs"
  by (simp add: patient_def bare_facts [OF assms])

lemma restful_bare:
  assumes "bare r' = bare r"
  shows "restful pid r' env = restful pid r env"
proof -
  have "dead_slot os (slots r' i) = dead_slot os (slots r i)" for os i
    by (rule dead_slot_bare) (simp add: assms)
  then show ?thesis by (simp add: restful_def)
qed

lemma guest_rep:
  assumes "guest pid a r ns"
  obtains Q F where "region_rep r Q F" "ns = [] \<or> owns r F ns (targets a)" "\<forall>x. node_held r F x \<longrightarrow> x \<in> set ns"
    "\<forall>x\<in>set ns. node_pid (nodes r x) = pid"
  using assms held_iff [OF region_pool] by (fastforce simp: guest_def waiting_as_def waiting_def)

lemma guestI:
  assumes "region_rep r Q F" "ns = [] \<or> owns r F ns (targets a)" "\<forall>x. node_held r F x \<longrightarrow> x \<in> set ns"
    and "\<forall>x\<in>set ns. node_pid (nodes r x) = pid"
  shows "guest pid a r ns"
  using assms held_iff [OF region_pool [OF assms(1)]] unfolding guest_def waiting_as_def waiting_def by blast

lemma register_guest:
  assumes g: "guest pid a r ns" "ns \<noteq> []" and a: "args_ok a" "wait_alert a = 0" "waitable_handles r (wait_handles a)"
  shows "guest pid a (register_all (ns ! 0) r ns (wait_handles a)) ns"
proof -
  obtain Q F where R: "region_rep r Q F" and o: "owns r F ns (targets a)" and h: "\<forall>x. node_held r F x \<longrightarrow> x \<in> set ns"
    and p: "\<forall>x\<in>set ns. node_pid (nodes r x) = pid" by (rule guest_rep [OF g(1)]) (use g(2) in blast)
  have t: "targets a = wait_handles a" "wait_handles a \<noteq> []" using a by (simp_all add: args_ok_def)
  have v: "\<forall>h\<in>set (wait_handles a). \<exists>i. slot r h = Some i" using a(3) by (auto simp: waitable_handles_def)
  let ?r = "register_all (ns ! 0) r ns (wait_handles a)"
  obtain Q' where "region_rep ?r Q' F" "owns ?r F ns (wait_handles a)" "header ?r = header r"
    by (rule register_all_armed [OF R _ t(2) v]) (use o t in auto)
  with h p t(1) show ?thesis by (intro guestI) (auto simp: node_held_def)
qed

text \<open>The nodes of a guest, fresh or from the rounds before.\<close>

lemma guest_nodes:
  assumes g: "guest pid a r ns" and pid: "getpid os = pid" and n: "length (targets a) \<le> 8192" "targets a \<noteq> []"
  obtains ns' r' where "(if ns = [] then alloc_nodes os (length (targets a)) r [] else ((True, ns), r)) = ((True, ns'), r')"
    "guest pid a r' ns'" "slots r' = slots r" "ns' \<noteq> []" "stamp r' = stamp r"
proof (cases "ns = []")
  case True
  with g have "vacant r" by (simp add: vacant_guest)
  then obtain ns' r' where "alloc_nodes os (length (targets a)) r [] = ((True, ns'), r')" "guest pid a r' ns'"
    "slots r' = slots r" "length ns' = length (targets a)" by (rule alloc_guest [OF _ n(1) pid])
  moreover from this n(2) have "ns' \<noteq> []" by (cases ns') auto
  ultimately show ?thesis using True stamp_alloc by (intro that [of ns' r']) simp_all
qed (use g that in simp)

lemma lone_locked:
  assumes g: "guest pid a r ns" and p: "patient a r qs" and e: "lone pid env"
  obtains ns' r' where "guest pid a r' ns'" "bare r' = bare r" "ns' \<noteq> []" "stamp r' = stamp r"
    "wait_locked env a r ns qs = Some (case wait_deadline a of
        Some dl \<Rightarrow> if dl \<le> now_ns env then (Return Timeout, [], qs, waiter_cleanup r' ns')
          else (Block (seq (nodes r' (ns' ! 0))) (Some (dl - now_ns env)), ns', qs, r')
      | None \<Rightarrow> (Block (seq (nodes r' (ns' ! 0))) None, ns', qs, r'))"
proof -
  let ?hs = "wait_handles a"
  from p have a: "args_ok a" "wait_alert a = 0" "waitable_handles r ?hs" and q: "seqs_now r ?hs qs"
    and t: "taken r ?hs (wait_owner a) (wait_for_all a)" and l: "length ?hs \<le> 64"
    by (auto simp: patient_def MAX_WAIT_COUNT_def)
  have tg: "targets a = ?hs" "?hs \<noteq> []" "distinct ?hs" "wait_owner a \<noteq> 0" using a by (auto simp: args_ok_def)
  have pid: "getpid (lock_os env) = pid" using e by (simp add: lone_def)
  have ln: "length (targets a) \<le> 8192" "targets a \<noteq> []" using tg l by (simp_all only: tg)
  obtain ns' r1 where al: "(if ns = [] then alloc_nodes (lock_os env) (length ?hs) r [] else ((True, ns), r)) = ((True, ns'), r1)"
    and g1: "guest pid a r1 ns'" "slots r1 = slots r" "ns' \<noteq> []" "stamp r1 = stamp r"
    by (rule guest_nodes [OF g pid ln, unfolded tg(1)])
  have b1: "bare r1 = bare r" by (rule ext) (simp add: bare_def g1(2))
  let ?r = "register_all (ns' ! 0) r1 ns' ?hs"
  have b: "bare ?r = bare r" using b1 by simp
  have g2: "guest pid a ?r ns'" by (rule register_guest) (use g1 a waitable_handles_bare [OF b1] in auto)
  then obtain Q F where R: "region_rep ?r Q F" by (rule guest_rep)
  have tr: "try_satisfy (try_os env) ?r ?hs (wait_owner a) qs (wait_for_all a) = Some (None, ?r)"
    by (rule try_satisfy_taken [OF _ R]) (use e tg a q t bare_facts [OF b] in \<open>auto simp: lone_def\<close>)
  have "locked_snapshot r (ns = []) 0 ?hs qs = (True, qs)"
    by (rule locked_snapshot_now [OF a(3)]) (use q in \<open>simp add: seqs_now_def\<close>)
  then have "wait_locked env a r ns qs = Some (case wait_deadline a of
        Some dl \<Rightarrow> if dl \<le> now_ns env then (Return Timeout, [], qs, waiter_cleanup ?r ns')
          else (Block (seq (nodes ?r (ns' ! 0))) (Some (dl - now_ns env)), ns', qs, ?r)
      | None \<Rightarrow> (Block (seq (nodes ?r (ns' ! 0))) None, ns', qs, ?r))"
    using al tr a(2) by (simp add: wait_locked_def Let_def alert_ok_def alert_signaled_def split: option.split)
  moreover have "stamp ?r = stamp r" using g1(4) by simp
  ultimately show ?thesis using that [OF g2 b g1(3)] by blast
qed

lemma lone_spin_rounds:
  assumes g: "guest pid a r ns" and p: "patient a r qs" and e: "lone pid env"
  shows "\<exists>outcome. spin_rounds env a qs ns j n r = Some (SpinOver outcome, r)"
proof (induction n arbitrary: j)
  case (Suc n)
  from g obtain Q F where R: "region_rep r Q F" by (rule guest_rep)
  have u: "undisturbed (spin_os env j)" "on_check (spin_os env j) = id" using e by (auto simp: lone_def undisturbed_def)
  have "try_satisfy (spin_os env j) r (wait_handles a) (wait_owner a) qs (wait_for_all a) = Some (None, r)"
    by (rule try_satisfy_taken [OF u(1) R]) (use p in \<open>auto simp: patient_def args_ok_def\<close>)
  with u p Suc [of "Suc j"] show ?case by (simp add: Let_def patient_def alert_signaled_def)
qed simp

lemma sweep_calls_spin [simp]:
  "sweep_calls (snd (spin_budget m t)) = sweep_calls t" "sweep_calls (spin_after x t) = sweep_calls t"
  by (simp_all add: spin_budget_def Let_def) (cases x; simp add: spin_credit_reward_def spin_credit_penalize_def)

lemma lone_spin:
  assumes "guest pid a r ns" "patient a r qs" "lone pid env"
  obtains t' where "wait_spin env cfg a qs ns t r = Some (None, t', r)" "sweep_calls t' = sweep_calls t"
proof -
  obtain spin t1 where b: "spin_budget (cfg_spin_max cfg) t = (spin, t1)" by (cases "spin_budget (cfg_spin_max cfg) t")
  have c: "sweep_calls t1 = sweep_calls t" using sweep_calls_spin(1) [of "cfg_spin_max cfg" t] b by simp
  obtain outcome where "spin_rounds env a qs ns 0 (unat spin) r = Some (SpinOver outcome, r)"
    using lone_spin_rounds [OF assms] by blast
  with b c that show ?thesis by (cases "0 < spin") (auto simp: wait_spin_def)
qed

lemma guest_nobody_dead:
  assumes "guest pid a r ns" "restful pid r env"
  shows "nobody_dead (sweep_os env) r"
proof -
  obtain Q F where R: "region_rep r Q F" and h: "\<forall>x. node_held r F x \<longrightarrow> x \<in> set ns" "\<forall>x\<in>set ns. node_pid (nodes r x) = pid"
    by (rule guest_rep [OF assms(1)]) blast
  have "node_pid (nodes r x) = pid" if "registered (nodes r x) \<noteq> 0" for x
    using pool_registered_held [OF region_pool [OF R] that] h by blast
  then have "\<not> dead_node (sweep_os env) (nodes r x)" for x using assms(2) by (fastforce simp: dead_node_def restful_def lone_def)
  with assms(2) show ?thesis by (simp add: nobody_dead_def restful_def)
qed

text \<open>The sleep: other threads run, and the nodes that are still on a list are taken off it.\<close>

lemma guest_detach:
  assumes "guest pid a r ns"
  shows "guest pid a (fold (\<lambda>i r. node_detach r i) ns r) ns"
proof -
  let ?r = "fold (\<lambda>i r. node_detach r i) ns r"
  obtain Q F where R: "region_rep r Q F" and o: "ns = [] \<or> owns r F ns (targets a)"
    and h: "\<forall>x. node_held r F x \<longrightarrow> x \<in> set ns" "\<forall>x\<in>set ns. node_pid (nodes r x) = pid" by (rule guest_rep [OF assms])
  have n: "node_held ?r F x = node_held r F x" for x by (simp add: node_held_def)
  have "ns = [] \<or> owns ?r F ns (targets a)" using o unfolding owns_def n by auto
  then show ?thesis by (rule guestI [OF region_rep_detach_all [OF R]]) (use h n in simp_all)
qed

lemma lone_sleep:
  assumes e: "0 \<le> futex_errno env" "undisturbed (detach_os env)" and g: "guest pid a (asleep env r) ns"
  obtains t' r' where "wait_sleep env cfg ns remaining debug t r = Some (t', r')" "guest pid a r' ns"
    "bare r' = bare (asleep env r)" "stamp r' = stamp (asleep env r)"
proof -
  let ?s = "asleep env r"
  let ?d = "guard_drop (fold (\<lambda>i r. node_detach r i) ns (lock_mark (detach_os env) ?s))"
  have gd: "guest pid a ?d ns" using guest_detach [of pid a "lock_mark (detach_os env) ?s" ns] g by simp
  have bd: "bare ?d = bare ?s" by simp
  obtain r' where d: "detach_registered (detach_os env) ?s ns = Some r'" "guest pid a r' ns" "bare r' = bare ?s"
    "stamp r' = stamp ?s"
    using g gd bd by (cases "list_ex (\<lambda>i. registered (nodes ?s i) \<noteq> 0) ns")
      (auto simp: detach_registered_def with_lock_undisturbed [OF e(2)])
  obtain step t1 where st: "spin_tail_step cfg (tail_clock env) (wait_slice debug remaining) t = (step, t1)"
    by (cases "spin_tail_step cfg (tail_clock env) (wait_slice debug remaining) t")
  show ?thesis
  proof (cases step)
    case SpinTail
    with st g that [of t1 ?s] show ?thesis by (simp add: wait_sleep_def)
  next
    case (Park park)
    with st d futex_wait_no_error [OF e(1)] that [of t1 r'] show ?thesis by (auto simp: wait_sleep_def Let_def)
  qed
qed

lemma lone_round_begins:
  assumes g: "guest pid a (ws_region st) (ws_nodes st)" and p: "patient a (ws_region st) (ws_seqs st)"
    and e: "lone pid env" and early: "\<forall>dl. wait_deadline a = Some dl \<longrightarrow> now_ns env < dl"
  obtains ns r t where "guest pid a r ns" "ns \<noteq> []" "bare r = bare (ws_region st)" "stamp r = stamp (ws_region st)"
    "sweep_calls t = sweep_calls (ws_thread st)"
    "wait_round env cfg debug a st = do {
       (t2, r2) \<leftarrow> wait_sweep (sweep_os env) cfg t r;
       (t3, r3) \<leftarrow> wait_sleep env cfg ns (map_option (\<lambda>dl. dl - now_ns env) (wait_deadline a)) debug t2 r2;
       Some (None, st\<lparr>ws_nodes := ns, ws_region := r3, ws_thread := t3\<rparr>) }"
proof -
  let ?os = "lock_os env" and ?r = "ws_region st"
  let ?m = "lock_mark ?os ?r"
  have bm: "bare ?m = bare ?r" by simp
  have lk: "lock_guard ?os 0 ?r = Some (Inr ?m)" "on_lock ?os ?r = ?r" using e by (simp_all add: lone_def lock_guard_ok)
  obtain ns r1 where g1: "guest pid a r1 ns" and b1: "bare r1 = bare ?m" and ns: "ns \<noteq> []" and st1: "stamp r1 = stamp ?m"
    and l: "wait_locked env a ?m (ws_nodes st) (ws_seqs st) = Some (case wait_deadline a of
        Some dl \<Rightarrow> if dl \<le> now_ns env then (Return Timeout, [], ws_seqs st, waiter_cleanup r1 ns)
          else (Block (seq (nodes r1 (ns ! 0))) (Some (dl - now_ns env)), ns, ws_seqs st, r1)
      | None \<Rightarrow> (Block (seq (nodes r1 (ns ! 0))) None, ns, ws_seqs st, r1))"
    by (rule lone_locked [of pid a ?m "ws_nodes st" "ws_seqs st" env])
      (use g p e patient_bare [OF bm] in auto)
  let ?rem = "map_option (\<lambda>dl. dl - now_ns env) (wait_deadline a)"
  have l': "wait_locked env a ?m (ws_nodes st) (ws_seqs st) = Some (Block (seq (nodes r1 (ns ! 0))) ?rem, ns, ws_seqs st, r1)"
    using l early by (cases "wait_deadline a") auto
  let ?r2 = "guard_drop r1"
  have b2: "bare ?r2 = bare ?r" and g2: "guest pid a ?r2 ns" and s2: "stamp ?r2 = stamp ?r" using b1 g1 st1 by simp_all
  have p2: "patient a ?r2 (ws_seqs st)" using p patient_bare [OF b2] by simp
  obtain t1 where sp: "wait_spin env cfg a (ws_seqs st) ns (ws_thread st) ?r2 = Some (None, t1, ?r2)"
    "sweep_calls t1 = sweep_calls (ws_thread st)" by (rule lone_spin [OF g2 p2 e])
  show ?thesis
    by (rule that [OF g2 ns b2 s2 sp(2)]) (use lk l' sp in \<open>simp add: wait_round_def Let_def\<close>)
qed

lemma lone_round_waits:
  assumes g: "guest pid a (ws_region st) (ws_nodes st)" and p: "patient a (ws_region st) (ws_seqs st)"
    and e: "restful pid (ws_region st) env" and early: "\<forall>dl. wait_deadline a = Some dl \<longrightarrow> now_ns env < dl"
    and sleep: "\<And>s ns. guest pid a s ns \<Longrightarrow> ns \<noteq> [] \<Longrightarrow> bare s = bare (ws_region st) \<Longrightarrow> guest pid a (asleep env s) ns"
  obtains st' s where "wait_round env cfg debug a st = Some (None, st')" "ws_seqs st' = ws_seqs st"
    "guest pid a (ws_region st') (ws_nodes st')" "guest pid a s (ws_nodes st')"
    "bare s = bare (ws_region st)" "bare (ws_region st') = bare (asleep env s)"
    "stamp s \<in> {stamp (ws_region st), locked_clock_ns (sweep_os env)}" "stamp (ws_region st') = stamp (asleep env s)"
proof -
  let ?rem = "map_option (\<lambda>dl. dl - now_ns env) (wait_deadline a)"
  obtain ns r t where r: "guest pid a r ns" "ns \<noteq> []" "bare r = bare (ws_region st)" "stamp r = stamp (ws_region st)"
    and w: "wait_round env cfg debug a st = do {
       (t2, r2) \<leftarrow> wait_sweep (sweep_os env) cfg t r;
       (t3, r3) \<leftarrow> wait_sleep env cfg ns ?rem debug t2 r2;
       Some (None, st\<lparr>ws_nodes := ns, ws_region := r3, ws_thread := t3\<rparr>) }"
    by (rule lone_round_begins [OF g p restful_lone [OF e] early, where cfg = cfg and debug = debug])
  have e2: "restful pid r env" using e restful_bare [OF r(3)] by simp
  obtain t2 r3 where sw: "wait_sweep (sweep_os env) cfg t r = Some (t2, r3)" and at: "at_rest r r3"
    and s3: "stamp r3 \<in> {stamp r, locked_clock_ns (sweep_os env)}"
    by (rule wait_sweep_idle [of "sweep_os env" r cfg t])
      (use e guest_nobody_dead [OF r(1) e2] in \<open>auto simp: restful_def lone_def\<close>)
  have b3: "bare r3 = bare (ws_region st)" and g3: "guest pid a r3 ns"
    using at_rest_bare [OF at] r(3) at_rest_guest [OF at r(1)] by simp_all
  obtain t3 r4 where sl: "wait_sleep env cfg ns ?rem debug t2 r3 = Some (t3, r4)" "guest pid a r4 ns"
    "bare r4 = bare (asleep env r3)" "stamp r4 = stamp (asleep env r3)"
    by (rule lone_sleep [OF _ _ sleep [OF g3 r(2) b3], of cfg ?rem debug t2]) (use e in \<open>auto simp: restful_def lone_def\<close>)
  show ?thesis
    by (rule that [of "st\<lparr>ws_nodes := ns, ws_region := r4, ws_thread := t3\<rparr>" r3])
      (use w sw sl b3 g3 s3 r(4) in simp_all)
qed

lemma lone_round_late:
  assumes g: "guest pid a (ws_region st) (ws_nodes st)" and p: "patient a (ws_region st) (ws_seqs st)"
    and e: "lone pid env" and late: "wait_deadline a = Some dl" "dl \<le> now_ns env"
  obtains st' where "wait_round env cfg debug a st = Some (Some (Returned Timeout), st')" "vacant (ws_region st')"
    "bare (ws_region st') = bare (ws_region st)" "stamp (ws_region st') = stamp (ws_region st)" "ws_thread st' = ws_thread st"
proof -
  let ?os = "lock_os env" and ?r = "ws_region st"
  let ?m = "lock_mark ?os ?r"
  have bm: "bare ?m = bare ?r" by simp
  have lk: "lock_guard ?os 0 ?r = Some (Inr ?m)" "on_lock ?os ?r = ?r" using e by (simp_all add: lone_def lock_guard_ok)
  obtain ns r1 where g1: "guest pid a r1 ns" and b1: "bare r1 = bare ?m" and s1: "stamp r1 = stamp ?m"
    and l: "wait_locked env a ?m (ws_nodes st) (ws_seqs st) = Some (case wait_deadline a of
        Some dl \<Rightarrow> if dl \<le> now_ns env then (Return Timeout, [], ws_seqs st, waiter_cleanup r1 ns)
          else (Block (seq (nodes r1 (ns ! 0))) (Some (dl - now_ns env)), ns, ws_seqs st, r1)
      | None \<Rightarrow> (Block (seq (nodes r1 (ns ! 0))) None, ns, ws_seqs st, r1))"
    by (rule lone_locked [of pid a ?m "ws_nodes st" "ws_seqs st" env])
      (use g p e patient_bare [OF bm] in auto)
  show ?thesis
    by (rule that [of "st\<lparr>ws_region := guard_drop (waiter_cleanup r1 ns), ws_nodes := [], ws_seqs := ws_seqs st\<rparr>"])
      (use l late lk guest_cleanup [OF g1] b1 s1 in \<open>simp_all add: wait_round_def Let_def\<close>)
qed

subsection \<open>The wait\<close>

text \<open>Rounds in which nobody else does anything, until the deadline.\<close>

lemma lone_loop_timeout:
  assumes e: "\<forall>j. restful pid r (envs j) \<and> asleep (envs j) = id" and dl: "wait_deadline a = Some d"
    and late: "d \<le> now_ns (envs (k + m))" and C: "\<forall>j. C (locked_clock_ns (sweep_os (envs j)))"
  shows "bare (ws_region st) = bare r \<Longrightarrow> guest pid a (ws_region st) (ws_nodes st) \<Longrightarrow>
    patient a (ws_region st) (ws_seqs st) \<Longrightarrow> C (stamp (ws_region st)) \<Longrightarrow>
    \<exists>st'. wait_loop envs k cfg debug a st = Some (Returned Timeout, st') \<and> vacant (ws_region st') \<and>
      bare (ws_region st') = bare r \<and> C (stamp (ws_region st'))"
  using late
proof (induction m arbitrary: k st)
  case (0 k st)
  have e': "lone pid (envs k)" using e restful_lone by blast
  obtain st' where "wait_round (envs k) cfg debug a st = Some (Some (Returned Timeout), st')" "vacant (ws_region st')"
    "bare (ws_region st') = bare (ws_region st)" "stamp (ws_region st') = stamp (ws_region st)"
    by (rule lone_round_late [OF 0(2,3) e' dl]) (use 0 in auto)
  with 0(1,4) show ?case by (subst wait_loop.simps) auto
next
  case (Suc m k st)
  note e' = e [rule_format, THEN conjunct1, folded restful_bare [OF Suc.prems(1)]]
  show ?case
  proof (cases "d \<le> now_ns (envs k)")
    case True
    obtain st' where "wait_round (envs k) cfg debug a st = Some (Some (Returned Timeout), st')" "vacant (ws_region st')"
      "bare (ws_region st') = bare (ws_region st)" "stamp (ws_region st') = stamp (ws_region st)"
      by (rule lone_round_late [OF Suc.prems(2,3) restful_lone [OF e'] dl True]) auto
    with Suc.prems(1,4) show ?thesis by (subst wait_loop.simps) auto
  next
    case False
    obtain st' s where rd: "wait_round (envs k) cfg debug a st = Some (None, st')" "ws_seqs st' = ws_seqs st"
      and g: "guest pid a (ws_region st') (ws_nodes st')" "bare s = bare (ws_region st)"
      "bare (ws_region st') = bare (asleep (envs k) s)"
      and c: "stamp s \<in> {stamp (ws_region st), locked_clock_ns (sweep_os (envs k))}"
        "stamp (ws_region st') = stamp (asleep (envs k) s)"
      by (rule lone_round_waits [OF Suc.prems(2,3) e', where cfg = cfg and debug = debug]) (use e dl False in auto)
    have b: "bare (ws_region st') = bare (ws_region st)" using g(2,3) e by simp
    have "C (stamp (ws_region st'))" using c C e Suc.prems(4) by auto
    then have "\<exists>st''. wait_loop envs (Suc k) cfg debug a st' = Some (Returned Timeout, st'') \<and> vacant (ws_region st'') \<and>
        bare (ws_region st'') = bare r \<and> C (stamp (ws_region st''))"
      by (intro Suc.IH) (use b g(1) rd(2) Suc.prems patient_bare [OF b] in auto)
    with rd(1) show ?thesis by (subst wait_loop.simps) auto
  qed
qed

text \<open>The fast path records the pulse counters and finds the objects taken.\<close>

lemma wait_fast_taken:
  assumes os: "undisturbed os" and R: "region_rep r Q F" and a: "args_ok a" "length (wait_handles a) \<le> MAX_WAIT_COUNT"
    "wait_alert a = 0" and v: "waitable_handles r (wait_handles a)"
    and t: "taken r (wait_handles a) (wait_owner a) (wait_for_all a)"
  obtains qs where "wait_fast os r a zero = Some (if zero then Some (Returned Timeout) else None, qs, r)" "patient a r qs"
proof -
  let ?hs = "wait_handles a"
  obtain qs where q: "fast_snapshot r 0 ?hs (replicate MAX_WAIT_COUNT 0) = (True, qs)"
    "\<forall>j<length ?hs. qs ! j = (if obj_type (slots r (idx (?hs ! j))) = TYPE_EVENT then pulse_seq (slots r (idx (?hs ! j))) else 0)"
    using fast_snapshot_nth [OF v, of 0 "replicate MAX_WAIT_COUNT 0"] a(2) by auto
  have n: "seqs_now r ?hs qs" using q(2) by (simp add: seqs_now_def)
  have id: "on_check os r = r" using os by (simp add: undisturbed_def)
  have tr: "try_satisfy os r ?hs (wait_owner a) qs (wait_for_all a) = Some (None, r)"
    by (rule try_satisfy_taken [OF os R _ _ v n t]) (use a in \<open>auto simp: args_ok_def\<close>)
  show ?thesis
    by (rule that [of qs]) (use q(1) tr n a v t id in
      \<open>simp_all add: wait_fast_def Let_def alert_ok_def alert_signaled_def patient_def\<close>)
qed

abbreviation plain_args :: "u32 list \<Rightarrow> u32 \<Rightarrow> nat option \<Rightarrow> bool \<Rightarrow> WaitArgs" where
  "plain_args hs owner dl wall \<equiv> \<lparr>wait_handles = hs, wait_owner = owner, wait_deadline = dl, wait_for_all = wall, wait_alert = 0\<rparr>"

text \<open>A wait with good arguments on objects that are taken goes into its loop, unless its timeout is zero.\<close>

lemma wait_taken_loop:
  assumes os: "undisturbed os" and v: "vacant r" and a: "owner \<noteq> 0" "hs \<noteq> []" "length hs \<le> MAX_WAIT_COUNT" "distinct hs"
    and h: "waitable_handles r hs" "taken r hs owner wall"
  obtains qs where "patient (plain_args hs owner (map_option (\<lambda>d. start + d) timeout) wall) r qs"
    "wait os envs cfg debug start t r hs owner timeout wall 0 =
       (if timeout = Some 0 then Some (Returned Timeout, t, r)
        else map_option (\<lambda>(x, st). (x, ws_thread st, ws_region st)) (wait_loop envs 0 cfg debug
          (plain_args hs owner (map_option (\<lambda>d. start + d) timeout) wall)
          \<lparr>ws_region = r, ws_thread = t, ws_nodes = [], ws_seqs = qs\<rparr>))"
proof -
  let ?a = "plain_args hs owner (map_option (\<lambda>d. start + d) timeout) wall"
  obtain F where R: "region_rep r (\<lambda>_. []) F" by (rule vacant_rep [OF v])
  obtain qs where f: "wait_fast os r ?a (timeout = Some 0) =
      Some (if timeout = Some 0 then Some (Returned Timeout) else None, qs, r)" "patient ?a r qs"
    by (rule wait_fast_taken [OF os R, of ?a]) (use a h in \<open>auto simp: args_ok_def\<close>)
  show ?thesis
  proof (rule that [of qs])
    show "wait os envs cfg debug start t r hs owner timeout wall 0 =
       (if timeout = Some 0 then Some (Returned Timeout, t, r)
        else map_option (\<lambda>(x, st). (x, ws_thread st, ws_region st)) (wait_loop envs 0 cfg debug ?a
          \<lparr>ws_region = r, ws_thread = t, ws_nodes = [], ws_seqs = qs\<rparr>))"
      using a f(1) by (auto simp: wait_def Let_def map_option_case split: option.split Option.bind_splits)
  qed (rule f(2))
qed

lemma wait_times_out:
  assumes os: "undisturbed os" and v: "vacant r" and a: "owner \<noteq> 0" "hs \<noteq> []" "length hs \<le> MAX_WAIT_COUNT" "distinct hs"
    and h: "waitable_handles r hs" "taken r hs owner wall"
    and e: "\<forall>j. restful pid r (envs j) \<and> asleep (envs j) = id" "start + d \<le> now_ns (envs m)"
  obtains t' r' where "wait os envs cfg debug start t r hs owner (Some d) wall 0 = Some (Returned Timeout, t', r')"
    "vacant r'" "bare r' = bare r"
proof -
  let ?a = "plain_args hs owner (map_option (\<lambda>d. start + d) (Some d)) wall"
  obtain qs where p: "patient ?a r qs" and w: "wait os envs cfg debug start t r hs owner (Some d) wall 0 =
       (if Some d = Some 0 then Some (Returned Timeout, t, r)
        else map_option (\<lambda>(x, st). (x, ws_thread st, ws_region st)) (wait_loop envs 0 cfg debug ?a
          \<lparr>ws_region = r, ws_thread = t, ws_nodes = [], ws_seqs = qs\<rparr>))"
    by (rule wait_taken_loop [OF os v a h])
  have "guest pid ?a r []" using v by (simp add: vacant_guest)
  then obtain st where "wait_loop envs 0 cfg debug ?a \<lparr>ws_region = r, ws_thread = t, ws_nodes = [], ws_seqs = qs\<rparr> =
      Some (Returned Timeout, st)" "vacant (ws_region st)" "bare (ws_region st) = bare r"
    using lone_loop_timeout [OF e(1), of ?a "start + d" 0 m "\<lambda>_. True" "\<lparr>ws_region = r, ws_thread = t, ws_nodes = [], ws_seqs = qs\<rparr>"
        cfg debug] e(2) p by auto
  with w v that show ?thesis by (cases "d = 0") auto
qed

text \<open>A wait that names something else than an object is refused by its first locked round.\<close>

lemma fast_snapshot_bad: "\<not> waitable_handles r hs \<Longrightarrow> \<exists>qs'. fast_snapshot r k hs qs = (False, qs')"
proof (induction hs arbitrary: k qs)
  case (Cons h hs)
  then show ?case by (cases "slot r h") (auto simp: waitable_handles_def Let_def)
qed (simp add: waitable_handles_def)

lemma locked_snapshot_bad: "\<not> waitable_handles r hs \<Longrightarrow> \<exists>qs'. locked_snapshot r first k hs qs = (False, qs')"
proof (induction hs arbitrary: k qs)
  case (Cons h hs)
  then show ?case by (cases "slot r h") (auto simp: waitable_handles_def Let_def)
qed (simp add: waitable_handles_def)

lemma wait_refused:
  assumes os: "undisturbed os" and a: "owner \<noteq> 0" "hs \<noteq> []" "length hs \<le> MAX_WAIT_COUNT" "distinct hs"
    and h: "\<not> waitable_handles r hs"
    and e: "lock_ret (lock_os (envs 0)) 0 = 0" "on_lock (lock_os (envs 0)) = id"
  obtains r' where "wait os envs cfg debug start t r hs owner timeout wall alert = Some (Returned InvalidWait, t, r')" "at_rest r r'"
proof -
  let ?a = "\<lparr>wait_handles = hs, wait_owner = owner, wait_deadline = map_option (\<lambda>d. start + d) timeout,
    wait_for_all = wall, wait_alert = alert\<rparr>"
  let ?m = "lock_mark (lock_os (envs 0)) r"
  have id: "on_check os r = r" using os by (simp add: undisturbed_def)
  obtain qs where q: "fast_snapshot r 0 hs (replicate MAX_WAIT_COUNT 0) = (False, qs)" using fast_snapshot_bad [OF h] by blast
  have "\<not> waitable_handles ?m hs" using h by (simp add: waitable_handles_def)
  then obtain qs1 where q1: "locked_snapshot ?m True 0 hs qs = (False, qs1)" using locked_snapshot_bad by blast
  let ?st = "\<lparr>ws_region = r, ws_thread = t, ws_nodes = [], ws_seqs = qs\<rparr>"
  have "wait_locked (envs 0) ?a ?m [] qs = Some (Return InvalidWait, [], qs1, ?m)"
    using q1 by (simp add: wait_locked_def waiter_cleanup_def)
  then have "wait_round (envs 0) cfg debug ?a ?st =
      Some (Some (Returned InvalidWait), ?st\<lparr>ws_region := guard_drop ?m, ws_nodes := [], ws_seqs := qs1\<rparr>)"
    using e by (simp add: wait_round_def Let_def lock_guard_ok)
  then have "wait_loop envs 0 cfg debug ?a ?st =
      Some (Returned InvalidWait, ?st\<lparr>ws_region := guard_drop ?m, ws_nodes := [], ws_seqs := qs1\<rparr>)"
    by (subst wait_loop.simps) simp
  moreover have "wait_fast os r ?a (timeout = Some 0) = Some (None, qs, r)" using q id by (simp add: wait_fast_def)
  ultimately show ?thesis using a that [of "guard_drop ?m"] by (simp add: wait_def Let_def)
qed

subsection \<open>Woken by a signal\<close>

text \<open>A signal to a region with one guest: the guest keeps its nodes, and the object has its new word.\<close>

lemma guest_signal:
  assumes os: "undisturbed os" and ok: "word_update (word_ok ty) body" and g: "guest pid a r ns"
    and h: "slot_of_type r h ty = Inr i" and b: "body (w0 (slots r i)) = Swap w' (res, wake)"
  obtains r' where "signal_op os r h ty body = Some (res, r')" "guest pid a r' ns" "bare r' = bare (put_word r i w')"
proof -
  obtain Q F where R: "region_rep r Q F" and o: "ns = [] \<or> owns r F ns (targets a)"
    and l: "\<forall>x. node_held r F x \<longrightarrow> x \<in> set ns" "\<forall>x\<in>set ns. node_pid (nodes r x) = pid" by (rule guest_rep [OF g])
  have at: "atomically body i r = ((res, wake), put_word r i w')" using b by (simp add: atomically_def)
  obtain r' where r': "signal_op os r h ty body = Some (res, r')" "region_rep r' (if wake then Q(i := []) else Q) F"
    "woken (put_word r i w') (if wake then Q i else []) r'" by (rule signal_op_undisturbed [OF os R h ok at])
  have c: "nodes (put_word r i w') = nodes r" "core (put_word r i w') = core r" by (simp_all add: core_def)
  have "ns = [] \<or> owns r' F ns (targets a)" using o woken_owns [OF R r'(2) _ r'(3) c] by auto
  moreover have "\<forall>x. node_held r' F x \<longrightarrow> x \<in> set ns"
    using l(1) r'(3) coreD(2) [of r' "put_word r i w'"] by (simp add: node_held_def woken_def)
  moreover have "\<forall>x\<in>set ns. node_pid (nodes r' x) = pid" using l(2) r'(3) by (simp add: woken_def)
  ultimately have "guest pid a r' ns" by (rule guestI [OF r'(2)])
  with r'(1) woken_bare [OF r'(3)] that show ?thesis by blast
qed

lemma bare_put_word: "bare (put_word r i w) = (bare r)(i := (bare r i)\<lparr>w0 := w\<rparr>)"
  by (rule ext) (simp add: bare_def put_word_def)

lemma put_word_bare: "bare r' = bare r \<Longrightarrow> bare (put_word r' i w) = bare (put_word r i w)"
  by (simp only: bare_put_word)

text \<open>A guest's attempt that succeeds writes one word and ends the wait.\<close>

lemma lone_round_hits:
  assumes g: "guest pid a (ws_region st) (ws_nodes st)" and q: "seqs_now (ws_region st) (wait_handles a) (ws_seqs st)"
    and v: "waitable_handles (ws_region st) (wait_handles a)" and e: "restful pid (ws_region st) env"
    and a: "args_ok a" "length (wait_handles a) \<le> MAX_WAIT_COUNT" "wait_alert a = 0"
    and hit: "\<And>s Q F. region_rep s Q F \<Longrightarrow> bare s = bare (ws_region st) \<Longrightarrow>
      try_satisfy (try_os env) s (wait_handles a) (wait_owner a) (ws_seqs st) (wait_for_all a) = Some (Some x, put_word s i w) \<and>
      region_rep (put_word s i w) Q F"
  obtains st' where "wait_round env cfg debug a st = Some (Some (Returned x), st')" "vacant (ws_region st')"
    "bare (ws_region st') = bare (put_word (ws_region st) i w)"
proof -
  let ?os = "lock_os env" and ?r = "ws_region st" and ?hs = "wait_handles a"
  let ?m = "lock_mark ?os ?r"
  have lk: "lock_guard ?os 0 ?r = Some (Inr ?m)" "on_lock ?os ?r = ?r" using e by (simp_all add: restful_def lone_def lock_guard_ok)
  have pid: "getpid ?os = pid" using e by (simp add: restful_def lone_def)
  have tg: "targets a = ?hs" "?hs \<noteq> []" using a by (auto simp: args_ok_def)
  have ln: "length (targets a) \<le> 8192" "targets a \<noteq> []" using tg a(2) by (simp_all only: tg MAX_WAIT_COUNT_def)
  have gm: "guest pid a ?m (ws_nodes st)" using g by simp
  obtain ns r1 where al: "(if ws_nodes st = [] then alloc_nodes ?os (length ?hs) ?m [] else ((True, ws_nodes st), ?m)) = ((True, ns), r1)"
    and g1: "guest pid a r1 ns" "slots r1 = slots ?m" "ns \<noteq> []" by (rule guest_nodes [OF gm pid ln, unfolded tg(1)])
  have "bare r1 = bare ?m" by (rule ext) (simp only: bare_def g1(2))
  then have b1: "bare r1 = bare ?r" by simp
  let ?r2 = "register_all (ns ! 0) r1 ns ?hs"
  have b: "bare ?r2 = bare ?r" using b1 by simp
  have g2: "guest pid a ?r2 ns" by (rule register_guest) (use g1 a v waitable_handles_bare [OF b1] in auto)
  then obtain Q F where R: "region_rep ?r2 Q F" and o: "ns = [] \<or> owns ?r2 F ns (targets a)"
    and l: "\<forall>x. node_held ?r2 F x \<longrightarrow> x \<in> set ns" "\<forall>x\<in>set ns. node_pid (nodes ?r2 x) = pid" by (rule guest_rep)
  let ?r3 = "put_word ?r2 i w"
  have tr: "try_satisfy (try_os env) ?r2 ?hs (wait_owner a) (ws_seqs st) (wait_for_all a) = Some (Some x, ?r3)"
    and R3: "region_rep ?r3 Q F" using hit [OF R b] by blast+
  have "guest pid a ?r3 ns"
    by (rule guestI [OF R3]) (use o l owns_cong [of ?r3 ?r2 F ns] in \<open>auto simp: node_held_def\<close>)
  from guest_cleanup [OF this] have vac: "vacant (waiter_cleanup ?r3 ns)" .
  have "waitable_handles ?m ?hs" using v by (simp add: waitable_handles_def)
  then have sn: "locked_snapshot ?m (ws_nodes st = []) 0 ?hs (ws_seqs st) = (True, ws_seqs st)"
    by (rule locked_snapshot_now) (use q in \<open>simp add: seqs_now_def\<close>)
  have "wait_locked env a ?m (ws_nodes st) (ws_seqs st) = Some (Return x, [], ws_seqs st, waiter_cleanup ?r3 ns)"
    using sn al tr a(3) by (simp add: wait_locked_def Let_def alert_ok_def alert_signaled_def)
  with lk vac put_word_bare [OF b, of i w] show ?thesis
    by (intro that [of "st\<lparr>ws_region := guard_drop (waiter_cleanup ?r3 ns), ws_nodes := [], ws_seqs := ws_seqs st\<rparr>"])
      (simp_all add: wait_round_def Let_def)
qed

text \<open>Idle rounds, before the deadline: the wait goes on as a guest.\<close>

lemma lone_loop_idle:
  assumes e: "\<forall>j<m. restful pid r (envs (k + j)) \<and> asleep (envs (k + j)) = id \<and>
      (\<forall>dl. wait_deadline a = Some dl \<longrightarrow> now_ns (envs (k + j)) < dl)"
  shows "bare (ws_region st) = bare r \<Longrightarrow> guest pid a (ws_region st) (ws_nodes st) \<Longrightarrow>
    patient a (ws_region st) (ws_seqs st) \<Longrightarrow>
    \<exists>st'. wait_loop envs k cfg debug a st = wait_loop envs (k + m) cfg debug a st' \<and> bare (ws_region st') = bare r \<and>
      guest pid a (ws_region st') (ws_nodes st') \<and> patient a (ws_region st') (ws_seqs st')"
  using e
proof (induction m arbitrary: k st)
  case (Suc m k st)
  have e0: "restful pid r (envs k)" "asleep (envs k) = id"
    "\<forall>dl. wait_deadline a = Some dl \<longrightarrow> now_ns (envs k) < dl" using Suc.prems(4) [rule_format, of 0] by simp_all
  obtain st' s where rd: "wait_round (envs k) cfg debug a st = Some (None, st')" "ws_seqs st' = ws_seqs st"
    and g: "guest pid a (ws_region st') (ws_nodes st')" "bare s = bare (ws_region st)"
    "bare (ws_region st') = bare (asleep (envs k) s)"
    by (rule lone_round_waits [OF Suc.prems(2,3), where cfg = cfg and debug = debug and env = "envs k"])
      (use e0 restful_bare [OF Suc.prems(1)] in auto)
  have b: "bare (ws_region st') = bare (ws_region st)" using g(2,3) e0(2) by simp
  have "\<exists>st''. wait_loop envs (Suc k) cfg debug a st' = wait_loop envs (Suc k + m) cfg debug a st'' \<and>
      bare (ws_region st'') = bare r \<and> guest pid a (ws_region st'') (ws_nodes st'') \<and> patient a (ws_region st'') (ws_seqs st'')"
    by (rule Suc.IH) (use b g(1) rd(2) Suc.prems patient_bare [OF b] in \<open>auto dest: spec [of _ "Suc _"]\<close>)
  with rd(1) show ?case by (subst wait_loop.simps) auto
qed auto

lemma abs_object_cong: "obj_type s' = obj_type s \<Longrightarrow> w0 s' = w0 s \<Longrightarrow> abs_object s' = abs_object s"
  by (simp add: abs_object_def)

lemma grant_bare: "grant (bare r i) me q = grant (slots r i) me q"
  by (simp add: grant_def bare_sel)

lemma grant_steady: "obj_type s \<noteq> TYPE_EVENT \<Longrightarrow> grant s me q = grant s me q'"
  by (simp add: grant_def)

lemma grant_put_word_here: "grant (slots (put_word r i w) i) me q = grant ((slots r i)\<lparr>w0 := w\<rparr>) me q"
  by (simp add: slots_put_word_here)

text \<open>
  The attempt after the signal: the signaled object is the only one that is available, so it is the
  one that is acquired.
\<close>

lemma attempt_after_signal:
  assumes os: "undisturbed os" and R: "region_rep s Q F" and b: "bare s = bare (put_word r i w')" and me: "owner \<noteq> 0"
    and hs: "distinct (map idx hs)" "n < length hs" "idx (hs ! n) = i"
    and none: "\<forall>k<length hs. k \<noteq> n \<longrightarrow> grant (slots r (idx (hs ! k))) owner (qs ! k) = None"
    and got: "grant ((slots r i)\<lparr>w0 := w'\<rparr>) owner (qs ! n) = Some (od, w)"
  shows "try_satisfy os s hs owner qs False = Some (Some (Signaled (of_nat n) od), put_word s i w) \<and>
    region_rep (put_word s i w) Q F"
proof -
  have eq: "grant (slots s j) owner q = grant (slots (put_word r i w') j) owner q" for j q
    by (simp only: b grant_bare [symmetric])
  have "\<forall>k<n. grant (slots s (idx (hs ! k))) owner (qs ! (0 + k)) = None"
  proof (intro allI impI)
    fix k assume k: "k < n"
    then have "idx (hs ! k) \<noteq> i" using nth_eq_iff_index_eq [OF hs(1), of k n] hs(2,3) by auto
    with k none hs(2) show "grant (slots s (idx (hs ! k))) owner (qs ! (0 + k)) = None" by (simp add: eq)
  qed
  moreover have g: "grant (slots s i) owner (qs ! n) = Some (od, w)" using got by (simp add: eq grant_put_word_here)
  ultimately have "try_any os s 0 hs owner qs = Some (Some (Signaled (of_nat n) od), put_word s i w)"
    using try_any_some [OF os hs(2), of s owner qs 0 od w] hs(3) by simp
  with grant_rep [OF R me g] show ?thesis by (simp add: try_satisfy_def)
qed

lemma restful_put_word: "restful pid (put_word r i w) env = restful pid r env"
proof -
  have "dead_slot os (slots (put_word r i w) j) = dead_slot os (slots r j)" for os j
    by (simp add: dead_slot_def held_by_def spilled_def holders_cap_def)
  then show ?thesis by (simp add: restful_def)
qed

text \<open>From the round in which the signal comes: that round sleeps, and the next one returns.\<close>

lemma signal_round:
  assumes g: "guest pid a (ws_region st) (ws_nodes st)" and p: "patient a (ws_region st) (ws_seqs st)"
    and b: "bare (ws_region st) = bare r" and R: "region_rep r Q F" and any: "\<not> wait_for_all a"
    and e: "restful pid r (envs m)" "restful pid r (envs (Suc m))" "\<forall>dl. wait_deadline a = Some dl \<longrightarrow> now_ns (envs m) < dl"
    and n: "n < length (wait_handles a)" "slot_of_type r (wait_handles a ! n) ty = Inr i"
    and sg: "undisturbed sig" "word_update (word_ok ty) body" "body (w0 (slots r i)) = Swap w' (res, True)"
      "asleep (envs m) = (\<lambda>s. snd (the (signal_op sig s (wait_handles a ! n) ty body)))"
    and got: "grant ((slots r i)\<lparr>w0 := w'\<rparr>) (wait_owner a) (pulse_seq (slots r i)) = Some (od, w)"
  shows "\<exists>st'. wait_loop envs m cfg debug a st = Some (Returned (Signaled (of_nat n) od), st') \<and> vacant (ws_region st') \<and>
    bare (ws_region st') = bare (put_word r i w)"
proof -
  let ?hs = "wait_handles a" and ?qs = "ws_seqs st"
  have i: "idx (?hs ! n) = i" "obj_type (slots r i) = ty" "state (slots r i) = SLOT_USED"
    using n(2) slot_of_type_used [OF n(2)] by (simp_all add: slot_of_type_Inr)
  have pr: "patient a r ?qs" using p patient_bare [OF b] by simp
  then have a: "args_ok a" "length ?hs \<le> MAX_WAIT_COUNT" "wait_alert a = 0" and v: "waitable_handles r ?hs"
    and q: "seqs_now r ?hs ?qs" and t: "taken r ?hs (wait_owner a) False" using any by (auto simp: patient_def)
  have d: "distinct (map idx ?hs)"
    by (rule distinct_idx [of _ r]) (use a(1) v in \<open>auto simp: args_ok_def waitable_handles_def\<close>)
  have sl: "slot_of_type s (?hs ! n) ty = Inr i" "w0 (slots s i) = w0 (slots r i)" if "bare s = bare r" for s
    using n(2) slot_bare [OF that] bareD [OF that] by (simp_all add: slot_of_type_Inr)
  have wake: "guest pid a (asleep (envs m) s) ns \<and> bare (asleep (envs m) s) = bare (put_word r i w')"
    if gs: "guest pid a s ns" and bs: "bare s = bare r" for s ns
  proof -
    obtain s' where "signal_op sig s (?hs ! n) ty body = Some (res, s')" "guest pid a s' ns" "bare s' = bare (put_word s i w')"
      by (rule guest_signal [OF sg(1,2) gs sl(1) [OF bs], where w' = w' and res = res and wake = True])
        (use sg(3) sl(2) [OF bs] in auto)
    with put_word_bare [OF bs] show ?thesis by (simp add: sg(4))
  qed
  obtain st1 s where rd: "wait_round (envs m) cfg debug a st = Some (None, st1)" "ws_seqs st1 = ?qs"
    and g1: "guest pid a (ws_region st1) (ws_nodes st1)" "guest pid a s (ws_nodes st1)" "bare s = bare (ws_region st)"
    "bare (ws_region st1) = bare (asleep (envs m) s)"
    by (rule lone_round_waits [OF g p, where cfg = cfg and debug = debug and env = "envs m"])
      (use e(1,3) restful_bare [OF b] wake b in auto)
  have b1: "bare (ws_region st1) = bare (put_word r i w')" using wake [of s "ws_nodes st1"] g1 b by simp
  have v1: "waitable_handles (ws_region st1) ?hs" "seqs_now (ws_region st1) ?hs ?qs"
    using v q waitable_handles_bare [OF b1] seqs_now_bare [OF b1]
    by (auto simp: waitable_handles_def seqs_now_def)
  have e1: "restful pid (ws_region st1) (envs (Suc m))" using e(2) restful_bare [OF b1] by (simp add: restful_put_word)
  have none: "\<forall>k<length ?hs. k \<noteq> n \<longrightarrow> grant (slots r (idx (?hs ! k))) (wait_owner a) (?qs ! k) = None"
  proof (intro allI impI)
    fix k assume k: "k < length ?hs"
    have u: "state (slots r (idx (?hs ! k))) = SLOT_USED" using v k by (auto simp: waitable_handles_def slot_Some_iff)
    have "wait_satisfied (slots r (idx (?hs ! k))) (wait_owner a) (?qs ! k) = None"
      using t k by (simp add: taken_def seqs_now_satisfied [OF q])
    then show "grant (slots r (idx (?hs ! k))) (wait_owner a) (?qs ! k) = None"
      using wait_unsatisfied [OF R u] a(1) by (simp add: args_ok_def)
  qed
  have got': "grant ((slots r i)\<lparr>w0 := w'\<rparr>) (wait_owner a) (?qs ! n) = Some (od, w)"
  proof (cases "obj_type (slots r i) = TYPE_EVENT")
    case True
    then have "?qs ! n = pulse_seq (slots r i)" using q n(1) i(1) by (auto simp: seqs_now_def)
    with got show ?thesis by simp
  next
    case False
    then show ?thesis using got grant_steady [of "(slots r i)\<lparr>w0 := w'\<rparr>" "wait_owner a" "pulse_seq (slots r i)" "?qs ! n"] by simp
  qed
  have u: "undisturbed (try_os (envs (Suc m)))" and me: "wait_owner a \<noteq> 0" using e(2) a(1) by (auto simp: restful_def lone_def args_ok_def)
  obtain st2 where "wait_round (envs (Suc m)) cfg debug a st1 = Some (Some (Returned (Signaled (of_nat n) od)), st2)"
    "vacant (ws_region st2)" "bare (ws_region st2) = bare (put_word (ws_region st1) i w)"
    by (rule lone_round_hits [OF g1(1) _ v1(1) e1 a, where cfg = cfg and debug = debug and x = "Signaled (of_nat n) od" and i = i and w = w])
      (use rd(2) v1(2) any attempt_after_signal [OF u _ _ me d n(1) i(1) none got'] b1 in auto)
  moreover have "bare (put_word (ws_region st1) i w) = bare (put_word r i w)"
    using put_word_bare [OF b1, of i w] by simp
  ultimately show ?thesis
    by (subst wait_loop.simps, simp add: rd(1)) (subst wait_loop.simps, simp)
qed

subsection \<open>Properties\<close>

lemma signal_wakes:
  assumes "undisturbed os" "vacant r" "owner \<noteq> 0" "length hs \<le> MAX_WAIT_COUNT" "distinct hs"
    and "waitable_handles r hs" "taken r hs owner False" "n < length hs" "slot_of_type r (hs ! n) ty = Inr i"
    and "undisturbed sig" "word_update (word_ok ty) body" "body (w0 (slots r i)) = Swap w' (res, True)"
    and "wait_satisfied ((slots r i)\<lparr>w0 := w'\<rparr>) owner (pulse_seq (slots r i)) = Some (od, ob)"
    and "\<forall>j\<le>Suc m. restful pid r (envs j)" "\<forall>j<m. asleep (envs j) = id"
    and "asleep (envs m) = (\<lambda>s. snd (the (signal_op sig s (hs ! n) ty body)))"
    and "timeout \<noteq> Some 0" "\<forall>j\<le>m. \<forall>d. timeout = Some d \<longrightarrow> now_ns (envs j) < start + d"
  shows "\<exists>t' r' w. wait_any os envs cfg debug start t r hs owner timeout 0 = Some (Returned (Signaled (of_nat n) od), t', r') \<and>
    vacant r' \<and> bare r' = bare (put_word r i w) \<and> abs_object ((slots r i)\<lparr>w0 := w\<rparr>) = Some ob"
proof -
  let ?a = "plain_args hs owner (map_option (\<lambda>d. start + d) timeout) False"
  obtain F where R: "region_rep r (\<lambda>_. []) F" by (rule vacant_rep [OF assms(2)])
  have i: "obj_type (slots r i) = ty" "state (slots r i) = SLOT_USED"
    using assms(9) slot_of_type_used [OF assms(9)] by (simp_all add: slot_of_type_Inr)
  have "word_ok ty w'" using word_update.keeps [OF assms(11) _ assms(12)] region_word [OF R i(2)] i(1) by simp
  then obtain w where w: "grant ((slots r i)\<lparr>w0 := w'\<rparr>) owner (pulse_seq (slots r i)) = Some (od, w)"
    "abs_object ((slots r i)\<lparr>w0 := w\<rparr>) = Some ob"
    using grant_nt(1) [of "(slots r i)\<lparr>w0 := w'\<rparr>" owner "pulse_seq (slots r i)"] assms(3,13) i(1)
    by (auto simp: map_option_case split: Option.bind_splits option.splits)
  have hs: "hs \<noteq> []" using assms(8) by auto
  obtain qs where p: "patient ?a r qs" and wt: "wait os envs cfg debug start t r hs owner timeout False 0 =
       (if timeout = Some 0 then Some (Returned Timeout, t, r)
        else map_option (\<lambda>(x, st). (x, ws_thread st, ws_region st)) (wait_loop envs 0 cfg debug ?a
          \<lparr>ws_region = r, ws_thread = t, ws_nodes = [], ws_seqs = qs\<rparr>))"
    by (rule wait_taken_loop [OF assms(1-3) hs assms(4-7)])
  let ?st = "\<lparr>ws_region = r, ws_thread = t, ws_nodes = [], ws_seqs = qs\<rparr>"
  have dl: "\<forall>dl. wait_deadline ?a = Some dl \<longrightarrow> now_ns (envs j) < dl" if "j \<le> m" for j using assms(18) that by auto
  have idle: "\<forall>j<m. restful pid r (envs (0 + j)) \<and> asleep (envs (0 + j)) = id \<and>
      (\<forall>dl. wait_deadline ?a = Some dl \<longrightarrow> now_ns (envs (0 + j)) < dl)"
    using assms(14,15) dl by (simp add: less_imp_le)
  have "guest pid ?a r []" using assms(2) by (simp add: vacant_guest)
  then obtain st where l: "wait_loop envs 0 cfg debug ?a ?st = wait_loop envs m cfg debug ?a st"
    and st: "bare (ws_region st) = bare r" "guest pid ?a (ws_region st) (ws_nodes st)" "patient ?a (ws_region st) (ws_seqs st)"
    using lone_loop_idle [OF idle, of ?st cfg debug] p by auto
  obtain st' where "wait_loop envs m cfg debug ?a st = Some (Returned (Signaled (of_nat n) od), st')" "vacant (ws_region st')"
    and b: "bare (ws_region st') = bare (put_word r i w)"
    using signal_round [OF st(2,3,1) R, of envs m n ty i sig body w' res od w cfg debug] assms(8-12,14,16) dl [of m] w(1) by auto
  with wt assms(17) l w(2) b show ?thesis by (auto simp: wait_any_def)
qed


text \<open>Process 7 waits on an empty semaphore; in the third round, while it sleeps, process 8 releases two units.\<close>

definition release_third :: "nat \<Rightarrow> WaitEnv" where
  "release_third j = (quiet_round 7 j)\<lparr>asleep := if j = 2 then (\<lambda>s. snd (the (sem_release (quiet_os 8) s 1 2))) else id\<rparr>"

lemma restful_quiet_round:
  assumes "pid \<noteq> 0" "\<forall>i. state (slots r i) = SLOT_USED \<longrightarrow> slot_pid (slots r i) \<noteq> 0 \<longrightarrow> pid_alive (quiet_os pid) (slot_pid (slots r i))"
  shows "restful pid r ((quiet_round pid now)\<lparr>asleep := g\<rparr>)"
  using assms
  by (auto simp: restful_def lone_def quiet_round_def dead_slot_def) (auto simp: pid_alive_def quiet_os_def errno_consts)

lemma fresh_vacant: "vacant fresh_region"
  by (rule vacantI [OF fresh_region_rep]) (simp add: node_held_def)

lemma one_object_vacant: "word_ok ty w \<Longrightarrow> vacant (one_object ty w pid)"
  by (rule vacantI [OF one_object_rep]) (simp_all add: node_held_def)


end
