(* ===== verification/Nt_Machine.thy ===== *)
theory Nt_Machine
  imports Lone_Wait
begin

text \<open>
  The abstract machine that the library implements: a table from handles to NT objects, and what
  every call of the programming interface does to it. The region implements the machine: \<open>nt_table\<close>
  reads the table off the region, and on a region at rest every call of the model returns, with a
  result and a new table that the machine allows. \<open>run_call\<close> is the call as the code carries it
  out. The refinement is proved call by call, and lifted to sequences of calls by several
  processes on a newly created region.
\<close>

subsection \<open>The machine\<close>

type_synonym nt_table = "u32 \<rightharpoonup> nt_object"

datatype nt_call =
    CreateSem u32 u32 | CreateMutex u32 u32 | CreateEvent bool bool
  | Close u32 | Retain u32 | Release u32
  | SemRelease u32 u32 | MutexUnlock u32 u32 | MutexKill u32 u32
  | EventSet u32 | EventReset u32 | EventPulse u32
  | ReadSem u32 | ReadMutex u32 | ReadEvent u32
  | SweepDead
  | Wait "u32 list" u32 "nat option" bool

datatype nt_result =
    Handle u32 | Count u32 | Done | Fail Error | Closed bool
  | SemInfo u32 u32 | MutexInfo u32 u32 bool | EventInfo bool bool
  | Waited wait_run

definition nt_create :: "u32 \<Rightarrow> nt_object \<Rightarrow> nt_table \<Rightarrow> nt_result \<times> nt_table" where
  "nt_create h ob t = (if card (dom t) < 16383 then (Handle h, t(h \<mapsto> ob)) else (Fail (Init ENOMEM), t))"

definition nt_acquirable :: "u32 \<Rightarrow> nt_table \<Rightarrow> u32 \<Rightarrow> (bool \<times> nt_object) option" where
  "nt_acquirable me t h = Option.bind (t h) (nt_acquire me)"

text \<open>A wait on objects that nobody else touches: it is satisfied now, or it times out.\<close>

definition nt_wait_call :: "u32 list \<Rightarrow> u32 \<Rightarrow> bool \<Rightarrow> nt_table \<Rightarrow> nt_result \<times> nt_table" where
  "nt_wait_call hs me wall t =
     (if me = 0 \<or> hs = [] \<or> MAX_WAIT_COUNT < length hs \<or> \<not> distinct hs \<or> (\<exists>h\<in>set hs. t h = None)
      then (Waited (Returned InvalidWait), t)
      else if wall then
        if \<forall>h\<in>set hs. nt_acquirable me t h \<noteq> None
        then (Waited (Returned (Signaled 0 (\<exists>h\<in>set hs. fst (the (nt_acquirable me t h))))),
              \<lambda>h. if h \<in> set hs then map_option snd (nt_acquirable me t h) else t h)
        else (Waited (Returned Timeout), t)
      else
        case List.find (\<lambda>k. nt_acquirable me t (hs ! k) \<noteq> None) [0..<length hs] of
          None \<Rightarrow> (Waited (Returned Timeout), t)
        | Some k \<Rightarrow>
            (case the (nt_acquirable me t (hs ! k)) of (dead, ob) \<Rightarrow>
               (Waited (Returned (Signaled (of_nat k) dead)), t(hs ! k \<mapsto> ob))))"

definition nt_exec :: "u32 \<Rightarrow> nt_call \<Rightarrow> nt_table \<Rightarrow> nt_result \<times> nt_table" where
  "nt_exec new c t = (case c of
     CreateSem n m \<Rightarrow> if m < n then (Fail Invalid, t) else nt_create new (NtSem (unat n) (unat m)) t
   | CreateMutex me n \<Rightarrow>
       if (me = 0) \<noteq> (n = 0) \<or> 0x7fffffff < n then (Fail Invalid, t)
       else nt_create new (NtMutex (if me = 0 then None else Some me) (unat n) False) t
   | CreateEvent man sig \<Rightarrow> nt_create new (NtEvent man sig) t
   | Close h \<Rightarrow> (Closed (t h \<noteq> None), t(h := None))
   | Retain h \<Rightarrow> (if t h = None then Fail Invalid else Done, t)
   | Release h \<Rightarrow> (if t h = None then Fail Invalid else Done, t)
   | SemRelease h n \<Rightarrow>
       (case t h of
          Some (NtSem c m) \<Rightarrow>
            (case nt_release (unat n) (NtSem c m) of
               None \<Rightarrow> (Fail Overflow, t)
             | Some (c, ob) \<Rightarrow> (Count (of_nat c), t(h \<mapsto> ob)))
        | _ \<Rightarrow> (Fail Invalid, t))
   | MutexUnlock h me \<Rightarrow>
       (case t h of
          Some (NtMutex owner c dead) \<Rightarrow>
            if me = 0 then (Fail Invalid, t)
            else (case nt_unlock me (NtMutex owner c dead) of
               None \<Rightarrow> (Fail Perm, t)
             | Some (c, ob) \<Rightarrow> (Count (of_nat c), t(h \<mapsto> ob)))
        | _ \<Rightarrow> (Fail Invalid, t))
   | MutexKill h me \<Rightarrow>
       (case t h of
          Some (NtMutex owner c dead) \<Rightarrow>
            if me = 0 then (Fail Invalid, t)
            else (case nt_kill me (NtMutex owner c dead) of
               None \<Rightarrow> (Fail Perm, t)
             | Some ob \<Rightarrow> (Done, t(h \<mapsto> ob)))
        | _ \<Rightarrow> (Fail Invalid, t))
   | EventSet h \<Rightarrow>
       (case t h of Some (NtEvent man s) \<Rightarrow> (Count (of_bool s), t(h \<mapsto> NtEvent man True)) | _ \<Rightarrow> (Fail Invalid, t))
   | EventReset h \<Rightarrow>
       (case t h of Some (NtEvent man s) \<Rightarrow> (Count (of_bool s), t(h \<mapsto> NtEvent man False)) | _ \<Rightarrow> (Fail Invalid, t))
   | EventPulse h \<Rightarrow>
       (case t h of Some (NtEvent man s) \<Rightarrow> (Count (of_bool s), t(h \<mapsto> NtEvent man False)) | _ \<Rightarrow> (Fail Invalid, t))
   | ReadSem h \<Rightarrow>
       (case t h of Some (NtSem c m) \<Rightarrow> (SemInfo (of_nat c) (of_nat m), t) | _ \<Rightarrow> (Fail Invalid, t))
   | ReadMutex h \<Rightarrow>
       (case t h of
          Some (NtMutex owner c dead) \<Rightarrow> (MutexInfo (of_nat c) (case owner of None \<Rightarrow> 0 | Some me \<Rightarrow> me) dead, t)
        | _ \<Rightarrow> (Fail Invalid, t))
   | ReadEvent h \<Rightarrow>
       (case t h of Some (NtEvent man s) \<Rightarrow> (EventInfo man s, t) | _ \<Rightarrow> (Fail Invalid, t))
   | SweepDead \<Rightarrow> (Count 0, t)
   | Wait hs me timeout wall \<Rightarrow> nt_wait_call hs me wall t)"

text \<open>A wait without a timeout on objects that are taken never returns, as nobody else is there to signal.\<close>

definition nt_blocks :: "nt_call \<Rightarrow> nt_table \<Rightarrow> bool" where
  "nt_blocks c t \<longleftrightarrow> (\<exists>hs me wall. c = Wait hs me None wall \<and> fst (nt_wait_call hs me wall t) = Waited (Returned Timeout))"

text \<open>The machine is deterministic but for the handle of a new object, which is fresh and not zero.\<close>

inductive nt_step :: "nt_call \<Rightarrow> nt_table \<Rightarrow> nt_result \<Rightarrow> nt_table \<Rightarrow> bool" where
  "nt_exec new c t = (res, t') \<Longrightarrow> \<not> nt_blocks c t \<Longrightarrow>
   res = Handle new \<longrightarrow> t new = None \<and> new AND INDEX_MASK \<noteq> 0 \<Longrightarrow> nt_step c t res t'"

subsection \<open>The calls of the code\<close>

record Caller =
  c_os :: Os
  c_envs :: "nat \<Rightarrow> WaitEnv"
  c_cfg :: Config
  c_debug :: bool
  c_start :: nat
  c_thread :: Thread

definition outcome :: "('a \<Rightarrow> nt_result) \<Rightarrow> Error + 'a \<Rightarrow> nt_result" where
  "outcome ok res = (case res of Inl e \<Rightarrow> Fail e | Inr x \<Rightarrow> ok x)"

definition answered :: "('a \<Rightarrow> nt_result) \<Rightarrow> ((Error + 'a) \<times> Region) option \<Rightarrow> (nt_result \<times> Region) option" where
  "answered ok = map_option (map_prod (outcome ok) id)"

definition run_call :: "Caller \<Rightarrow> nt_call \<Rightarrow> Region \<Rightarrow> (nt_result \<times> Region) option" where
  "run_call p c r = (let os = c_os p in case c of
     CreateSem n m \<Rightarrow> answered Handle (create_semaphore os r n m)
   | CreateMutex me n \<Rightarrow> answered Handle (create_mutex os r me n)
   | CreateEvent man sig \<Rightarrow> answered Handle (create_event os r man sig)
   | Close h \<Rightarrow> map_option (map_prod Closed id) (close os r h)
   | Retain h \<Rightarrow> answered (\<lambda>_. Done) (retain os r h)
   | Release h \<Rightarrow> answered (\<lambda>_. Done) (release os r h)
   | SemRelease h n \<Rightarrow> answered Count (sem_release os r h n)
   | MutexUnlock h me \<Rightarrow> answered Count (mutex_unlock os r h me)
   | MutexKill h me \<Rightarrow> answered (\<lambda>_. Done) (mutex_kill os r h me)
   | EventSet h \<Rightarrow> answered Count (event_set os r h)
   | EventReset h \<Rightarrow> answered Count (event_reset os r h)
   | EventPulse h \<Rightarrow> answered Count (event_pulse os r h)
   | ReadSem h \<Rightarrow> Some (outcome (\<lambda>(n, m). SemInfo n m) (read_sem r h), r)
   | ReadMutex h \<Rightarrow> Some (outcome (\<lambda>(n, me, dead). MutexInfo n me dead) (read_mutex r h), r)
   | ReadEvent h \<Rightarrow> Some (outcome (\<lambda>(man, s). EventInfo man s) (read_event r h), r)
   | SweepDead \<Rightarrow> answered Count (sweep_dead os r)
   | Wait hs me timeout wall \<Rightarrow>
       map_option (\<lambda>(x, t, r'). (Waited x, r'))
         (wait os (c_envs p) (c_cfg p) (c_debug p) (c_start p) (c_thread p) r hs me timeout wall 0))"

text \<open>
  \<open>peaceful p\<close>: the caller is a process of its own, nobody comes in during the call, every process
  is alive, and the clock passes every deadline.
\<close>

definition all_alive :: "Os \<Rightarrow> bool" where
  "all_alive os \<longleftrightarrow> (\<forall>pid. pid \<noteq> 0 \<longrightarrow> pid_alive os pid)"

definition peaceful :: "Caller \<Rightarrow> bool" where
  "peaceful p \<longleftrightarrow> undisturbed (c_os p) \<and> getpid (c_os p) \<noteq> 0 \<and> all_alive (c_os p) \<and>
     (\<forall>j. let env = c_envs p j in
        lock_ret (lock_os env) 0 = 0 \<and> getpid (lock_os env) = getpid (c_os p) \<and> on_lock (lock_os env) = id \<and>
        undisturbed (try_os env) \<and> (\<forall>i. undisturbed (spin_os env i)) \<and>
        undisturbed (sweep_os env) \<and> (\<forall>k. lock_ret (sweep_os env) k = 0) \<and> all_alive (sweep_os env) \<and>
        asleep env = id \<and> 0 \<le> futex_errno env \<and> undisturbed (detach_os env)) \<and>
     (\<forall>d. \<exists>m. c_start p + d \<le> now_ns (c_envs p m))"

text \<open>Calls that neither wait nor sweep do not ask which processes live.\<close>

definition calm :: "Caller \<Rightarrow> bool" where
  "calm p \<longleftrightarrow> undisturbed (c_os p) \<and> getpid (c_os p) \<noteq> 0"

lemma calm_os:
  assumes "calm p"
  shows "undisturbed (c_os p)" "getpid (c_os p) \<noteq> 0"
  using assms by (simp_all add: calm_def)

lemma peaceful_calm [simp]: "peaceful p \<Longrightarrow> calm p"
  by (simp add: peaceful_def calm_def)

subsection \<open>The table of a region\<close>

definition nt_table :: "Region \<Rightarrow> nt_table" where
  "nt_table r h = Option.bind (slot r h) (\<lambda>i. abs_object (slots r i))"

text \<open>
  \<open>settled n r\<close>: the region is well formed, nobody waits, a slot is free or in use, every slot in
  use but the reserved one holds an object with a creator, and every slot can be freed \<open>n\<close> more
  times before its generation outgrows a handle.
\<close>

definition settled :: "nat \<Rightarrow> Region \<Rightarrow> bool" where
  "settled n r \<longleftrightarrow> vacant r \<and> (\<forall>i. state (slots r i) = SLOT_FREE \<or> state (slots r i) = SLOT_USED) \<and>
     (\<forall>i. i \<noteq> 0 \<and> state (slots r i) = SLOT_USED \<longrightarrow> waitable (obj_type (slots r i)) \<and> slot_pid (slots r i) \<noteq> 0) \<and>
     (\<forall>i. unat (generation (slots r i)) + n < 2 ^ 18)"

lemma settledD:
  assumes "settled n r"
  shows settled_vacant: "vacant r"
    and settled_state: "state (slots r i) = SLOT_FREE \<or> state (slots r i) = SLOT_USED"
    and settled_used: "i \<noteq> 0 \<Longrightarrow> state (slots r i) = SLOT_USED \<Longrightarrow> waitable (obj_type (slots r i)) \<and> slot_pid (slots r i) \<noteq> 0"
    and settled_generation: "unat (generation (slots r i)) + n < 2 ^ 18"
  using assms unfolding settled_def by blast+

lemma settled_less: "settled n r \<Longrightarrow> m \<le> n \<Longrightarrow> settled m r"
  unfolding settled_def by (meson add_left_mono le_less_trans)

lemma settled_rep:
  assumes "settled n r"
  obtains F where "region_rep r (\<lambda>_. []) F" "\<forall>x. \<not> node_held r F x" "\<forall>x. registered (nodes r x) = 0"
  by (rule vacant_rep [OF settled_vacant [OF assms]])

lemma settled_nobody_dead:
  assumes "settled n r" "all_alive os"
  shows "nobody_dead os r"
proof -
  obtain F where "region_rep r (\<lambda>_. []) F" and g: "\<forall>x. registered (nodes r x) = 0" by (rule settled_rep [OF assms(1)]) blast
  with assms(2) show ?thesis by (auto simp: nobody_dead_def dead_node_def dead_slot_def all_alive_def)
qed

text \<open>Which handles are in the table, and what the type of the slot says of the object.\<close>

lemma waitable_object: "waitable (obj_type s) \<longleftrightarrow> abs_object s \<noteq> None"
  by (auto simp: waitable_def abs_object_def)

lemma nt_table_waitable: "nt_table r h \<noteq> None \<longleftrightarrow> (\<exists>i. slot r h = Some i \<and> waitable (obj_type (slots r i)))"
  by (cases "slot r h") (simp_all add: nt_table_def waitable_object)

lemma waitable_handles_table: "waitable_handles r hs \<longleftrightarrow> (\<forall>h\<in>set hs. nt_table r h \<noteq> None)"
  by (simp add: waitable_handles_def nt_table_waitable del: not_None_eq)

lemma nt_table_valid:
  assumes "settled n r"
  shows "nt_table r h \<noteq> None \<longleftrightarrow> slot r h \<noteq> None \<and> h AND INDEX_MASK \<noteq> 0"
proof -
  obtain F where R: "region_rep r (\<lambda>_. []) F" by (rule settled_rep [OF assms])
  have "\<not> waitable (obj_type (slots r 0))"
    using region_reserved [OF R] by (simp add: reserved_slot_def waitable_def type_consts)
  with settled_used [OF assms, of "h AND INDEX_MASK"] show ?thesis
    unfolding nt_table_waitable by (auto simp: slot_Some_iff)
qed

lemma table_type:
  assumes "slot_of_type r h ty = Inr i"
  shows "nt_table r h = abs_object (slots r i)" "slot r h = Some i" "obj_type (slots r i) = ty"
  using assms by (simp_all add: slot_of_type_Inr nt_table_def)

lemma table_no_type:
  assumes "slot_of_type r h ty = Inl e"
  shows "ty = TYPE_SEM \<Longrightarrow> nt_table r h \<noteq> Some (NtSem c m)"
    and "ty = TYPE_MUTEX \<Longrightarrow> nt_table r h \<noteq> Some (NtMutex owner c dead)"
    and "ty = TYPE_EVENT \<Longrightarrow> nt_table r h \<noteq> Some (NtEvent man s)"
  using assms by (auto simp: slot_of_type_def nt_table_def abs_object_def abs_sem_def abs_mutex_def abs_event_def ok_or_def
      split: option.splits if_splits Option.bind_splits)

lemma table_word_ok:
  assumes "settled n r" "slot_of_type r h ty = Inr i"
  shows "word_ok ty (w0 (slots r i))"
proof -
  obtain F where R: "region_rep r (\<lambda>_. []) F" by (rule settled_rep [OF assms(1)])
  from region_word [OF R, of i] slot_of_type_used(1) [OF assms(2)] table_type(3) [OF assms(2)] show ?thesis by simp
qed

subsection \<open>How the table changes\<close>

lemma settled_update:
  assumes s: "settled n r" and v: "vacant r'" and h: "slot r h = Some i"
    and o: "\<forall>j. j \<noteq> i \<longrightarrow> bare r' j = bare r j"
    and i: "state (slots r' i) = state (slots r i)" "generation (slots r' i) = generation (slots r i)"
      "obj_type (slots r' i) = obj_type (slots r i)" "slot_pid (slots r' i) = slot_pid (slots r i)"
  shows "settled n r'" and "nt_table r' = (nt_table r)(h := abs_object (slots r' i))"
proof -
  have e: "state (slots r' j) = state (slots r j) \<and> generation (slots r' j) = generation (slots r j) \<and>
      obj_type (slots r' j) = obj_type (slots r j) \<and> slot_pid (slots r' j) = slot_pid (slots r j)" for j
    using i o bare_sel [of r' j] bare_sel [of r j] by (cases "j = i") auto
  show "settled n r'" using s v by (simp add: settled_def e)
  have sl: "slot r' h' = slot r h'" for h' by (rule slot_cong) (use e in auto)
  show "nt_table r' = (nt_table r)(h := abs_object (slots r' i))"
  proof
    fix h' show "nt_table r' h' = ((nt_table r)(h := abs_object (slots r' i))) h'"
    proof (cases "h' = h")
      case True
      with h sl show ?thesis by (simp add: nt_table_def)
    next
      case False
      have "abs_object (slots r' j) = abs_object (slots r j)" if "slot r h' = Some j" for j
      proof -
        have "j \<noteq> i" using that h False slot_inj by blast
        with o have "bare r' j = bare r j" by blast
        then show ?thesis using bare_sel(3,6) [of r' j] bare_sel(3,6) [of r j] by (intro abs_object_cong) simp_all
      qed
      with False sl show ?thesis by (cases "slot r h'") (simp_all add: nt_table_def)
    qed
  qed
qed

lemma settled_bare:
  assumes s: "settled n r" and v: "vacant r'" and b: "bare r' = bare r"
  shows "settled n r'" and "nt_table r' = nt_table r"
proof -
  show "settled n r'" using s v by (simp add: settled_def bareD [OF b])
  show "nt_table r' = nt_table r"
    by (rule ext) (simp add: nt_table_def slot_bare [OF b] abs_object_cong [of "slots r' _"] bareD [OF b] cong: Option.bind_cong)
qed

lemma settled_at_rest:
  assumes "settled n r" "at_rest r r'"
  shows "settled n r'" and "nt_table r' = nt_table r"
  using settled_bare [OF assms(1) at_rest_vacant [OF assms(2) settled_vacant [OF assms(1)]] at_rest_bare [OF assms(2)]]
  by blast+

subsection \<open>Signals and reads\<close>

text \<open>\<open>implements p n c r\<close>: the call returns on the region, keeps it settled, and is a step of the machine.\<close>

definition implements :: "Caller \<Rightarrow> nat \<Rightarrow> nt_call \<Rightarrow> Region \<Rightarrow> bool" where
  "implements p n c r \<longleftrightarrow> (\<exists>res r'. run_call p c r = Some (res, r') \<and> settled n r' \<and>
     nt_step c (nt_table r) res (nt_table r'))"

lemma implementsI:
  assumes "run_call p c r = Some (res, r')" "settled n r'" "nt_exec new c (nt_table r) = (res, nt_table r')"
    and "\<not> nt_blocks c (nt_table r)" "res = Handle new \<longrightarrow> nt_table r new = None \<and> new AND INDEX_MASK \<noteq> 0"
  shows "implements p n c r"
  using assms nt_step.intros unfolding implements_def by blast

lemma no_wait_no_block [simp]:
  "\<not> nt_blocks (CreateSem a b) t" "\<not> nt_blocks (CreateMutex a b) t" "\<not> nt_blocks (CreateEvent x y) t"
  "\<not> nt_blocks (Close h) t" "\<not> nt_blocks (Retain h) t" "\<not> nt_blocks (Release h) t"
  "\<not> nt_blocks (SemRelease h a) t" "\<not> nt_blocks (MutexUnlock h a) t" "\<not> nt_blocks (MutexKill h a) t"
  "\<not> nt_blocks (EventSet h) t" "\<not> nt_blocks (EventReset h) t" "\<not> nt_blocks (EventPulse h) t"
  "\<not> nt_blocks (ReadSem h) t" "\<not> nt_blocks (ReadMutex h) t" "\<not> nt_blocks (ReadEvent h) t" "\<not> nt_blocks SweepDead t"
  by (simp_all add: nt_blocks_def)

lemma answered_simps [simp]:
  "answered ok (Some (Inr x, r)) = Some (ok x, r)" "answered ok (Some (Inl e, r)) = Some (Fail e, r)"
  by (simp_all add: answered_def outcome_def)

lemma peaceful_os:
  assumes "peaceful p"
  shows "undisturbed (c_os p)" "getpid (c_os p) \<noteq> 0" "all_alive (c_os p)"
  using assms by (simp_all add: peaceful_def)

text \<open>A signal on the region: the decision is taken on the object's word.\<close>

lemma signal_settled:
  assumes os: "undisturbed os" and s: "settled n r" and ok: "word_update (word_ok ty) body"
    and h: "slot_of_type r h ty = Inr i" and b: "body (w0 (slots r i)) = Swap w' (res, wake)"
  obtains r' where "signal_op os r h ty body = Some (res, r')" "settled n r'"
    "nt_table r' = (nt_table r)(h := abs_object ((slots r i)\<lparr>w0 := w'\<rparr>))"
proof -
  have "guest 0 undefined r []" using settled_vacant [OF s] by (simp add: vacant_guest)
  then obtain r' where r': "signal_op os r h ty body = Some (res, r')" "guest 0 undefined r' []" "bare r' = bare (put_word r i w')"
    by (rule guest_signal [OF os ok _ h b])
  have v: "vacant r'" using r'(2) by (simp add: vacant_guest)
  have "abs_object (slots r' i) = abs_object ((slots r i)\<lparr>w0 := w'\<rparr>)"
    by (rule abs_object_cong) (simp_all add: bareD [OF r'(3)])
  moreover have "\<forall>j. j \<noteq> i \<longrightarrow> bare r' j = bare r j" by (simp add: r'(3) bare_put_word)
  ultimately show ?thesis
    using settled_update [OF s v table_type(2) [OF h]] bareD [OF r'(3), of i] r'(1) by (intro that) simp_all
qed

lemma signal_refused:
  "undisturbed os \<Longrightarrow> slot_of_type r h ty = Inr i \<Longrightarrow> body (w0 (slots r i)) = Ret (res, False) \<Longrightarrow>
   signal_op os r h ty body = Some (res, r)"
  by (simp add: signal_op_def cas_loop_undisturbed atomically_def undisturbed_def)

lemma signal_invalid: "slot_of_type r h ty = Inl e \<Longrightarrow> signal_op os r h ty body = Some (Inl Invalid, r)"
  using slot_of_type_Inl by (fastforce simp: signal_op_def)

lemma table_no_type_case:
  assumes "slot_of_type r h ty = Inl e"
  shows "ty = TYPE_SEM \<Longrightarrow> (case nt_table r h of Some (NtSem c m) \<Rightarrow> f c m | _ \<Rightarrow> x) = x"
    and "ty = TYPE_MUTEX \<Longrightarrow> (case nt_table r h of Some (NtMutex owner c dead) \<Rightarrow> g owner c dead | _ \<Rightarrow> x) = x"
    and "ty = TYPE_EVENT \<Longrightarrow> (case nt_table r h of Some (NtEvent man s) \<Rightarrow> k man s | _ \<Rightarrow> x) = x"
  using table_no_type [OF assms] by (auto split: option.split nt_object.split)

lemma sem_release_implements:
  assumes p: "peaceful p" and s: "settled n r"
  shows "implements p n (SemRelease h c) r"
proof (cases "slot_of_type r h TYPE_SEM")
  case (Inl e)
  show ?thesis
    by (rule implementsI [where r' = r and res = "Fail Invalid"])
      (use s signal_invalid [OF Inl] table_no_type_case(1) [OF Inl] in \<open>simp_all add: run_call_def sem_release_def nt_exec_def\<close>)
next
  case (Inr i)
  let ?w = "w0 (slots r i)"
  note os = peaceful_os(1) [OF p] and ty = table_type [OF Inr]
  have t: "nt_table r h = Some (NtSem (unat (lo32 ?w)) (unat (hi32 ?w)))" using ty by (simp add: abs_object_simps abs_sem_def)
  note b = sem_release_body_eq [of c ?w]
  show ?thesis
  proof (cases "unat (lo32 ?w) + unat c \<le> unat (hi32 ?w)")
    case True
    obtain r' where r': "signal_op (c_os p) r h TYPE_SEM (sem_release_body c) = Some (Inr (lo32 ?w), r')" "settled n r'"
      "nt_table r' = (nt_table r)(h := abs_object ((slots r i)\<lparr>w0 := join32 (hi32 ?w) (lo32 ?w + c)\<rparr>))"
      by (rule signal_settled [OF os s _ Inr, where body = "sem_release_body c"])
        (use b True body_ok(1) in \<open>simp_all add: word_ok_types\<close>)
    then show ?thesis
      by (intro implementsI [where r' = r' and res = "Count (lo32 ?w)"])
        (use t ty(3) True in \<open>simp_all add: run_call_def sem_release_def nt_exec_def abs_object_simps unat_release\<close>)
  next
    case False
    then have "signal_op (c_os p) r h TYPE_SEM (sem_release_body c) = Some (Inl Overflow, r)"
      by (intro signal_refused [OF os Inr]) (simp add: b)
    with t False s show ?thesis
      by (intro implementsI [where r' = r and res = "Fail Overflow"])
        (simp_all add: run_call_def sem_release_def nt_exec_def)
  qed
qed

lemma table_mutex:
  assumes "settled n r" "slot_of_type r h TYPE_MUTEX = Inr i"
  shows "nt_table r h = Some (NtMutex (if lo32 (w0 (slots r i)) = 0 then None else Some (lo32 (w0 (slots r i))))
      (unat (mutex_count (w0 (slots r i)))) (mutex_dead (w0 (slots r i))))"
    and "mutex_ok (w0 (slots r i))"
  using table_type [OF assms(2)] table_word_ok [OF assms] by (simp_all add: abs_object_simps abs_mutex_def)

lemma mutex_unlock_implements:
  assumes p: "peaceful p" and s: "settled n r"
  shows "implements p n (MutexUnlock h me) r"
proof (cases "slot_of_type r h TYPE_MUTEX")
  case (Inl e)
  show ?thesis
    by (rule implementsI [where r' = r and res = "Fail Invalid"])
      (use s signal_invalid [OF Inl] table_no_type_case(2) [OF Inl] in \<open>simp_all add: run_call_def mutex_unlock_def nt_exec_def\<close>)
next
  case (Inr i)
  let ?w = "w0 (slots r i)"
  note os = peaceful_os(1) [OF p] and ty = table_type [OF Inr] and t = table_mutex [OF s Inr]
  show ?thesis
  proof (cases "me = 0")
    case True
    with t s show ?thesis
      by (intro implementsI [where r' = r and res = "Fail Invalid"]) (simp_all add: run_call_def mutex_unlock_def nt_exec_def)
  next
    case False
    note nt = mutex_unlock_nt [OF False t(2)]
    show ?thesis
    proof (cases "mutex_unlock_body me ?w")
      case (Ret a)
      then have "a = (Inl Perm, False)" "nt_unlock me (abs_mutex ?w) = None" using nt by (auto split: prod.splits)
      with Ret have "signal_op (c_os p) r h TYPE_MUTEX (mutex_unlock_body me) = Some (Inl Perm, r)"
        by (intro signal_refused [OF os Inr]) simp
      with t(1) s False \<open>nt_unlock me (abs_mutex ?w) = None\<close> show ?thesis
        by (intro implementsI [where r' = r and res = "Fail Perm"])
          (simp_all add: run_call_def mutex_unlock_def nt_exec_def abs_mutex_def)
    next
      case (Swap w' a)
      with nt obtain prev wake where a: "a = (Inr prev, wake)"
        "nt_unlock me (abs_mutex ?w) = Some (unat prev, abs_mutex w')" by (cases a) auto
      obtain r' where r': "signal_op (c_os p) r h TYPE_MUTEX (mutex_unlock_body me) = Some (Inr prev, r')" "settled n r'"
        "nt_table r' = (nt_table r)(h := abs_object ((slots r i)\<lparr>w0 := w'\<rparr>))"
        by (rule signal_settled [OF os s _ Inr, where body = "mutex_unlock_body me"])
          (use Swap a(1) mutex_unlock_keeps [OF False] in \<open>simp_all add: word_ok_types\<close>)
      with t(1) False a(2) ty(3) show ?thesis
        by (intro implementsI [where r' = r' and res = "Count prev"])
          (simp_all add: run_call_def mutex_unlock_def nt_exec_def abs_object_simps abs_mutex_def [of ?w])
    qed
  qed
qed

lemma mutex_kill_implements:
  assumes p: "peaceful p" and s: "settled n r"
  shows "implements p n (MutexKill h me) r"
proof (cases "slot_of_type r h TYPE_MUTEX")
  case (Inl e)
  show ?thesis
    by (rule implementsI [where r' = r and res = "Fail Invalid"])
      (use s signal_invalid [OF Inl] table_no_type_case(2) [OF Inl] in \<open>simp_all add: run_call_def mutex_kill_def nt_exec_def\<close>)
next
  case (Inr i)
  let ?w = "w0 (slots r i)"
  note os = peaceful_os(1) [OF p] and ty = table_type [OF Inr] and t = table_mutex [OF s Inr]
  consider (zero) "me = 0" | (other) "me \<noteq> 0" "lo32 ?w \<noteq> me" | (owner) "me \<noteq> 0" "lo32 ?w = me" by blast
  then show ?thesis
  proof cases
    case zero
    with t s show ?thesis
      by (intro implementsI [where r' = r and res = "Fail Invalid"]) (simp_all add: run_call_def mutex_kill_def nt_exec_def)
  next
    case other
    then have "signal_op (c_os p) r h TYPE_MUTEX (mutex_kill_body me) = Some (Inl Perm, r)"
      by (intro signal_refused [OF os Inr]) (simp add: mutex_kill_body_def)
    with t s other show ?thesis
      by (intro implementsI [where r' = r and res = "Fail Perm"]) (simp_all add: run_call_def mutex_kill_def nt_exec_def)
  next
    case owner
    obtain r' where "signal_op (c_os p) r h TYPE_MUTEX (mutex_kill_body me) = Some (Inr 0, r')" "settled n r'"
      "nt_table r' = (nt_table r)(h := abs_object ((slots r i)\<lparr>w0 := pack_mutex 0 0 True\<rparr>))"
      by (rule signal_settled [OF os s _ Inr, where body = "mutex_kill_body me" and res = "Inr 0" and wake = True])
        (use owner mutex_kill_keeps in \<open>simp_all add: word_ok_types mutex_kill_body_def\<close>)
    with t owner ty(3) show ?thesis
      by (intro implementsI [where r' = r' and res = Done])
        (simp_all add: run_call_def mutex_kill_def nt_exec_def abs_object_simps abs_mutex_def)
  qed
qed

lemma table_event:
  assumes "settled n r" "slot_of_type r h TYPE_EVENT = Inr i"
  obtains man sig where "w0 (slots r i) = pack_event sig man" "nt_table r h = Some (NtEvent man sig)"
proof -
  have "event_ok (w0 (slots r i))" using table_word_ok [OF assms] by simp
  then have "w0 (slots r i) = pack_event (lo32 (w0 (slots r i)) \<noteq> 0) (hi32 (w0 (slots r i)) \<noteq> 0)"
    by (intro halves_eqI) (auto simp: event_ok_def pack_event_join)
  with table_type [OF assms(2)] that show ?thesis by (simp add: abs_object_simps abs_event_def)
qed

lemma abs_event_packed [simp]:
  "abs_event (pack_event sig man) = NtEvent man sig"
  "abs_event (set_low (pack_event False man)) = NtEvent man True"
  "abs_event (clear_low (pack_event sig man)) = NtEvent man False"
  by (simp_all add: abs_event_def pack_event_join lo32_set_low lo32_clear_low)

lemma event_set_implements:
  assumes p: "calm p" and s: "settled n r"
  shows "implements p n (EventSet h) r"
proof (cases "slot_of_type r h TYPE_EVENT")
  case (Inl e)
  show ?thesis
    by (rule implementsI [where r' = r and res = "Fail Invalid"])
      (use s signal_invalid [OF Inl] table_no_type_case(3) [OF Inl] in \<open>simp_all add: run_call_def event_set_def nt_exec_def\<close>)
next
  case (Inr i)
  note os = calm_os(1) [OF p] and ty = table_type [OF Inr]
  obtain man sig where w: "w0 (slots r i) = pack_event sig man" and t: "nt_table r h = Some (NtEvent man sig)"
    by (rule table_event [OF s Inr])
  show ?thesis
  proof (cases sig)
    case True
    then have "signal_op (c_os p) r h TYPE_EVENT event_set_body = Some (Inr 1, r)"
      by (intro signal_refused [OF os Inr]) (simp add: w event_set_body_def Let_def pack_event_join)
    with t s True show ?thesis
      by (intro implementsI [where r' = r and res = "Count 1"]) (simp_all add: run_call_def event_set_def nt_exec_def fun_upd_idem)
  next
    case False
    obtain r' where "signal_op (c_os p) r h TYPE_EVENT event_set_body = Some (Inr 0, r')" "settled n r'"
      "nt_table r' = (nt_table r)(h := abs_object ((slots r i)\<lparr>w0 := set_low (pack_event sig man)\<rparr>))"
      by (rule signal_settled [OF os s _ Inr, where body = event_set_body and res = "Inr 0" and wake = True])
        (use False w body_ok(2) in \<open>simp_all add: word_ok_types event_set_body_def Let_def pack_event_join\<close>)
    with t False ty(3) show ?thesis
      by (intro implementsI [where r' = r' and res = "Count 0"])
        (simp_all add: run_call_def event_set_def nt_exec_def abs_object_simps)
  qed
qed

lemma event_reset_implements:
  assumes p: "peaceful p" and s: "settled n r"
  shows "implements p n (EventReset h) r"
proof (cases "slot_of_type r h TYPE_EVENT")
  case (Inl e)
  show ?thesis
    by (rule implementsI [where r' = r and res = "Fail Invalid"])
      (use s signal_invalid [OF Inl] table_no_type_case(3) [OF Inl] in \<open>simp_all add: run_call_def event_reset_def nt_exec_def\<close>)
next
  case (Inr i)
  note os = peaceful_os(1) [OF p] and ty = table_type [OF Inr]
  obtain man sig where w: "w0 (slots r i) = pack_event sig man" and t: "nt_table r h = Some (NtEvent man sig)"
    by (rule table_event [OF s Inr])
  show ?thesis
  proof (cases sig)
    case False
    then have "signal_op (c_os p) r h TYPE_EVENT event_reset_body = Some (Inr 0, r)"
      by (intro signal_refused [OF os Inr]) (simp add: w event_reset_body_def Let_def pack_event_join)
    with t s False show ?thesis
      by (intro implementsI [where r' = r and res = "Count 0"]) (simp_all add: run_call_def event_reset_def nt_exec_def fun_upd_idem)
  next
    case True
    obtain r' where "signal_op (c_os p) r h TYPE_EVENT event_reset_body = Some (Inr 1, r')" "settled n r'"
      "nt_table r' = (nt_table r)(h := abs_object ((slots r i)\<lparr>w0 := clear_low (pack_event sig man)\<rparr>))"
      by (rule signal_settled [OF os s _ Inr, where body = event_reset_body and res = "Inr 1" and wake = False])
        (use True w body_ok(3) in \<open>simp_all add: word_ok_types event_reset_body_def Let_def pack_event_join\<close>)
    with t True ty(3) show ?thesis
      by (intro implementsI [where r' = r' and res = "Count 1"])
        (simp_all add: run_call_def event_reset_def nt_exec_def abs_object_simps)
  qed
qed

lemma vacant_same:
  assumes "region_rep r' Q F" "\<forall>x. \<not> node_held r F x" "node_fresh (header r') = node_fresh (header r)"
  shows "vacant r'"
  by (rule vacantI [OF assms(1)]) (use assms(2,3) in \<open>simp add: node_held_def\<close>)

lemma slot_of_type_lock [simp]: "slot_of_type (lock_mark os r) h ty = slot_of_type r h ty"
  by (simp add: slot_of_type_def)

lemma settled_locked:
  assumes "settled n r"
  shows "settled n (guard_drop (lock_mark os r))" "nt_table (guard_drop (lock_mark os r)) = nt_table r"
  by (rule settled_at_rest [OF assms], simp)+

lemma event_pulse_implements:
  assumes p: "peaceful p" and s: "settled n r"
  shows "implements p n (EventPulse h) r"
proof (cases "slot_of_type r h TYPE_EVENT")
  case (Inl e)
  then have "event_pulse (c_os p) r h = Some (Inl Invalid, guard_drop (lock_mark (c_os p) r))"
    using slot_of_type_Inl [OF Inl] by (simp add: event_pulse_def with_lock_undisturbed [OF peaceful_os(1) [OF p]])
  then show ?thesis
    by (intro implementsI [where res = "Fail Invalid" and r' = "guard_drop (lock_mark (c_os p) r)"])
      (simp_all add: run_call_def nt_exec_def settled_locked [OF s] table_no_type_case(3) [OF Inl])
next
  case (Inr i)
  obtain man sig where w: "w0 (slots r i) = pack_event sig man" and t: "nt_table r h = Some (NtEvent man sig)"
    by (rule table_event [OF s Inr])
  obtain F where R: "region_rep r (\<lambda>_. []) F" and f: "\<forall>x. \<not> node_held r F x" by (rule settled_rep [OF s])
  let ?u = "upd_slot r i (\<lambda>s. s\<lparr>pulse_seq := pulse_seq s + 1, w0 := clear_low (w0 s)\<rparr>)"
  obtain r' where r': "event_pulse (c_os p) r h = Some (Inr (lo32 (w0 (slots r i))), r')" "region_rep r' ((\<lambda>_. [])(i := [])) F"
    "w0 (slots r' i) = clear_low (w0 (slots r i))" "woken ?u [] r'"
    by (rule event_pulse_run [OF peaceful_os(1) [OF p] R Inr]) blast
  have b: "bare r' = bare ?u" and c: "core r' = core ?u" using r'(4) by (simp_all add: woken_def)
  have v: "vacant r'" by (rule vacant_same [OF r'(2) f]) (use coreD(2) [OF c] in simp)
  have "\<forall>j. j \<noteq> i \<longrightarrow> bare r' j = bare r j" by (simp add: b) (simp add: bare_def)
  note u = settled_update [OF s v table_type(2) [OF Inr] this]
  have "settled n r'" "nt_table r' = (nt_table r)(h := abs_object (slots r' i))"
    using u bareD [OF b, of i] by simp_all
  moreover have "abs_object (slots r' i) = Some (NtEvent man False)"
    using bareD(3) [OF b, of i] table_type(3) [OF Inr] r'(3) w by (simp add: abs_object_simps)
  ultimately show ?thesis
    by (intro implementsI [where r' = r' and res = "Count (of_bool sig)"])
      (use r'(1) t w in \<open>simp_all add: run_call_def nt_exec_def pack_event_join\<close>)
qed

lemma read_implements:
  assumes s: "settled n r"
  shows "implements p n (ReadSem h) r" "implements p n (ReadMutex h) r" "implements p n (ReadEvent h) r"
proof -
  show "implements p n (ReadSem h) r"
  proof (cases "slot_of_type r h TYPE_SEM")
    case (Inl e)
    with s slot_of_type_Inl [OF Inl] table_no_type_case(1) [OF Inl] show ?thesis
      by (intro implementsI [where r' = r and res = "Fail Invalid"]) (simp_all add: run_call_def nt_exec_def read_sem_def outcome_def)
  next
    case (Inr i)
    with s table_type [OF Inr] show ?thesis
      by (intro implementsI [where r' = r and res = "SemInfo (lo32 (w0 (slots r i))) (hi32 (w0 (slots r i)))"])
        (simp_all add: run_call_def nt_exec_def read_sem_def outcome_def Let_def abs_object_simps abs_sem_def)
  qed
  show "implements p n (ReadMutex h) r"
  proof (cases "slot_of_type r h TYPE_MUTEX")
    case (Inl e)
    with s slot_of_type_Inl [OF Inl] table_no_type_case(2) [OF Inl] show ?thesis
      by (intro implementsI [where r' = r and res = "Fail Invalid"]) (simp_all add: run_call_def nt_exec_def read_mutex_def outcome_def)
  next
    case (Inr i)
    let ?w = "w0 (slots r i)"
    from Inr s table_mutex [OF s Inr] show ?thesis
      by (intro implementsI [where r' = r and res = "MutexInfo (mutex_count ?w) (lo32 ?w) (mutex_dead ?w)"])
        (simp_all add: run_call_def nt_exec_def read_mutex_def outcome_def Let_def)
  qed
  show "implements p n (ReadEvent h) r"
  proof (cases "slot_of_type r h TYPE_EVENT")
    case (Inl e)
    with s slot_of_type_Inl [OF Inl] table_no_type_case(3) [OF Inl] show ?thesis
      by (intro implementsI [where r' = r and res = "Fail Invalid"]) (simp_all add: run_call_def nt_exec_def read_event_def outcome_def)
  next
    case (Inr i)
    obtain man sig where "w0 (slots r i) = pack_event sig man" "nt_table r h = Some (NtEvent man sig)"
      by (rule table_event [OF s Inr])
    with Inr s show ?thesis
      by (intro implementsI [where r' = r and res = "EventInfo man sig"])
        (simp_all add: run_call_def nt_exec_def read_event_def outcome_def Let_def drop32_eq_0 pack_event_join)
  qed
qed

subsection \<open>Creating, holding and closing\<close>

lemma holder_op_implements:
  assumes os: "undisturbed os" and s: "settled n r"
    and f: "\<And>s. holders_ok s \<Longrightarrow> holders_ok (f s (getpid os))" "\<And>s. state (f s (getpid os)) = state s"
      "\<And>s. generation (f s (getpid os)) = generation s" "\<And>s. obj_type (f s (getpid os)) = obj_type s"
      "\<And>s. slot_pid (f s (getpid os)) = slot_pid s" "\<And>s. waiter_head (f s (getpid os)) = waiter_head s" "\<And>s. w0 (f s (getpid os)) = w0 s"
  obtains r' where "holder_op f os r h = Some (if nt_table r h = None then Inl Invalid else Inr (), r')" "settled n r'"
    "nt_table r' = nt_table r"
proof (cases "nt_table r h = None")
  case True
  then have "slot r h = None \<or> h AND INDEX_MASK = 0" using nt_table_valid [OF s, of h] by blast
  with True settled_locked [OF s] s show ?thesis
    by (cases "h AND INDEX_MASK = 0") (auto simp: holder_op_def with_lock_undisturbed [OF os] intro!: that)
next
  case False
  then obtain i where i: "slot r h = Some i" "i \<noteq> 0" using nt_table_valid [OF s, of h] by (auto simp: slot_Some_iff)
  obtain F where R: "region_rep r (\<lambda>_. []) F" and n: "\<forall>x. \<not> node_held r F x" by (rule settled_rep [OF s])
  let ?u = "upd_slot (lock_mark os r) i (\<lambda>s. f s (getpid os))"
  have "region_rep ?u (\<lambda>_. []) F" by (rule region_rep_holders) (use R f region_holders [OF R, of i] in simp_all)
  then have v: "vacant (guard_drop ?u)" by (intro vacant_same [OF _ n]) simp_all
  have o: "\<forall>j. j \<noteq> i \<longrightarrow> bare (guard_drop ?u) j = bare r j" by (simp add: bare_def)
  have "settled n (guard_drop ?u)" "nt_table (guard_drop ?u) = (nt_table r)(h := abs_object (slots (guard_drop ?u) i))"
    using settled_update [OF s v i(1) o] f by simp_all
  moreover have "nt_table r h = abs_object (slots (guard_drop ?u) i)"
    using i(1) f by (simp add: nt_table_def abs_object_cong [of "f (slots r i) (getpid os)" "slots r i"])
  ultimately show ?thesis
    using holder_op_undisturbed [OF os i, of f] False by (intro that [of "guard_drop ?u"]) (simp_all add: fun_upd_idem)
qed

lemma retain_implements:
  assumes p: "calm p" and s: "settled n r"
  shows "implements p n (Retain h) r"
proof -
  obtain r' where "holder_op holder_add (c_os p) r h = Some (if nt_table r h = None then Inl Invalid else Inr (), r')"
    "settled n r'" "nt_table r' = nt_table r"
    by (rule holder_op_implements [OF calm_os(1) [OF p] s, where f = holder_add]) (use holder_add_set in auto)
  then show ?thesis
    by (intro implementsI [where r' = r' and res = "if nt_table r h = None then Fail Invalid else Done"])
      (simp_all add: run_call_def nt_exec_def retain_def split: if_splits)
qed

lemma release_implements:
  assumes p: "peaceful p" and s: "settled n r"
  shows "implements p n (Release h) r"
proof -
  obtain r' where "holder_op holder_remove (c_os p) r h = Some (if nt_table r h = None then Inl Invalid else Inr (), r')"
    "settled n r'" "nt_table r' = nt_table r"
    by (rule holder_op_implements [OF peaceful_os(1) [OF p] s, where f = holder_remove]) (use holder_remove_set in auto)
  then show ?thesis
    by (intro implementsI [where r' = r' and res = "if nt_table r h = None then Fail Invalid else Done"])
      (simp_all add: run_call_def nt_exec_def release_def split: if_splits)
qed

text \<open>The table when one slot changes hands: only the handles of that slot are affected.\<close>

lemma table_other:
  assumes "bare r' (h AND INDEX_MASK) = bare r (h AND INDEX_MASK)"
  shows "nt_table r' h = nt_table r h"
proof -
  let ?i = "h AND INDEX_MASK"
  note e = bare_sel [of r' ?i, unfolded assms bare_sel]
  have "slot r' h = slot r h" by (rule slot_cong) (use e in simp_all)
  moreover have "abs_object (slots r' ?i) = abs_object (slots r ?i)" by (rule abs_object_cong) (use e in simp_all)
  moreover have "i = ?i" if "slot r h = Some i" for i using that by (simp add: slot_Some_iff)
  ultimately show ?thesis by (cases "slot r h") (simp_all add: nt_table_def)
qed

lemma table_free: "state (slots r (h AND INDEX_MASK)) = SLOT_FREE \<Longrightarrow> nt_table r h = None"
  by (simp add: nt_table_def slot_def Let_def)

lemma freed_all_settled:
  assumes s: "settled (Suc n) r" and v: "vacant r'"
    and f: "\<forall>i\<in>D. state (slots r' i) = SLOT_FREE \<and> generation (slots r' i) = generation (slots r i) + 1"
    and o: "\<forall>i. i \<notin> D \<longrightarrow> bare r' i = bare r i"
  shows "settled n r'" and "\<And>h. nt_table r' h = (if h AND INDEX_MASK \<in> D then None else nt_table r h)"
proof -
  have g: "unat (generation (slots r i) + 1) = unat (generation (slots r i)) + 1" for i
    using settled_generation [OF s, of i] by (simp add: unat_add_u32)
  have e: "state (slots r' i) = state (slots r i) \<and> generation (slots r' i) = generation (slots r i) \<and>
      obj_type (slots r' i) = obj_type (slots r i) \<and> slot_pid (slots r' i) = slot_pid (slots r i)" if "i \<notin> D" for i
    using o that bare_sel [of r' i] bare_sel [of r i] by auto
  show "settled n r'"
    unfolding settled_def
  proof (intro conjI allI impI)
    fix i
    show "state (slots r' i) = SLOT_FREE \<or> state (slots r' i) = SLOT_USED"
      using settled_state [OF s, of i] e [of i] f by (cases "i \<in> D") auto
    show "unat (generation (slots r' i)) + n < 2 ^ 18"
      using settled_generation [OF s, of i] e [of i] f g [of i] by (cases "i \<in> D") auto
    assume "i \<noteq> 0 \<and> state (slots r' i) = SLOT_USED"
    then show "waitable (obj_type (slots r' i))" "slot_pid (slots r' i) \<noteq> 0"
      using settled_used [OF s, of i] e [of i] f by (cases "i \<in> D"; auto)+
  qed (rule v)
  show "nt_table r' h = (if h AND INDEX_MASK \<in> D then None else nt_table r h)" for h
    using f o by (auto intro: table_other table_free)
qed

lemma freed_settled:
  assumes s: "settled (Suc n) r" and i: "slot r h = Some i" and v: "vacant r'"
    and f: "state (slots r' i) = SLOT_FREE" "generation (slots r' i) = generation (slots r i) + 1"
    and o: "\<forall>j. j \<noteq> i \<longrightarrow> bare r' j = bare r j"
  shows "settled n r'" and "nt_table r' = (nt_table r)(h := None)"
proof -
  note a = freed_all_settled [OF s v, of "{i}"]
  show "settled n r'" by (rule a(1)) (use f o in auto)
  have "nt_table r h' = None" if "h' AND INDEX_MASK = i" "h' \<noteq> h" for h'
    using that slot_inj [OF _ i, of h'] by (cases "slot r h'") (auto simp: nt_table_def slot_Some_iff)
  moreover have "h AND INDEX_MASK = i" using i by (simp add: slot_Some_iff)
  ultimately show "nt_table r' = (nt_table r)(h := None)" using a(2) f o by (intro ext) simp
qed

lemma close_implements:
  assumes p: "calm p" and s: "settled (Suc n) r"
  shows "implements p n (Close h) r"
proof (cases "nt_table r h = None")
  case True
  then have "slot r h = None \<or> h AND INDEX_MASK = 0" using nt_table_valid [OF s, of h] by blast
  then have "close (c_os p) r h = Some (False, if h AND INDEX_MASK = 0 then r else guard_drop (lock_mark (c_os p) r))"
    by (auto simp: close_def with_lock_undisturbed [OF calm_os(1) [OF p]])
  moreover have "settled n (if h AND INDEX_MASK = 0 then r else guard_drop (lock_mark (c_os p) r))"
    "nt_table (if h AND INDEX_MASK = 0 then r else guard_drop (lock_mark (c_os p) r)) = nt_table r"
    using settled_locked [OF settled_less [OF s], of n] settled_less [OF s, of n] by simp_all
  ultimately show ?thesis
    by (intro implementsI [where res = "Closed False" and r' = "if h AND INDEX_MASK = 0 then r else guard_drop (lock_mark (c_os p) r)"])
      (use True in \<open>simp_all add: run_call_def nt_exec_def fun_upd_idem\<close>)
next
  case False
  then obtain i where i: "slot r h = Some i" "i \<noteq> 0" using nt_table_valid [OF s, of h] by (auto simp: slot_Some_iff)
  obtain F where R: "region_rep r (\<lambda>_. []) F" and f: "\<forall>x. \<not> node_held r F x" by (rule settled_rep [OF s])
  obtain r' where r': "close (c_os p) r h = Some (True, r')" "region_rep r' ((\<lambda>_. [])(i := [])) F"
    "state (slots r' i) = SLOT_FREE" "generation (slots r' i) = generation (slots r i) + 1"
    "\<forall>j. j \<noteq> i \<longrightarrow> bare r' j = bare r j" "node_fresh (header r') = node_fresh (header r)"
    by (rule close_run [OF calm_os(1) [OF p] R i]) blast
  have "settled n r'" "nt_table r' = (nt_table r)(h := None)"
    using freed_settled [OF s i(1) vacant_same [OF r'(2) f r'(6)] r'(3-5)] by blast+
  then show ?thesis
    by (intro implementsI [where r' = r' and res = "Closed True"])
      (use r'(1) False in \<open>simp_all add: run_call_def nt_exec_def\<close>)
qed

lemma sweep_implements:
  assumes p: "peaceful p" and s: "settled n r"
  shows "implements p n SweepDead r"
proof -
  have "nobody_dead (c_os p) (lock_mark (c_os p) r)"
    using settled_nobody_dead [OF s peaceful_os(3) [OF p]] nobody_dead_cong [of "lock_mark (c_os p) r" r] by simp
  then have "sweep_dead (c_os p) r = Some (Inr 0, guard_drop (lock_mark (c_os p) r))"
    by (simp add: sweep_dead_def with_lock_undisturbed [OF peaceful_os(1) [OF p]] sweep_dead_idle)
  then show ?thesis
    by (intro implementsI [where r' = "guard_drop (lock_mark (c_os p) r)" and res = "Count 0"])
      (simp_all add: run_call_def nt_exec_def settled_locked [OF s])
qed

text \<open>There is room in the slots just when there is room in the table.\<close>

lemma handle_slot:
  assumes s: "settled n r" and i: "i < SLOT_COUNT" "state (slots r i) = SLOT_USED"
  shows "slot r (handle_of (generation (slots r i)) i) = Some i"
proof -
  let ?g = "generation (slots r i)"
  have "unat ?g < 2 ^ 18" using settled_generation [OF s, of i] by simp
  then have "take_bit 18 ?g = ?g" by (simp add: word_unat_eq_iff unsigned_take_bit_eq take_bit_nat_eq_self)
  with i show ?thesis by (simp add: slot_Some_iff handle_index handle_generation)
qed

lemma dom_table:
  assumes s: "settled n r"
  shows "bij_betw (\<lambda>h. h AND INDEX_MASK) (dom (nt_table r)) {i. i \<noteq> 0 \<and> state (slots r i) = SLOT_USED}"
proof (rule bij_betwI')
  have d: "slot r h = Some (h AND INDEX_MASK) \<and> h AND INDEX_MASK \<noteq> 0" if "h \<in> dom (nt_table r)" for h
    using that nt_table_valid [OF s, of h] by (auto simp: slot_Some_iff)
  show "(x AND INDEX_MASK = y AND INDEX_MASK) = (x = y)" if "x \<in> dom (nt_table r)" "y \<in> dom (nt_table r)" for x y
    using d [OF that(1)] d [OF that(2)] slot_inj by metis
  show "x AND INDEX_MASK \<in> {i. i \<noteq> 0 \<and> state (slots r i) = SLOT_USED}" if "x \<in> dom (nt_table r)" for x
    using d [OF that] by (simp add: slot_Some_iff)
  show "\<exists>x\<in>dom (nt_table r). y = x AND INDEX_MASK" if "y \<in> {i. i \<noteq> 0 \<and> state (slots r i) = SLOT_USED}" for y
  proof -
    obtain F where R: "region_rep r (\<lambda>_. []) F" by (rule settled_rep [OF s])
    have y: "y < SLOT_COUNT" using that region_beyond [OF R, of y] by (force simp: not_le [symmetric])
    have "slot r (handle_of (generation (slots r y)) y) = Some y" using that y by (intro handle_slot [OF s]) simp_all
    then show ?thesis using nt_table_valid [OF s] that handle_index [OF y] by (metis (mono_tags, lifting) domIff mem_Collect_eq option.discI)
  qed
qed

lemma card_slots: "card {i :: u32. i \<noteq> 0 \<and> i < SLOT_COUNT} = 16383"
proof -
  have "{i :: u32. i \<noteq> 0 \<and> i < SLOT_COUNT} = of_nat ` {1..<16384}"
  proof
    show "{i :: u32. i \<noteq> 0 \<and> i < SLOT_COUNT} \<subseteq> of_nat ` {1..<16384}"
    proof
      fix i :: u32 assume "i \<in> {i. i \<noteq> 0 \<and> i < SLOT_COUNT}"
      then have "unat i \<in> {1..<16384}" by (auto simp: word_less_nat_alt unat_SLOT_COUNT unat_gt_0 Suc_le_eq)
      then show "i \<in> of_nat ` {1..<16384}" by (intro image_eqI [of _ _ "unat i"]) simp_all
    qed
    show "of_nat ` {1..<16384} \<subseteq> {i :: u32. i \<noteq> 0 \<and> i < SLOT_COUNT}"
      by (auto simp: word_less_nat_alt unat_SLOT_COUNT unat_of_nat of_nat_u32_eq_0)
  qed
  moreover have "inj_on (of_nat :: nat \<Rightarrow> u32) {1..<16384}"
    by (rule inj_onI) (auto simp: word_unat_eq_iff unat_of_nat)
  ultimately show ?thesis by (simp add: card_image)
qed

lemma room_iff:
  assumes s: "settled n r"
  shows "(\<exists>i<SLOT_COUNT. state (slots r i) = SLOT_FREE) \<longleftrightarrow> card (dom (nt_table r)) < 16383"
proof -
  obtain F where R: "region_rep r (\<lambda>_. []) F" by (rule settled_rep [OF s])
  let ?U = "{i. i \<noteq> 0 \<and> state (slots r i) = SLOT_USED}" and ?S = "{i :: u32. i \<noteq> 0 \<and> i < SLOT_COUNT}"
  have c: "card (dom (nt_table r)) = card ?U" by (rule bij_betw_same_card [OF dom_table [OF s]])
  have z: "state (slots r 0) = SLOT_USED" using region_reserved [OF R] by (simp add: reserved_slot_def)
  have sub: "?U \<subseteq> ?S" using region_beyond [OF R] by (auto simp: not_le [symmetric])
  show ?thesis
  proof
    assume "\<exists>i<SLOT_COUNT. state (slots r i) = SLOT_FREE"
    then obtain i where "i < SLOT_COUNT" "state (slots r i) = SLOT_FREE" by blast
    moreover from this z have "i \<noteq> 0" by auto
    ultimately have "i \<in> ?S" "i \<notin> ?U" by auto
    with sub have "?U \<subset> ?S" by blast
    then have "card ?U < card ?S" by (intro psubset_card_mono) auto
    then show "card (dom (nt_table r)) < 16383" by (simp only: c card_slots)
  next
    assume "card (dom (nt_table r)) < 16383"
    then have "card ?U < card ?S" by (simp only: c card_slots)
    then have "\<not> ?S \<subseteq> ?U" using card_mono [of ?U ?S] by auto
    then obtain i where "i \<noteq> 0" "i < SLOT_COUNT" "state (slots r i) \<noteq> SLOT_USED" by blast
    then show "\<exists>i<SLOT_COUNT. state (slots r i) = SLOT_FREE" using settled_state [OF s, of i] by blast
  qed
qed

lemma create_settled_room:
  assumes p: "calm p" and s: "settled n r" and w: "word_ok ty w" "waitable ty" and room: "card (dom (nt_table r)) < 16383"
  obtains h r' where "create_object (c_os p) r ty w = Some (Inr h, r')" "settled n r'" "nt_table r h = None" "h AND INDEX_MASK \<noteq> 0"
    "nt_table r' = (nt_table r)(h := abs_object (zero_slot\<lparr>obj_type := ty, w0 := w\<rparr>))"
proof -
  note os = calm_os [OF p]
  obtain F where R: "region_rep r (\<lambda>_. []) F" and f: "\<forall>x. \<not> node_held r F x" by (rule settled_rep [OF s])
  have free: "\<exists>i<SLOT_COUNT. state (slots r i) = SLOT_FREE" using room room_iff [OF s] by simp
  obtain h r' where c: "create_object (c_os p) r ty w = Some (Inr h, r')" "h AND INDEX_MASK \<noteq> 0"
    "state (slots r (h AND INDEX_MASK)) = SLOT_FREE" "region_rep r' (\<lambda>_. []) F"
    "slot r' h = (if generation (slots r (h AND INDEX_MASK)) < 2 ^ 18 then Some (h AND INDEX_MASK) else None)"
    "\<forall>j. j \<noteq> h AND INDEX_MASK \<longrightarrow> slots r' j = slots r j"
    "obj_type (slots r' (h AND INDEX_MASK)) = ty" "w0 (slots r' (h AND INDEX_MASK)) = w"
    "state (slots r' (h AND INDEX_MASK)) = SLOT_USED" "slot_pid (slots r' (h AND INDEX_MASK)) = getpid (c_os p)"
    "generation (slots r' (h AND INDEX_MASK)) = generation (slots r (h AND INDEX_MASK))"
    "node_fresh (header r') = node_fresh (header r)"
    by (rule create_object_free [OF os(1) R w(1) free])
  let ?i = "h AND INDEX_MASK"
  have v: "vacant r'" by (rule vacant_same [OF c(4) f c(12)])
  have "settled n r'"
    unfolding settled_def
  proof (intro conjI allI impI)
    fix j
    show "state (slots r' j) = SLOT_FREE \<or> state (slots r' j) = SLOT_USED"
      using settled_state [OF s, of j] c(6,9) by (cases "j = ?i") auto
    show "unat (generation (slots r' j)) + n < 2 ^ 18"
      using settled_generation [OF s, of j] c(6,11) by (cases "j = ?i") auto
    assume "j \<noteq> 0 \<and> state (slots r' j) = SLOT_USED"
    then show "waitable (obj_type (slots r' j))" "slot_pid (slots r' j) \<noteq> 0"
      using settled_used [OF s, of j] c(6,7,10) w(2) os(2) by (cases "j = ?i"; auto)+
  qed (rule v)
  moreover have "unat (generation (slots r ?i)) < 2 ^ 18" using settled_generation [OF s, of ?i] by simp
  then have sl: "slot r' h = Some ?i" using c(5) by (simp add: word_less_nat_alt)
  have "nt_table r' = (nt_table r)(h := abs_object (zero_slot\<lparr>obj_type := ty, w0 := w\<rparr>))"
  proof
    fix h' show "nt_table r' h' = ((nt_table r)(h := abs_object (zero_slot\<lparr>obj_type := ty, w0 := w\<rparr>))) h'"
    proof (cases "h' AND INDEX_MASK = ?i")
      case True
      then have "nt_table r h' = None" using c(3) by (simp add: table_free)
      moreover have "h' \<noteq> h \<Longrightarrow> slot r' h' = None" using True slot_inj [OF _ sl, of h'] by (metis not_None_eq slot_Some_iff)
      moreover have "abs_object (slots r' ?i) = abs_object (zero_slot\<lparr>obj_type := ty, w0 := w\<rparr>)"
        by (rule abs_object_cong) (use c(7,8) in simp_all)
      ultimately show ?thesis using sl by (cases "h' = h") (simp_all add: nt_table_def)
    next
      case False
      then show ?thesis using c(6) table_other [of r' h' r] by (auto simp: bare_def)
    qed
  qed
  moreover have "nt_table r h = None" using c(3) by (simp add: table_free)
  ultimately show ?thesis using c(1,2) by (intro that [of h r']) simp_all
qed

lemma create_settled:
  assumes p: "peaceful p" and s: "settled n r" and w: "word_ok ty w" "waitable ty"
  obtains res r' where "create_object (c_os p) r ty w = Some (res, r')" "settled n r'"
    "if card (dom (nt_table r)) < 16383
     then (\<exists>h. res = Inr h \<and> nt_table r h = None \<and> h AND INDEX_MASK \<noteq> 0 \<and>
       nt_table r' = (nt_table r)(h := abs_object (zero_slot\<lparr>obj_type := ty, w0 := w\<rparr>)))
     else res = Inl (Init ENOMEM) \<and> nt_table r' = nt_table r"
proof (cases "card (dom (nt_table r)) < 16383")
  case True
  obtain h r' where "create_object (c_os p) r ty w = Some (Inr h, r')" "settled n r'" "nt_table r h = None" "h AND INDEX_MASK \<noteq> 0"
    "nt_table r' = (nt_table r)(h := abs_object (zero_slot\<lparr>obj_type := ty, w0 := w\<rparr>))"
    by (rule create_settled_room [OF peaceful_calm [OF p] s w True])
  with True show ?thesis by (intro that [of "Inr h" r']) simp_all
next
  case False
  note os = peaceful_os [OF p]
  let ?m = "lock_mark (c_os p) r"
  obtain F where R: "region_rep r (\<lambda>_. []) F" by (rule settled_rep [OF s])
  then have R1: "region_rep ?m (\<lambda>_. []) F" by simp
  have "fst (alloc_slot ?m) = None" using alloc_slot_None(1) [OF region_cursor [OF R1]] False room_iff [OF s] by simp
  then have a: "alloc_slot ?m = (None, ?m)" using alloc_slot_None(2) [OF region_cursor [OF R1]] by (metis prod.collapse)
  have "nobody_dead (c_os p) ?m" using settled_nobody_dead [OF s os(3)] nobody_dead_cong [of ?m r] by simp
  then have "create_object (c_os p) r ty w = Some (Inl (Init ENOMEM), guard_drop ?m)"
    by (simp add: create_object_def with_lock_undisturbed [OF os(1)] alloc_slot_or_sweep_def a sweep_dead_idle)
  with False settled_locked [OF s] show ?thesis by (intro that [of "Inl (Init ENOMEM)" "guard_drop ?m"]) simp_all
qed

lemma create_implements:
  assumes p: "peaceful p" and s: "settled n r"
  shows "implements p n (CreateSem c m) r" "implements p n (CreateMutex me c) r" "implements p n (CreateEvent man sig) r"
proof -
  have make: "implements p n call r"
    if call: "run_call p call r = answered Handle (create_object (c_os p) r ty w)" "\<And>t. \<not> nt_blocks call t"
      and w: "word_ok ty w" "waitable ty"
      and e: "\<And>new. nt_exec new call (nt_table r) = nt_create new ob (nt_table r)"
      and o: "abs_object (zero_slot\<lparr>obj_type := ty, w0 := w\<rparr>) = Some ob" for call ty w ob
  proof -
    obtain res r' where c: "create_object (c_os p) r ty w = Some (res, r')" "settled n r'"
      "if card (dom (nt_table r)) < 16383
       then (\<exists>h. res = Inr h \<and> nt_table r h = None \<and> h AND INDEX_MASK \<noteq> 0 \<and>
         nt_table r' = (nt_table r)(h := abs_object (zero_slot\<lparr>obj_type := ty, w0 := w\<rparr>)))
       else res = Inl (Init ENOMEM) \<and> nt_table r' = nt_table r"
      by (rule create_settled [OF p s w])
    show ?thesis
    proof (cases "card (dom (nt_table r)) < 16383")
      case True
      with c(3) obtain h where h: "res = Inr h" "nt_table r h = None" "h AND INDEX_MASK \<noteq> 0" "nt_table r' = (nt_table r)(h \<mapsto> ob)"
        using o by auto
      with True c(1,2) call e show ?thesis
        by (intro implementsI [where r' = r' and res = "Handle h" and new = h]) (simp_all add: nt_create_def)
    next
      case False
      with c call e show ?thesis
        by (intro implementsI [where r' = r' and res = "Fail (Init ENOMEM)"]) (simp_all add: nt_create_def)
    qed
  qed
  show "implements p n (CreateSem c m) r"
  proof (cases "m < c")
    case True
    with s show ?thesis
      by (intro implementsI [where r' = r and res = "Fail Invalid"]) (simp_all add: run_call_def nt_exec_def create_semaphore_def)
  next
    case False
    then have "sem_ok (pack_sem c m)" using sem_word_ok [of c m] by simp
    with False show ?thesis
      by (intro make [where ty = TYPE_SEM and w = "pack_sem c m"])
        (simp_all add: run_call_def nt_exec_def create_semaphore_def waitable_def abs_object_simps pack_sem_join)
  qed
  show "implements p n (CreateMutex me c) r"
  proof (cases "(me = 0) \<noteq> (c = 0) \<or> 0x7fffffff < c")
    case True
    then have "create_mutex (c_os p) r me c = Some (Inl Invalid, r)" unfolding create_mutex_def by (rule if_P)
    moreover have "nt_exec 0 (CreateMutex me c) (nt_table r) = (Fail Invalid, nt_table r)"
      unfolding nt_exec_def nt_call.case by (rule if_P [OF True])
    ultimately show ?thesis
      using s by (intro implementsI [where r' = r and res = "Fail Invalid" and new = 0]) (simp_all add: run_call_def)
  next
    case False
    then have c: "(me = 0) = (c = 0)" "\<not> 0x7fffffff < c" "c AND 0x7fffffff = c" "mutex_ok (pack_mutex me c False)"
      using low31_id [of c] mutex_word_ok [of me c] by auto
    then show ?thesis
      by (intro make [where ty = TYPE_MUTEX and w = "pack_mutex me c False"])
        (simp_all add: run_call_def nt_exec_def create_mutex_def waitable_def abs_object_simps abs_mutex_def)
  qed
  show "implements p n (CreateEvent man sig) r"
    by (rule make [where ty = TYPE_EVENT and w = "pack_event sig man"])
      (use event_word_ok in \<open>simp_all add: run_call_def nt_exec_def create_event_def waitable_def abs_object_simps\<close>)
qed

subsection \<open>Waiting\<close>

lemma satisfied_table:
  assumes "nt_table r h \<noteq> None"
  shows "satisfied_now r me h = nt_acquirable me (nt_table r) h"
proof -
  from assms have h: "slot r h = Some (h AND INDEX_MASK)" by (auto simp: nt_table_def slot_Some_iff split: Option.bind_splits)
  have "nt_wait me False ob = nt_acquire me ob" for ob by (cases ob) (simp_all add: nt_wait_def split: option.split)
  then have "nt_wait me False = nt_acquire me" by blast
  with h show ?thesis by (simp add: wait_satisfied_def nt_acquirable_def nt_table_def)
qed

lemma peaceful_restful:
  assumes p: "peaceful p" and s: "settled n r"
  shows "restful (getpid (c_os p)) r (c_envs p j) \<and> asleep (c_envs p j) = id"
proof -
  have e: "let env = c_envs p j in
        lock_ret (lock_os env) 0 = 0 \<and> getpid (lock_os env) = getpid (c_os p) \<and> on_lock (lock_os env) = id \<and>
        undisturbed (try_os env) \<and> (\<forall>i. undisturbed (spin_os env i)) \<and>
        undisturbed (sweep_os env) \<and> (\<forall>k. lock_ret (sweep_os env) k = 0) \<and> all_alive (sweep_os env) \<and>
        asleep env = id \<and> 0 \<le> futex_errno env \<and> undisturbed (detach_os env)"
    using p by (simp add: peaceful_def)
  then have "nobody_dead (sweep_os (c_envs p j)) r" by (intro settled_nobody_dead [OF s]) (simp add: Let_def)
  with e peaceful_os(2) [OF p] show ?thesis by (simp add: restful_def lone_def Let_def nobody_dead_def all_alive_def)
qed

lemma settled_words:
  assumes s: "settled n r" and w: "words_only r r'" and R: "region_rep r Q F" "region_rep r' Q F"
  shows "settled n r'"
proof -
  have f: "\<not> node_held r F x" for x using settled_vacant [OF s] held_iff [OF region_pool [OF R(1)]] by (simp add: vacant_def)
  have "vacant r'" by (rule vacantI [OF R(2)]) (use f w in \<open>simp add: node_held_def words_only_def\<close>)
  with s w show ?thesis by (simp add: settled_def words_only_def)
qed

text \<open>The table after a wait for all, and after a wait for any.\<close>

lemma table_all:
  assumes v: "\<forall>h\<in>set hs. nt_table r h \<noteq> None" and w: "words_only r r'"
    and ob: "\<forall>k<length hs. satisfied_now r me (hs ! k) = Some (od k, ob k) \<and> abs_object (slots r' (hs ! k AND INDEX_MASK)) = Some (ob k)"
    and o: "\<forall>i. i \<notin> (\<lambda>h. h AND INDEX_MASK) ` set hs \<longrightarrow> slots r' i = slots r i"
  shows "nt_table r' = (\<lambda>h. if h \<in> set hs then map_option snd (nt_acquirable me (nt_table r) h) else nt_table r h)"
proof
  fix h
  have sl: "slot r' h = slot r h" by (rule words_only_slot [OF w])
  have valid: "slot r h' = Some (h' AND INDEX_MASK)" if "h' \<in> set hs" for h'
    using v that by (auto simp: nt_table_def slot_Some_iff split: Option.bind_splits)
  show "nt_table r' h = (if h \<in> set hs then map_option snd (nt_acquirable me (nt_table r) h) else nt_table r h)"
  proof (cases "h \<in> set hs")
    case True
    then obtain k where k: "k < length hs" "h = hs ! k" by (auto simp: in_set_conv_nth)
    have "nt_acquirable me (nt_table r) h = Some (od k, ob k)" using ob k v True satisfied_table [of r h me] by auto
    moreover have "nt_table r' h = Some (ob k)"
      using valid [OF True] ob k words_only_slot [OF w, of "hs ! k"] by (simp add: nt_table_def)
    ultimately show ?thesis using True by simp
  next
    case False
    have "slots r' i = slots r i" if "slot r h = Some i" for i
    proof -
      have "i \<notin> (\<lambda>h. h AND INDEX_MASK) ` set hs" using valid slot_inj [OF that] False by auto
      with o show ?thesis by blast
    qed
    with False sl show ?thesis by (cases "slot r h") (simp_all add: nt_table_def)
  qed
qed

abbreviation wait_of :: "Caller \<Rightarrow> Region \<Rightarrow> u32 list \<Rightarrow> u32 \<Rightarrow> nat option \<Rightarrow> bool \<Rightarrow> (wait_run \<times> Thread \<times> Region) option" where
  "wait_of p r hs me timeout wall \<equiv>
     wait (c_os p) (c_envs p) (c_cfg p) (c_debug p) (c_start p) (c_thread p) r hs me timeout wall 0"

abbreviation bad_wait :: "u32 list \<Rightarrow> u32 \<Rightarrow> bool" where
  "bad_wait hs me \<equiv> me = 0 \<or> hs = [] \<or> MAX_WAIT_COUNT < length hs \<or> \<not> distinct hs"

lemma implements_wait:
  assumes "wait_of p r hs me timeout wall = Some (x, t', r')" "settled n r'"
    and "nt_wait_call hs me wall (nt_table r) = (Waited x, nt_table r')" "\<not> nt_blocks (Wait hs me timeout wall) (nt_table r)"
  shows "implements p n (Wait hs me timeout wall) r"
  by (rule implementsI [where r' = r' and res = "Waited x"]) (use assms in \<open>simp_all add: run_call_def nt_exec_def\<close>)

text \<open>On objects of the table: the machine's conditions are those of the region.\<close>

lemma wait_call_good:
  assumes "\<not> bad_wait hs me" "\<forall>h\<in>set hs. nt_table r h \<noteq> None"
  shows "nt_wait_call hs me wall (nt_table r) =
      (if taken r hs me wall then (Waited (Returned Timeout), nt_table r)
       else if wall then
         (Waited (Returned (Signaled 0 (\<exists>h\<in>set hs. fst (the (nt_acquirable me (nt_table r) h))))),
          \<lambda>h. if h \<in> set hs then map_option snd (nt_acquirable me (nt_table r) h) else nt_table r h)
       else case the (List.find (\<lambda>k. satisfied_now r me (hs ! k) \<noteq> None) [0..<length hs]) of k \<Rightarrow>
         (case the (nt_acquirable me (nt_table r) (hs ! k)) of (dead, ob) \<Rightarrow>
            (Waited (Returned (Signaled (of_nat k) dead)), (nt_table r)(hs ! k \<mapsto> ob))))"
proof -
  have sat: "satisfied_now r me h = nt_acquirable me (nt_table r) h" if "h \<in> set hs" for h
    using assms(2) that satisfied_table by blast
  have find: "List.find (\<lambda>k. satisfied_now r me (hs ! k) \<noteq> None) [0..<length hs] =
      List.find (\<lambda>k. nt_acquirable me (nt_table r) (hs ! k) \<noteq> None) [0..<length hs]"
    by (rule find_cong) (use sat in auto)
  have not: "\<not> (bad_wait hs me \<or> (\<exists>h\<in>set hs. nt_table r h = None))" using assms by simp
  note call = nt_wait_call_def [of hs me wall "nt_table r", unfolded if_not_P [OF not [simplified disj_assoc]]]
  show ?thesis
  proof (cases wall)
    case True
    have "taken r hs me wall \<longleftrightarrow> \<not> (\<forall>h\<in>set hs. nt_acquirable me (nt_table r) h \<noteq> None)"
      using True sat by (simp add: taken_def del: not_None_eq)
    with True show ?thesis unfolding call by simp
  next
    case False
    have "taken r hs me wall \<longleftrightarrow> List.find (\<lambda>k. nt_acquirable me (nt_table r) (hs ! k) \<noteq> None) [0..<length hs] = None"
      using False sat by (simp add: taken_def find_None_iff all_set_conv_all_nth del: not_None_eq)
    with False find show ?thesis unfolding call by (auto split: option.split)
  qed
qed

lemma wait_taken_implements:
  assumes p: "peaceful p" and s: "settled n r" and b: "\<not> nt_blocks (Wait hs me timeout wall) (nt_table r)"
    and good: "\<not> bad_wait hs me" "\<forall>h\<in>set hs. nt_table r h \<noteq> None" and t: "taken r hs me wall"
  shows "implements p n (Wait hs me timeout wall) r"
proof -
  have to: "nt_wait_call hs me wall (nt_table r) = (Waited (Returned Timeout), nt_table r)" using t by (simp add: wait_call_good [OF good])
  then have "timeout \<noteq> None" using b by (auto simp: nt_blocks_def)
  then obtain d where d: "timeout = Some d" by blast
  obtain m where m: "c_start p + d \<le> now_ns (c_envs p m)" using p by (auto simp: peaceful_def)
  have e: "\<forall>j. restful (getpid (c_os p)) r (c_envs p j) \<and> asleep (c_envs p j) = id" using peaceful_restful [OF p s] by blast
  have a: "me \<noteq> 0" "hs \<noteq> []" "length hs \<le> MAX_WAIT_COUNT" "distinct hs" "waitable_handles r hs"
    using good by (auto simp: waitable_handles_table)
  obtain t' r' where "wait_of p r hs me timeout wall = Some (Returned Timeout, t', r')" "vacant r'" "bare r' = bare r"
    unfolding d by (rule wait_times_out [OF peaceful_os(1) [OF p] settled_vacant [OF s] a t e m])
  with settled_bare [OF s, of r'] to b show ?thesis
    by (intro implements_wait [of p r hs me timeout wall "Returned Timeout" t' r']) simp_all
qed

lemma wait_all_implements:
  assumes p: "peaceful p" and s: "settled n r" and b: "\<not> nt_blocks (Wait hs me timeout True) (nt_table r)"
    and good: "\<not> bad_wait hs me" "\<forall>h\<in>set hs. nt_table r h \<noteq> None" and t: "\<not> taken r hs me True"
  shows "implements p n (Wait hs me timeout True) r"
proof -
  obtain F where R: "region_rep r (\<lambda>_. []) F" by (rule settled_rep [OF s])
  have a: "me \<noteq> 0" "hs \<noteq> []" "length hs \<le> MAX_WAIT_COUNT" "distinct hs" "waitable_handles r hs"
    using good by (auto simp: waitable_handles_table)
  have al: "alert_ok r 0" "\<not> alert_signaled r 0" by (simp_all add: alert_ok_def alert_signaled_def)
  have yes: "\<forall>h\<in>set hs. satisfied_now r me h \<noteq> None" using t by (auto simp: taken_def)
  obtain r' od ob where r': "wait_of p r hs me timeout True = Some (Returned (Signaled 0 (\<exists>k<length hs. od k)), c_thread p, r')"
    and ob: "\<forall>k<length hs. satisfied_now r me (hs ! k) = Some (od k, ob k) \<and> abs_object (slots r' (hs ! k AND INDEX_MASK)) = Some (ob k)"
    and o: "\<forall>i. i \<notin> (\<lambda>h. h AND INDEX_MASK) ` set hs \<longrightarrow> slots r' i = slots r i"
    and w: "region_rep r' (\<lambda>_. []) F" "words_only r r'"
    by (rule wait_all_granted [OF peaceful_os(1) [OF p] R a al yes])
  have "od k = fst (the (nt_acquirable me (nt_table r) (hs ! k)))" if "k < length hs" for k
    using ob that satisfied_table [of r "hs ! k" me] good(2) by (metis fst_conv nth_mem option.sel)
  then have "(\<exists>k<length hs. od k) = (\<exists>h\<in>set hs. fst (the (nt_acquirable me (nt_table r) h)))"
    by (metis in_set_conv_nth)
  then have "nt_wait_call hs me True (nt_table r) = (Waited (Returned (Signaled 0 (\<exists>k<length hs. od k))), nt_table r')"
    unfolding table_all [OF good(2) w(2) ob o] wait_call_good [OF good] using t by simp
  then show ?thesis by (rule implements_wait [OF r' settled_words [OF s w(2) R w(1)] _ b])
qed

lemma wait_any_implements:
  assumes p: "peaceful p" and s: "settled n r" and b: "\<not> nt_blocks (Wait hs me timeout False) (nt_table r)"
    and good: "\<not> bad_wait hs me" "\<forall>h\<in>set hs. nt_table r h \<noteq> None" and t: "\<not> taken r hs me False"
  shows "implements p n (Wait hs me timeout False) r"
proof -
  obtain F where R: "region_rep r (\<lambda>_. []) F" by (rule settled_rep [OF s])
  have a: "me \<noteq> 0" "hs \<noteq> []" "length hs \<le> MAX_WAIT_COUNT" "distinct hs" "waitable_handles r hs"
    using good by (auto simp: waitable_handles_table)
  have al: "alert_ok r 0" "\<not> alert_signaled r 0" by (simp_all add: alert_ok_def alert_signaled_def)
  obtain k where k: "List.find (\<lambda>k. satisfied_now r me (hs ! k) \<noteq> None) [0..<length hs] = Some k"
    using t by (cases "List.find (\<lambda>k. satisfied_now r me (hs ! k) \<noteq> None) [0..<length hs]")
      (auto simp: taken_def find_None_iff in_set_conv_nth)
  then have kl: "k < length hs" by (auto simp: find_Some_iff)
  let ?i = "hs ! k AND INDEX_MASK"
  obtain od ob w where g: "satisfied_now r me (hs ! k) = Some (od, ob)"
    "wait_of p r hs me timeout False = Some (Returned (Signaled (of_nat k) od), c_thread p, put_word r ?i w)"
    "abs_object (slots (put_word r ?i w) ?i) = Some ob" "region_rep (put_word r ?i w) (\<lambda>_. []) F"
    by (rule wait_any_granted [OF peaceful_os(1) [OF p] R a al k])
  have sl: "slot r (hs ! k) = Some ?i" using a(5) kl by (auto simp: waitable_handles_def slot_Some_iff)
  have st: "settled n (put_word r ?i w)" by (rule settled_words [OF s _ R g(4)]) simp
  have "nt_table (put_word r ?i w) = (nt_table r)(hs ! k \<mapsto> ob)"
    using settled_update(2) [OF s settled_vacant [OF st] sl] g(3) by (simp add: bare_put_word)
  moreover have "nt_acquirable me (nt_table r) (hs ! k) = Some (od, ob)"
    using g(1) satisfied_table [of r "hs ! k" me] good(2) kl by simp
  ultimately have "nt_wait_call hs me False (nt_table r) = (Waited (Returned (Signaled (of_nat k) od)), nt_table (put_word r ?i w))"
    unfolding wait_call_good [OF good] using t k by simp
  then show ?thesis by (rule implements_wait [OF g(2) st _ b])
qed

lemma wait_implements:
  assumes p: "peaceful p" and s: "settled n r" and b: "\<not> nt_blocks (Wait hs me timeout wall) (nt_table r)"
  shows "implements p n (Wait hs me timeout wall) r"
proof (cases "bad_wait hs me")
  case True
  then show ?thesis by (intro implements_wait [of p r _ _ _ _ "Returned InvalidWait" _ r]) (use s b in \<open>auto simp: wait_def nt_wait_call_def\<close>)
next
  case args: False
  show ?thesis
  proof (cases "\<forall>h\<in>set hs. nt_table r h \<noteq> None")
    case True
    then show ?thesis
      using wait_taken_implements [OF p s b args] wait_all_implements [OF p s _ args] wait_any_implements [OF p s _ args] b
      by (cases "taken r hs me wall"; cases wall) simp_all
  next
    case False
    have a: "me \<noteq> 0" "hs \<noteq> []" "length hs \<le> MAX_WAIT_COUNT" "distinct hs" "\<not> waitable_handles r hs"
      using args False by (auto simp: waitable_handles_table)
    have e: "lock_ret (lock_os (c_envs p 0)) 0 = 0" "on_lock (lock_os (c_envs p 0)) = id"
      using peaceful_restful [OF p s, of 0] by (simp_all add: restful_def lone_def)
    obtain r' where "wait_of p r hs me timeout wall = Some (Returned InvalidWait, c_thread p, r')" "at_rest r r'"
      by (rule wait_refused [where envs = "c_envs p" and r = r, OF peaceful_os(1) [OF p] a e])
    with settled_at_rest [OF s, of r'] False b show ?thesis
      by (intro implements_wait [of p r hs me timeout wall "Returned InvalidWait" "c_thread p" r']) (auto simp: nt_wait_call_def)
  qed
qed

lemma call_implements:
  assumes p: "peaceful p" and s: "settled (Suc n) r" and b: "\<not> nt_blocks c (nt_table r)"
  shows "implements p n c r"
proof -
  have s': "settled n r" using s by (rule settled_less) simp
  show ?thesis
    using create_implements [OF p s'] close_implements [OF peaceful_calm [OF p] s] retain_implements [OF peaceful_calm [OF p] s'] release_implements [OF p s']
      sem_release_implements [OF p s'] mutex_unlock_implements [OF p s'] mutex_kill_implements [OF p s']
      event_set_implements [OF peaceful_calm [OF p] s'] event_reset_implements [OF p s'] event_pulse_implements [OF p s']
      read_implements [OF s'] sweep_implements [OF p s'] wait_implements [OF p s'] b
    by (cases c) simp_all
qed

subsection \<open>Sequences of calls\<close>

text \<open>
  Runs of calls, concrete and abstract, and the contract of a refinement: while the invariant
  allows it, a call returns and is a step of the machine. Then so is every run.
\<close>

fun run_seq :: "('c \<Rightarrow> 's \<Rightarrow> ('a \<times> 's) option) \<Rightarrow> 'c list \<Rightarrow> 's \<Rightarrow> ('a list \<times> 's) option" where
  "run_seq run [] s = Some ([], s)"
| "run_seq run (c # cs) s = do {
     (a, s1) \<leftarrow> run c s;
     (as, s2) \<leftarrow> run_seq run cs s1;
     Some (a # as, s2)
   }"

inductive step_seq :: "('c \<Rightarrow> 't \<Rightarrow> 'a \<Rightarrow> 't \<Rightarrow> bool) \<Rightarrow> 'c list \<Rightarrow> 't \<Rightarrow> 'a list \<Rightarrow> 't \<Rightarrow> bool" for step where
  stop: "step_seq step [] t [] t"
| go: "step c t a t1 \<Longrightarrow> step_seq step cs t1 as t2 \<Longrightarrow> step_seq step (c # cs) t (a # as) t2"

inductive_simps step_seq_simps [simp]: "step_seq step [] t as t'" "step_seq step (c # cs) t as t'"

locale call_refinement =
  fixes run :: "'c \<Rightarrow> 's \<Rightarrow> ('a \<times> 's) option"
    and step :: "'c \<Rightarrow> 't \<Rightarrow> 'a \<Rightarrow> 't \<Rightarrow> bool"
    and abstr :: "'s \<Rightarrow> 't"
    and inv :: "nat \<Rightarrow> 's \<Rightarrow> bool"
    and may :: "'c \<Rightarrow> bool"
  assumes refines: "inv (Suc n) s \<Longrightarrow> may c \<Longrightarrow> \<exists>a s'. run c s = Some (a, s') \<and> inv n s' \<and> step c (abstr s) a (abstr s')"
begin

lemma run_refines:
  "inv (length cs + n) s \<Longrightarrow> \<forall>c\<in>set cs. may c \<Longrightarrow>
   \<exists>as s'. run_seq run cs s = Some (as, s') \<and> inv n s' \<and> step_seq step cs (abstr s) as (abstr s')"
proof (induction cs arbitrary: s)
  case (Cons c cs)
  obtain a s1 where a: "run c s = Some (a, s1)" "inv (length cs + n) s1" "step c (abstr s) a (abstr s1)"
    using refines [of "length cs + n" s c] Cons.prems by auto
  obtain as s2 where "run_seq run cs s1 = Some (as, s2)" "inv n s2" "step_seq step cs (abstr s1) as (abstr s2)"
    using Cons.IH [OF a(2)] Cons.prems(2) by auto
  with a show ?case by auto
qed simp

end

definition timed :: "nt_call \<Rightarrow> bool" where
  "timed c \<longleftrightarrow> (\<forall>hs me wall. c \<noteq> Wait hs me None wall)"

lemma timed_not_blocked: "timed c \<Longrightarrow> \<not> nt_blocks c t"
  by (auto simp: timed_def nt_blocks_def)

interpretation nt: call_refinement "\<lambda>(p, c). run_call p c" "\<lambda>(p, c). nt_step c" nt_table settled
  "\<lambda>(p, c). peaceful p \<and> timed c"
proof
  fix n s and c :: "Caller \<times> nt_call"
  assume "settled (Suc n) s" "case c of (p, c) \<Rightarrow> peaceful p \<and> timed c"
  then show "\<exists>a s'. (case c of (p, c) \<Rightarrow> run_call p c) s = Some (a, s') \<and> settled n s' \<and>
      (case c of (p, c) \<Rightarrow> nt_step c) (nt_table s) a (nt_table s')"
    using call_implements [of "fst c" n s "snd c"] timed_not_blocked [of "snd c"]
    by (cases c) (simp add: implements_def)
qed

lemma fresh_settled: "n < 2 ^ 18 \<Longrightarrow> settled n fresh_region"
  using fresh_vacant by (simp add: settled_def state_consts)

lemma fresh_table: "nt_table fresh_region = Map.empty"
  by (rule ext) (auto simp: nt_table_def slot_def Let_def abs_object_def type_consts state_consts split: Option.bind_splits)

definition quiet_caller :: "u32 \<Rightarrow> Caller" where
  "quiet_caller pid = \<lparr>c_os = quiet_os pid, c_envs = quiet_round pid, c_cfg = read_config (\<lambda>_. None), c_debug = False,
     c_start = 0, c_thread = new_thread\<rparr>"

lemma all_alive_quiet: "all_alive (quiet_os pid)"
  by (simp add: all_alive_def pid_alive_def quiet_os_def errno_consts)

lemma peaceful_quiet: "pid \<noteq> 0 \<Longrightarrow> peaceful (quiet_caller pid)"
  unfolding peaceful_def quiet_caller_def quiet_round_def
  by (auto simp: all_alive_quiet) (auto simp: quiet_os_def)

subsection \<open>Properties\<close>

text \<open>
  C3: the library implements the NT objects. On a region at rest, every call of the programming
  interface, successful or not, returns; its result and the objects it leaves are exactly what the
  NT machine allows for that call on the table of objects that the region holds, no other object
  is affected, and the region is again at rest.
\<close>

theorem calls_refine_nt:
  assumes "peaceful p" "settled (Suc n) r" "\<not> nt_blocks c (nt_table r)"
  shows "\<exists>res r'. run_call p c r = Some (res, r') \<and> settled n r' \<and> nt_step c (nt_table r) res (nt_table r')"
  using call_implements [OF assms] by (simp add: implements_def)

theorem calls_refine_nt_witness:
  "\<exists>res r'. run_call (quiet_caller 7) (CreateSem 2 5) fresh_region = Some (res, r') \<and> settled 10 r' \<and>
     nt_step (CreateSem 2 5) (nt_table fresh_region) res (nt_table r')"
proof -
  have p: "peaceful (quiet_caller 7)" and s: "settled (Suc 10) fresh_region" by (simp_all add: peaceful_quiet fresh_settled)
  have b: "\<not> nt_blocks (CreateSem 2 5) (nt_table fresh_region)" by simp
  from calls_refine_nt [OF p s b] show ?thesis .
qed

text \<open>
  C4: sessions. Any sequence of fewer than \<open>2 ^ 18\<close> calls by any processes, one after the other on a
  newly created region, each wait with a timeout, runs to its end, and its results are those of a
  run of the NT machine from the empty table. (After that many closes of one slot its handles run
  out of generations.)
\<close>

theorem sessions_refine_nt:
  assumes "length cs < 2 ^ 18" "\<forall>(p, c)\<in>set cs. peaceful p \<and> timed c"
  shows "\<exists>res r'. run_seq (\<lambda>(p, c). run_call p c) cs fresh_region = Some (res, r') \<and>
    step_seq (\<lambda>(p, c). nt_step c) cs Map.empty res (nt_table r') \<and> region_ok r'"
proof -
  have "settled (length cs + 0) fresh_region" using assms(1) by (intro fresh_settled) simp
  from nt.run_refines [OF this] assms(2) obtain res r' where
    "run_seq (\<lambda>(p, c). run_call p c) cs fresh_region = Some (res, r')" "settled 0 r'"
    "step_seq (\<lambda>(p, c). nt_step c) cs (nt_table fresh_region) res (nt_table r')" by auto
  with settled_vacant show ?thesis unfolding fresh_table by (auto simp: vacant_def)
qed

theorem sessions_refine_nt_witness:
  "let cs = [(quiet_caller 7, CreateSem 2 5), (quiet_caller 8, Wait [1] 9 (Some 10) False), (quiet_caller 7, Close 1)] in
   \<exists>res r'. run_seq (\<lambda>(p, c). run_call p c) cs fresh_region = Some (res, r') \<and>
     step_seq (\<lambda>(p, c). nt_step c) cs Map.empty res (nt_table r') \<and> region_ok r'"
proof -
  let ?cs = "[(quiet_caller 7, CreateSem 2 5), (quiet_caller 8, Wait [1] 9 (Some 10) False), (quiet_caller 7, Close 1)]"
  have l: "length ?cs < 2 ^ 18" by simp
  have a: "\<forall>(p, c)\<in>set ?cs. peaceful p \<and> timed c" by (simp add: peaceful_quiet timed_def)
  from sessions_refine_nt [OF l a] show ?thesis by (simp only: Let_def)
qed

end
