(* ===== verification/Test_Hooks.thy ===== *)
theory Test_Hooks
  imports Nt_Machine
begin

text \<open>
  The hooks at the end of \<^verbatim>\<open>core.rs\<close> through which the unit tests drive the sweep in single steps
  and look into the region, and what they report: the number of chunks and candidates of a scan,
  the first waiter of an object, the fate of a dead waiter's node, the verdicts of the cache.
\<close>

subsection \<open>The hooks\<close>

function scan_totals :: "Region \<Rightarrow> SweepScan \<Rightarrow> nat \<Rightarrow> nat \<Rightarrow> nat \<times> nat" where
  "scan_totals r scan chunks cands =
     (case next_chunk r scan of (scan1, out) \<Rightarrow>
        if out = [] then (chunks, cands) else scan_totals r scan1 (chunks + 1) (cands + length out))"
  by pat_completeness auto
termination
  by (relation "measure (\<lambda>(r, scan, chunks, cands). scan_left scan)") (auto intro: next_chunk_left [OF sym])

declare scan_totals.simps [simp del]

definition test_scan_candidates :: "Os \<Rightarrow> Region \<Rightarrow> ((nat \<times> nat) \<times> Region) option" where
  "test_scan_candidates os r =
     with_lock os r (\<lambda>_. (0, 0)) (\<lambda>r1. Some (scan_totals r1 (new_scan r1) 0 0, r1))"

definition SLOT_MASK :: u32 where "SLOT_MASK = INDEX_MASK"

definition test_slot_candidate :: "Os \<Rightarrow> Region \<Rightarrow> u32 \<Rightarrow> ((u32 \<times> u32 \<times> u32) option \<times> Region) option" where
  "test_slot_candidate os r handle =
     with_lock os r (\<lambda>_. None)
       (\<lambda>r1. Some (map_option (\<lambda>i. (handle AND INDEX_MASK, slot_pid (slots r1 i), drop_bit INDEX_BITS handle)) (slot r1 handle), r1))"

definition test_holders :: "Os \<Rightarrow> Region \<Rightarrow> u32 \<Rightarrow> ((u32 \<times> u32 list) option \<times> Region) option" where
  "test_holders os r handle =
     with_lock os r (\<lambda>_. None)
       (\<lambda>r1. Some (map_option (\<lambda>i.
          let len = holders_len (slots r1 i);
              n = min (unat (len AND NOT HOLDER_OVERFLOW)) MAX_HOLDERS
          in (len, take n (holders (slots r1 i)))) (slot r1 handle), r1))"

fun test_reap_slot_candidate :: "Os \<Rightarrow> Region \<Rightarrow> u32 \<times> u32 \<times> u32 \<Rightarrow> bool \<Rightarrow> (u32 \<times> Region) option" where
  "test_reap_slot_candidate os r (index, pid, gen) alive =
     with_lock os r (\<lambda>_. 0)
       (\<lambda>r1. reap_dead_locked os r1
          [\<lparr>cand_node = False, cand_index = index, cand_pid = pid, cand_generation = gen,
            cand_holders = replicate MAX_HOLDERS 0, cand_holders_len = 0\<rparr>] [alive])"

function first_registered :: "Region \<Rightarrow> u32 \<Rightarrow> u32 \<Rightarrow> (u32 \<times> u32) option" where
  "first_registered r index guard =
     (if index \<noteq> NIL \<and> guard \<le> NODE_COUNT then
        if registered (nodes r index) \<noteq> 0 then Some (index, node_pid (nodes r index))
        else first_registered r (obj_next (nodes r index)) (guard + 1)
      else None)"
  by pat_completeness auto

text \<open>The guard counts to one past the number of nodes, far below the width of the word.\<close>

lemma guard_step: "guard \<le> NODE_COUNT \<Longrightarrow> 8193 - unat (guard + 1) < 8193 - unat guard" for guard :: u32
proof -
  assume "guard \<le> NODE_COUNT"
  then have "unat guard \<le> 8192" by (simp add: NODE_COUNT_def word_le_nat_alt)
  moreover from this have "unat (guard + 1) = unat guard + 1" by (simp add: unat_add_u32)
  ultimately show ?thesis by simp
qed

termination first_registered
  by (relation "measure (\<lambda>(r, index, guard). 8193 - unat guard)") (simp_all only: wf_measure in_measure split_conv guard_step)

declare first_registered.simps [simp del]

definition test_first_waiter :: "Os \<Rightarrow> Region \<Rightarrow> u32 \<Rightarrow> ((u32 \<times> u32) option \<times> Region) option" where
  "test_first_waiter os r handle =
     with_lock os r (\<lambda>_. None)
       (\<lambda>r1. Some (Option.bind (slot r1 handle) (\<lambda>i. first_registered r1 (waiter_head (slots r1 i)) 0), r1))"

fun test_reap_node_candidate :: "Os \<Rightarrow> Region \<Rightarrow> u32 \<times> u32 \<Rightarrow> bool \<Rightarrow> (bool \<times> Region) option" where
  "test_reap_node_candidate os r (index, pid) alive =
     with_lock os r (\<lambda>_. False)
       (\<lambda>r1. let before = registered (nodes r1 index) \<noteq> 0 in do {
          (n, r2) \<leftarrow> reap_dead_locked os r1 [node_cand index pid] [alive];
          Some (before \<and> registered (nodes r2 index) = 0, r2)
        })"

function on_free_list :: "Region \<Rightarrow> u32 \<Rightarrow> u32 \<Rightarrow> u32 \<Rightarrow> bool" where
  "on_free_list r index cur guard =
     (if cur \<noteq> NIL \<and> guard \<le> NODE_COUNT then
        cur = index \<or> on_free_list r index (waiter_next (nodes r cur)) (guard + 1)
      else False)"
  by pat_completeness auto
termination
  by (relation "measure (\<lambda>(r, index, cur, guard). 8193 - unat guard)") (simp_all only: wf_measure in_measure split_conv guard_step)

declare on_free_list.simps [simp del]

definition test_sweep_and_inspect_node :: "Os \<Rightarrow> Region \<Rightarrow> u32 \<Rightarrow> ((bool \<times> bool \<times> u32) \<times> Region) option" where
  "test_sweep_and_inspect_node os r index =
     with_lock os r (\<lambda>_. (False, False, 0))
       (\<lambda>r1. let registered_before = registered (nodes r1 index) \<noteq> 0 in do {
          (freed, r2) \<leftarrow> sweep_dead_locked os r1;
          let registered_after = registered (nodes r2 index) \<noteq> 0;
          let pooled = on_free_list r2 index (node_free_head (header r2)) 0;
          Some ((registered_before \<and> \<not> registered_after, pooled, freed), r2)
        })"

fun cache_verdicts :: "Os \<Rightarrow> PidCache \<Rightarrow> u32 list \<Rightarrow> bool list" where
  "cache_verdicts os cache [] = []"
| "cache_verdicts os cache (pid # pids) =
     (case cache_alive os cache pid of (a, cache1) \<Rightarrow> a # cache_verdicts os cache1 pids)"

definition test_pid_cache :: "Os \<Rightarrow> u32 list \<Rightarrow> bool list" where
  "test_pid_cache os pids = cache_verdicts os new_cache pids"

definition test_sweep_clock_ns :: "Region \<Rightarrow> u64" where
  "test_sweep_clock_ns r = sweep_ns (header r)"

definition test_reset_sweep_clock :: "Region \<Rightarrow> Region" where
  "test_reset_sweep_clock r = upd_header r (\<lambda>h. h\<lparr>sweep_ns := 0\<rparr>)"

definition test_tail_budget_cap :: "u64 \<Rightarrow> u64" where
  "test_tail_budget_cap budget = tail_budget_cap budget"

subsection \<open>What a scan counts\<close>

definition scan_rest :: "Region \<Rightarrow> SweepScan \<Rightarrow> nat" where
  "scan_rest r sc =
     card {x. next_node sc \<le> x \<and> x < node_hi sc \<and> registered (nodes r x) \<noteq> 0} +
     card {i. next_slot sc \<le> i \<and> i < slot_hi sc \<and> state (slots r i) = SLOT_USED \<and> slot_pid (slots r i) \<noteq> 0}"

lemma card_from:
  fixes x hi :: u32
  assumes "x < hi"
  shows "card {y. x \<le> y \<and> y < hi \<and> P y} = of_bool (P x) + card {y. x + 1 \<le> y \<and> y < hi \<and> P y}"
proof -
  let ?T = "{y. x + 1 \<le> y \<and> y < hi \<and> P y}"
  have u: "unat (x + 1) = Suc (unat x)" by (rule unat_less_Suc [OF assms])
  then have x: "x \<notin> ?T" by (auto simp: word_le_nat_alt)
  have "y = x \<or> x + 1 \<le> y" if "x \<le> y" for y using that u by (auto simp: word_le_nat_alt word_unat_eq_iff)
  moreover have "x \<le> y" if "x + 1 \<le> y" for y using that u by (auto simp: word_le_nat_alt)
  ultimately have "{y. x \<le> y \<and> y < hi \<and> P y} = (if P x then insert x ?T else ?T)" using assms by auto
  with x show ?thesis by (simp only: if_distrib [of card] card_insert_disjoint [OF finite x]) simp
qed

lemma chunk_loop_rest:
  "case chunk_loop r sc out of (sc', out') \<Rightarrow>
     length out' + scan_rest r sc' = length out + scan_rest r sc \<and> (length out \<le> SWEEP_CHUNK \<longrightarrow> length out' \<le> SWEEP_CHUNK)"
proof (induction rule: chunk_loop_induct [where r = r])
  case (node sc out x)
  have "length (visit_node r (next_node sc)) + scan_rest r (node_step sc) = scan_rest r sc"
    using card_from [OF node(2), of "\<lambda>x. registered (nodes r x) \<noteq> 0"] by (simp add: scan_rest_def visit_node_def)
  moreover have "length (visit_node r (next_node sc)) \<le> 1" by (simp add: visit_node_def)
  ultimately show ?case using node by (auto split: prod.splits)
next
  case (slot sc out x)
  have "length (visit_slot r (next_slot sc)) + scan_rest r (slot_step sc) = scan_rest r sc"
    using card_from [OF slot(3), of "\<lambda>i. state (slots r i) = SLOT_USED \<and> slot_pid (slots r i) \<noteq> 0"]
    by (simp add: scan_rest_def visit_slot_def)
  moreover have "length (visit_slot r (next_slot sc)) \<le> 1" by (simp add: visit_slot_def)
  ultimately show ?case using slot by (auto split: prod.splits)
qed simp

lemma scan_done_rest: "scan_done sc \<Longrightarrow> scan_rest r sc = 0"
  by (auto simp: scan_done_def scan_rest_def)

lemma next_chunk_rest:
  assumes "next_chunk r sc = (sc', out)"
  shows "length out = min SWEEP_CHUNK (scan_rest r sc)" "scan_rest r sc' = scan_rest r sc - length out"
proof -
  have c: "chunk_loop r sc [] = (sc', out)" using assms by (simp add: next_chunk_def)
  have l: "length out + scan_rest r sc' = scan_rest r sc" "length out \<le> SWEEP_CHUNK"
    using chunk_loop_rest [where r = r and sc = sc and out = "[]"] by (simp_all add: c)
  moreover have "length out < SWEEP_CHUNK \<Longrightarrow> scan_rest r sc' = 0"
    using chunk_loop_grows [where r = r and sc = sc and out = "[]"] scan_done_rest by (simp add: c)
  ultimately show "length out = min SWEEP_CHUNK (scan_rest r sc)" "scan_rest r sc' = scan_rest r sc - length out"
    by (cases "length out < SWEEP_CHUNK"; simp)+
qed

lemma scan_totals_rest:
  "scan_totals r sc a b = (a + (scan_rest r sc + 255) div 256, b + scan_rest r sc)"
proof (induction r sc a b rule: scan_totals.induct)
  case (1 r sc a b)
  obtain sc' out where c: "next_chunk r sc = (sc', out)" by (cases "next_chunk r sc")
  note rest = next_chunk_rest [OF c]
  show ?case
  proof (cases "out = []")
    case True
    with rest(1) have "scan_rest r sc = 0" by (simp add: SWEEP_CHUNK_def)
    with True c show ?thesis by (simp add: scan_totals.simps [of r sc])
  next
    case False
    have "(scan_rest r sc + 255) div 256 = Suc ((scan_rest r sc' + 255) div 256)"
    proof (cases "scan_rest r sc \<le> 256")
      case True
      then have "length out = scan_rest r sc" using rest(1) by (simp add: SWEEP_CHUNK_def)
      then have "0 < scan_rest r sc" "scan_rest r sc' = 0" using False rest(2) by (cases out; simp)+
      with True show ?thesis by (simp add: div_nat_eqI)
    next
      case False
      then have "scan_rest r sc + 255 = scan_rest r sc' + 255 + 256" using rest by (simp add: SWEEP_CHUNK_def)
      then show ?thesis by (simp only: div_add_self2)
    qed
    with 1 [OF c [symmetric] False] False c rest show ?thesis by (simp add: scan_totals.simps [of r sc])
  qed
qed

text \<open>A scan of the whole region counts the registered nodes and the objects that have a creator.\<close>

lemma new_scan_rest:
  assumes R: "region_rep r Q F"
  shows "scan_rest r (new_scan r) =
    card {x. registered (nodes r x) \<noteq> 0} + card {i. state (slots r i) = SLOT_USED \<and> slot_pid (slots r i) \<noteq> 0}"
proof -
  note b = new_scan_bounds [OF R]
  have n: "next_node (new_scan r) = 0" "next_slot (new_scan r) = 0" by (simp_all add: new_scan_def Let_def)
  have "i \<noteq> 0" if "slot_pid (slots r i) \<noteq> 0" for i using that region_reserved [OF R] by (auto simp: reserved_slot_def)
  with b(2) have "{i. i < slot_hi (new_scan r) \<and> state (slots r i) = SLOT_USED \<and> slot_pid (slots r i) \<noteq> 0} =
      {i. state (slots r i) = SLOT_USED \<and> slot_pid (slots r i) \<noteq> 0}" by blast
  moreover have "{x. x < node_hi (new_scan r) \<and> registered (nodes r x) \<noteq> 0} = {x. registered (nodes r x) \<noteq> 0}" using b(1) by blast
  ultimately show ?thesis by (simp add: scan_rest_def n)
qed

subsection \<open>What the hooks see\<close>

lemma first_registered_list:
  assumes "dseg (nodes r) p c xs NIL" "\<forall>x\<in>set xs. registered (nodes r x) \<noteq> 0"
  shows "first_registered r c 0 = (case xs of [] \<Rightarrow> None | x # _ \<Rightarrow> Some (x, node_pid (nodes r x)))"
  using assms by (cases xs) (simp_all add: first_registered.simps NODE_COUNT_def)

lemma test_first_waiter_run:
  assumes os: "undisturbed os" and R: "region_rep r Q F" and i: "slot r h = Some i"
  shows "test_first_waiter os r h =
    Some (case Q i of [] \<Rightarrow> None | x # _ \<Rightarrow> Some (x, node_pid (nodes r x)), guard_drop (lock_mark os r))"
proof -
  have "state (slots r i) = SLOT_USED" using i by (auto simp: slot_Some_iff)
  with region_used_list [OF R] have "dseg (nodes (lock_mark os r)) NIL (waiter_head (slots r i)) (Q i) NIL" by simp
  moreover have "\<forall>x\<in>set (Q i). registered (nodes (lock_mark os r) x) \<noteq> 0" using pool_member [OF region_pool [OF R]] by simp
  ultimately have "first_registered (lock_mark os r) (waiter_head (slots r i)) 0 =
      (case Q i of [] \<Rightarrow> None | x # _ \<Rightarrow> Some (x, node_pid (nodes r x)))"
    by (simp add: first_registered_list split: list.split)
  with i show ?thesis by (simp add: test_first_waiter_def with_lock_undisturbed [OF os])
qed

lemma on_free_list_iff:
  "fseg (nodes r) c F \<Longrightarrow> length F + unat guard \<le> 8193 \<Longrightarrow> on_free_list r x c guard \<longleftrightarrow> x \<in> set F"
proof (induction F arbitrary: c guard)
  case Nil
  then show ?case by (simp add: on_free_list.simps)
next
  case (Cons y F)
  then have "unat (guard + 1) = unat guard + 1" by (simp add: unat_add_u32)
  with Cons show ?case by (subst on_free_list.simps) (auto simp: NODE_COUNT_def word_le_nat_alt)
qed

lemma free_list_length:
  assumes "region_rep r Q F"
  shows "length F \<le> 8192"
proof -
  have "distinct F" "\<forall>x\<in>set F. x < node_fresh (header r)" "node_fresh (header r) \<le> NODE_COUNT"
    using region_pool [OF assms] unfolding pool_rep_def by blast+
  then have "card (set F) \<le> card {x :: u32. x < node_fresh (header r)}" by (intro card_mono) auto
  also have "\<dots> \<le> unat (node_fresh (header r))" by (rule card_less_word)
  also have "\<dots> \<le> 8192" using \<open>node_fresh (header r) \<le> NODE_COUNT\<close> by (simp add: NODE_COUNT_def word_le_nat_alt)
  finally show ?thesis using \<open>distinct F\<close> by (simp add: distinct_card)
qed

lemma test_sweep_and_inspect_run:
  assumes os: "undisturbed os" and R: "region_rep r Q F"
    and x: "x \<in> set (Q i)" "dead_node os (nodes r x)" "\<not> dead_slot os (slots r i)"
  obtains n r' where "test_sweep_and_inspect_node os r x = Some ((True, True, n), r')" "swept os r Q UNIV UNIV n r'"
proof -
  have R1: "region_rep (lock_mark os r) Q F" using R by simp
  obtain n r' where n: "sweep_dead_locked os (lock_mark os r) = Some (n, r')" "swept os (lock_mark os r) Q UNIV UNIV n r'"
    by (rule sweep_dead_locked_swept [OF R1])
  obtain F' where R': "region_rep r' (lists_left os (lock_mark os r) Q UNIV UNIV) F'" using n(2) by (rule sweptD)
  have f: "x \<in> set F'" by (rule swept_recycled [OF R1 n(2) R' x(1)]) (use x in simp_all)
  have "fseg (nodes r') (node_free_head (header r')) F'" and g: "registered (nodes r' x) = 0"
    using region_pool [OF R'] f unfolding pool_rep_def by blast+
  then have "on_free_list r' x (node_free_head (header r')) 0"
    using on_free_list_iff [of r' _ F' 0 x] free_list_length [OF R'] f by simp
  moreover have "swept os r Q UNIV UNIV n (guard_drop r')"
  proof -
    have "lists_left os (lock_mark os r) = lists_left os r" by (simp add: lists_left_def fun_eq_iff)
    with n(2) show ?thesis by (simp add: swept_def)
  qed
  ultimately show ?thesis
    using n g x(2) by (intro that [of n "guard_drop r'"])
      (simp_all add: test_sweep_and_inspect_node_def with_lock_undisturbed [OF os] dead_node_def)
qed

lemma cache_verdicts_exact: "cache_ok os c \<Longrightarrow> cache_verdicts os c pids = map (pid_alive os) pids"
proof (induction pids arbitrary: c)
  case (Cons pid pids)
  obtain a c1 where "cache_alive os c pid = (a, c1)" by (cases "cache_alive os c pid")
  with cache_alive_ok [OF Cons.prems, of pid] Cons.IH [of c1] show ?case by simp
qed simp

lemma test_pid_cache_exact: "test_pid_cache os pids = map (pid_alive os) pids"
  by (simp add: test_pid_cache_def cache_verdicts_exact)

end
