(* ===== verification/Unit_Tests.thy ===== *)
theory Unit_Tests
  imports Test_Hooks
begin

text \<open>
  The unit tests of \<^verbatim>\<open>lib.rs\<close>: each is a function of the model that runs the calls of the test in
  their order on a region and gives the region that it leaves, or \<open>None\<close> when an assertion fails, an
  unwrapped result is an error, or a call does not return. The tests pass on every region at rest
  with room for their objects, not only on the new one that the test program starts with, and
  they leave the table of objects as they found it. The callers \<open>p 0\<close>, \<open>p 1\<close>, \<open>\<dots>\<close> are what the
  successive calls of a test observe from outside.
\<close>

subsection \<open>The vocabulary of the tests\<close>

definition unwrap :: "Error + 'a \<Rightarrow> 'a option" where
  "unwrap x = (case x of Inl e \<Rightarrow> None | Inr a \<Rightarrow> Some a)"

definition assert_that :: "bool \<Rightarrow> unit option" where
  "assert_that b = (if b then Some () else None)"

fun is_signaled :: "wait_run \<Rightarrow> u32 \<Rightarrow> bool" where
  "is_signaled (Returned (Signaled i dead)) index \<longleftrightarrow> i = index"
| "is_signaled _ index \<longleftrightarrow> False"

definition call_wait_any :: "Caller \<Rightarrow> Region \<Rightarrow> u32 list \<Rightarrow> u32 \<Rightarrow> nat option \<Rightarrow> (wait_run \<times> Region) option" where
  "call_wait_any p r handles owner timeout =
     map_option (\<lambda>(x, t, r'). (x, r'))
       (wait_any (c_os p) (c_envs p) (c_cfg p) (c_debug p) (c_start p) (c_thread p) r handles owner timeout 0)"

definition call_wait_all :: "Caller \<Rightarrow> Region \<Rightarrow> u32 list \<Rightarrow> u32 \<Rightarrow> nat option \<Rightarrow> (wait_run \<times> Region) option" where
  "call_wait_all p r handles owner timeout =
     map_option (\<lambda>(x, t, r'). (x, r'))
       (wait_all (c_os p) (c_envs p) (c_cfg p) (c_debug p) (c_start p) (c_thread p) r handles owner timeout 0)"

text \<open>A duration in nanoseconds.\<close>

definition from_millis :: "nat \<Rightarrow> nat" where "from_millis ms = ms * 1000000"

subsection \<open>The tests on a region at rest\<close>

definition semaphore_basic :: "(nat \<Rightarrow> Caller) \<Rightarrow> Region \<Rightarrow> Region option" where
  "semaphore_basic p r = do {
     (x, r) \<leftarrow> create_semaphore (c_os (p 0)) r 2 5;
     h \<leftarrow> unwrap x;
     (x, r) \<leftarrow> create_semaphore (c_os (p 1)) r 6 5;
     assert_that (isl x);
     (x, r) \<leftarrow> call_wait_any (p 2) r [h] 1 (Some 0);
     assert_that (is_signaled x 0);
     (x, r) \<leftarrow> call_wait_any (p 3) r [h] 1 (Some 0);
     assert_that (is_signaled x 0);
     (x, r) \<leftarrow> call_wait_any (p 4) r [h] 1 (Some (from_millis 10));
     assert_that (x = Returned Timeout);
     (x, r) \<leftarrow> sem_release (c_os (p 5)) r h 3;
     c \<leftarrow> unwrap x;
     assert_that (c = 0);
     v \<leftarrow> unwrap (read_sem r h);
     assert_that (v = (3, 5));
     (x, r) \<leftarrow> sem_release (c_os (p 6)) r h 3;
     assert_that (x = Inl Overflow);
     v \<leftarrow> unwrap (read_sem r h);
     assert_that (v = (3, 5));
     (x, r) \<leftarrow> close (c_os (p 7)) r h;
     assert_that x;
     Some r
   }"

definition handle_zero_is_never_allocated :: "(nat \<Rightarrow> Caller) \<Rightarrow> Region \<Rightarrow> Region option" where
  "handle_zero_is_never_allocated p r = do {
     (x, r) \<leftarrow> create_event (c_os (p 0)) r False False;
     h \<leftarrow> unwrap x;
     assert_that (h AND (push_bit 14 1 - 1) \<noteq> 0);
     (x, r) \<leftarrow> close (c_os (p 1)) r 0;
     assert_that (\<not> x);
     (x, r) \<leftarrow> close (c_os (p 2)) r h;
     assert_that x;
     Some r
   }"

definition mutex_recursion_and_ownership :: "(nat \<Rightarrow> Caller) \<Rightarrow> Region \<Rightarrow> Region option" where
  "mutex_recursion_and_ownership p r = do {
     (x, r) \<leftarrow> create_mutex (c_os (p 0)) r 0 0;
     h \<leftarrow> unwrap x;
     (x, r) \<leftarrow> create_mutex (c_os (p 1)) r 5 0;
     assert_that (x = Inl Invalid);
     (x, r) \<leftarrow> call_wait_any (p 2) r [h] 7 (Some 0);
     assert_that (is_signaled x 0);
     (x, r) \<leftarrow> call_wait_any (p 3) r [h] 7 (Some 0);
     assert_that (is_signaled x 0);
     v \<leftarrow> unwrap (read_mutex r h);
     assert_that (v = (2, 7, False));
     (x, r) \<leftarrow> call_wait_any (p 4) r [h] 8 (Some (from_millis 10));
     assert_that (x = Returned Timeout);
     (x, r) \<leftarrow> mutex_unlock (c_os (p 5)) r h 8;
     assert_that (x = Inl Perm);
     (x, r) \<leftarrow> mutex_unlock (c_os (p 6)) r h 7;
     c \<leftarrow> unwrap x;
     assert_that (c = 2);
     (x, r) \<leftarrow> mutex_unlock (c_os (p 7)) r h 7;
     c \<leftarrow> unwrap x;
     assert_that (c = 1);
     v \<leftarrow> unwrap (read_mutex r h);
     assert_that (v = (0, 0, False));
     (x, r) \<leftarrow> close (c_os (p 8)) r h;
     assert_that x;
     Some r
   }"

definition mutex_abandoned :: "(nat \<Rightarrow> Caller) \<Rightarrow> Region \<Rightarrow> Region option" where
  "mutex_abandoned p r = do {
     (x, r) \<leftarrow> create_mutex (c_os (p 0)) r 0 0;
     h \<leftarrow> unwrap x;
     (x, r) \<leftarrow> call_wait_any (p 1) r [h] 1 (Some 0);
     assert_that (is_signaled x 0);
     (x, r) \<leftarrow> mutex_kill (c_os (p 2)) r h 2;
     assert_that (x = Inl Perm);
     (x, r) \<leftarrow> mutex_kill (c_os (p 3)) r h 1;
     unwrap x;
     v \<leftarrow> unwrap (read_mutex r h);
     assert_that (v = (0, 0, True));
     (x, r) \<leftarrow> call_wait_any (p 4) r [h] 2 (Some 0);
     assert_that (case x of Returned (Signaled index owner_dead) \<Rightarrow> index = 0 \<and> owner_dead | _ \<Rightarrow> False);
     v \<leftarrow> unwrap (read_mutex r h);
     assert_that (v = (1, 2, False));
     (x, r) \<leftarrow> close (c_os (p 5)) r h;
     assert_that x;
     Some r
   }"

definition event_auto_and_manual_reset :: "(nat \<Rightarrow> Caller) \<Rightarrow> Region \<Rightarrow> Region option" where
  "event_auto_and_manual_reset p r = do {
     (x, r) \<leftarrow> create_event (c_os (p 0)) r False True;
     auto \<leftarrow> unwrap x;
     (x, r) \<leftarrow> call_wait_any (p 1) r [auto] 1 (Some 0);
     assert_that (is_signaled x 0);
     v \<leftarrow> unwrap (read_event r auto);
     assert_that (\<not> snd v);
     (x, r) \<leftarrow> create_event (c_os (p 2)) r True True;
     manual \<leftarrow> unwrap x;
     (x, r) \<leftarrow> call_wait_any (p 3) r [manual] 1 (Some 0);
     assert_that (is_signaled x 0);
     (x, r) \<leftarrow> call_wait_any (p 4) r [manual] 1 (Some 0);
     assert_that (is_signaled x 0);
     (x, r) \<leftarrow> event_reset (c_os (p 5)) r manual;
     unwrap x;
     (x, r) \<leftarrow> call_wait_any (p 6) r [manual] 1 (Some (from_millis 10));
     assert_that (x = Returned Timeout);
     (x, r) \<leftarrow> close (c_os (p 7)) r auto;
     assert_that x;
     (x, r) \<leftarrow> close (c_os (p 8)) r manual;
     assert_that x;
     Some r
   }"

definition wait_all_semantics :: "(nat \<Rightarrow> Caller) \<Rightarrow> Region \<Rightarrow> Region option" where
  "wait_all_semantics p r = do {
     (x, r) \<leftarrow> create_semaphore (c_os (p 0)) r 1 1;
     sem \<leftarrow> unwrap x;
     (x, r) \<leftarrow> create_event (c_os (p 1)) r True False;
     ev \<leftarrow> unwrap x;
     (x, r) \<leftarrow> call_wait_all (p 2) r [sem, ev] 1 (Some (from_millis 10));
     assert_that (x = Returned Timeout);
     (x, r) \<leftarrow> event_set (c_os (p 3)) r ev;
     unwrap x;
     (x, r) \<leftarrow> call_wait_all (p 4) r [sem, ev] 1 (Some 0);
     assert_that (is_signaled x 0);
     v \<leftarrow> unwrap (read_sem r sem);
     assert_that (v = (0, 1));
     v \<leftarrow> unwrap (read_event r ev);
     assert_that (snd v);
     (x, r) \<leftarrow> close (c_os (p 5)) r sem;
     assert_that x;
     (x, r) \<leftarrow> close (c_os (p 6)) r ev;
     assert_that x;
     Some r
   }"

definition wait_any_index_selection :: "(nat \<Rightarrow> Caller) \<Rightarrow> Region \<Rightarrow> Region option" where
  "wait_any_index_selection p r = do {
     (x, r) \<leftarrow> create_semaphore (c_os (p 0)) r 0 1;
     s1 \<leftarrow> unwrap x;
     (x, r) \<leftarrow> create_semaphore (c_os (p 1)) r 1 1;
     s2 \<leftarrow> unwrap x;
     (x, r) \<leftarrow> call_wait_any (p 2) r [s1, s2] 1 (Some 0);
     assert_that (is_signaled x 1);
     (x, r) \<leftarrow> close (c_os (p 3)) r s1;
     assert_that x;
     (x, r) \<leftarrow> close (c_os (p 4)) r s2;
     assert_that x;
     Some r
   }"

definition invalid_handles :: "(nat \<Rightarrow> Caller) \<Rightarrow> Region \<Rightarrow> Region option" where
  "invalid_handles p r = do {
     (x, r) \<leftarrow> call_wait_any (p 0) r [0xDEADBEEF] 1 (Some 0);
     assert_that (x = Returned InvalidWait);
     (x, r) \<leftarrow> call_wait_any (p 1) r [] 1 None;
     assert_that (x = Returned InvalidWait);
     (x, r) \<leftarrow> call_wait_any (p 2) r [1] 0 None;
     assert_that (x = Returned InvalidWait);
     (x, r) \<leftarrow> sem_release (c_os (p 3)) r 0xDEADBEEF 1;
     assert_that (x = Inl Invalid);
     (x, r) \<leftarrow> event_set (c_os (p 4)) r 0xDEADBEEF;
     assert_that (x = Inl Invalid);
     (x, r) \<leftarrow> close (c_os (p 5)) r 0xDEADBEEF;
     assert_that (\<not> x);
     Some r
   }"

definition sweep_dead_frees_orphans :: "(nat \<Rightarrow> Caller) \<Rightarrow> Region \<Rightarrow> Region option" where
  "sweep_dead_frees_orphans p r = do {
     (x, r) \<leftarrow> create_event (c_os (p 0)) r False False;
     h \<leftarrow> unwrap x;
     (x, r) \<leftarrow> sweep_dead (c_os (p 1)) r;
     n \<leftarrow> unwrap x;
     assert_that (n = 0);
     assert_that (\<not> isl (read_event r h));
     (x, r) \<leftarrow> close (c_os (p 2)) r h;
     assert_that x;
     Some r
   }"

definition reap_frees_dead_owner_slot :: "(nat \<Rightarrow> Caller) \<Rightarrow> Region \<Rightarrow> Region option" where
  "reap_frees_dead_owner_slot p r = do {
     (x, r) \<leftarrow> create_event (c_os (p 0)) r False False;
     dead \<leftarrow> unwrap x;
     (c, r) \<leftarrow> test_slot_candidate (c_os (p 1)) r dead;
     cand \<leftarrow> c;
     (n, r) \<leftarrow> test_reap_slot_candidate (c_os (p 2)) r cand False;
     assert_that (n = 1);
     assert_that (isl (read_event r dead));
     (x, r) \<leftarrow> create_event (c_os (p 3)) r False False;
     live \<leftarrow> unwrap x;
     (c, r) \<leftarrow> test_slot_candidate (c_os (p 4)) r live;
     cand \<leftarrow> c;
     (n, r) \<leftarrow> test_reap_slot_candidate (c_os (p 5)) r cand True;
     assert_that (n = 0);
     assert_that (\<not> isl (read_event r live));
     (x, r) \<leftarrow> close (c_os (p 6)) r live;
     assert_that x;
     Some r
   }"

definition pid_cache_keeps_verdicts_straight :: "(nat \<Rightarrow> Caller) \<Rightarrow> Region \<Rightarrow> Region option" where
  "pid_cache_keeps_verdicts_straight p r =
     (let me = getpid (c_os (p 0));
          pids = [me] @ map (\<lambda>i. 900000 + of_nat i) [0..<40] @ [me];
          verdicts = test_pid_cache (c_os (p 2)) pids
      in do {
        assert_that (test_pid_cache (c_os (p 0)) [me, me, me] = [True, True, True]);
        assert_that (test_pid_cache (c_os (p 1)) [0] = [False]);
        assert_that (verdicts ! 0);
        assert_that (\<forall>a\<in>set (drop 1 (take 41 verdicts)). \<not> a);
        assert_that (verdicts ! 41);
        Some r
      })"

definition tail_budget_burst_is_frames_not_seconds :: "(nat \<Rightarrow> Caller) \<Rightarrow> Region \<Rightarrow> Region option" where
  "tail_budget_burst_is_frames_not_seconds p r = do {
     assert_that (test_tail_budget_cap 100000000 = 1000000);
     assert_that (test_tail_budget_cap 150000000 = 1500000);
     assert_that (5 \<le> test_tail_budget_cap 150000000 div 150000);
     assert_that (test_tail_budget_cap 1 = 1);
     assert_that (test_tail_budget_cap 0 = 1);
     Some r
   }"

fun create_events :: "(nat \<Rightarrow> Caller) \<Rightarrow> nat \<Rightarrow> Region \<Rightarrow> (u32 list \<times> Region) option" where
  "create_events p 0 r = Some ([], r)"
| "create_events p (Suc k) r = do {
     (x, r) \<leftarrow> create_event (c_os (p k)) r False False;
     h \<leftarrow> unwrap x;
     (hs, r) \<leftarrow> create_events p k r;
     Some (h # hs, r)
   }"

fun close_events :: "(nat \<Rightarrow> Caller) \<Rightarrow> u32 list \<Rightarrow> Region \<Rightarrow> Region option" where
  "close_events p [] r = Some r"
| "close_events p (h # hs) r = do {
     (x, r) \<leftarrow> close (c_os (p (length hs))) r h;
     assert_that x;
     close_events p hs r
   }"

definition sweep_scan_chunks_the_table :: "(nat \<Rightarrow> Caller) \<Rightarrow> Region \<Rightarrow> Region option" where
  "sweep_scan_chunks_the_table p r = do {
     (handles, r) \<leftarrow> create_events p 300 r;
     (n, r) \<leftarrow> test_scan_candidates (c_os (p 300)) r;
     assert_that (2 \<le> fst n);
     assert_that (300 \<le> snd n);
     close_events (\<lambda>k. p (301 + k)) handles r
   }"

subsection \<open>Running a test on the machine\<close>

text \<open>
  \<open>passes n t m t' f\<close>: from every region at rest with the table \<open>t\<close>, the rest \<open>f\<close> of a test ends well and
  leaves a region at rest with the table \<open>t'\<close>. As the calls implement the NT machine, a test is
  executed on tables: each rule below replaces a call by its step of the machine.
\<close>

definition passes :: "nat \<Rightarrow> nt_table \<Rightarrow> nat \<Rightarrow> nt_table \<Rightarrow> (Region \<Rightarrow> Region option) \<Rightarrow> bool" where
  "passes n t m t' f \<longleftrightarrow> (\<forall>r. settled n r \<and> nt_table r = t \<longrightarrow> (\<exists>r'. f r = Some r' \<and> settled m r' \<and> nt_table r' = t'))"

named_theorems pass_rules \<open>one step of a test on the machine\<close>

lemma passesD:
  assumes "passes n t m t' f" "settled n r" "nt_table r = t"
  obtains r' where "f r = Some r'" "settled m r'" "nt_table r' = t'"
  using assms unfolding passes_def by blast

lemma passes_done [pass_rules]: "(\<And>h. t h = t' h) \<Longrightarrow> passes n t n t' Some"
  by (auto simp: passes_def)

lemma bind_unwrap [simp]: "Option.bind (unwrap (Inr a)) k = k a" "Option.bind (unwrap (Inl e)) k = None"
  by (simp_all add: unwrap_def)

lemma bind_assert [simp]: "Option.bind (assert_that b) k = (if b then k () else None)"
  by (simp add: assert_that_def)

lemma nt_step_exec:
  assumes "nt_step c t res t'"
  obtains new where "nt_exec new c t = (res, t')" "res = Handle new \<longrightarrow> t new = None \<and> new AND INDEX_MASK \<noteq> 0"
  using assms by (auto elim: nt_step.cases)

fun as_count :: "nt_result \<Rightarrow> Error + u32" where
  "as_count (Count c) = Inr c" | "as_count (Fail e) = Inl e" | "as_count _ = Inl Invalid"

fun as_unit :: "nt_result \<Rightarrow> Error + unit" where
  "as_unit (Fail e) = Inl e" | "as_unit _ = Inr ()"

fun as_wait :: "nt_result \<Rightarrow> wait_run" where
  "as_wait (Waited x) = x" | "as_wait _ = Panicked"

lemma as_outcome [simp]: "as_count (outcome Count x) = x" "as_unit (outcome (\<lambda>_. Done) y) = y"
  by (simp_all add: outcome_def split: sum.split)

lemma passes_call:
  assumes i: "\<And>r. settled n r \<Longrightarrow> implements p n' c r" and c: "\<And>r. run_call p c r = answered ok (op r)"
    and k: "\<And>x t1. nt_step c t (outcome ok x) t1 \<Longrightarrow> passes n' t1 m t' (K x)"
  shows "passes n t m t' (\<lambda>r. Option.bind (op r) (case_prod K))"
  unfolding passes_def
proof (intro allI impI, elim conjE)
  fix r assume s: "settled n r" and t: "nt_table r = t"
  obtain res r1 where r1: "run_call p c r = Some (res, r1)" "settled n' r1" "nt_step c t res (nt_table r1)"
    using i [OF s] t unfolding implements_def by blast
  obtain x where x: "op r = Some (x, r1)" "res = outcome ok x" using r1(1) unfolding c by (auto simp: answered_def)
  from k [of x "nt_table r1"] r1(3) x(2) have "passes n' (nt_table r1) m t' (K x)" by simp
  then obtain r' where "K x r1 = Some r'" "settled m r'" "nt_table r' = t'" using r1(2) by (rule passesD) simp
  with x show "\<exists>r'. Option.bind (op r) (case_prod K) = Some r' \<and> settled m r' \<and> nt_table r' = t'" by simp
qed

lemma passes_create:
  assumes i: "\<And>r. settled n r \<Longrightarrow> implements p n c r" and c: "\<And>r. run_call p c r = answered Handle (op r)"
    and e: "\<And>new. nt_exec new c t = (if bad then (Fail Invalid, t) else nt_create new ob t)"
    and k: "bad \<Longrightarrow> passes n t m t' (K (Inl Invalid))" "\<not> bad \<Longrightarrow> card (dom t) < 16383"
      "\<And>h. \<not> bad \<Longrightarrow> t h = None \<Longrightarrow> h AND INDEX_MASK \<noteq> 0 \<Longrightarrow> h \<noteq> 0 \<Longrightarrow> passes n (t(h \<mapsto> ob)) m t' (K (Inr h))"
  shows "passes n t m t' (\<lambda>r. Option.bind (op r) (case_prod K))"
proof (rule passes_call [OF i c])
  fix x t1 assume "nt_step c t (outcome Handle x) t1"
  then obtain new where x: "nt_exec new c t = (outcome Handle x, t1)"
    "outcome Handle x = Handle new \<longrightarrow> t new = None \<and> new AND INDEX_MASK \<noteq> 0" by (rule nt_step_exec)
  show "passes n t1 m t' (K x)"
  proof (cases bad)
    case True
    with x(1) e k(1) show ?thesis by (cases x) (auto simp: outcome_def)
  next
    case False
    moreover have "new AND INDEX_MASK \<noteq> 0 \<Longrightarrow> new \<noteq> 0" by auto
    ultimately show ?thesis using x k(2) k(3) [of new] e by (cases x) (auto simp: outcome_def nt_create_def)
  qed
qed

lemma passes_create_semaphore [pass_rules]:
  assumes "peaceful p" "limit < c \<Longrightarrow> passes n t m t' (K (Inl Invalid))" "\<not> limit < c \<Longrightarrow> card (dom t) < 16383"
    "\<And>h. \<not> limit < c \<Longrightarrow> t h = None \<Longrightarrow> h AND INDEX_MASK \<noteq> 0 \<Longrightarrow> h \<noteq> 0 \<Longrightarrow>
       passes n (t(h \<mapsto> NtSem (unat c) (unat limit))) m t' (K (Inr h))"
  shows "passes n t m t' (\<lambda>r. Option.bind (create_semaphore (c_os p) r c limit) (case_prod K))"
  by (rule passes_create [OF create_implements(1) [OF assms(1)] _ _ assms(2-4)]) (simp_all add: run_call_def nt_exec_def)

lemma passes_create_mutex [pass_rules]:
  assumes "peaceful p" "(owner = 0) \<noteq> (c = 0) \<or> 0x7fffffff < c \<Longrightarrow> passes n t m t' (K (Inl Invalid))"
    "\<not> ((owner = 0) \<noteq> (c = 0) \<or> 0x7fffffff < c) \<Longrightarrow> card (dom t) < 16383"
    "\<And>h. \<not> ((owner = 0) \<noteq> (c = 0) \<or> 0x7fffffff < c) \<Longrightarrow> t h = None \<Longrightarrow> h AND INDEX_MASK \<noteq> 0 \<Longrightarrow> h \<noteq> 0 \<Longrightarrow>
       passes n (t(h \<mapsto> NtMutex (if owner = 0 then None else Some owner) (unat c) False)) m t' (K (Inr h))"
  shows "passes n t m t' (\<lambda>r. Option.bind (create_mutex (c_os p) r owner c) (case_prod K))"
  by (rule passes_create [OF create_implements(2) [OF assms(1)] _ _ assms(2-4)]) (auto simp: run_call_def nt_exec_def)

lemma passes_create_event [pass_rules]:
  assumes "peaceful p" "card (dom t) < 16383"
    "\<And>h. t h = None \<Longrightarrow> h AND INDEX_MASK \<noteq> 0 \<Longrightarrow> h \<noteq> 0 \<Longrightarrow> passes n (t(h \<mapsto> NtEvent man sig)) m t' (K (Inr h))"
  shows "passes n t m t' (\<lambda>r. Option.bind (create_event (c_os p) r man sig) (case_prod K))"
  by (rule passes_create [OF create_implements(3) [OF assms(1)], where bad = False and ob = "NtEvent man sig"])
    (use assms in \<open>simp_all add: run_call_def nt_exec_def\<close>)

text \<open>A call with one outcome for each table.\<close>

lemma passes_exec:
  assumes i: "\<And>r. settled n r \<Longrightarrow> implements p n' c r" and c: "\<And>r. run_call p c r = answered ok (op r)"
    and d: "\<And>new. nt_exec new c t = nt_exec 0 c t" and a: "\<And>x. res (outcome ok x) = x"
    and k: "passes n' (snd (nt_exec 0 c t)) m t' (K (res (fst (nt_exec 0 c t))))"
  shows "passes n t m t' (\<lambda>r. Option.bind (op r) (case_prod K))"
proof (rule passes_call [OF i c])
  fix x t1 assume "nt_step c t (outcome ok x) t1"
  then obtain new where "nt_exec new c t = (outcome ok x, t1)" by (rule nt_step_exec)
  then have "nt_exec 0 c t = (outcome ok x, t1)" using d [of new] by simp
  with k a [of x] show "passes n' t1 m t' (K x)" by simp
qed

lemma passes_sem_release [pass_rules]:
  assumes "peaceful p" "passes n (snd (nt_exec 0 (SemRelease h c) t)) m t' (K (as_count (fst (nt_exec 0 (SemRelease h c) t))))"
  shows "passes n t m t' (\<lambda>r. Option.bind (sem_release (c_os p) r h c) (case_prod K))"
  by (rule passes_exec [where c = "SemRelease h c" and res = as_count and ok = Count and K = K and t = t, OF sem_release_implements [OF assms(1)] _ _ _ assms(2)])
    (simp_all add: run_call_def nt_exec_def)

lemma passes_mutex_unlock [pass_rules]:
  assumes "peaceful p" "passes n (snd (nt_exec 0 (MutexUnlock h me) t)) m t' (K (as_count (fst (nt_exec 0 (MutexUnlock h me) t))))"
  shows "passes n t m t' (\<lambda>r. Option.bind (mutex_unlock (c_os p) r h me) (case_prod K))"
  by (rule passes_exec [where c = "MutexUnlock h me" and res = as_count and ok = Count and K = K and t = t, OF mutex_unlock_implements [OF assms(1)] _ _ _ assms(2)])
    (simp_all add: run_call_def nt_exec_def)

lemma passes_mutex_kill [pass_rules]:
  assumes "peaceful p" "passes n (snd (nt_exec 0 (MutexKill h me) t)) m t' (K (as_unit (fst (nt_exec 0 (MutexKill h me) t))))"
  shows "passes n t m t' (\<lambda>r. Option.bind (mutex_kill (c_os p) r h me) (case_prod K))"
  by (rule passes_exec [where c = "MutexKill h me" and res = as_unit and ok = "\<lambda>_. Done" and K = K and t = t, OF mutex_kill_implements [OF assms(1)] _ _ _ assms(2)])
    (simp_all add: run_call_def nt_exec_def)

lemma passes_event_set [pass_rules]:
  assumes "calm p" "passes n (snd (nt_exec 0 (EventSet h) t)) m t' (K (as_count (fst (nt_exec 0 (EventSet h) t))))"
  shows "passes n t m t' (\<lambda>r. Option.bind (event_set (c_os p) r h) (case_prod K))"
  by (rule passes_exec [where c = "EventSet h" and res = as_count and ok = Count and K = K and t = t, OF event_set_implements [OF assms(1)] _ _ _ assms(2)])
    (simp_all add: run_call_def nt_exec_def)

lemma passes_event_reset [pass_rules]:
  assumes "peaceful p" "passes n (snd (nt_exec 0 (EventReset h) t)) m t' (K (as_count (fst (nt_exec 0 (EventReset h) t))))"
  shows "passes n t m t' (\<lambda>r. Option.bind (event_reset (c_os p) r h) (case_prod K))"
  by (rule passes_exec [where c = "EventReset h" and res = as_count and ok = Count and K = K and t = t, OF event_reset_implements [OF assms(1)] _ _ _ assms(2)])
    (simp_all add: run_call_def nt_exec_def)

lemma passes_sweep_dead [pass_rules]:
  assumes "peaceful p" "passes n t m t' (K (Inr 0))"
  shows "passes n t m t' (\<lambda>r. Option.bind (sweep_dead (c_os p) r) (case_prod K))"
  by (rule passes_exec [OF sweep_implements [OF assms(1)], where res = as_count and ok = Count]) (use assms(2) in \<open>simp_all add: run_call_def nt_exec_def\<close>)

lemma passes_close [pass_rules]:
  assumes "calm p" "passes n (t(h := None)) m t' (K (t h \<noteq> None))"
  shows "passes (Suc n) t m t' (\<lambda>r. Option.bind (close (c_os p) r h) (case_prod K))"
  unfolding passes_def
proof (intro allI impI, elim conjE)
  fix r assume s: "settled (Suc n) r" and t: "nt_table r = t"
  obtain res r1 where r1: "run_call p (Close h) r = Some (res, r1)" "settled n r1" "nt_step (Close h) t res (nt_table r1)"
    using close_implements [OF assms(1) s] t unfolding implements_def by blast
  from r1(3) have e: "res = Closed (t h \<noteq> None)" "nt_table r1 = t(h := None)"
    by (auto elim!: nt_step_exec simp: nt_exec_def)
  with r1(1) have "close (c_os p) r h = Some (t h \<noteq> None, r1)" by (auto simp: run_call_def)
  moreover obtain r' where "K (t h \<noteq> None) r1 = Some r'" "settled m r'" "nt_table r' = t'" using assms(2) r1(2) e(2) by (rule passesD)
  ultimately show "\<exists>r'. Option.bind (close (c_os p) r h) (case_prod K) = Some r' \<and> settled m r' \<and> nt_table r' = t'" by simp
qed

lemma passes_wait:
  assumes "peaceful p" "\<not> nt_blocks (Wait hs me timeout wall) t"
    and "passes n (snd (nt_wait_call hs me wall t)) m t' (K (as_wait (fst (nt_wait_call hs me wall t))))"
  shows "passes n t m t' (\<lambda>r. Option.bind (map_option (\<lambda>(x, th, r'). (x, r'))
    (wait (c_os p) (c_envs p) (c_cfg p) (c_debug p) (c_start p) (c_thread p) r hs me timeout wall 0)) (case_prod K))"
  unfolding passes_def
proof (intro allI impI, elim conjE)
  fix r assume s: "settled n r" and t: "nt_table r = t"
  let ?w = "wait (c_os p) (c_envs p) (c_cfg p) (c_debug p) (c_start p) (c_thread p) r hs me timeout wall 0"
  obtain res r1 where r1: "run_call p (Wait hs me timeout wall) r = Some (res, r1)" "settled n r1"
    "nt_step (Wait hs me timeout wall) t res (nt_table r1)"
    using wait_implements [OF assms(1) s] assms(2) t unfolding implements_def by blast
  from r1(3) have e: "nt_wait_call hs me wall t = (res, nt_table r1)"
    by (auto elim!: nt_step_exec simp: nt_exec_def)
  from r1(1) obtain x th where x: "?w = Some (x, th, r1)" "res = Waited x" by (auto simp: run_call_def)
  obtain r' where "K x r1 = Some r'" "settled m r'" "nt_table r' = t'"
    using assms(3) r1(2) by (rule passesD) (simp_all add: e x(2))
  with x(1) show "\<exists>r'. Option.bind (map_option (\<lambda>(x, th, r'). (x, r')) ?w) (case_prod K) = Some r' \<and> settled m r' \<and> nt_table r' = t'"
    by simp
qed

lemma passes_wait_any [pass_rules]:
  assumes "peaceful p" "\<not> nt_blocks (Wait hs me timeout False) t"
    and "passes n (snd (nt_wait_call hs me False t)) m t' (K (as_wait (fst (nt_wait_call hs me False t))))"
  shows "passes n t m t' (\<lambda>r. Option.bind (call_wait_any p r hs me timeout) (case_prod K))"
  unfolding call_wait_any_def wait_any_def by (rule passes_wait [where K = K, OF assms])

lemma passes_wait_all [pass_rules]:
  assumes "peaceful p" "\<not> nt_blocks (Wait hs me timeout True) t"
    and "passes n (snd (nt_wait_call hs me True t)) m t' (K (as_wait (fst (nt_wait_call hs me True t))))"
  shows "passes n t m t' (\<lambda>r. Option.bind (call_wait_all p r hs me timeout) (case_prod K))"
  unfolding call_wait_all_def wait_all_def by (rule passes_wait [where K = K, OF assms])

text \<open>Reads look at the table only.\<close>

lemma read_table:
  assumes "settled n r"
  shows "nt_table r h = Some (NtSem c l) \<Longrightarrow> read_sem r h = Inr (of_nat c, of_nat l)"
    and "nt_table r h = Some (NtMutex w c d) \<Longrightarrow> read_mutex r h = Inr (of_nat c, case w of None \<Rightarrow> 0 | Some me \<Rightarrow> me, d)"
    and "nt_table r h = Some (NtEvent man sg) \<Longrightarrow> read_event r h = Inr (man, sg)"
proof -
  note i = read_implements [OF assms, where h = h, unfolded implements_def run_call_def Let_def nt_call.case]
  show "read_sem r h = Inr (of_nat c, of_nat l)" if "nt_table r h = Some (NtSem c l)"
    using i(1) that by (cases "read_sem r h") (auto simp: outcome_def nt_exec_def elim!: nt_step_exec)
  show "read_mutex r h = Inr (of_nat c, case w of None \<Rightarrow> 0 | Some me \<Rightarrow> me, d)" if "nt_table r h = Some (NtMutex w c d)"
    using i(2) that by (cases "read_mutex r h") (auto simp: outcome_def nt_exec_def elim!: nt_step_exec)
  show "read_event r h = Inr (man, sg)" if "nt_table r h = Some (NtEvent man sg)"
    using i(3) that by (cases "read_event r h") (auto simp: outcome_def nt_exec_def elim!: nt_step_exec)
qed

lemma passes_read:
  assumes "\<And>r. settled n r \<Longrightarrow> nt_table r = t \<Longrightarrow> rd r = Inr v" "passes n t m t' (K v)"
  shows "passes n t m t' (\<lambda>r. Option.bind (unwrap (rd r)) (\<lambda>v. K v r))"
  using assms by (simp add: passes_def)

lemma passes_read_sem [pass_rules]:
  assumes "case t h of Some (NtSem c l) \<Rightarrow> passes n t m t' (K (of_nat c, of_nat l)) | _ \<Rightarrow> False"
  shows "passes n t m t' (\<lambda>r. Option.bind (unwrap (read_sem r h)) (\<lambda>v. K v r))"
  using assms read_table(1) by (auto intro!: passes_read split: option.splits nt_object.splits)

lemma passes_read_mutex [pass_rules]:
  assumes "case t h of Some (NtMutex w c d) \<Rightarrow> passes n t m t' (K (of_nat c, case w of None \<Rightarrow> 0 | Some me \<Rightarrow> me, d)) | _ \<Rightarrow> False"
  shows "passes n t m t' (\<lambda>r. Option.bind (unwrap (read_mutex r h)) (\<lambda>v. K v r))"
  using assms read_table(2) by (auto intro!: passes_read split: option.splits nt_object.splits)

lemma passes_read_event [pass_rules]:
  assumes "case t h of Some (NtEvent man sg) \<Rightarrow> passes n t m t' (K (man, sg)) | _ \<Rightarrow> False"
  shows "passes n t m t' (\<lambda>r. Option.bind (unwrap (read_event r h)) (\<lambda>v. K v r))"
  using assms read_table(3) by (auto intro!: passes_read split: option.splits nt_object.splits)

lemma passes_readable_event [pass_rules]:
  assumes "case t h of Some (NtEvent man sg) \<Rightarrow> passes n t m t' K | _ \<Rightarrow> False"
  shows "passes n t m t' (\<lambda>r. if \<not> isl (read_event r h) then K r else None)"
  using assms read_table(3) by (auto simp: passes_def split: option.splits nt_object.splits)

text \<open>Waits on one and on two objects.\<close>

lemma wait_one:
  "me \<noteq> 0 \<Longrightarrow> nt_wait_call [h] me wall t = (case t h of
     None \<Rightarrow> (Waited (Returned InvalidWait), t)
   | Some ob \<Rightarrow> (case nt_acquire me ob of
       None \<Rightarrow> (Waited (Returned Timeout), t)
     | Some (d, ob') \<Rightarrow> (Waited (Returned (Signaled 0 d)), t(h \<mapsto> ob'))))"
  by (auto simp: nt_wait_call_def nt_acquirable_def MAX_WAIT_COUNT_def fun_eq_iff split: option.split)

lemma wait_all_two:
  "me \<noteq> 0 \<Longrightarrow> a \<noteq> b \<Longrightarrow> t a = Some oa \<Longrightarrow> t b = Some ob \<Longrightarrow> nt_wait_call [a, b] me True t =
     (case nt_acquire me oa of
        None \<Rightarrow> (Waited (Returned Timeout), t)
      | Some (da, oa') \<Rightarrow>
          (case nt_acquire me ob of
             None \<Rightarrow> (Waited (Returned Timeout), t)
           | Some (db, ob') \<Rightarrow> (Waited (Returned (Signaled 0 (da \<or> db))), t(a \<mapsto> oa', b \<mapsto> ob'))))"
  by (auto simp: nt_wait_call_def nt_acquirable_def MAX_WAIT_COUNT_def fun_eq_iff split: option.split)

lemma wait_any_two:
  "me \<noteq> 0 \<Longrightarrow> a \<noteq> b \<Longrightarrow> t a = Some oa \<Longrightarrow> t b = Some ob \<Longrightarrow> nt_wait_call [a, b] me False t =
     (case nt_acquire me oa of
        Some (d, oa') \<Rightarrow> (Waited (Returned (Signaled 0 d)), t(a \<mapsto> oa'))
      | None \<Rightarrow>
          (case nt_acquire me ob of
             None \<Rightarrow> (Waited (Returned Timeout), t)
           | Some (d, ob') \<Rightarrow> (Waited (Returned (Signaled 1 d)), t(b \<mapsto> ob'))))"
  by (auto simp: nt_wait_call_def nt_acquirable_def MAX_WAIT_COUNT_def numeral_2_eq_2 split: option.split)

lemma wait_bad: "nt_wait_call [] me wall t = (Waited (Returned InvalidWait), t)"
  "nt_wait_call hs 0 wall t = (Waited (Returned InvalidWait), t)"
  by (simp_all add: nt_wait_call_def)

lemma never_blocks [simp]: "\<not> nt_blocks (Wait hs me (Some d) wall) t"
  by (simp add: nt_blocks_def)

lemma bad_never_blocks [simp]: "\<not> nt_blocks (Wait [] me d wall) t" "\<not> nt_blocks (Wait hs 0 d wall) t"
  by (simp_all add: nt_blocks_def nt_wait_call_def)

lemma card_dom_insert [simp]: "t h = None \<Longrightarrow> card (insert h (dom t)) = Suc (card (dom t))" for t :: nt_table
  by (simp add: domIff)

lemmas pass_simps = wait_one wait_all_two wait_any_two wait_bad nt_exec_def as_count.simps from_millis_def

lemma semaphore_basic_passes:
  assumes "\<forall>k. peaceful (p k)" "card (dom t) < 16383"
  shows "passes (Suc n) t n t (semaphore_basic p)"
  unfolding semaphore_basic_def using assms by - (rule pass_rules; simp add: pass_simps split: if_split_asm)+

lemma handle_zero_is_never_allocated_passes:
  assumes "\<forall>k. peaceful (p k)" "card (dom t) < 16383" "t 0 = None"
  shows "passes (Suc (Suc n)) t n t (handle_zero_is_never_allocated p)"
  unfolding handle_zero_is_never_allocated_def using assms by - (rule pass_rules; simp add: pass_simps INDEX_MASK_num split: if_split_asm)+

lemma mutex_recursion_and_ownership_passes:
  assumes "\<forall>k. peaceful (p k)" "card (dom t) < 16383"
  shows "passes (Suc n) t n t (mutex_recursion_and_ownership p)"
  unfolding mutex_recursion_and_ownership_def using assms by - (rule pass_rules; simp add: pass_simps split: if_split_asm)+

lemma mutex_abandoned_passes:
  assumes "\<forall>k. peaceful (p k)" "card (dom t) < 16383"
  shows "passes (Suc n) t n t (mutex_abandoned p)"
  unfolding mutex_abandoned_def using assms by - (rule pass_rules; simp add: pass_simps split: if_split_asm)+

lemma event_auto_and_manual_reset_passes:
  assumes "\<forall>k. peaceful (p k)" "card (dom t) < 16382"
  shows "passes (Suc (Suc n)) t n t (event_auto_and_manual_reset p)"
  unfolding event_auto_and_manual_reset_def using assms by - (rule pass_rules; simp add: pass_simps split: if_split_asm)+

lemma wait_all_semantics_passes:
  assumes "\<forall>k. peaceful (p k)" "card (dom t) < 16382"
  shows "passes (Suc (Suc n)) t n t (wait_all_semantics p)"
  unfolding wait_all_semantics_def using assms by - (rule pass_rules; simp add: pass_simps split: if_split_asm)+

lemma wait_any_index_selection_passes:
  assumes "\<forall>k. peaceful (p k)" "card (dom t) < 16382"
  shows "passes (Suc (Suc n)) t n t (wait_any_index_selection p)"
  unfolding wait_any_index_selection_def using assms by - (rule pass_rules; simp add: pass_simps split: if_split_asm)+

lemma invalid_handles_passes:
  assumes "\<forall>k. peaceful (p k)" "t 0xDEADBEEF = None"
  shows "passes (Suc n) t n t (invalid_handles p)"
  unfolding invalid_handles_def using assms by - (rule pass_rules; simp add: pass_simps split: if_split_asm)+

lemma sweep_dead_frees_orphans_passes:
  assumes "\<forall>k. peaceful (p k)" "card (dom t) < 16383"
  shows "passes (Suc n) t n t (sweep_dead_frees_orphans p)"
  unfolding sweep_dead_frees_orphans_def using assms by - (rule pass_rules; simp add: pass_simps split: if_split_asm)+

subsection \<open>Reaping one candidate\<close>

lemma passes_gone_event [pass_rules]:
  assumes "t h = None" "passes n t m t' K"
  shows "passes n t m t' (\<lambda>r. if isl (read_event r h) then K r else None)"
proof -
  have "isl (read_event r h)" if s: "settled n r" and t: "nt_table r = t" for r
  proof -
    have "\<not> (slot r h \<noteq> None \<and> h AND INDEX_MASK \<noteq> 0)" using nt_table_valid [OF s, of h] assms(1) t by simp
    moreover obtain F where "region_rep r (\<lambda>_. []) F" by (rule settled_rep [OF s])
    then have "obj_type (slots r 0) \<noteq> TYPE_EVENT" using region_reserved by (fastforce simp: reserved_slot_def type_consts)
    ultimately show ?thesis by (auto simp: read_event_def slot_of_type_def ok_or_def slot_Some_iff split: option.splits)
  qed
  with assms(2) show ?thesis by (simp add: passes_def)
qed

text \<open>A candidate for a new object, and what reaping it does.\<close>

lemma create_object_published:
  assumes "undisturbed os" "create_object os r ty w = Some (Inr h, r')"
  shows "\<exists>r1. r' = guard_drop (slot_publish os r1 h ty w)"
  using assms by (auto simp: create_object_def with_lock_undisturbed split: option.splits Option.bind_splits prod.splits if_splits)

lemma slot_candidate_run:
  assumes os: "undisturbed os" and i: "slot r h = Some i"
  shows "test_slot_candidate os r h = Some (Some (i, slot_pid (slots r i), generation (slots r i)), guard_drop (lock_mark os r))"
  using i by (auto simp: test_slot_candidate_def with_lock_undisturbed [OF os] slot_Some_iff)

lemma reap_candidate_run:
  assumes os: "undisturbed os" and s: "settled (Suc n) r" and i: "slot r h = Some i" "i \<noteq> 0"
    and u: "holders_len (slots r i) = 0" "holders (slots r i) = replicate MAX_HOLDERS 0"
  obtains r' where "test_reap_slot_candidate os r (i, slot_pid (slots r i), generation (slots r i)) False = Some (1, r')"
    "settled n r'" "nt_table r' = (nt_table r)(h := None)"
proof -
  let ?m = "lock_mark os r"
  obtain F where R: "region_rep r (\<lambda>_. []) F" and f: "\<forall>x. \<not> node_held r F x" by (rule settled_rep [OF s])
  have R1: "region_rep ?m (\<lambda>_. []) F" using R by simp
  have st: "state (slots ?m i) = SLOT_USED" using i by (auto simp: slot_Some_iff)
  obtain r1 where r1: "wake_object os (free_slot ?m i) i = Some r1" "region_rep r1 ((\<lambda>_. [])(i := [])) F"
    "woken (free_slot ?m i) [] r1"
    by (rule free_slot_wake [OF R1 st i(2)])
  have b: "bare r1 = bare (free_slot ?m i)" and c: "core r1 = core ?m" using r1(3) by (simp_all add: woken_def core_def)
  have R2: "region_rep (guard_drop r1) (\<lambda>_. []) F" using r1(2) by (simp add: fun_upd_idem)
  have nf: "node_fresh (header (guard_drop r1)) = node_fresh (header r)" using coreD(2) [OF c] by simp
  have v: "vacant (guard_drop r1)" by (rule vacant_same [OF R2 f nf])
  note e = bareD [OF b]
  have "settled n (guard_drop r1)" "nt_table (guard_drop r1) = (nt_table r)(h := None)"
    using freed_settled [OF s i(1) v] e [of i] b by (simp_all add: bare_def)
  moreover have "test_reap_slot_candidate os r (i, slot_pid (slots r i), generation (slots r i)) False = Some (1, guard_drop r1)"
    using st u r1(1) by (simp add: with_lock_undisturbed [OF os] reap_one_def Let_def)
  ultimately show ?thesis by (rule that [rotated])
qed

lemma create_event_candidate:
  assumes p: "peaceful p" "peaceful p1" and s: "settled n r" and room: "card (dom (nt_table r)) < 16383"
  obtains h r1 r2 i where "create_event (c_os p) r man sig = Some (Inr h, r1)"
    "test_slot_candidate (c_os p1) r1 h = Some (Some (i, slot_pid (slots r2 i), generation (slots r2 i)), r2)"
    "nt_table r h = None" "slot r2 h = Some i" "i \<noteq> 0" "settled n r2" "nt_table r2 = (nt_table r)(h \<mapsto> NtEvent man sig)"
    "holders_len (slots r2 i) = 0" "holders (slots r2 i) = replicate MAX_HOLDERS 0"
proof -
  have w: "word_ok TYPE_EVENT (pack_event sig man)" "waitable TYPE_EVENT" by (rule event_word_ok) (simp add: waitable_def)
  obtain res r1 where c: "create_object (c_os p) r TYPE_EVENT (pack_event sig man) = Some (res, r1)" "settled n r1"
    "if card (dom (nt_table r)) < 16383
     then (\<exists>h. res = Inr h \<and> nt_table r h = None \<and> h AND INDEX_MASK \<noteq> 0 \<and>
       nt_table r1 = (nt_table r)(h := abs_object (zero_slot\<lparr>obj_type := TYPE_EVENT, w0 := pack_event sig man\<rparr>)))
     else res = Inl (Init ENOMEM) \<and> nt_table r1 = nt_table r"
    by (rule create_settled [OF p(1) s w])
  have ob: "abs_object (zero_slot\<lparr>obj_type := TYPE_EVENT, w0 := pack_event sig man\<rparr>) = Some (NtEvent man sig)"
    by (simp add: abs_object_simps)
  from c(3) room ob obtain h where h: "res = Inr h" "nt_table r h = None" "h AND INDEX_MASK \<noteq> 0"
    "nt_table r1 = (nt_table r)(h \<mapsto> NtEvent man sig)" by auto
  have i: "slot r1 h = Some (h AND INDEX_MASK)"
    using nt_table_valid [OF c(2), of h] h(4) by (auto simp: slot_Some_iff)
  have "create_object (c_os p) r TYPE_EVENT (pack_event sig man) = Some (Inr h, r1)" using c(1) h(1) by simp
  then obtain r0 where "r1 = guard_drop (slot_publish (c_os p) r0 h TYPE_EVENT (pack_event sig man))"
    using create_object_published [OF peaceful_os(1) [OF p(1)]] by blast
  then have u: "holders_len (slots r1 (h AND INDEX_MASK)) = 0" "holders (slots r1 (h AND INDEX_MASK)) = replicate MAX_HOLDERS 0"
    by (simp_all add: slot_publish_def)
  let ?r2 = "guard_drop (lock_mark (c_os p1) r1)"
  show ?thesis
    by (rule that [of h r1 "h AND INDEX_MASK" ?r2])
      (use c(1) h u i slot_candidate_run [OF peaceful_os(1) [OF p(2)] i] settled_locked [OF c(2)] in \<open>simp_all add: create_event_def\<close>)
qed

lemma passes_create_reap:
  assumes p: "peaceful p" "peaceful p1" "peaceful p2" and room: "card (dom t) < 16383"
    and k: "\<And>h. t h = None \<Longrightarrow>
      passes n (if alive then t(h \<mapsto> NtEvent man sig) else t) m t' (K h (if alive then 0 else 1))"
  shows "passes (Suc n) t m t' (\<lambda>r. Option.bind (create_event (c_os p) r man sig) (\<lambda>(x, r).
    Option.bind (unwrap x) (\<lambda>h. Option.bind (test_slot_candidate (c_os p1) r h) (\<lambda>(c, r).
    Option.bind c (\<lambda>cand. Option.bind (test_reap_slot_candidate (c_os p2) r cand alive) (case_prod (K h)))))))"
  unfolding passes_def
proof (intro allI impI, elim conjE)
  fix r assume s: "settled (Suc n) r" and t: "nt_table r = t"
  obtain h r1 r2 i where c: "create_event (c_os p) r man sig = Some (Inr h, r1)"
    "test_slot_candidate (c_os p1) r1 h = Some (Some (i, slot_pid (slots r2 i), generation (slots r2 i)), r2)"
    "nt_table r h = None" "slot r2 h = Some i" "i \<noteq> 0" "settled (Suc n) r2" "nt_table r2 = (nt_table r)(h \<mapsto> NtEvent man sig)"
    "holders_len (slots r2 i) = 0" "holders (slots r2 i) = replicate MAX_HOLDERS 0"
    by (rule create_event_candidate [OF p(1,2) s]) (use room t in simp)
  note os = peaceful_os(1) [OF p(3)]
  have "\<exists>r3. test_reap_slot_candidate (c_os p2) r2 (i, slot_pid (slots r2 i), generation (slots r2 i)) alive =
      Some (if alive then 0 else 1, r3) \<and> settled n r3 \<and> nt_table r3 = (if alive then t(h \<mapsto> NtEvent man sig) else t)"
  proof (cases alive)
    case True
    have "settled n r2" using c(6) by (rule settled_less) simp
    with True settled_locked [OF this] c(7) t show ?thesis by (auto simp: with_lock_undisturbed [OF os])
  next
    case False
    obtain r3 where "test_reap_slot_candidate (c_os p2) r2 (i, slot_pid (slots r2 i), generation (slots r2 i)) False = Some (1, r3)"
      "settled n r3" "nt_table r3 = (nt_table r2)(h := None)"
      by (rule reap_candidate_run [OF os c(6,4,5,8,9)])
    with False c(3,7) t show ?thesis by (auto simp: fun_upd_idem)
  qed
  then obtain r3 where r3: "test_reap_slot_candidate (c_os p2) r2 (i, slot_pid (slots r2 i), generation (slots r2 i)) alive =
      Some (if alive then 0 else 1, r3)" "settled n r3" "nt_table r3 = (if alive then t(h \<mapsto> NtEvent man sig) else t)" by blast
  obtain r' where "K h (if alive then 0 else 1) r3 = Some r'" "settled m r'" "nt_table r' = t'"
    by (rule passesD [OF k r3(2,3)]) (use c(3) t in simp_all)
  with c(1,2) r3(1) show "\<exists>r'. Option.bind (create_event (c_os p) r man sig) (\<lambda>(x, r).
    Option.bind (unwrap x) (\<lambda>h. Option.bind (test_slot_candidate (c_os p1) r h) (\<lambda>(c, r).
    Option.bind c (\<lambda>cand. Option.bind (test_reap_slot_candidate (c_os p2) r cand alive) (case_prod (K h)))))) = Some r' \<and>
    settled m r' \<and> nt_table r' = t'" by simp
qed

lemma reap_frees_dead_owner_slot_passes:
  assumes "\<forall>k. peaceful (p k)" "card (dom t) < 16383"
  shows "passes (Suc (Suc (Suc n))) t n t (reap_frees_dead_owner_slot p)"
  unfolding reap_frees_dead_owner_slot_def using assms
  by - (rule passes_create_reap pass_rules; (simp add: pass_simps split: if_split_asm)?)+

subsection \<open>The cache, the budget and the scan\<close>

definition absent :: "Os \<Rightarrow> bool" where
  "absent os \<longleftrightarrow> (\<forall>i<40. \<not> pid_alive os (900000 + of_nat i))"

lemma pid_cache_passes:
  assumes "pid_alive (c_os (p 0)) (getpid (c_os (p 0)))" "pid_alive (c_os (p 2)) (getpid (c_os (p 0)))" "absent (c_os (p 2))"
  shows "passes n t n t (pid_cache_keeps_verdicts_straight p)"
proof -
  have "\<not> (\<exists>a\<in>set (map (pid_alive (c_os (p 2))) (map (\<lambda>i. 900000 + of_nat i) [0..<40])). a)"
    using assms(3) by (auto simp: absent_def)
  with assms(1,2) show ?thesis
    by (simp add: passes_def pid_cache_keeps_verdicts_straight_def test_pid_cache_exact Let_def nth_append del: set_map map_map) blast
qed

lemma tail_budget_passes: "passes n t n t (tail_budget_burst_is_frames_not_seconds p)"
  by (simp add: passes_def tail_budget_burst_is_frames_not_seconds_def test_tail_budget_cap_def tail_budget_cap_def max_def word_le_nat_alt)

definition with_events :: "u32 list \<Rightarrow> nt_table \<Rightarrow> nt_table" where
  "with_events hs t h = (if h \<in> set hs then Some (NtEvent False False) else t h)"

lemma passes_create_events:
  assumes p: "\<forall>k. peaceful (p k)"
  shows "card (dom t) + c \<le> 16383 \<Longrightarrow>
    (\<And>hs. distinct hs \<Longrightarrow> length hs = c \<Longrightarrow> \<forall>h\<in>set hs. t h = None \<Longrightarrow> passes n (with_events hs t) m t' (K hs)) \<Longrightarrow>
    passes n t m t' (\<lambda>r. Option.bind (create_events p c r) (case_prod K))"
proof (induction c arbitrary: t K)
  case 0
  have "with_events [] t = t" by (simp add: with_events_def fun_eq_iff)
  with 0(2) [of "[]"] show ?case by simp
next
  case (Suc c)
  have "passes n t m t' (\<lambda>r. Option.bind (create_event (c_os (p c)) r False False) (case_prod (\<lambda>x r.
      Option.bind (unwrap x) (\<lambda>h. Option.bind (create_events p c r) (case_prod (\<lambda>hs r. K (h # hs) r))))))"
  proof (rule passes_create_event)
    fix h assume h: "t h = None"
    then have "card (dom (t(h \<mapsto> NtEvent False False))) = Suc (card (dom t))" by simp
    then have room: "card (dom (t(h \<mapsto> NtEvent False False))) + c \<le> 16383" using Suc.prems(1) by simp
    have "passes n (t(h \<mapsto> NtEvent False False)) m t' (\<lambda>r. Option.bind (create_events p c r) (case_prod (\<lambda>hs r. K (h # hs) r)))"
    proof (rule Suc.IH [OF room])
      fix hs assume hs: "distinct hs" "length hs = c" "\<forall>h'\<in>set hs. (t(h \<mapsto> NtEvent False False)) h' = None"
      then have "h \<notin> set hs" "\<forall>h'\<in>set hs. t h' = None" by (force split: if_splits)+
      moreover have "with_events hs (t(h \<mapsto> NtEvent False False)) = with_events (h # hs) t"
        by (auto simp: with_events_def fun_eq_iff)
      ultimately show "passes n (with_events hs (t(h \<mapsto> NtEvent False False))) m t' (K (h # hs))"
        using Suc.prems(2) [of "h # hs"] hs h by simp
    qed
    then show "passes n (t(h \<mapsto> NtEvent False False)) m t' (\<lambda>r. Option.bind (unwrap (Inr h)) (\<lambda>h.
      Option.bind (create_events p c r) (case_prod (\<lambda>hs r. K (h # hs) r))))" by simp
  qed (use p Suc.prems(1) in simp_all)
  then show ?case by (simp add: case_prod_unfold Option.bind_assoc)
qed

lemma passes_close_events:
  assumes p: "\<forall>k. peaceful (p k)"
  shows "distinct hs \<Longrightarrow> \<forall>h\<in>set hs. t h \<noteq> None \<Longrightarrow> (\<And>h. t' h = (if h \<in> set hs then None else t h)) \<Longrightarrow>
    passes (length hs + n) t n t' (close_events p hs)"
proof (induction hs arbitrary: t)
  case Nil
  then show ?case by (auto simp: passes_def)
next
  case (Cons h hs)
  have "passes (length hs + n) (t(h := None)) n t' (close_events p hs)"
    by (rule Cons.IH) (use Cons.prems in auto)
  then have "passes (Suc (length hs + n)) t n t' (\<lambda>r. Option.bind (close (c_os (p (length hs))) r h)
      (case_prod (\<lambda>x r. if x then close_events p hs r else None)))"
    by (intro passes_close) (use p Cons.prems(2) in simp_all)
  then show ?case by simp
qed

lemma passes_scan:
  assumes "peaceful p" "passes n t m t' (K ((card (dom t) + 255) div 256, card (dom t)))"
  shows "passes n t m t' (\<lambda>r. Option.bind (test_scan_candidates (c_os p) r) (case_prod K))"
  unfolding passes_def
proof (intro allI impI, elim conjE)
  fix r assume s: "settled n r" and t: "nt_table r = t"
  let ?m = "lock_mark (c_os p) r"
  obtain F where R: "region_rep r (\<lambda>_. []) F" and g: "\<forall>x. registered (nodes r x) = 0" by (rule settled_rep [OF s]) blast
  have "{i. state (slots r i) = SLOT_USED \<and> slot_pid (slots r i) \<noteq> 0} = {i. i \<noteq> 0 \<and> state (slots r i) = SLOT_USED}"
    using settled_used [OF s] region_reserved [OF R] by (auto simp: reserved_slot_def)
  then have c: "card {i. state (slots r i) = SLOT_USED \<and> slot_pid (slots r i) \<noteq> 0} = card (dom t)"
    using bij_betw_same_card [OF dom_table [OF s]] t by simp
  have "region_rep ?m (\<lambda>_. []) F" using R by simp
  from new_scan_rest [OF this] have "scan_rest ?m (new_scan ?m) = card (dom t)" using g c by simp
  then have "test_scan_candidates (c_os p) r = Some (((card (dom t) + 255) div 256, card (dom t)), guard_drop ?m)"
    by (simp add: test_scan_candidates_def with_lock_undisturbed [OF peaceful_os(1) [OF assms(1)]] scan_totals_rest)
  moreover obtain r' where "K ((card (dom t) + 255) div 256, card (dom t)) (guard_drop ?m) = Some r'" "settled m r'" "nt_table r' = t'"
    using assms(2) settled_locked [OF s] t by (auto elim: passesD)
  ultimately show "\<exists>r'. Option.bind (test_scan_candidates (c_os p) r) (case_prod K) = Some r' \<and> settled m r' \<and> nt_table r' = t'"
    by simp
qed

lemma dom_with_events: "distinct hs \<Longrightarrow> \<forall>h\<in>set hs. t h = None \<Longrightarrow> card (dom (with_events hs t)) = length hs + card (dom t)"
proof -
  assume hs: "distinct hs" "\<forall>h\<in>set hs. t h = None"
  have "dom (with_events hs t) = set hs \<union> dom t" by (auto simp: with_events_def dom_def)
  moreover have "set hs \<inter> dom t = {}" using hs(2) by (auto simp: domIff)
  ultimately show ?thesis using hs(1) by (simp add: card_Un_disjoint distinct_card)
qed

lemma sweep_scan_chunks_the_table_passes:
  assumes p: "\<forall>k. peaceful (p k)" and room: "card (dom t) + 300 \<le> 16383"
  shows "passes (300 + n) t n t (sweep_scan_chunks_the_table p)"
  unfolding sweep_scan_chunks_the_table_def
proof (rule passes_create_events [OF p room])
  fix hs assume hs: "distinct hs" "length hs = 300" "\<forall>h\<in>set hs. t h = None"
  have c: "card (dom (with_events hs t)) = 300 + card (dom t)" using dom_with_events [OF hs(1,3)] hs(2) by simp
  have "2 \<le> (300 + card (dom t) + 255) div 256" by simp
  moreover have "passes (length hs + n) (with_events hs t) n t (close_events (\<lambda>k. p (301 + k)) hs)"
    by (rule passes_close_events) (use p hs in \<open>auto simp: with_events_def\<close>)
  ultimately show "passes (300 + n) (with_events hs t) n t (\<lambda>r. Option.bind (test_scan_candidates (c_os (p 300)) r) (\<lambda>(k, r).
      Option.bind (assert_that (2 \<le> fst k)) (\<lambda>_. Option.bind (assert_that (300 \<le> snd k)) (\<lambda>_.
      close_events (\<lambda>k. p (301 + k)) hs r))))"
    by (intro passes_scan) (use p c hs(2) in simp_all)
qed

end
