(* ===== verification/Process_Tests.thy ===== *)
theory Process_Tests
  imports Unit_Tests Init
begin

text \<open>
  The unit tests of \<^verbatim>\<open>lib.rs\<close> with a second thread or process, the setup that they share, and the
  run of the whole suite. What the other thread does while a waiter sleeps is given to the round
  of the wait in which it happens; that a spawned thread or a forked child comes to no harm shows
  in the outcome of the wait.
\<close>

subsection \<open>Setup\<close>

text \<open>The body of the once-only setup, on the process and the file system of the test program.\<close>

definition test_setup :: "Platform \<Rightarrow> string \<Rightarrow> Process \<Rightarrow> Process option" where
  "test_setup plat path s =
     (case init plat (Some path) (s\<lparr>fs := sys_unlink path (fs s)\<rparr>) of
        (res, s1) \<Rightarrow> do { unwrap res; Some s1 })"

subsection \<open>A thread that wakes another\<close>

definition during :: "nat \<Rightarrow> (Region \<Rightarrow> Region) \<Rightarrow> Caller \<Rightarrow> Caller" where
  "during k f p = p\<lparr>c_envs := (c_envs p)(k := (c_envs p k)\<lparr>asleep := f\<rparr>)\<rparr>"

definition semaphore_blocks_and_wakes :: "nat \<Rightarrow> (nat \<Rightarrow> Caller) \<Rightarrow> Region \<Rightarrow> Region option" where
  "semaphore_blocks_and_wakes k p r = do {
     (x, r) \<leftarrow> create_semaphore (c_os (p 0)) r 0 1;
     h \<leftarrow> unwrap x;
     let t = (\<lambda>s. snd (the (sem_release (c_os (p 1)) s h 1)));
     (x, r) \<leftarrow> call_wait_any (during k t (p 2)) r [h] 1 None;
     assert_that (is_signaled x 0);
     (x, r) \<leftarrow> close (c_os (p 3)) r h;
     assert_that x;
     Some r
   }"

definition cross_process_semaphore :: "nat \<Rightarrow> (nat \<Rightarrow> Caller) \<Rightarrow> Region \<Rightarrow> Region option" where
  "cross_process_semaphore k p r = do {
     (x, r) \<leftarrow> create_semaphore (c_os (p 0)) r 0 1;
     h \<leftarrow> unwrap x;
     let parent = (\<lambda>s. snd (the (sem_release (c_os (p 1)) s h 1)));
     (x, r) \<leftarrow> call_wait_any (during k parent (p 2)) r [h] 42 None;
     let status = (if is_signaled x 0 then 0 else 1 :: nat);
     assert_that (status = 0);
     (x, r) \<leftarrow> close (c_os (p 3)) r h;
     assert_that x;
     Some r
   }"

lemma table_sem:
  assumes "nt_table r h = Some (NtSem c l)"
  obtains i where "slot_of_type r h TYPE_SEM = Inr i" "unat (lo32 (w0 (slots r i))) = c" "unat (hi32 (w0 (slots r i))) = l"
proof -
  obtain i where "slot r h = Some i" "abs_object (slots r i) = Some (NtSem c l)"
    using assms by (auto simp: nt_table_def split: Option.bind_splits)
  then show ?thesis
    by (intro that [of i]) (auto simp: slot_of_type_Inr abs_object_def abs_sem_def abs_mutex_def abs_event_def split: if_splits)
qed

lemma passes_wait_released:
  assumes p: "peaceful p" "peaceful sig" and me: "me \<noteq> 0"
    and t: "case t h of Some (NtSem 0 (Suc l)) \<Rightarrow> passes n t m t' (K (Returned (Signaled 0 False))) | _ \<Rightarrow> False"
  shows "passes n t m t' (\<lambda>r. Option.bind
    (call_wait_any (during k (\<lambda>s. snd (the (sem_release (c_os sig) s h 1))) p) r [h] me None) (case_prod K))"
  unfolding passes_def
proof (intro allI impI, elim conjE)
  fix r assume s: "settled n r" and tb: "nt_table r = t"
  from t obtain l where th: "t h = Some (NtSem 0 (Suc l))" and K: "passes n t m t' (K (Returned (Signaled 0 False)))"
    by (auto split: option.splits nt_object.splits nat.splits)
  let ?f = "\<lambda>s. snd (the (sem_release (c_os sig) s h 1))"
  let ?q = "during k ?f p"
  obtain i where i: "slot_of_type r h TYPE_SEM = Inr i" "lo32 (w0 (slots r i)) = 0" "unat (hi32 (w0 (slots r i))) = Suc l"
    using table_sem [of r h 0 "Suc l"] th tb by (metis unat_eq_zero)
  let ?w = "join32 (hi32 (w0 (slots r i))) 1"
  have ty: "obj_type (slots r i) = TYPE_SEM" "slot r h = Some i" using table_type [OF i(1)] by simp_all
  have e: "\<forall>j\<le>Suc k. restful (getpid (c_os p)) r (c_envs ?q j)" "\<forall>j<k. asleep (c_envs ?q j) = id"
    using peaceful_restful [OF p(1) s] by (simp_all add: during_def restful_def lone_def)
  have b: "sem_release_body 1 (w0 (slots r i)) = Swap ?w (Inr 0, True)" using i by (simp add: sem_release_body_eq)
  have sat: "wait_satisfied ((slots r i)\<lparr>w0 := ?w\<rparr>) me (pulse_seq (slots r i)) = Some (False, NtSem 0 (Suc l))"
    using ty i by (simp add: wait_satisfied_def abs_object_def abs_sem_def nt_wait_def)
  have ok: "waitable_handles r [h]" using th tb by (simp add: waitable_handles_table)
  have tk: "taken r [h] me False"
    using th tb satisfied_table [of r h me] by (simp add: taken_def nt_acquirable_def)
  obtain th' r1 w where r1: "wait_any (c_os p) (c_envs ?q) (c_cfg p) (c_debug p) (c_start p) (c_thread p) r [h] me None 0 =
      Some (Returned (Signaled (of_nat 0) False), th', r1)"
    "vacant r1" "bare r1 = bare (put_word r i w)" "abs_object ((slots r i)\<lparr>w0 := w\<rparr>) = Some (NtSem 0 (Suc l))"
    using signal_wakes [where n = 0 and m = k and hs = "[h]" and timeout = None and body = "sem_release_body 1" and ty = TYPE_SEM
        and envs = "c_envs ?q" and sig = "c_os sig" and start = "c_start p" and w' = ?w and res = "Inr 0",
        OF peaceful_os(1) [OF p(1)] settled_vacant [OF s] me _ _ ok tk _ _ peaceful_os(1) [OF p(2)] _ _ sat e, of "c_cfg p" "c_debug p" "c_thread p"]
      i(1) b body_ok(1) [of 1] by (auto simp: MAX_WAIT_COUNT_def during_def sem_release_def word_ok_types)
  note f = bareD [OF r1(3)]
  have "abs_object (slots r1 i) = Some (NtSem 0 (Suc l))" using f [of i] by (intro trans [OF abs_object_cong r1(4)]) simp_all
  moreover have "\<forall>j. j \<noteq> i \<longrightarrow> bare r1 j = bare r j" by (simp add: r1(3) bare_put_word)
  ultimately have "settled n r1" "nt_table r1 = t"
    using settled_update [OF s r1(2) ty(2)] f [of i] th tb by (simp_all add: fun_upd_idem)
  with K obtain r' where "K (Returned (Signaled 0 False)) r1 = Some r'" "settled m r'" "nt_table r' = t'" by (rule passesD)
  moreover have "call_wait_any ?q r [h] me None = Some (Returned (Signaled 0 False), r1)"
    using r1(1) by (simp add: call_wait_any_def during_def)
  ultimately show "\<exists>r'. Option.bind (call_wait_any ?q r [h] me None) (case_prod K) = Some r' \<and> settled m r' \<and> nt_table r' = t'"
    by simp
qed

lemma semaphore_blocks_and_wakes_passes:
  assumes "\<forall>k. peaceful (p k)" "card (dom t) < 16383"
  shows "passes (Suc n) t n t (semaphore_blocks_and_wakes k p)"
  unfolding semaphore_blocks_and_wakes_def Let_def using assms
  by - (rule passes_wait_released pass_rules; (simp add: pass_simps split: if_split_asm)?)+

lemma cross_process_semaphore_passes:
  assumes "\<forall>k. peaceful (p k)" "card (dom t) < 16383"
  shows "passes (Suc n) t n t (cross_process_semaphore k p)"
  unfolding cross_process_semaphore_def Let_def using assms
  by - (rule passes_wait_released pass_rules; (simp add: pass_simps split: if_split_asm)?)+

subsection \<open>Objects of a dead child\<close>

definition sweep_reaps_orphans_across_chunks :: "(nat \<Rightarrow> Caller) \<Rightarrow> Caller \<Rightarrow> Region \<Rightarrow> Region option" where
  "sweep_reaps_orphans_across_chunks child p r = do {
     (handles, r) \<leftarrow> create_events child 300 r;
     (x, r) \<leftarrow> sweep_dead (c_os p) r;
     freed \<leftarrow> unwrap x;
     assert_that (300 \<le> unat freed);
     Some r
   }"

text \<open>A new event takes a free slot, in the name of its creator, and leaves the other slots alone.\<close>

definition orphan :: "u32 \<Rightarrow> Slot \<Rightarrow> bool" where
  "orphan pid s \<longleftrightarrow> state s = SLOT_USED \<and> slot_pid s = pid \<and> holders_len s = 0"

lemma create_event_slot:
  assumes p: "calm p" and s: "settled n r" and room: "card (dom (nt_table r)) < 16383"
  obtains h r1 where "create_event (c_os p) r man sig = Some (Inr h, r1)" "settled n r1" "nt_table r h = None"
    "nt_table r1 = (nt_table r)(h \<mapsto> NtEvent man sig)" "slot r1 h = Some (h AND INDEX_MASK)" "h AND INDEX_MASK \<noteq> 0"
    "orphan (getpid (c_os p)) (slots r1 (h AND INDEX_MASK))" "\<forall>j. j \<noteq> h AND INDEX_MASK \<longrightarrow> slots r1 j = slots r j"
proof -
  note os = calm_os [OF p]
  obtain F where R: "region_rep r (\<lambda>_. []) F" by (rule settled_rep [OF s])
  have free: "\<exists>i<SLOT_COUNT. state (slots r i) = SLOT_FREE" using room room_iff [OF s] by simp
  obtain h r1 where c: "create_object (c_os p) r TYPE_EVENT (pack_event sig man) = Some (Inr h, r1)"
    "\<forall>j. j \<noteq> h AND INDEX_MASK \<longrightarrow> slots r1 j = slots r j"
    "state (slots r1 (h AND INDEX_MASK)) = SLOT_USED" "slot_pid (slots r1 (h AND INDEX_MASK)) = getpid (c_os p)"
    by (rule create_object_free [OF os(1) R event_word_ok free]) blast
  obtain h' r2 where c': "create_object (c_os p) r TYPE_EVENT (pack_event sig man) = Some (Inr h', r2)" "settled n r2" "nt_table r h' = None"
    "h' AND INDEX_MASK \<noteq> 0" "nt_table r2 = (nt_table r)(h' := abs_object (zero_slot\<lparr>obj_type := TYPE_EVENT, w0 := pack_event sig man\<rparr>))"
    by (rule create_settled_room [OF p s event_word_ok _ room]) (simp add: waitable_def)
  have e: "h' = h" "r2 = r1" using c(1) c'(1) by simp_all
  have t: "nt_table r1 = (nt_table r)(h \<mapsto> NtEvent man sig)" using c'(5) e by (simp add: abs_object_simps)
  obtain r0 where "r1 = guard_drop (slot_publish (c_os p) r0 h TYPE_EVENT (pack_event sig man))"
    using create_object_published [OF os(1) c(1)] by blast
  then have "holders_len (slots r1 (h AND INDEX_MASK)) = 0" by (simp add: slot_publish_def)
  moreover have "slot r1 h = Some (h AND INDEX_MASK)" using nt_table_valid [OF c'(2), of h] t e by (auto simp: slot_Some_iff)
  ultimately show ?thesis using c c'(2-4) e t by (intro that [of h r1]) (simp_all add: orphan_def create_event_def)
qed

lemma create_events_slots:
  assumes p: "\<forall>k. calm (p k) \<and> getpid (c_os (p k)) = pid"
  shows "settled n r \<Longrightarrow> card (dom (nt_table r)) + c \<le> 16383 \<Longrightarrow> \<exists>hs r1. create_events p c r = Some (hs, r1) \<and>
    settled n r1 \<and> length hs = c \<and> distinct hs \<and> (\<forall>h\<in>set hs. nt_table r h = None) \<and> nt_table r1 = with_events hs (nt_table r) \<and>
    (\<forall>h\<in>set hs. slot r1 h = Some (h AND INDEX_MASK) \<and> h AND INDEX_MASK \<noteq> 0 \<and> orphan pid (slots r1 (h AND INDEX_MASK))) \<and>
    (\<forall>j. j \<notin> (\<lambda>h. h AND INDEX_MASK) ` set hs \<longrightarrow> slots r1 j = slots r j)"
proof (induction c arbitrary: r)
  case 0
  have "with_events [] t = t" for t by (simp add: with_events_def fun_eq_iff)
  with 0 show ?case by simp
next
  case (Suc c)
  let ?ev = "NtEvent False False"
  have room: "card (dom (nt_table r)) < 16383" and pc: "calm (p c)" using Suc.prems(2) p by simp_all
  obtain h r1 where h: "create_event (c_os (p c)) r False False = Some (Inr h, r1)" "settled n r1" "nt_table r h = None"
    "nt_table r1 = (nt_table r)(h \<mapsto> ?ev)" "slot r1 h = Some (h AND INDEX_MASK)" "h AND INDEX_MASK \<noteq> 0"
    "orphan (getpid (c_os (p c))) (slots r1 (h AND INDEX_MASK))" "\<forall>j. j \<noteq> h AND INDEX_MASK \<longrightarrow> slots r1 j = slots r j"
    by (rule create_event_slot [OF pc Suc.prems(1) room])
  have "card (dom (nt_table r1)) + c \<le> 16383" using Suc.prems(2) h(3,4) by simp
  from Suc.IH [OF h(2) this] obtain hs r2 where hs: "create_events p c r1 = Some (hs, r2)" "settled n r2" "length hs = c" "distinct hs"
    "\<forall>h\<in>set hs. nt_table r1 h = None" "nt_table r2 = with_events hs (nt_table r1)"
    "\<forall>h\<in>set hs. slot r2 h = Some (h AND INDEX_MASK) \<and> h AND INDEX_MASK \<noteq> 0 \<and> orphan pid (slots r2 (h AND INDEX_MASK))"
    "\<forall>j. j \<notin> (\<lambda>h. h AND INDEX_MASK) ` set hs \<longrightarrow> slots r2 j = slots r1 j" by blast
  have nh: "h \<notin> set hs" "\<forall>h'\<in>set hs. nt_table r h' = None" using hs(5) h(4) by (force split: if_splits)+
  have "nt_table r2 h = Some ?ev" using hs(6) nh(1) h(4) by (simp add: with_events_def)
  then have sl: "slot r2 h = Some (h AND INDEX_MASK)" using nt_table_valid [OF hs(2), of h] by (auto simp: slot_Some_iff)
  have ni: "h AND INDEX_MASK \<notin> (\<lambda>h. h AND INDEX_MASK) ` set hs"
  proof
    assume "h AND INDEX_MASK \<in> (\<lambda>h. h AND INDEX_MASK) ` set hs"
    then obtain h' where "h' \<in> set hs" "slot r2 h' = Some (h AND INDEX_MASK)" using hs(7) by auto
    with slot_inj [OF _ sl, of h'] nh(1) show False by simp
  qed
  have "orphan pid (slots r2 (h AND INDEX_MASK))" using h(7) hs(8) ni p by simp
  moreover have "with_events hs (nt_table r1) = with_events (h # hs) (nt_table r)" by (auto simp: h(4) with_events_def fun_eq_iff)
  ultimately show ?case
    using h hs nh sl by (intro exI [of _ "h # hs"] exI [of _ r2]) auto
qed

lemma swept_vacant:
  assumes "vacant r" "swept os r (\<lambda>_. []) UNIV UNIV n r'"
  shows "vacant r'"
proof -
  obtain F where R: "region_rep r (\<lambda>_. []) F" "\<forall>x. \<not> node_held r F x" by (rule vacant_rep [OF assms(1)])
  obtain F' where R': "region_rep r' (lists_left os r (\<lambda>_. []) UNIV UNIV) F'" and h: "\<forall>x. held r' x \<longrightarrow> held r x"
    using assms(2) by (rule sweptD)
  have "lists_left os r (\<lambda>_. []) UNIV UNIV = (\<lambda>_. [])" by (simp add: lists_left_def fun_eq_iff)
  with R' have R'': "region_rep r' (\<lambda>_. []) F'" by simp
  moreover have "\<And>x. \<not> node_held r' F' x"
    using h R(2) held_iff [OF region_pool [OF R(1)]] held_iff [OF region_pool [OF R'']] by blast
  ultimately show ?thesis by (rule vacantI)
qed

subsection \<open>The suite\<close>

text \<open>
  The tests one after the other, each with callers of its own. \<open>q\<close> are the calls of the test of the
  cache, for which some processes have to be absent, and \<open>k\<close> the round of the wait in which the
  other thread comes in.
\<close>

definition unit_tests :: "(nat \<Rightarrow> nat \<Rightarrow> Caller) \<Rightarrow> (nat \<Rightarrow> Caller) \<Rightarrow> nat \<Rightarrow> (Region \<Rightarrow> Region option) list" where
  "unit_tests p q k = [
     semaphore_basic (p 0), handle_zero_is_never_allocated (p 1), semaphore_blocks_and_wakes k (p 2),
     mutex_recursion_and_ownership (p 3), mutex_abandoned (p 4), event_auto_and_manual_reset (p 5),
     wait_all_semantics (p 6), wait_any_index_selection (p 7), invalid_handles (p 8),
     cross_process_semaphore k (p 9), sweep_dead_frees_orphans (p 10), reap_frees_dead_owner_slot (p 11),
     pid_cache_keeps_verdicts_straight q, tail_budget_burst_is_frames_not_seconds (p 12),
     sweep_scan_chunks_the_table (p 13)]"

primrec run_tests :: "(Region \<Rightarrow> Region option) list \<Rightarrow> Region \<Rightarrow> Region option" where
  "run_tests [] r = Some r"
| "run_tests (f # tests) r = do { r1 \<leftarrow> f r; run_tests tests r1 }"

text \<open>A test that closes \<open>c\<close> objects costs \<open>c\<close> of the generations that are left.\<close>

lemma run_tests_passes:
  "\<forall>(c, f)\<in>set tests. \<forall>n. passes (c + n) t n t f \<Longrightarrow> passes (sum_list (map fst tests) + n) t n t (run_tests (map snd tests))"
proof (induction tests)
  case Nil
  then show ?case by (simp add: passes_def)
next
  case (Cons cf tests)
  obtain c f where cf: "cf = (c, f)" by (cases cf)
  have "passes (c + (sum_list (map fst tests) + n)) t (sum_list (map fst tests) + n) t f" using Cons.prems cf by simp
  moreover have "passes (sum_list (map fst tests) + n) t n t (run_tests (map snd tests))" using Cons by simp
  ultimately show ?case unfolding cf passes_def by (fastforce simp: add.assoc)
qed

lemma test_setup_opens:
  assumes "\<And>k. calls_ok (sys plat k)" "fs_ok (fs s)" "CHR 0x00 \<notin> set path" "cell s = None"
  obtains i s1 where "test_setup plat path s = Some s1" "cell s1 = Some (Inr i)"
    "opened (mutex_size plat) (versioned_path path) (sys_unlink path (fs s)) i (fs s1)"
proof -
  have f: "fs_ok (sys_unlink path (fs s))" using assms(2) by (auto simp: fs_ok_def sys_unlink_def)
  obtain i f' where "open_and_map (mutex_size plat) (sys plat) path (sys_unlink path (fs s)) = (Inr i, f')"
    "opened (mutex_size plat) (versioned_path path) (sys_unlink path (fs s)) i f'"
    by (rule open_and_map_opened [OF assms(1) f assms(3)])
  then show ?thesis
    by (intro that [of "s\<lparr>cell := Some (Inr i), fs := f'\<rparr>" i]) (simp_all add: test_setup_def init_def assms(4) resolve_path_def)
qed

text \<open>
  The setup removes the file whose name it passes to \<open>init\<close>, but the region lives in the file with
  the version in its name: what an earlier test program with the same process number left behind
  is not removed, and its objects are there when the tests begin.
\<close>

lemma versioned_differs: "versioned_path path \<noteq> path"
  by (cases rule: versioned_path_cases [of path]) auto

theorem setup_keeps_leftover:
  assumes "\<And>k. calls_ok (sys plat k)" "CHR 0x00 \<notin> set path" "cell s = None"
    and "entries (fs s) (versioned_path path) = Some i" "usable (mutex_size plat) (files (fs s) i)"
  shows "\<exists>s1. test_setup plat path s = Some s1 \<and> cell s1 = Some (Inr i) \<and> content (files (fs s1) i) = content (files (fs s) i)"
proof -
  let ?f = "sys_unlink path (fs s)"
  have "entries ?f (versioned_path path) = Some i" "usable (mutex_size plat) (files ?f i)"
    using assms(4,5) versioned_differs [of path] by (simp_all add: sys_unlink_def)
  then have "open_and_map (mutex_size plat) (sys plat) path ?f = (Inr i, ?f)" by (rule open_and_map_usable [OF assms(1,2)])
  then show ?thesis by (simp add: test_setup_def init_def assms(3) resolve_path_def) (simp add: sys_unlink_def)
qed

lemma setup_fresh:
  assumes "\<And>k. calls_ok (sys plat k)" "fs_ok (fs s)" "CHR 0x00 \<notin> set path" "cell s = None"
    and "entries (fs s) (versioned_path path) = None"
  obtains i s1 where "test_setup plat path s = Some s1" "cell s1 = Some (Inr i)" "content (files (fs s1) i) = fresh_region"
proof -
  obtain i s1 where s1: "test_setup plat path s = Some s1" "cell s1 = Some (Inr i)"
    "opened (mutex_size plat) (versioned_path path) (sys_unlink path (fs s)) i (fs s1)"
    by (rule test_setup_opens [OF assms(1-4)])
  moreover have "entries (sys_unlink path (fs s)) (versioned_path path) = None" using assms(5) by (simp add: sys_unlink_def)
  ultimately show ?thesis using that by (simp add: opened_def fresh_file_def)
qed

subsection \<open>Properties\<close>


definition short_of_pids :: Caller where
  "short_of_pids = (quiet_caller 7)\<lparr>c_os := (quiet_os 7)\<lparr>kill_ret := (\<lambda>p. if 900000 \<le> p then ESRCH else 0)\<rparr>\<rparr>"

lemma short_of_pids_absent: "pid_alive (c_os short_of_pids) (getpid (c_os short_of_pids))" "absent (c_os short_of_pids)"
proof -
  show "pid_alive (c_os short_of_pids) (getpid (c_os short_of_pids))"
    by (simp add: short_of_pids_def quiet_os_def pid_alive_def errno_consts word_le_nat_alt)
  have "unat (900000 + of_nat i :: u32) = 900000 + i" if "i < 40" for i
    using that by (simp add: unat_add_u32 unat_of_nat)
  then show "absent (c_os short_of_pids)"
    by (simp add: absent_def short_of_pids_def quiet_os_def pid_alive_def errno_consts word_le_nat_alt)
qed


text \<open>
  A dead child leaves nothing behind. A child creates 300 events, more than the sweep
  looks at in one chunk, and dies; the sweep of its parent then reports at least 300 objects as
  freed, and the region is again at rest with just the objects that it had before the child ran.
\<close>

theorem orphans_swept:
  assumes child: "\<forall>k. peaceful (child k) \<and> getpid (c_os (child k)) = pid"
    and os: "undisturbed (c_os p)" "\<forall>q. pid_alive (c_os p) q \<longleftrightarrow> q \<noteq> 0 \<and> q \<noteq> pid"
    and s: "settled (Suc n) r" and room: "card (dom (nt_table r)) + 300 \<le> 16383" and fresh: "\<forall>i. slot_pid (slots r i) \<noteq> pid"
  shows "\<exists>r'. sweep_reaps_orphans_across_chunks child p r = Some r' \<and> settled n r' \<and> nt_table r' = nt_table r"
proof -
  let ?idx = "\<lambda>h. h AND INDEX_MASK"
  obtain hs r1 where hs: "create_events child 300 r = Some (hs, r1)" "settled (Suc n) r1" "length hs = 300" "distinct hs"
    "\<forall>h\<in>set hs. nt_table r h = None" "nt_table r1 = with_events hs (nt_table r)"
    "\<forall>h\<in>set hs. slot r1 h = Some (?idx h) \<and> ?idx h \<noteq> 0 \<and> orphan pid (slots r1 (?idx h))"
    "\<forall>j. j \<notin> ?idx ` set hs \<longrightarrow> slots r1 j = slots r j"
    using create_events_slots [of child pid, OF _ s room] child by fastforce
  let ?m = "lock_mark (c_os p) r1" and ?D = "?idx ` set hs"
  have pid: "pid \<noteq> 0" using child peaceful_os(2) by blast
  have dead: "dead_slot (c_os p) (slots ?m i) \<longleftrightarrow> i \<in> ?D" for i
  proof (cases "i \<in> ?D")
    case True
    then have "orphan pid (slots r1 i)" using hs(7) by auto
    with True os(2) pid show ?thesis by (auto simp: dead_slot_def orphan_def spilled_def held_by_def holders_cap_def)
  next
    case False
    with hs(8) fresh os(2) show ?thesis by (auto simp: dead_slot_def)
  qed
  have v: "vacant ?m" using settled_vacant [OF hs(2)] by simp
  then obtain F where R: "region_rep ?m (\<lambda>_. []) F" by (rule vacant_rep)
  then obtain f r2 where f: "sweep_dead_locked (c_os p) ?m = Some (f, r2)" "swept (c_os p) ?m (\<lambda>_. []) UNIV UNIV f r2"
    by (rule sweep_dead_locked_swept)
  have "inj_on ?idx (set hs)"
    by (rule inj_onI, rule slot_inj [of r1]) (use hs(7) in auto)
  then have "card ?D = 300" using hs(3,4) by (simp add: card_image distinct_card)
  moreover have "{i. dead_slot (c_os p) (slots ?m i)} = ?D" using dead by blast
  ultimately have n: "unat f = 300" using f(2) by (simp add: swept_def unat_of_nat)
  have b: "\<forall>i. bare (guard_drop r2) i = (if i \<in> ?D then freed_slot (bare r1 i) else bare r1 i)"
    using f(2) dead by (simp add: swept_def)
  have v2: "vacant (guard_drop r2)" using swept_vacant [OF v f(2)] by simp
  have fd: "\<forall>i\<in>?D. state (slots (guard_drop r2) i) = SLOT_FREE \<and> generation (slots (guard_drop r2) i) = generation (slots r1 i) + 1"
  proof
    fix i assume "i \<in> ?D"
    then have "bare (guard_drop r2) i = freed_slot (bare r1 i)" using b by simp
    then show "state (slots (guard_drop r2) i) = SLOT_FREE \<and> generation (slots (guard_drop r2) i) = generation (slots r1 i) + 1"
      using bare_sel(1,2) [of "guard_drop r2" i] bare_sel(2) [of r1 i] by (simp add: freed_slot_def)
  qed
  have ot: "\<forall>i. i \<notin> ?D \<longrightarrow> bare (guard_drop r2) i = bare r1 i" using b by simp
  note z = freed_all_settled [OF hs(2) v2 fd ot]
  have "nt_table (guard_drop r2) h = nt_table r h" for h
  proof (cases "?idx h \<in> ?D")
    case True
    then obtain h' where h': "h' \<in> set hs" "?idx h = ?idx h'" by auto
    have "nt_table r h = None"
    proof (rule ccontr)
      assume "nt_table r h \<noteq> None"
      then have "h \<notin> set hs" "nt_table r1 h \<noteq> None" using hs(5,6) by (auto simp: with_events_def)
      then have "slot r1 h = Some (?idx h')" using nt_table_valid [OF hs(2), of h] h'(2) by (auto simp: slot_Some_iff)
      moreover have "slot r1 h' = Some (?idx h')" using hs(7) h'(1) by blast
      ultimately have "h = h'" using slot_inj by blast
      with h'(1) \<open>h \<notin> set hs\<close> show False by simp
    qed
    with True z(2) show ?thesis by simp
  next
    case False
    then have "h \<notin> set hs" by auto
    with False z(2) hs(6) show ?thesis by (simp add: with_events_def)
  qed
  then have "nt_table (guard_drop r2) = nt_table r" by blast
  moreover have "sweep_reaps_orphans_across_chunks child p r = Some (guard_drop r2)"
    using hs(1) f(1) n by (simp add: sweep_reaps_orphans_across_chunks_def sweep_dead_def with_lock_undisturbed [OF os(1)])
  ultimately show ?thesis using z(1) by blast
qed

theorem orphans_swept_witness:
  "\<exists>r'. sweep_reaps_orphans_across_chunks (\<lambda>_. quiet_caller 42) ((quiet_caller 7)\<lparr>c_os := after_death\<rparr>) fresh_region = Some r' \<and>
     settled 0 r' \<and> nt_table r' = Map.empty"
proof -
  have c: "\<forall>k::nat. peaceful (quiet_caller 42) \<and> getpid (c_os (quiet_caller 42)) = 42"
    by (simp add: peaceful_quiet) (simp add: quiet_caller_def quiet_os_def)
  have o: "undisturbed (c_os ((quiet_caller 7)\<lparr>c_os := after_death\<rparr>))"
    "\<forall>q. pid_alive (c_os ((quiet_caller 7)\<lparr>c_os := after_death\<rparr>)) q \<longleftrightarrow> q \<noteq> 0 \<and> q \<noteq> 42" by simp_all
  have s: "settled (Suc 0) fresh_region" "card (dom (nt_table fresh_region)) + 300 \<le> 16383" by (simp_all add: fresh_settled fresh_table)
  have f: "\<forall>i. slot_pid (slots fresh_region i) \<noteq> 42" by simp
  from orphans_swept [OF c o s f] show ?thesis by (simp add: fresh_table)
qed

end
