(* ===== verification/Sequential_Tests.thy ===== *)
theory Sequential_Tests
  imports Process_Tests
begin

text \<open>
  The performance tests of \<^verbatim>\<open>lib.rs\<close>, the benchmark of the fast path of \<^verbatim>\<open>bench.rs\<close>, the canaries of \<^verbatim>\<open>soak.rs\<close> and the simulations of
  \<^verbatim>\<open>engine_sim.rs\<close> that run in one thread. They repeat calls many times; \<open>iterate\<close> is their loop and
  \<open>passes_iterate\<close> its rule. What they measure is not modelled: that they hold their assertions and
  leave the table of objects as it was is.
\<close>

subsection \<open>Loops\<close>

primrec iterate :: "nat \<Rightarrow> (nat \<Rightarrow> Region \<Rightarrow> Region option) \<Rightarrow> Region \<Rightarrow> Region option" where
  "iterate 0 body r = Some r"
| "iterate (Suc k) body r = do { r1 \<leftarrow> body k r; iterate k body r1 }"

lemma passes_bind: "passes n t k t1 f \<Longrightarrow> passes k t1 m t' g \<Longrightarrow> passes n t m t' (\<lambda>r. Option.bind (f r) g)"
  unfolding passes_def by fastforce

text \<open>\<open>T k\<close> is the table before the last \<open>k\<close> rounds.\<close>

lemma passes_iterate:
  "\<forall>k<c. passes n (T (Suc k)) n (T k) (body k) \<Longrightarrow> passes n (T c) n (T 0) (iterate c body)"
proof (induction c)
  case (Suc c)
  have "passes n (T (Suc c)) n (T 0) (\<lambda>r. Option.bind (body c r) (iterate c body))"
    by (rule passes_bind) (use Suc in simp_all)
  then show ?case by simp
qed (simp add: passes_def)

lemma passes_loop:
  assumes "\<And>k. k < c \<Longrightarrow> passes n (T (Suc k)) n (T k) (body k)" "T c = t" "passes n (T 0) m t' K"
  shows "passes n t m t' (\<lambda>r. Option.bind (iterate c body r) K)"
  using passes_bind [OF passes_iterate [of c n T body] assms(3)] assms(1,2) by simp

lemma passes_same_loop:
  assumes "\<And>k. passes n t n t (body k)" "passes n t m t' K"
  shows "passes n t m t' (\<lambda>r. Option.bind (iterate c body r) K)"
  by (rule passes_loop [where T = "\<lambda>_. t"]) (use assms in simp_all)

definition signaled_any :: "wait_run \<Rightarrow> bool" where
  "signaled_any x \<longleftrightarrow> (\<exists>i d. x = Returned (Signaled i d))"

lemma signaled_any_simps [simp]:
  "signaled_any (Returned (Signaled i d))" "\<not> signaled_any (Returned Timeout)"
  by (simp_all add: signaled_any_def)

subsection \<open>Performance tests\<close>

definition wait_signaled :: "Caller \<Rightarrow> u32 \<Rightarrow> Region \<Rightarrow> Region option" where
  "wait_signaled p h r = do {
     (x, r) \<leftarrow> call_wait_any p r [h] 1 (Some 0);
     assert_that (signaled_any x);
     Some r
   }"

lemma wait_signaled_passes:
  assumes "peaceful p" "case t h of None \<Rightarrow> False
    | Some ob \<Rightarrow> (case nt_acquire 1 ob of None \<Rightarrow> False | Some (d, ob') \<Rightarrow> (\<forall>x. t' x = (t(h \<mapsto> ob')) x))"
  shows "passes n t n t' (wait_signaled p h)"
proof -
  from assms(2) obtain ob d ob' where o: "t h = Some ob" "nt_acquire 1 ob = Some (d, ob')" "\<forall>x. t' x = (t(h \<mapsto> ob')) x"
    by (auto split: option.splits)
  show ?thesis unfolding wait_signaled_def by (rule pass_rules; (simp add: pass_simps assms(1) o)?)+
qed

lemma wait_signaled_then:
  assumes "peaceful p" "case t h of None \<Rightarrow> False
    | Some ob \<Rightarrow> (case nt_acquire 1 ob of None \<Rightarrow> False | Some (d, ob') \<Rightarrow> passes n (t(h \<mapsto> ob')) m t' K)"
  shows "passes n t m t' (\<lambda>r. Option.bind (wait_signaled p h r) K)"
proof -
  from assms(2) obtain ob d ob' where o: "t h = Some ob" "nt_acquire 1 ob = Some (d, ob')" "passes n (t(h \<mapsto> ob')) m t' K"
    by (auto split: option.splits)
  show ?thesis by (rule passes_bind [OF wait_signaled_passes o(3)]) (use assms(1) o in auto)
qed

definition perf_wait_signaled_event :: "(nat \<Rightarrow> Caller) \<Rightarrow> (nat \<Rightarrow> Caller) \<Rightarrow> Region \<Rightarrow> Region option" where
  "perf_wait_signaled_event p q r = do {
     (x, r) \<leftarrow> create_event (c_os (p 0)) r True True;
     h \<leftarrow> unwrap x;
     r \<leftarrow> iterate 100000 (\<lambda>k. wait_signaled (q k) h) r;
     (x, r) \<leftarrow> close (c_os (p 1)) r h;
     assert_that x;
     Some r
   }"

definition perf_event_set_reset_no_waiters :: "(nat \<Rightarrow> Caller) \<Rightarrow> (nat \<Rightarrow> nat \<Rightarrow> Caller) \<Rightarrow> Region \<Rightarrow> Region option" where
  "perf_event_set_reset_no_waiters p q r = do {
     (x, r) \<leftarrow> create_event (c_os (p 0)) r True False;
     h \<leftarrow> unwrap x;
     r \<leftarrow> iterate 100000 (\<lambda>k r. do {
       (x, r) \<leftarrow> event_set (c_os (q k 0)) r h;
       unwrap x;
       (x, r) \<leftarrow> event_reset (c_os (q k 1)) r h;
       unwrap x;
       Some r }) r;
     (x, r) \<leftarrow> close (c_os (p 1)) r h;
     assert_that x;
     Some r
   }"

definition perf_sem_acquire_release_uncontended :: "(nat \<Rightarrow> Caller) \<Rightarrow> (nat \<Rightarrow> Caller) \<Rightarrow> Region \<Rightarrow> Region option" where
  "perf_sem_acquire_release_uncontended p q r = do {
     (x, r) \<leftarrow> create_semaphore (c_os (p 0)) r 0 1000000;
     h \<leftarrow> unwrap x;
     (x, r) \<leftarrow> sem_release (c_os (p 1)) r h 100000;
     unwrap x;
     r \<leftarrow> iterate 100000 (\<lambda>k. wait_signaled (q k) h) r;
     (x, r) \<leftarrow> close (c_os (p 2)) r h;
     assert_that x;
     Some r
   }"

lemma perf_wait_signaled_event_passes:
  assumes "\<forall>k. peaceful (p k)" "\<forall>k. peaceful (q k)" "card (dom t) < 16383"
  shows "passes (Suc n) t n t (perf_wait_signaled_event p q)"
  unfolding perf_wait_signaled_event_def using assms
  by - (rule pass_rules passes_same_loop wait_signaled_passes; (simp add: pass_simps fun_upd_idem split: if_split_asm)?)+

lemma perf_event_set_reset_no_waiters_passes:
  assumes "\<forall>k. peaceful (p k)" "\<forall>k j. peaceful (q k j)" "card (dom t) < 16383"
  shows "passes (Suc n) t n t (perf_event_set_reset_no_waiters p q)"
  unfolding perf_event_set_reset_no_waiters_def using assms
  by - (rule pass_rules passes_same_loop; (simp add: pass_simps fun_upd_idem split: if_split_asm)?)+

text \<open>The precharged semaphore has one unit for each round, and 100000 are left to take.\<close>

lemma perf_sem_acquire_release_uncontended_passes:
  assumes p: "\<forall>k. peaceful (p k)" "\<forall>k. peaceful (q k)" "card (dom t) < 16383"
  shows "passes (Suc n) t n t (perf_sem_acquire_release_uncontended p q)"
proof -
  have loop: "passes (Suc n) (t(h \<mapsto> NtSem 100000 1000000)) n t
      (\<lambda>r. Option.bind (iterate 100000 (\<lambda>k. wait_signaled (q k) h) r) K)"
    if "passes (Suc n) (t(h \<mapsto> NtSem 0 1000000)) n t K" for h K
    by (rule passes_loop [where T = "\<lambda>k. t(h \<mapsto> NtSem k 1000000)"]) (use that p in \<open>auto intro!: wait_signaled_passes\<close>)
  show ?thesis
    unfolding perf_sem_acquire_release_uncontended_def using p
    by - (rule pass_rules loop; (simp add: pass_simps split: if_split_asm)?)+
qed

text \<open>The benchmark of the fast path; its last assertion is on the measured context switches.\<close>

definition bench_2_signaled_fastpath :: "(nat \<Rightarrow> Caller) \<Rightarrow> (nat \<Rightarrow> nat \<Rightarrow> Caller) \<Rightarrow> Region \<Rightarrow> Region option" where
  "bench_2_signaled_fastpath p q r = do {
     (x, r) \<leftarrow> create_event (c_os (p 0)) r True True;
     ev \<leftarrow> unwrap x;
     (x, r) \<leftarrow> create_event (c_os (p 1)) r True False;
     churn \<leftarrow> unwrap x;
     (x, r) \<leftarrow> create_semaphore (c_os (p 2)) r 0 1000000;
     sem \<leftarrow> unwrap x;
     (x, r) \<leftarrow> sem_release (c_os (p 3)) r sem 300000;
     unwrap x;
     r \<leftarrow> iterate 100000 (\<lambda>k r. do {
       r \<leftarrow> wait_signaled (q k 0) ev r;
       (x, r) \<leftarrow> event_set (c_os (q k 1)) r churn;
       unwrap x;
       (x, r) \<leftarrow> event_reset (c_os (q k 2)) r churn;
       unwrap x;
       wait_signaled (q k 3) sem r }) r;
     (_, r) \<leftarrow> close (c_os (p 4)) r ev;
     (_, r) \<leftarrow> close (c_os (p 5)) r churn;
     (_, r) \<leftarrow> close (c_os (p 6)) r sem;
     Some r
   }"

text \<open>The precharged semaphore has 200000 units left when the rounds are over.\<close>

lemma bench_2_signaled_fastpath_passes:
  assumes p: "\<forall>k. peaceful (p k)" "\<forall>k j. peaceful (q k j)" "card (dom t) < 16381"
  shows "passes (Suc (Suc (Suc n))) t n t (bench_2_signaled_fastpath p q)"
proof -
  let ?t = "\<lambda>ev churn sem k. t(ev \<mapsto> NtEvent True True, churn \<mapsto> NtEvent True False, sem \<mapsto> NtSem k 1000000)"
  have loop: "passes N (?t ev churn sem 300000) n t (\<lambda>r. Option.bind (iterate 100000 (\<lambda>k r. do {
       r \<leftarrow> wait_signaled (q k 0) ev r; (x, r) \<leftarrow> event_set (c_os (q k (Suc 0))) r churn; unwrap x;
       (x, r) \<leftarrow> event_reset (c_os (q k 2)) r churn; unwrap x; wait_signaled (q k 3) sem r }) r) K)"
    if "passes N (?t ev churn sem 200000) n t K" "ev \<noteq> churn" "ev \<noteq> sem" "churn \<noteq> sem" for N ev churn sem K
  proof (rule passes_loop [where T = "\<lambda>k. ?t ev churn sem (200000 + k)"])
    fix k
    show "passes N (?t ev churn sem (200000 + Suc k)) N (?t ev churn sem (200000 + k)) (\<lambda>r. do {
       r \<leftarrow> wait_signaled (q k 0) ev r; (x, r) \<leftarrow> event_set (c_os (q k (Suc 0))) r churn; unwrap x;
       (x, r) \<leftarrow> event_reset (c_os (q k 2)) r churn; unwrap x; wait_signaled (q k 3) sem r })"
      using that(2-4) p(2) by - (rule wait_signaled_then pass_rules wait_signaled_passes; (simp add: pass_simps)?)+
  qed (use that(1) in simp_all)
  show ?thesis
    unfolding bench_2_signaled_fastpath_def using p
    by - (rule loop pass_rules; (simp add: pass_simps card_insert_if domIff split: if_split_asm)?)+
qed

subsection \<open>Canaries\<close>

text \<open>\<open>me\<close> is the number of the process, under which all its threads own mutexes.\<close>

definition check_canaries :: "u32 \<Rightarrow> (nat \<Rightarrow> Caller) \<Rightarrow> Region \<Rightarrow> Region option" where
  "check_canaries me p r = do {
     (x, r) \<leftarrow> create_event (c_os (p 0)) r False False;
     ev \<leftarrow> unwrap x;
     (x, r) \<leftarrow> create_semaphore (c_os (p 1)) r 1 8;
     sem \<leftarrow> unwrap x;
     (x, r) \<leftarrow> create_mutex (c_os (p 2)) r 0 0;
     mtx \<leftarrow> unwrap x;
     (x, r) \<leftarrow> event_set (c_os (p 3)) r ev;
     unwrap x;
     v \<leftarrow> unwrap (read_event r ev);
     assert_that (snd v);
     (x, r) \<leftarrow> event_reset (c_os (p 4)) r ev;
     unwrap x;
     v \<leftarrow> unwrap (read_event r ev);
     assert_that (\<not> snd v);
     (x, r) \<leftarrow> sem_release (c_os (p 5)) r sem 2;
     c \<leftarrow> unwrap x;
     assert_that (c = 1);
     v \<leftarrow> unwrap (read_sem r sem);
     assert_that (fst v = 3);
     (x, r) \<leftarrow> call_wait_any (p 6) r [mtx] me (Some 0);
     assert_that (is_signaled x 0);
     (x, r) \<leftarrow> mutex_unlock (c_os (p 7)) r mtx me;
     unwrap x;
     (x, r) \<leftarrow> close (c_os (p 8)) r ev;
     assert_that x;
     (x, r) \<leftarrow> close (c_os (p 9)) r sem;
     assert_that x;
     (x, r) \<leftarrow> close (c_os (p 10)) r mtx;
     assert_that x;
     Some r
   }"

lemma check_canaries_passes:
  assumes "\<forall>k. peaceful (p k)" "card (dom t) < 16381" "me \<noteq> 0"
  shows "passes (Suc (Suc (Suc n))) t n t (check_canaries me p)"
  unfolding check_canaries_def using assms
  by - (rule pass_rules; (simp add: pass_simps card_insert_if domIff split: if_split_asm)?)+

subsection \<open>Simulations in one thread\<close>

definition sim_primitive_costs ::
  "u32 \<Rightarrow> (nat \<Rightarrow> Caller) \<Rightarrow> (nat \<Rightarrow> nat \<Rightarrow> Caller) \<Rightarrow> Region \<Rightarrow> Region option" where
  "sim_primitive_costs me p q r = do {
     (x, r) \<leftarrow> create_event (c_os (p 0)) r False True;
     ev \<leftarrow> unwrap x;
     r \<leftarrow> iterate 200000 (\<lambda>k r. do {
       (_, r) \<leftarrow> event_set (c_os (q k 0)) r ev;
       let _ = read_event r ev;
       (_, r) \<leftarrow> call_wait_any (q k 1) r [ev] me (Some 0);
       Some r }) r;
     (x, r) \<leftarrow> create_event (c_os (p 1)) r False False;
     never \<leftarrow> unwrap x;
     r \<leftarrow> iterate 20000 (\<lambda>k r. do {
       (_, r) \<leftarrow> call_wait_any (q k 2) r [never] me (Some 200000);
       Some r }) r;
     (x, r) \<leftarrow> create_semaphore (c_os (p 2)) r 1 1;
     sem \<leftarrow> unwrap x;
     r \<leftarrow> iterate 200000 (\<lambda>k r. do {
       (_, r) \<leftarrow> call_wait_any (q k 3) r [sem] me (Some 0);
       (_, r) \<leftarrow> sem_release (c_os (q k 4)) r sem 1;
       Some r }) r;
     (x, r) \<leftarrow> create_mutex (c_os (p 3)) r 0 0;
     m \<leftarrow> unwrap x;
     r \<leftarrow> iterate 200000 (\<lambda>k r. do {
       (_, r) \<leftarrow> call_wait_any (q k 5) r [m] me (Some 0);
       (_, r) \<leftarrow> mutex_unlock (c_os (q k 6)) r m me;
       Some r }) r;
     (_, r) \<leftarrow> close (c_os (p 4)) r ev;
     (_, r) \<leftarrow> close (c_os (p 5)) r never;
     (_, r) \<leftarrow> close (c_os (p 6)) r sem;
     (_, r) \<leftarrow> close (c_os (p 7)) r m;
     Some r
   }"

text \<open>
  The first round of the loop on the event consumes the signal that the event was created with, or
  rather the one that it has set; all later rounds begin with the event reset.
\<close>

lemma sim_primitive_costs_passes:
  assumes p: "\<forall>k. peaceful (p k)" "\<forall>k j. peaceful (q k j)" "card (dom t) < 16380" "me \<noteq> 0"
  shows "passes (Suc (Suc (Suc (Suc n)))) t n t (sim_primitive_costs me p q)"
proof -
  have loop: "passes N (t(h \<mapsto> NtEvent False True)) n t (\<lambda>r. Option.bind (iterate 200000 (\<lambda>k r. do {
       (_, r) \<leftarrow> event_set (c_os (q k 0)) r h;
       (_, r) \<leftarrow> call_wait_any (q k (Suc 0)) r [h] me (Some 0);
       Some r }) r) K)" if "passes N (t(h \<mapsto> NtEvent False False)) n t K" for h K N
  proof (rule passes_loop [where T = "\<lambda>k. t(h \<mapsto> NtEvent False (k = 200000))"])
    show "passes N (t(h \<mapsto> NtEvent False (Suc k = 200000))) N (t(h \<mapsto> NtEvent False (k = 200000)))
      (\<lambda>r. do { (_, r) \<leftarrow> event_set (c_os (q k 0)) r h; (_, r) \<leftarrow> call_wait_any (q k (Suc 0)) r [h] me (Some 0); Some r })"
      if "k < 200000" for k
      using that by - (rule pass_rules; (simp add: pass_simps p)?)+
  qed (use that in simp_all)
  show ?thesis
    unfolding sim_primitive_costs_def Let_def using p
    by - (rule loop pass_rules passes_same_loop; (simp add: pass_simps fun_upd_idem card_insert_if domIff split: if_split_asm)?)+
qed

text \<open>
  Pacing to a frame boundary: \<open>pace park\<close> waits before each of the remaining frames for the time that
  is left to the boundary, cut by \<open>park\<close>, on an event that is never set. \<open>now k\<close> is the time that is read
  before the last \<open>k\<close> frames. \<open>park\<close> is the identity, or takes off the window of 150 microseconds that the
  simulation spins instead; the loop that sleeps without the library is left out.
\<close>

primrec pace :: "(nat \<Rightarrow> nat) \<Rightarrow> u32 \<Rightarrow> u32 \<Rightarrow> nat \<Rightarrow> (nat \<Rightarrow> nat) \<Rightarrow> (nat \<Rightarrow> Caller) \<Rightarrow> nat \<Rightarrow> nat \<Rightarrow> Region \<Rightarrow> Region option" where
  "pace park me never period now p 0 next r = Some r"
| "pace park me never period now p (Suc k) next r =
     (let next = next + period; left = next - now k in
      if now k < next \<and> park left \<noteq> 0 then do {
        (_, r) \<leftarrow> call_wait_any (p k) r [never] me (Some (park left));
        pace park me never period now p k next r }
      else pace park me never period now p k next r)"

definition sim_vsync_pacing ::
  "u32 \<Rightarrow> (nat \<Rightarrow> Caller) \<Rightarrow> (nat \<Rightarrow> Caller) \<Rightarrow> (nat \<Rightarrow> nat) \<Rightarrow> (nat \<Rightarrow> Caller) \<Rightarrow> (nat \<Rightarrow> nat) \<Rightarrow> nat \<Rightarrow> nat \<Rightarrow> Region \<Rightarrow> Region option" where
  "sim_vsync_pacing me p q now q2 now2 start start2 r = do {
     (x, r) \<leftarrow> create_event (c_os (p 0)) r False False;
     never \<leftarrow> unwrap x;
     r \<leftarrow> pace id me never 1000000 now q 1000 start r;
     r \<leftarrow> pace (\<lambda>left. left - 150000) me never 1000000 now2 q2 1000 start2 r;
     (_, r) \<leftarrow> close (c_os (p 1)) r never;
     Some r
   }"

definition sim_wait_only_pacing ::
  "u32 \<Rightarrow> (nat \<Rightarrow> Caller) \<Rightarrow> (nat \<Rightarrow> Caller) \<Rightarrow> (nat \<Rightarrow> nat) \<Rightarrow> nat \<Rightarrow> Region \<Rightarrow> Region option" where
  "sim_wait_only_pacing me p q now start r = do {
     (x, r) \<leftarrow> create_event (c_os (p 0)) r False False;
     never \<leftarrow> unwrap x;
     r \<leftarrow> pace id me never 1000000 now q 2000 start r;
     (_, r) \<leftarrow> close (c_os (p 1)) r never;
     Some r
   }"

lemma passes_pace:
  assumes p: "\<forall>k. peaceful (p k)" and me: "me \<noteq> 0" and t: "t never = Some (NtEvent man False)"
  shows "passes n t n t (pace park me never period now p k next)"
proof (induction k arbitrary: "next")
  case (Suc k)
  have "passes n t n t (\<lambda>r. Option.bind (call_wait_any (p k) r [never] me (Some (park (next + period - now k))))
      (\<lambda>(_, r). pace park me never period now p k (next + period) r))"
    by (rule passes_wait_any) (use p me t Suc in \<open>simp_all add: pass_simps\<close>)
  with Suc show ?case
    by (cases "now k < next + period \<and> 0 < park (next + period - now k)") (auto simp: Let_def)
qed (simp add: passes_def)

lemma sim_pacing_passes:
  assumes "\<forall>k. peaceful (p k)" "\<forall>k. peaceful (q k)" "\<forall>k. peaceful (q2 k)" "card (dom t) < 16383" "me \<noteq> 0"
  shows "passes (Suc n) t n t (sim_wait_only_pacing me p q now start)"
    "passes (Suc n) t n t (sim_vsync_pacing me p q now q2 now2 start start2)"
  unfolding sim_wait_only_pacing_def sim_vsync_pacing_def using assms
  by - (rule pass_rules passes_bind [OF passes_pace]; (simp add: pass_simps split: if_split_asm)?)+

end
