(* ===== verification/Wait_Reaps.thy ===== *)
theory Wait_Reaps
  imports Lone_Wait
begin

text \<open>
  A wait that sweeps. Before a waiter goes to sleep it looks whether a sweep is due, and then reaps
  the objects of dead processes in the middle of its own wait. Proved: this sweep frees exactly
  the dead objects, keeps the nodes of the waiter, and does not disturb the wait, which still times
  out with every other object as it was; the region remembers when it was swept.
\<close>

definition purged :: "Os \<Rightarrow> Region \<Rightarrow> u32 \<Rightarrow> Slot" where
  "purged os r i = (if dead_slot os (slots r i) then freed_slot (bare r i) else bare r i)"

text \<open>The sweep of this call is neither gated by the count of waits nor by the interval.\<close>

definition sweep_due :: "Os \<Rightarrow> Config \<Rightarrow> Thread \<Rightarrow> u64 \<Rightarrow> bool" where
  "sweep_due os cfg t before \<longleftrightarrow> sweep_calls t AND 0xFF = 0 \<and> cfg_sweep_interval cfg \<noteq> 0 \<and>
     cfg_sweep_interval cfg \<le> saturating_sub (clock_ns os) before \<and>
     cfg_sweep_interval cfg \<le> saturating_sub (locked_clock_ns os) before"

lemma dead_slot_pids: "pid_alive os = pid_alive os' \<Longrightarrow> dead_slot os s = dead_slot os' s"
  by (simp add: dead_slot_def)

lemma purged_bare: "bare r' = bare r \<Longrightarrow> purged os r' = purged os r"
  using dead_slot_bare [of r' _ r os] by (auto simp: purged_def fun_eq_iff)

lemma purged_alive: "\<not> dead_slot os (slots r i) \<Longrightarrow> purged os r i = bare r i"
  by (simp add: purged_def)

lemma purged_not_dead:
  assumes "bare r' = purged os r"
  shows "\<not> dead_slot os (slots r' i)"
proof
  assume d: "dead_slot os (slots r' i)"
  show False
  proof (cases "dead_slot os (slots r i)")
    case True
    then have "bare r' i = freed_slot (bare r i)" by (simp add: assms purged_def)
    then have "state (bare r' i) = SLOT_FREE" by (simp add: freed_slot_def)
    with d show False by (simp add: dead_slot_def bare_sel state_consts)
  next
    case False
    then have "bare r' i = bare r i" by (simp add: assms purged_def)
    with d False dead_slot_bare [of r' i r os] show False by simp
  qed
qed

lemma guest_swept:
  assumes g: "guest pid a r ns" "ns \<noteq> []" and alive: "pid_alive os pid" and R: "region_rep s Q F"
    and s: "nodes s = nodes r" "core s = (core r)\<lparr>sweep_ns := x\<rparr>" "slots s = slots r"
    and sw: "swept os s Q UNIV UNIV n r'"
  shows "guest pid a r' ns"
proof -
  have "at_rest r s" using s by (simp add: at_rest_def)
  from at_rest_guest [OF this g(1)] have gs: "guest pid a s ns" .
  obtain Q1 F1 where Q1: "region_rep s Q1 F1" "owns s F1 ns (targets a)"
    and h: "\<forall>x. node_held s F1 x \<longrightarrow> x \<in> set ns" "\<forall>x\<in>set ns. node_pid (nodes s x) = pid"
    by (rule guest_rep [OF gs]) (use g(2) in blast)
  have "node_held s F x = node_held s F1 x" for x
    using held_iff [OF region_pool [OF R], of x] held_iff [OF region_pool [OF Q1(1)], of x] by simp
  then have o: "owns s F ns (targets a)" and h': "\<forall>x. held s x \<longrightarrow> x \<in> set ns"
    using Q1(2) h(1) held_iff [OF region_pool [OF R]] by (simp_all add: owns_def)
  obtain Q' F' where "region_rep r' Q' F'" "owns r' F' ns (targets a)"
    by (rule swept_owns [OF R sw o]) (use h(2) alive in simp)
  moreover have "\<forall>x\<in>set ns. node_pid (nodes r' x) = pid" "\<forall>x. held r' x \<longrightarrow> x \<in> set ns"
    using sw h(2) h' by (auto simp: swept_def)
  ultimately show ?thesis unfolding guest_def waiting_as_def waiting_def by blast
qed

lemma wait_sweep_reaps:
  assumes g: "guest pid a r ns" "ns \<noteq> []" and e: "lone pid env" and due: "sweep_due (sweep_os env) cfg t (stamp r)"
  obtains t' r' where "wait_sweep (sweep_os env) cfg t r = Some (t', r')" "guest pid a r' ns"
    "bare r' = purged (sweep_os env) r" "stamp r' = locked_clock_ns (sweep_os env)"
proof -
  let ?os = "sweep_os env"
  let ?s = "upd_header (lock_mark ?os r) (\<lambda>h. h\<lparr>sweep_ns := locked_clock_ns ?os\<rparr>)"
  have os: "undisturbed ?os" "\<forall>k. lock_ret ?os k = 0" "pid_alive ?os pid" using e by (simp_all add: lone_def)
  obtain Q F where R: "region_rep r Q F" by (rule guest_rep [OF g(1)])
  have d: "sweep_calls t AND 0xFF = 0" "cfg_sweep_interval cfg \<noteq> 0"
      "cfg_sweep_interval cfg \<le> saturating_sub (clock_ns ?os) (stamp r)"
      "cfg_sweep_interval cfg \<le> saturating_sub (locked_clock_ns ?os) (stamp r)" using due by (simp_all add: sweep_due_def)
  obtain n r' where r': "auto_sweep_dead ?os (sweep_calls t) (cfg_sweep_interval cfg) r = Some (sweep_calls t + 1, r')"
    "swept ?os ?s Q UNIV UNIV n r'" "stamp r' = locked_clock_ns ?os"
    by (rule auto_sweep_due [OF os(1,2) R d])
  have Rs: "region_rep ?s Q F" using R by (intro region_rep_stamp) simp
  have g': "guest pid a r' ns"
    by (rule guest_swept [OF g os(3) Rs _ _ _ r'(2), where x = "locked_clock_ns ?os"]) (simp_all add: core_def lock_mark_def)
  have bs: "bare ?s = bare r" by (simp add: bare_def fun_eq_iff)
  have "bare r' = purged ?os r" using r'(2) bs by (auto simp: swept_def purged_def fun_eq_iff)
  with g' r' show ?thesis by (intro that) (simp_all add: wait_sweep_def)
qed

text \<open>The objects that the waiter asks for are not dead: for it nothing changes.\<close>

definition wanted_alive :: "Os \<Rightarrow> Region \<Rightarrow> u32 list \<Rightarrow> bool" where
  "wanted_alive os r hs \<longleftrightarrow> (\<forall>h\<in>set hs. \<not> dead_slot os (slots r (h AND INDEX_MASK)))"

lemma slot_purged:
  assumes "bare r' = purged os r" "\<not> dead_slot os (slots r (h AND INDEX_MASK))"
  shows "slot r' h = slot r h" "wait_satisfied (slots r' (h AND INDEX_MASK)) me q = wait_satisfied (slots r (h AND INDEX_MASK)) me q"
    "obj_type (slots r' (h AND INDEX_MASK)) = obj_type (slots r (h AND INDEX_MASK))"
    "pulse_seq (slots r' (h AND INDEX_MASK)) = pulse_seq (slots r (h AND INDEX_MASK))"
proof -
  have b: "bare r' (h AND INDEX_MASK) = bare r (h AND INDEX_MASK)" using assms by (simp add: purged_def)
  note f = bare_sel [of r' "h AND INDEX_MASK", unfolded b bare_sel]
  show "slot r' h = slot r h" by (simp add: slot_def Let_def f)
  show "obj_type (slots r' (h AND INDEX_MASK)) = obj_type (slots r (h AND INDEX_MASK))"
    "pulse_seq (slots r' (h AND INDEX_MASK)) = pulse_seq (slots r (h AND INDEX_MASK))" by (simp_all add: f)
  show "wait_satisfied (slots r' (h AND INDEX_MASK)) me q = wait_satisfied (slots r (h AND INDEX_MASK)) me q"
    by (simp add: wait_satisfied_def f abs_object_cong [OF f(3) f(6)])
qed

lemma wanted_purged:
  assumes b: "bare r' = purged os r" and w: "wanted_alive os r hs"
  shows "waitable_handles r' hs = waitable_handles r hs" "taken r' hs me wall = taken r hs me wall" "seqs_now r' hs qs = seqs_now r hs qs"
proof -
  have h: "slot r' h = slot r h" "satisfied_now r' me h = satisfied_now r me h"
    "obj_type (slots r' (h AND INDEX_MASK)) = obj_type (slots r (h AND INDEX_MASK))"
    "pulse_seq (slots r' (h AND INDEX_MASK)) = pulse_seq (slots r (h AND INDEX_MASK))"
    if "h \<in> set hs" for h me
    using slot_purged [OF b, of h] w that by (simp_all add: wanted_alive_def)
  show "waitable_handles r' hs = waitable_handles r hs"
    unfolding waitable_handles_def by (rule ball_cong) (use h in \<open>auto simp: slot_Some_iff\<close>)
  show "seqs_now r' hs qs = seqs_now r hs qs" using h by (auto simp: seqs_now_def)
  show "taken r' hs me wall = taken r hs me wall" using h by (simp add: taken_def)
qed

lemma patient_purged:
  "bare r' = purged os r \<Longrightarrow> wanted_alive os r (wait_handles a) \<Longrightarrow> patient a r qs \<Longrightarrow> patient a r' qs"
  by (simp add: patient_def wanted_purged)

subsection \<open>The wait\<close>

text \<open>A round whose sweep is due, and that sleeps undisturbed.\<close>

lemma lone_round_reaps:
  assumes g: "guest pid a (ws_region st) (ws_nodes st)" and p: "patient a (ws_region st) (ws_seqs st)"
    and e: "lone pid env" "asleep env = id" and early: "\<forall>dl. wait_deadline a = Some dl \<longrightarrow> now_ns env < dl"
    and due: "sweep_due (sweep_os env) cfg (ws_thread st) (stamp (ws_region st))"
  obtains st' where "wait_round env cfg debug a st = Some (None, st')" "ws_seqs st' = ws_seqs st"
    "guest pid a (ws_region st') (ws_nodes st')" "bare (ws_region st') = purged (sweep_os env) (ws_region st)"
    "stamp (ws_region st') = locked_clock_ns (sweep_os env)"
proof -
  let ?rem = "map_option (\<lambda>dl. dl - now_ns env) (wait_deadline a)"
  obtain ns r t where r: "guest pid a r ns" "ns \<noteq> []" "bare r = bare (ws_region st)" "stamp r = stamp (ws_region st)"
    "sweep_calls t = sweep_calls (ws_thread st)"
    and w: "wait_round env cfg debug a st = do {
       (t2, r2) \<leftarrow> wait_sweep (sweep_os env) cfg t r;
       (t3, r3) \<leftarrow> wait_sleep env cfg ns ?rem debug t2 r2;
       Some (None, st\<lparr>ws_nodes := ns, ws_region := r3, ws_thread := t3\<rparr>) }"
    by (rule lone_round_begins [OF g p e(1) early, where cfg = cfg and debug = debug])
  have d: "sweep_due (sweep_os env) cfg t (stamp r)" using due r(4,5) by (simp add: sweep_due_def)
  obtain t2 r2 where sw: "wait_sweep (sweep_os env) cfg t r = Some (t2, r2)" "guest pid a r2 ns"
    "bare r2 = purged (sweep_os env) r" "stamp r2 = locked_clock_ns (sweep_os env)"
    by (rule wait_sweep_reaps [OF r(1,2) e(1) d])
  obtain t3 r3 where sl: "wait_sleep env cfg ns ?rem debug t2 r2 = Some (t3, r3)" "guest pid a r3 ns"
    "bare r3 = bare (asleep env r2)" "stamp r3 = stamp (asleep env r2)"
    by (rule lone_sleep [where a = a and env = env and r = r2 and ns = ns and cfg = cfg and remaining = ?rem and debug = debug and t = t2])
      (use e sw(2) in \<open>auto simp: lone_def\<close>)
  show ?thesis
    by (rule that [of "st\<lparr>ws_nodes := ns, ws_region := r3, ws_thread := t3\<rparr>"])
      (use w sw sl e(2) purged_bare [OF r(3)] in simp_all)
qed

lemma wait_purges:
  assumes os: "undisturbed os" and v: "vacant r" and a: "owner \<noteq> 0" "hs \<noteq> []" "length hs \<le> MAX_WAIT_COUNT" "distinct hs"
    and h: "waitable_handles r hs" "taken r hs owner wall" "wanted_alive (sweep_os (envs 0)) r hs"
    and e: "\<forall>j. lone pid (envs j) \<and> asleep (envs j) = id \<and> pid_alive (sweep_os (envs j)) = pid_alive (sweep_os (envs 0))"
    and dl: "d \<noteq> 0" "now_ns (envs 0) < start + d" "start + d \<le> now_ns (envs m)"
    and due: "sweep_due (sweep_os (envs 0)) cfg t (stamp r)" and C: "\<forall>j. C (locked_clock_ns (sweep_os (envs j)))"
  obtains t' r' where "wait os envs cfg debug start t r hs owner (Some d) wall 0 = Some (Returned Timeout, t', r')"
    "vacant r'" "bare r' = purged (sweep_os (envs 0)) r" "C (stamp r')"
proof -
  let ?a = "plain_args hs owner (map_option (\<lambda>d. start + d) (Some d)) wall"
  let ?os = "sweep_os (envs 0)"
  obtain qs where p: "patient ?a r qs" and w: "wait os envs cfg debug start t r hs owner (Some d) wall 0 =
       (if Some d = Some 0 then Some (Returned Timeout, t, r)
        else map_option (\<lambda>(x, st). (x, ws_thread st, ws_region st)) (wait_loop envs 0 cfg debug ?a
          \<lparr>ws_region = r, ws_thread = t, ws_nodes = [], ws_seqs = qs\<rparr>))"
    by (rule wait_taken_loop [OF os v a h(1,2)])
  let ?st = "\<lparr>ws_region = r, ws_thread = t, ws_nodes = [], ws_seqs = qs\<rparr>"
  have g: "guest pid ?a r []" using v by (simp add: vacant_guest)
  obtain st1 where st1: "wait_round (envs 0) cfg debug ?a ?st = Some (None, st1)" "ws_seqs st1 = qs"
    "guest pid ?a (ws_region st1) (ws_nodes st1)" "bare (ws_region st1) = purged ?os r"
    "stamp (ws_region st1) = locked_clock_ns ?os"
    by (rule lone_round_reaps [of pid ?a ?st "envs 0" cfg debug]) (use g p e dl due in auto)
  have p1: "patient ?a (ws_region st1) (ws_seqs st1)" using patient_purged [OF st1(4) _ p] h(3) st1(2) by simp
  have "restful pid (ws_region st1) (envs j)" for j
    using e purged_not_dead [OF st1(4)] dead_slot_pids [of "sweep_os (envs j)" ?os] by (simp add: restful_def)
  then have e1: "\<forall>j. restful pid (ws_region st1) (envs j) \<and> asleep (envs j) = id" using e by blast
  have m: "start + d \<le> now_ns (envs (Suc 0 + (m - 1)))" using dl by (cases m) auto
  obtain st where st: "wait_loop envs (Suc 0) cfg debug ?a st1 = Some (Returned Timeout, st)" "vacant (ws_region st)"
    "bare (ws_region st) = bare (ws_region st1)" "C (stamp (ws_region st))"
    using lone_loop_timeout [OF e1 _ m C HOL.refl st1(3) p1, of cfg debug] st1(5) C by auto
  have "wait_loop envs 0 cfg debug ?a ?st = Some (Returned Timeout, st)"
    using st1(1) st(1) by (subst wait_loop.simps) simp
  with w st st1(4) dl(1) show ?thesis by (intro that) auto
qed

subsection \<open>The gate\<close>

text \<open>
  A thread looks for a sweep on every 256th round of its waits. \<open>gate t\<close> is the number of rounds
  that are still to come before that one.
\<close>

definition gate :: "Thread \<Rightarrow> nat" where
  "gate t = (256 - unat (sweep_calls t) mod 256) mod 256"

lemma low_byte: "unat (c AND 0xFF) = unat c mod 256" for c :: u64
proof -
  have "c AND 0xFF = take_bit 8 c" by (simp add: take_bit_eq_mask mask_eq_exp_minus_1)
  then show ?thesis by (simp add: unsigned_take_bit_eq) (simp add: take_bit_eq_mod)
qed

lemma gate_bound: "gate t < 256"
  by (simp add: gate_def)

lemma gate_open: "sweep_calls t AND 0xFF = 0 \<longleftrightarrow> gate t = 0"
proof -
  have "(256 - x mod 256) mod 256 = 0 \<longleftrightarrow> x mod 256 = (0::nat)" for x
    by (cases "x mod 256 = 0") simp_all
  then show ?thesis using low_byte [of "sweep_calls t"] by (simp add: gate_def unat_eq_zero [symmetric])
qed

lemma gate_step:
  assumes "gate t \<noteq> 0" "sweep_calls t' = sweep_calls t + 1"
  shows "Suc (gate t') = gate t"
proof -
  have "unat (sweep_calls t + 1) mod 256 = (unat (sweep_calls t) + 1) mod 256"
    by (simp add: unat_word_ariths mod_mod_cancel)
  moreover have "Suc ((256 - (x + 1) mod 256) mod 256) = (256 - x mod 256) mod 256" if n: "(256 - x mod 256) mod 256 \<noteq> 0" for x :: nat
  proof -
    define y where "y = x mod 256"
    have y: "y < 256" "y \<noteq> 0" using n unfolding y_def by (simp, metis diff_zero mod_self)
    have "(x + 1) mod 256 = (y + 1) mod 256" by (simp add: y_def mod_simps)
    then show ?thesis unfolding y_def [symmetric] using y by (cases "y = 255") simp_all
  qed
  ultimately show ?thesis using assms by (simp add: gate_def)
qed

lemma sweep_calls_sleep:
  assumes "0 \<le> futex_errno env" "wait_sleep env cfg ns remaining debug t r = Some (t', r')"
  shows "sweep_calls t' = sweep_calls t"
proof -
  obtain step t1 where st: "spin_tail_step cfg (tail_clock env) (wait_slice debug remaining) t = (step, t1)"
    by (cases "spin_tail_step cfg (tail_clock env) (wait_slice debug remaining) t")
  then have "sweep_calls t1 = sweep_calls t"
    by (auto simp: spin_tail_step_def tail_budget_can_def tail_budget_take_def tail_budget_def Let_def split: option.splits prod.splits if_splits)
  with assms st futex_wait_no_error [OF assms(1)] show ?thesis
    by (auto simp: wait_sleep_def Let_def split: tail_step.splits if_splits Option.bind_splits prod.splits)
qed

text \<open>A round before the gate opens only counts.\<close>

lemma lone_round_counts:
  assumes g: "guest pid a (ws_region st) (ws_nodes st)" and p: "patient a (ws_region st) (ws_seqs st)"
    and e: "lone pid env" "asleep env = id" and early: "\<forall>dl. wait_deadline a = Some dl \<longrightarrow> now_ns env < dl"
    and shut: "gate (ws_thread st) \<noteq> 0"
  obtains st' where "wait_round env cfg debug a st = Some (None, st')" "ws_seqs st' = ws_seqs st"
    "guest pid a (ws_region st') (ws_nodes st')" "bare (ws_region st') = bare (ws_region st)"
    "stamp (ws_region st') = stamp (ws_region st)" "Suc (gate (ws_thread st')) = gate (ws_thread st)"
proof -
  let ?rem = "map_option (\<lambda>dl. dl - now_ns env) (wait_deadline a)"
  obtain ns r t where r: "guest pid a r ns" "ns \<noteq> []" "bare r = bare (ws_region st)" "stamp r = stamp (ws_region st)"
    "sweep_calls t = sweep_calls (ws_thread st)"
    and w: "wait_round env cfg debug a st = do {
       (t2, r2) \<leftarrow> wait_sweep (sweep_os env) cfg t r;
       (t3, r3) \<leftarrow> wait_sleep env cfg ns ?rem debug t2 r2;
       Some (None, st\<lparr>ws_nodes := ns, ws_region := r3, ws_thread := t3\<rparr>) }"
    by (rule lone_round_begins [OF g p e(1) early, where cfg = cfg and debug = debug])
  have "sweep_calls t AND 0xFF \<noteq> 0" using shut r(5) gate_open [of "ws_thread st"] by simp
  then have sw: "wait_sweep (sweep_os env) cfg t r = Some (t\<lparr>sweep_calls := sweep_calls t + 1\<rparr>, r)"
    by (simp add: wait_sweep_def auto_sweep_dead_def Let_def)
  obtain t3 r3 where sl: "wait_sleep env cfg ns ?rem debug (t\<lparr>sweep_calls := sweep_calls t + 1\<rparr>) r = Some (t3, r3)" "guest pid a r3 ns"
    "bare r3 = bare (asleep env r)" "stamp r3 = stamp (asleep env r)"
    by (rule lone_sleep [where a = a and env = env and r = r and ns = ns and cfg = cfg and remaining = ?rem and debug = debug
          and t = "t\<lparr>sweep_calls := sweep_calls t + 1\<rparr>"]) (use e r(1) in \<open>auto simp: lone_def\<close>)
  have "sweep_calls t3 = sweep_calls (ws_thread st) + 1"
    using sweep_calls_sleep [OF _ sl(1)] e(1) r(5) by (simp add: lone_def)
  with gate_step [OF shut] have "Suc (gate t3) = gate (ws_thread st)" by blast
  then show ?thesis
    by (intro that [of "st\<lparr>ws_nodes := ns, ws_region := r3, ws_thread := t3\<rparr>"])
      (use w sw sl e(2) r in simp_all)
qed

subsection \<open>A loop of waits\<close>

text \<open>
  What the rounds of these waits meet: nobody else, the same processes alive, and a clock that is an
  interval past zero, which is what the hook for the tests sets the time of the last sweep to.
\<close>

definition sweeping :: "u32 \<Rightarrow> (u32 \<Rightarrow> bool) \<Rightarrow> Config \<Rightarrow> WaitEnv \<Rightarrow> bool" where
  "sweeping pid alive cfg env \<longleftrightarrow> lone pid env \<and> asleep env = id \<and> pid_alive (sweep_os env) = alive \<and>
     cfg_sweep_interval cfg \<noteq> 0 \<and> cfg_sweep_interval cfg \<le> clock_ns (sweep_os env) \<and>
     cfg_sweep_interval cfg \<le> locked_clock_ns (sweep_os env)"

lemma sweeping_due: "sweeping pid alive cfg env \<Longrightarrow> gate t = 0 \<Longrightarrow> sweep_due (sweep_os env) cfg t 0"
  by (simp add: sweeping_def sweep_due_def gate_open saturating_sub_def)

text \<open>The region before and after the sweep, as the waits see it.\<close>

definition unswept :: "Region \<Rightarrow> Region \<Rightarrow> bool" where
  "unswept r s \<longleftrightarrow> bare s = bare r \<and> stamp s = 0"

lemma purged_pids: "pid_alive os = pid_alive os' \<Longrightarrow> purged os r = purged os' r"
  using dead_slot_pids [of os os'] by (simp add: purged_def fun_eq_iff)

lemma swept_restful:
  assumes "sweeping pid (pid_alive os) cfg env" "bare s = purged os r"
  shows "restful pid s env"
proof -
  have "\<not> dead_slot (sweep_os env) (slots s i)" for i
    using purged_not_dead [OF assms(2), of i] assms(1) dead_slot_pids [of "sweep_os env" os] by (simp add: sweeping_def)
  with assms(1) show ?thesis by (simp add: restful_def sweeping_def)
qed

lemma loop_sweeps:
  assumes e: "\<forall>j. sweeping pid (pid_alive os) cfg (envs j)" and dl: "wait_deadline a = Some d" and late: "d \<le> now_ns (envs (k + m))"
    and w: "wanted_alive os r (wait_handles a)"
  shows "unswept r (ws_region st) \<Longrightarrow> guest pid a (ws_region st) (ws_nodes st) \<Longrightarrow> patient a (ws_region st) (ws_seqs st) \<Longrightarrow>
    \<exists>st'. wait_loop envs k cfg debug a st = Some (Returned Timeout, st') \<and> vacant (ws_region st') \<and>
      (bare (ws_region st') = purged os r \<or>
       unswept r (ws_region st') \<and> gate (ws_thread st') + of_bool (now_ns (envs k) < d) \<le> gate (ws_thread st))"
  using late
proof (induction m arbitrary: k st)
  case (0 k st)
  have e': "lone pid (envs k)" using e by (simp add: sweeping_def)
  obtain st' where "wait_round (envs k) cfg debug a st = Some (Some (Returned Timeout), st')" "vacant (ws_region st')"
    "bare (ws_region st') = bare (ws_region st)" "stamp (ws_region st') = stamp (ws_region st)" "ws_thread st' = ws_thread st"
    by (rule lone_round_late [OF 0(2,3) e' dl]) (use 0 in auto)
  with 0(1,4) show ?case by (subst wait_loop.simps) (auto simp: unswept_def)
next
  case (Suc m k st)
  have ek: "sweeping pid (pid_alive os) cfg (envs k)" "lone pid (envs k)" "asleep (envs k) = id"
    using e by (simp_all add: sweeping_def)
  note pre = Suc.prems
  have b: "bare (ws_region st) = bare r" "stamp (ws_region st) = 0" using pre(1) by (simp_all add: unswept_def)
  show ?case
  proof (cases "now_ns (envs k) < d")
    case False
    then have l: "d \<le> now_ns (envs k)" by simp
    obtain st' where "wait_round (envs k) cfg debug a st = Some (Some (Returned Timeout), st')" "vacant (ws_region st')"
      "bare (ws_region st') = bare (ws_region st)" "stamp (ws_region st') = stamp (ws_region st)" "ws_thread st' = ws_thread st"
      by (rule lone_round_late [OF pre(2,3) ek(2) dl l]) auto
    with pre(1) False show ?thesis by (subst wait_loop.simps) (auto simp: unswept_def)
  next
    case True
    then have early: "\<forall>dl. wait_deadline a = Some dl \<longrightarrow> now_ns (envs k) < dl" using dl by simp
    show ?thesis
    proof (cases "gate (ws_thread st) = 0")
      case True
      have due: "sweep_due (sweep_os (envs k)) cfg (ws_thread st) (stamp (ws_region st))"
        using sweeping_due [OF ek(1) True] b(2) by simp
      obtain st1 where st1: "wait_round (envs k) cfg debug a st = Some (None, st1)" "ws_seqs st1 = ws_seqs st"
        "guest pid a (ws_region st1) (ws_nodes st1)" "bare (ws_region st1) = purged (sweep_os (envs k)) (ws_region st)"
        by (rule lone_round_reaps [OF pre(2,3) ek(2,3) early due, where debug = debug]) blast
      have b1: "bare (ws_region st1) = purged os r"
        using st1(4) purged_bare [OF b(1)] purged_pids [of "sweep_os (envs k)" os] ek(1) by (simp add: sweeping_def)
      have p0: "patient a r (ws_seqs st)" using pre(3) patient_bare [OF b(1)] by simp
      have p1: "patient a (ws_region st1) (ws_seqs st1)" using patient_purged [OF b1 w p0] st1(2) by simp
      have e1: "\<forall>j. restful pid (ws_region st1) (envs j) \<and> asleep (envs j) = id"
        using swept_restful [OF e [rule_format] b1] e by (simp add: sweeping_def)
      have l1: "d \<le> now_ns (envs (Suc k + m))" using pre(4) by simp
      obtain st2 where "wait_loop envs (Suc k) cfg debug a st1 = Some (Returned Timeout, st2)" "vacant (ws_region st2)"
        "bare (ws_region st2) = bare (ws_region st1)"
        using lone_loop_timeout [OF e1 dl l1, of "\<lambda>_. True" st1 cfg debug] st1(3) p1 by auto
      with st1(1) b1 show ?thesis by (subst wait_loop.simps) auto
    next
      case False
      obtain st1 where st1: "wait_round (envs k) cfg debug a st = Some (None, st1)" "ws_seqs st1 = ws_seqs st"
        "guest pid a (ws_region st1) (ws_nodes st1)" "bare (ws_region st1) = bare (ws_region st)"
        "stamp (ws_region st1) = stamp (ws_region st)" "Suc (gate (ws_thread st1)) = gate (ws_thread st)"
        by (rule lone_round_counts [OF pre(2,3) ek(2,3) early False, where cfg = cfg and debug = debug]) blast
      have p1: "patient a (ws_region st1) (ws_seqs st1)" using pre(3) patient_bare [OF st1(4)] st1(2) by simp
      have u1: "unswept r (ws_region st1)" using pre(1) st1(4,5) by (simp add: unswept_def)
      have l1: "d \<le> now_ns (envs (Suc k + m))" using pre(4) by simp
      from Suc.IH [OF u1 st1(3) p1 l1] obtain st2 where
        "wait_loop envs (Suc k) cfg debug a st1 = Some (Returned Timeout, st2)" "vacant (ws_region st2)"
        "bare (ws_region st2) = purged os r \<or> unswept r (ws_region st2) \<and> gate (ws_thread st2) \<le> gate (ws_thread st1)"
        by auto
      with st1(1,6) True show ?thesis by (subst wait_loop.simps) auto
    qed
  qed
qed

text \<open>One such wait: it sweeps, or it brings the gate nearer.\<close>

lemma wait_sweeps_or_counts:
  assumes os: "undisturbed cos" and v: "vacant s" and a: "owner \<noteq> 0" "hs \<noteq> []" "length hs \<le> MAX_WAIT_COUNT" "distinct hs"
    and h: "waitable_handles s hs" "taken s hs owner wall" "wanted_alive os r hs"
    and e: "\<forall>j. sweeping pid (pid_alive os) cfg (envs j)" and u: "unswept r s"
    and dl: "d \<noteq> 0" "now_ns (envs 0) < start + d" "start + d \<le> now_ns (envs m)"
  obtains t' s' where "wait cos envs cfg debug start t s hs owner (Some d) wall 0 = Some (Returned Timeout, t', s')"
    "vacant s'" "bare s' = purged os r \<or> unswept r s' \<and> gate t' < gate t"
proof -
  let ?a = "plain_args hs owner (map_option (\<lambda>d. start + d) (Some d)) wall"
  obtain qs where p: "patient ?a s qs" and w: "wait cos envs cfg debug start t s hs owner (Some d) wall 0 =
       (if Some d = Some 0 then Some (Returned Timeout, t, s)
        else map_option (\<lambda>(x, st). (x, ws_thread st, ws_region st)) (wait_loop envs 0 cfg debug ?a
          \<lparr>ws_region = s, ws_thread = t, ws_nodes = [], ws_seqs = qs\<rparr>))"
    by (rule wait_taken_loop [OF os v a h(1,2)])
  let ?st = "\<lparr>ws_region = s, ws_thread = t, ws_nodes = [], ws_seqs = qs\<rparr>"
  have g: "guest pid ?a s []" using v by (simp add: vacant_guest)
  have l: "start + d \<le> now_ns (envs (0 + m))" using dl(3) by simp
  obtain st where "wait_loop envs 0 cfg debug ?a ?st = Some (Returned Timeout, st)" "vacant (ws_region st)"
      "bare (ws_region st) = purged os r \<or> unswept r (ws_region st) \<and> Suc (gate (ws_thread st)) \<le> gate t"
    using loop_sweeps [OF e _ l, of ?a r ?st debug] h(3) u g p dl(2) by auto
  with w dl(1) show ?thesis by (intro that [of "ws_thread st" "ws_region st"]) auto
qed

subsection \<open>Properties\<close>

text \<open>
  C13: an ordinary wait cleans up after dead processes. A wait with a timeout, on objects that are
  taken and alive, in which a sweep is due: it frees every object whose processes are all dead, and
  only those, times out all the same, gives its nodes back, leaves every other object as it was,
  and stamps the region with a time that it has read.
\<close>

theorem wait_reaps_dead:
  assumes "undisturbed os" "vacant r" "owner \<noteq> 0" "hs \<noteq> []" "length hs \<le> MAX_WAIT_COUNT" "distinct hs"
    and "waitable_handles r hs" "taken r hs owner wall" "wanted_alive (sweep_os (envs 0)) r hs"
    and "\<forall>j. lone pid (envs j) \<and> asleep (envs j) = id \<and> pid_alive (sweep_os (envs j)) = pid_alive (sweep_os (envs 0))"
    and "d \<noteq> 0" "now_ns (envs 0) < start + d" "start + d \<le> now_ns (envs m)"
    and "sweep_due (sweep_os (envs 0)) cfg t (sweep_ns (header r))"
  shows "\<exists>t' r'. wait os envs cfg debug start t r hs owner (Some d) wall 0 = Some (Returned Timeout, t', r') \<and> vacant r' \<and>
    (\<forall>i. bare r' i = (if dead_slot (sweep_os (envs 0)) (slots r i) then freed_slot (bare r i) else bare r i)) \<and>
    (\<exists>j. sweep_ns (header r') = locked_clock_ns (sweep_os (envs j)))"
proof -
  obtain t' r' where "wait os envs cfg debug start t r hs owner (Some d) wall 0 = Some (Returned Timeout, t', r')"
    "vacant r'" "bare r' = purged (sweep_os (envs 0)) r" "\<exists>j. stamp r' = locked_clock_ns (sweep_os (envs j))"
    by (rule wait_purges [where envs = envs and r = r and C = "\<lambda>c. \<exists>j. c = locked_clock_ns (sweep_os (envs j))",
          OF assms(1-9) assms(10) assms(11-14)]) blast
  then show ?thesis by (simp add: purged_def)
qed

text \<open>An event of process 7 and an event of process 42, which has died.\<close>

definition with_orphan :: Region where
  "with_orphan = upd_slot (two_objects TYPE_EVENT (pack_event False False) TYPE_EVENT (pack_event False True) 42) 1
     (\<lambda>s. s\<lparr>slot_pid := 7\<rparr>)"

definition sweeping_round :: "nat \<Rightarrow> WaitEnv" where
  "sweeping_round j = (quiet_round 7 j)\<lparr>sweep_os := after_death\<lparr>clock_ns := 40000000000, locked_clock_ns := 40000000001\<rparr>\<rparr>"

lemma with_orphan_vacant: "vacant with_orphan"
proof (rule vacantI)
  have "pool_rep with_orphan (\<lambda>_. []) []"
    unfolding with_orphan_def by (rule pool_repI) (auto simp: state_consts)
  moreover have "\<not> (3::u32) \<le> 1" "\<not> (3::u32) \<le> 2" "\<not> (16384::u32) \<le> 1" "\<not> (16384::u32) \<le> 2"
    by (simp_all add: word_le_nat_alt)
  ultimately show "region_rep with_orphan (\<lambda>_. []) []"
    using event_word_ok [of False False] event_word_ok [of False True]
    by (auto simp: with_orphan_def region_rep_def reserved_slot_def scan_cursor_def
        scan_wrapped_def SLOT_COUNT_def SCAN_WRAPPED_def state_consts intro!: holders_ok_empty)
qed (simp add: with_orphan_def node_held_def)

lemma with_orphan_simps [simp]:
  "slot with_orphan 1 = Some 1" "sweep_ns (header with_orphan) = 0"
  "obj_type (slots with_orphan 1) = TYPE_EVENT" "w0 (slots with_orphan 1) = pack_event False False"
  "dead_slot after_death (slots with_orphan i) \<longleftrightarrow> i = 2"
  by (auto simp: with_orphan_def slot_Some_iff INDEX_MASK_num INDEX_BITS_def two_objects_def one_object_def
      fresh_region_def init_region_def zero_region_def dead_slot_def spilled_def held_by_def state_consts holders_cap_def)

lemma lone_sweeping_round: "lone 7 (sweeping_round j)"
  by (simp add: lone_def sweeping_round_def quiet_round_def undisturbed_def pid_alive_def quiet_os_def after_death_def errno_consts)

theorem wait_reaps_dead_witness:
  "\<exists>t' r'. wait (quiet_os 7) sweeping_round (read_config (\<lambda>_. None)) False 0 new_thread with_orphan [1] 7 (Some 3) False 0 =
     Some (Returned Timeout, t', r') \<and> vacant r' \<and> bare r' 1 = bare with_orphan 1 \<and>
     bare r' 2 = freed_slot (bare with_orphan 2) \<and> sweep_ns (header r') = 40000000001"
proof -
  have i: "idx (1::u32) = 1" by (simp add: INDEX_MASK_num)
  have dead: "dead_slot (sweep_os (sweeping_round 0)) s = dead_slot after_death s" for s
    by (rule dead_slot_pids) (simp add: sweeping_round_def pid_alive_def fun_eq_iff)
  have w: "waitable_handles with_orphan [1]" by (simp add: waitable_handles_def waitable_def)
  have t: "taken with_orphan [1] 7 False"
    by (simp add: taken_def i wait_satisfied_def abs_object_def abs_event_def pack_event_def nt_wait_def type_consts)
  have al: "wanted_alive (sweep_os (sweeping_round 0)) with_orphan [1]" by (simp add: wanted_alive_def dead i)
  have e: "\<forall>j. lone 7 (sweeping_round j) \<and> asleep (sweeping_round j) = id \<and>
      pid_alive (sweep_os (sweeping_round j)) = pid_alive (sweep_os (sweeping_round 0))"
    by (simp add: lone_sweeping_round) (simp add: sweeping_round_def quiet_round_def)
  have due: "sweep_due (sweep_os (sweeping_round 0)) (read_config (\<lambda>_. None)) new_thread (sweep_ns (header with_orphan))"
    by (simp add: sweep_due_def sweeping_round_def saturating_sub_def read_config_def new_thread_def word_le_nat_alt
        sweep_interval_ns_def env_uint_def)
  have c: "(7::u32) \<noteq> 0" "[1::u32] \<noteq> []" "length [1::u32] \<le> MAX_WAIT_COUNT" "distinct [1::u32]" "(3::nat) \<noteq> 0"
    "now_ns (sweeping_round 0) < 0 + 3" "0 + 3 \<le> now_ns (sweeping_round 5)"
    by (simp_all add: MAX_WAIT_COUNT_def sweeping_round_def quiet_round_def)
  from wait_reaps_dead [where envs = sweeping_round, OF undisturbed_quiet with_orphan_vacant c(1-4) w t al e c(5-7) due, of 7 False]
  show ?thesis unfolding dead by (auto simp: sweeping_round_def)
qed

end
