(* ===== verification/Owners.thy ===== *)
theory Owners
  imports Process_Tests Wait_Reaps
begin

text \<open>
  What the table of objects does not show: who created an object and who holds it. \<open>own_table\<close> reads
  that off the region, \<open>owned\<close> is a region at rest with a given table and owners, and \<open>serves\<close> with
  its rules executes a program on both: creating, holding, setting, closing, and sweeps, which take
  just the objects whose processes are all dead.
\<close>

subsection \<open>Owners\<close>

text \<open>For each object: its creator, and its list of holders as the length word and the array.\<close>

type_synonym shelf = "u32 \<times> u32 list"

definition shelf :: "Slot \<Rightarrow> shelf" where
  "shelf s = (holders_len s, holders s)"

definition empty_shelf :: shelf where
  "empty_shelf = (0, replicate MAX_HOLDERS 0)"

type_synonym own_table = "u32 \<rightharpoonup> u32 \<times> shelf"

definition own_table :: "Region \<Rightarrow> own_table" where
  "own_table r h = (if nt_table r h = None then None
     else Some (slot_pid (slots r (h AND INDEX_MASK)), shelf (slots r (h AND INDEX_MASK))))"

definition owned :: "nat \<Rightarrow> nt_table \<Rightarrow> own_table \<Rightarrow> Region \<Rightarrow> bool" where
  "owned n t own r \<longleftrightarrow> settled n r \<and> nt_table r = t \<and> own_table r = own"

definition serves :: "nat \<Rightarrow> nt_table \<Rightarrow> own_table \<Rightarrow> nat \<Rightarrow> nt_table \<Rightarrow> own_table \<Rightarrow> (Region \<Rightarrow> Region option) \<Rightarrow> bool" where
  "serves n t own m t' own' f \<longleftrightarrow> (\<forall>r. owned n t own r \<longrightarrow> (\<exists>r'. f r = Some r' \<and> owned m t' own' r'))"

named_theorems serve_rules \<open>one step of a test that looks at owners\<close>

lemma servesD:
  assumes "serves n t own m t' own' f" "owned n t own r"
  obtains r' where "f r = Some r'" "owned m t' own' r'"
  using assms unfolding serves_def by blast

lemma serves_done [serve_rules]: "m \<le> n \<Longrightarrow> t = t' \<Longrightarrow> own = own' \<Longrightarrow> serves n t own m t' own' Some"
  using settled_less unfolding serves_def owned_def by blast

lemma serves_less: "serves n t own m t' own' f \<Longrightarrow> n \<le> n' \<Longrightarrow> serves n' t own m t' own' f"
  using settled_less unfolding serves_def owned_def by blast

lemma serves_bind: "serves n t own k t1 own1 f \<Longrightarrow> serves k t1 own1 m t' own' g \<Longrightarrow> serves n t own m t' own' (\<lambda>r. Option.bind (f r) g)"
  unfolding serves_def by fastforce

text \<open>Where a call leads from one table and owners to others, the rest of the test goes on from there.\<close>

lemma serves_step:
  assumes "\<And>r. owned n t own r \<Longrightarrow> \<exists>r1. op r = Some (x, r1) \<and> owned n1 t1 own1 r1" "serves n1 t1 own1 m t' own' (K x)"
  shows "serves n t own m t' own' (\<lambda>r. Option.bind (op r) (case_prod K))"
  unfolding serves_def
proof (intro allI impI)
  fix r assume "owned n t own r"
  from assms(1) [OF this] obtain r1 where "op r = Some (x, r1)" "owned n1 t1 own1 r1" by blast
  with assms(2) show "\<exists>r'. Option.bind (op r) (case_prod K) = Some r' \<and> owned m t' own' r'"
    unfolding serves_def by fastforce
qed

lemma owned_slot:
  assumes "owned n t own r" "t h \<noteq> None"
  shows "slot r h = Some (h AND INDEX_MASK)" "h AND INDEX_MASK \<noteq> 0"
  using assms nt_table_valid [of n r h] by (auto simp: owned_def slot_Some_iff)

lemma own_table_cong:
  assumes "nt_table r' = nt_table r" "\<And>i. slot_pid (slots r' i) = slot_pid (slots r i) \<and> shelf (slots r' i) = shelf (slots r i)"
  shows "own_table r' = own_table r"
  using assms by (simp add: own_table_def fun_eq_iff)

lemma owned_locked: "owned n t own r \<Longrightarrow> owned n t own (guard_drop (lock_mark os r))"
  using settled_locked [of n r os] own_table_cong [of "guard_drop (lock_mark os r)" r] by (auto simp: owned_def)

text \<open>Creating an event.\<close>

lemma create_event_shelf:
  assumes "undisturbed os" "create_event os r man sig = Some (Inr h, r')"
  shows "shelf (slots r' (h AND INDEX_MASK)) = empty_shelf"
  using create_object_published [OF assms(1), of r TYPE_EVENT "pack_event sig man" h r'] assms(2)
  by (auto simp: create_event_def slot_publish_def shelf_def empty_shelf_def)

lemma serves_create_event [serve_rules]:
  assumes p: "calm p" and room: "card (dom t) < 16383"
    and k: "\<And>h. t h = None \<Longrightarrow> h AND INDEX_MASK \<noteq> 0 \<Longrightarrow>
      serves n (t(h \<mapsto> NtEvent man sig)) (own(h \<mapsto> (getpid (c_os p), empty_shelf))) m t' own' (K (Inr h))"
  shows "serves n t own m t' own' (\<lambda>r. Option.bind (create_event (c_os p) r man sig) (case_prod K))"
  unfolding serves_def
proof (intro allI impI)
  fix r assume o: "owned n t own r"
  then have s: "settled n r" and t: "nt_table r = t" by (simp_all add: owned_def)
  obtain h r1 where c: "create_event (c_os p) r man sig = Some (Inr h, r1)" "settled n r1" "nt_table r h = None"
    "nt_table r1 = (nt_table r)(h \<mapsto> NtEvent man sig)" "slot r1 h = Some (h AND INDEX_MASK)" "h AND INDEX_MASK \<noteq> 0"
    "orphan (getpid (c_os p)) (slots r1 (h AND INDEX_MASK))" "\<forall>j. j \<noteq> h AND INDEX_MASK \<longrightarrow> slots r1 j = slots r j"
    by (rule create_event_slot [OF p s]) (use room t in simp)
  have "own_table r1 h' = (own(h \<mapsto> (getpid (c_os p), empty_shelf))) h'" for h'
  proof (cases "h' = h")
    case True
    with c(4,7) create_event_shelf [OF calm_os(1) [OF p] c(1)] show ?thesis by (simp add: own_table_def orphan_def)
  next
    case False
    have "h' AND INDEX_MASK \<noteq> h AND INDEX_MASK" if "nt_table r1 h' \<noteq> None"
      using nt_table_valid [OF c(2), of h'] that slot_inj [OF _ c(5), of h'] False by (auto simp: slot_Some_iff)
    with False c(4,8) o show ?thesis by (auto simp: own_table_def owned_def)
  qed
  with c t have o1: "owned n (t(h \<mapsto> NtEvent man sig)) (own(h \<mapsto> (getpid (c_os p), empty_shelf))) r1"
    by (simp add: owned_def fun_eq_iff)
  have th: "t h = None" using c(3) t by simp
  obtain r' where "K (Inr h) r1 = Some r'" "owned m t' own' r'" by (rule servesD [OF k [OF th c(6)] o1])
  with c(1) show "\<exists>r'. Option.bind (create_event (c_os p) r man sig) (case_prod K) = Some r' \<and>
      owned m t' own' r'" by simp
qed

text \<open>Holding.\<close>

definition on_shelf :: "(Slot \<Rightarrow> u32 \<Rightarrow> Slot) \<Rightarrow> u32 \<Rightarrow> shelf \<Rightarrow> shelf" where
  "on_shelf f pid v = shelf (f (zero_slot\<lparr>holders_len := fst v, holders := snd v\<rparr>) pid)"

lemma on_shelf_eq:
  "shelf (holder_add s pid) = on_shelf holder_add pid (shelf s)"
  "shelf (holder_remove s pid) = on_shelf holder_remove pid (shelf s)"
  by (simp_all add: on_shelf_def shelf_def holder_add_def holder_remove_def Let_def split: option.split)

lemma serves_holder_op:
  assumes os: "undisturbed os" and f: "f = holder_add \<or> f = holder_remove" and h: "t h \<noteq> None" "own h = Some (pid, v)"
    and k: "serves n t (own(h \<mapsto> (pid, on_shelf f (getpid os) v))) m t' own' (K (Inr ()))"
  shows "serves n t own m t' own' (\<lambda>r. Option.bind (holder_op f os r h) (case_prod K))"
proof (rule serves_step [where K = K and x = "Inr ()", OF _ k])
  fix r assume o: "owned n t own r"
  then have s: "settled n r" "nt_table r = t" by (simp_all add: owned_def)
  note i = owned_slot [OF o h(1)]
  have ok: "\<And>s. holders_ok s \<Longrightarrow> holders_ok (f s (getpid os))" "\<And>s. state (f s (getpid os)) = state s"
      "\<And>s. generation (f s (getpid os)) = generation s" "\<And>s. obj_type (f s (getpid os)) = obj_type s"
      "\<And>s. slot_pid (f s (getpid os)) = slot_pid s" "\<And>s. waiter_head (f s (getpid os)) = waiter_head s" "\<And>s. w0 (f s (getpid os)) = w0 s"
    using f holder_add_set holder_remove_set by auto
  let ?r = "guard_drop (upd_slot (lock_mark os r) (h AND INDEX_MASK) (\<lambda>s. f s (getpid os)))"
  note run = holder_op_undisturbed [OF os i, of f]
  obtain r' where "holder_op f os r h = Some (if nt_table r h = None then Inl Invalid else Inr (), r')" "settled n r'"
    "nt_table r' = nt_table r" by (rule holder_op_implements [where f = f, OF os s(1) ok])
  with run h(1) s(2) have r': "settled n ?r" "nt_table ?r = t" by simp_all
  have "own_table ?r h' = (own(h \<mapsto> (pid, on_shelf f (getpid os) v))) h'" for h'
  proof (cases "h' = h")
    case True
    have "shelf (slots r (h AND INDEX_MASK)) = v" "slot_pid (slots r (h AND INDEX_MASK)) = pid"
      using o h by (auto simp: owned_def own_table_def split: if_splits)
    with True r'(2) h(1) f show ?thesis using on_shelf_eq by (auto simp: own_table_def)
  next
    case False
    have "h' AND INDEX_MASK \<noteq> h AND INDEX_MASK" if "t h' \<noteq> None"
      using owned_slot(1) [OF o that] slot_inj [OF _ i(1), of h'] False by auto
    with False r'(2) o show ?thesis by (auto simp: own_table_def owned_def)
  qed
  with run r' show "\<exists>r1. holder_op f os r h = Some (Inr (), r1) \<and> owned n t (own(h \<mapsto> (pid, on_shelf f (getpid os) v))) r1"
    by (simp add: owned_def fun_eq_iff)
qed

lemma serves_retain_some:
  assumes "calm p" "t h \<noteq> None" "case own h of None \<Rightarrow> False
    | Some (pid, v) \<Rightarrow> serves n t (own(h \<mapsto> (pid, on_shelf holder_add (getpid (c_os p)) v))) m t' own' (K (Inr ()))"
  shows "serves n t own m t' own' (\<lambda>r. Option.bind (retain (c_os p) r h) (case_prod K))"
proof -
  obtain pid v where o: "own h = Some (pid, v)" using assms(3) by (auto split: option.splits)
  with assms(3) show ?thesis
    unfolding retain_def
    by (intro serves_holder_op [where f = holder_add and K = K and t = t and own = own and h = h, OF calm_os(1) [OF assms(1)] _ assms(2) o]) simp_all
qed

lemma serves_release [serve_rules]:
  assumes "calm p" "t h \<noteq> None" "case own h of None \<Rightarrow> False
    | Some (pid, v) \<Rightarrow> serves n t (own(h \<mapsto> (pid, on_shelf holder_remove (getpid (c_os p)) v))) m t' own' (K (Inr ()))"
  shows "serves n t own m t' own' (\<lambda>r. Option.bind (release (c_os p) r h) (case_prod K))"
proof -
  obtain pid v where o: "own h = Some (pid, v)" using assms(3) by (auto split: option.splits)
  with assms(3) show ?thesis
    unfolding release_def
    by (intro serves_holder_op [where f = holder_remove and K = K and t = t and own = own and h = h, OF calm_os(1) [OF assms(1)] _ assms(2) o]) simp_all
qed

definition shown :: "shelf \<Rightarrow> u32 \<times> u32 list" where
  "shown v = (fst v, take (min (unat (fst v AND NOT HOLDER_OVERFLOW)) MAX_HOLDERS) (snd v))"

lemma serves_test_holders_some:
  assumes p: "calm p" and h: "t h \<noteq> None" and k: "case own h of None \<Rightarrow> False | Some v \<Rightarrow> serves n t own m t' own' (K (Some (shown (snd v))))"
  shows "serves n t own m t' own' (\<lambda>r. Option.bind (test_holders (c_os p) r h) (case_prod K))"
proof -
  obtain v where v: "own h = Some v" "serves n t own m t' own' (K (Some (shown (snd v))))" using k by (auto split: option.splits)
  show ?thesis
  proof (rule serves_step [where K = K and x = "Some (shown (snd v))", OF _ v(2)])
    fix r assume o: "owned n t own r"
    then have "snd v = shelf (slots r (h AND INDEX_MASK))" using h v(1) by (auto simp: owned_def own_table_def split: if_splits)
    then have "test_holders (c_os p) r h = Some (Some (shown (snd v)), guard_drop (lock_mark (c_os p) r))"
      using owned_slot [OF o h]
      by (simp add: test_holders_def with_lock_undisturbed [OF calm_os(1) [OF p]] Let_def shelf_def shown_def)
    with owned_locked [OF o] show "\<exists>r1. test_holders (c_os p) r h = Some (Some (shown (snd v)), r1) \<and> owned n t own r1" by blast
  qed
qed

text \<open>Setting an event changes no owner.\<close>

lemma event_set_owners:
  assumes "undisturbed os" "settled n r" "event_set os r h = Some (x, r')"
  shows "slot_pid (slots r' i) = slot_pid (slots r i) \<and> shelf (slots r' i) = shelf (slots r i)"
proof -
  obtain F where R: "region_rep r (\<lambda>_. []) F" by (rule settled_rep [OF assms(2)])
  show ?thesis
  proof (cases "slot_of_type r h TYPE_EVENT")
    case (Inl e)
    with assms(3) show ?thesis using signal_invalid [of r h TYPE_EVENT e os event_set_body] by (simp add: event_set_def)
  next
    case (Inr j)
    obtain res wake w' r0 where at: "atomically event_set_body j r = ((res, wake), r0)" "r0 = r \<or> r0 = put_word r j w'"
      by (cases "lo32 (w0 (slots r j)) = 0") (auto simp: atomically_def event_set_body_def Let_def)
    have u: "word_update (word_ok TYPE_EVENT) event_set_body" using body_ok(2) by (simp add: word_ok_types)
    obtain r1 where "signal_op os r h TYPE_EVENT event_set_body = Some (res, r1)"
      "woken r0 (if wake then [] else []) r1"
      by (rule signal_op_undisturbed [OF assms(1) R Inr u at(1)]) auto
    with assms(3) have b: "bare r' = bare r0" using woken_bare by (auto simp: event_set_def)
    from at(2) show ?thesis using bareD(4,5,8) [OF b, of i] by (auto simp: shelf_def put_word_def)
  qed
qed

lemma answered_Count: "answered Count y = Some (Count k, r') \<Longrightarrow> y = Some (Inr k, r')"
  by (cases y) (auto simp: answered_def outcome_def split: sum.splits)

lemma serves_set_event:
  assumes p: "calm p" and h: "t h = Some (NtEvent man sg)"
    and k: "serves n (t(h \<mapsto> NtEvent man True)) own m t' own' (K (Inr (of_bool sg)))"
  shows "serves n t own m t' own' (\<lambda>r. Option.bind (event_set (c_os p) r h) (case_prod K))"
proof (rule serves_step [where K = K and x = "Inr (of_bool sg)", OF _ k])
  fix r assume o: "owned n t own r"
  then have s: "settled n r" "nt_table r = t" by (simp_all add: owned_def)
  obtain res r1 where r1: "run_call p (EventSet h) r = Some (res, r1)" "settled n r1" "nt_step (EventSet h) t res (nt_table r1)"
    using event_set_implements [OF p s(1)] s(2) unfolding implements_def by blast
  from r1(3) h have e: "res = Count (of_bool sg)" "nt_table r1 = t(h \<mapsto> NtEvent man True)"
    by (auto elim!: nt_step_exec simp: nt_exec_def)
  with r1(1) have c: "event_set (c_os p) r h = Some (Inr (of_bool sg), r1)"
    using answered_Count [of "event_set (c_os p) r h"] by (auto simp: run_call_def)
  have "own_table r1 = own_table r"
    by (rule ext) (use event_set_owners [OF calm_os(1) [OF p] s(1) c] e(2) h s(2) in \<open>simp add: own_table_def\<close>)
  with c r1(2) e(2) show "\<exists>r1. event_set (c_os p) r h = Some (Inr (of_bool sg), r1) \<and> owned n (t(h \<mapsto> NtEvent man True)) own r1"
    using o by (auto simp: owned_def)
qed

lemma serves_event_set [serve_rules]:
  assumes "calm p" "case t h of Some (NtEvent man sg) \<Rightarrow> serves n (t(h \<mapsto> NtEvent man True)) own m t' own' (K (Inr (of_bool sg)))
    | _ \<Rightarrow> False"
  shows "serves n t own m t' own' (\<lambda>r. Option.bind (event_set (c_os p) r h) (case_prod K))"
  using assms by (auto intro: serves_set_event split: option.splits nt_object.splits)

text \<open>Sweeps: every object goes whose creator is dead and whose holders are.\<close>

definition lapsed :: "Os \<Rightarrow> u32 \<times> shelf \<Rightarrow> bool" where
  "lapsed os v \<longleftrightarrow> fst v \<noteq> 0 \<and> fst (snd v) AND HOLDER_OVERFLOW = 0 \<and> \<not> pid_alive os (fst v) \<and>
     (\<forall>p\<in>set (snd (shown (snd v))). \<not> pid_alive os p)"

definition survivors :: "Os \<Rightarrow> own_table \<Rightarrow> (u32 \<rightharpoonup> 'a) \<Rightarrow> u32 \<rightharpoonup> 'a" where
  "survivors os own t h = (case own h of Some v \<Rightarrow> if lapsed os v then None else t h | None \<Rightarrow> None)"

lemma lapsed_dead:
  "state s = SLOT_USED \<Longrightarrow> lapsed os (slot_pid s, shelf s) \<longleftrightarrow> dead_slot os s"
  by (auto simp: lapsed_def dead_slot_def shelf_def shown_def held_by_def holders_cap_def spilled_def)

lemma owned_used:
  assumes "owned n t own r" "t h \<noteq> None"
  shows "own h = Some (slot_pid (slots r (h AND INDEX_MASK)), shelf (slots r (h AND INDEX_MASK)))"
    "state (slots r (h AND INDEX_MASK)) = SLOT_USED"
  using assms owned_slot(1) [OF assms] by (auto simp: owned_def own_table_def slot_Some_iff)

lemma owned_purged:
  assumes o: "owned (Suc n) t own r" and v: "vacant r'" and b: "bare r' = purged os r"
  shows "owned n (survivors os own t) (survivors os own own) r'"
proof -
  have s: "settled (Suc n) r" "nt_table r = t" using o by (simp_all add: owned_def)
  let ?D = "{i. dead_slot os (slots r i)}"
  have f: "\<forall>i\<in>?D. state (slots r' i) = SLOT_FREE \<and> generation (slots r' i) = generation (slots r i) + 1"
  proof
    fix i assume "i \<in> ?D"
    then have "bare r' i = freed_slot (bare r i)" by (simp add: b purged_def)
    then show "state (slots r' i) = SLOT_FREE \<and> generation (slots r' i) = generation (slots r i) + 1"
      using bare_sel(1,2) [of r' i] bare_sel(2) [of r i] by (simp add: freed_slot_def)
  qed
  have k: "\<forall>i. i \<notin> ?D \<longrightarrow> bare r' i = bare r i" by (simp add: b purged_def)
  note z = freed_all_settled [OF s(1) v f k]
  have dead: "lapsed os (the (own h)) \<longleftrightarrow> dead_slot os (slots r (h AND INDEX_MASK))" if "t h \<noteq> None" for h
    using owned_used [OF o that] lapsed_dead by simp
  have none: "own h = None \<longleftrightarrow> t h = None" for h using o by (auto simp: owned_def own_table_def split: if_splits)
  have t: "nt_table r' = survivors os own t"
  proof
    fix h show "nt_table r' h = survivors os own t h"
      using z(2) [of h] dead [of h] none [of h] s(2) by (auto simp: survivors_def split: option.split)
  qed
  have "own_table r' h = survivors os own own h" for h
  proof (cases "nt_table r' h = None")
    case True
    then show ?thesis using fun_cong [OF t, of h] none [of h] by (auto simp: own_table_def survivors_def split: option.splits if_splits)
  next
    case False
    then have "h AND INDEX_MASK \<notin> ?D" "t h \<noteq> None" using z(2) [of h] s(2) by (auto split: if_splits)
    with False k bareD(4,5,8) [of r' r] owned_used(1) [OF o, of h] dead [of h] show ?thesis
      using bare_sel(4,5,8) [of r' "h AND INDEX_MASK"] bare_sel(4,5,8) [of r "h AND INDEX_MASK"]
      by (auto simp: own_table_def survivors_def shelf_def)
  qed
  with z(1) t show ?thesis by (simp add: owned_def fun_eq_iff)
qed



lemma survivors_upd:
  "survivors os (own(h \<mapsto> v)) (t(h := x)) = (survivors os own t)(h := if lapsed os v then None else x)"
  by (rule ext) (auto simp: survivors_def split: option.split)

lemma survivors_all:
  assumes "\<forall>h. own h = None \<longleftrightarrow> t h = None" "\<forall>h v. own h = Some v \<longrightarrow> \<not> lapsed os v"
  shows "survivors os own t = t" "survivors os own own = own"
proof -
  have "survivors os own f x = f x" if "own x = None \<longrightarrow> f x = None" for f :: "u32 \<rightharpoonup> 'z" and x
    using assms(2) that by (auto simp: survivors_def split: option.split)
  with assms(1) show "survivors os own t = t" "survivors os own own = own" by (auto simp: fun_eq_iff)
qed

lemma undead_owners:
  assumes "settled n r" "\<forall>i. \<not> dead_slot os (slots r i)"
  shows "\<forall>h. own_table r h = None \<longleftrightarrow> nt_table r h = None" "\<forall>h v. own_table r h = Some v \<longrightarrow> \<not> lapsed os v"
proof -
  have o: "owned n (nt_table r) (own_table r) r" using assms(1) by (simp add: owned_def)
  show "\<forall>h. own_table r h = None \<longleftrightarrow> nt_table r h = None" by (simp add: own_table_def)
  show "\<forall>h v. own_table r h = Some v \<longrightarrow> \<not> lapsed os v"
  proof (intro allI impI)
    fix h v assume v: "own_table r h = Some v"
    then have "nt_table r h \<noteq> None" by (auto simp: own_table_def split: if_splits)
    from owned_used [OF o this] v assms(2) lapsed_dead [of "slots r (idx h)" os] show "\<not> lapsed os v" by simp
  qed
qed

text \<open>An explicit sweep of a region in which every object has somebody.\<close>

lemma serves_sweep_dead:
  assumes os: "undisturbed (c_os p)" and a: "survivors (c_os p) own own = own" and k: "serves n t own m t' own' (K (Inr 0))"
  shows "serves n t own m t' own' (\<lambda>r. Option.bind (sweep_dead (c_os p) r) (case_prod K))"
proof (rule serves_step [where K = K and x = "Inr 0", OF _ k])
  fix r assume o: "owned n t own r"
  then have s: "settled n r" "nt_table r = t" by (simp_all add: owned_def)
  obtain F where R: "region_rep r (\<lambda>_. []) F" and g: "\<forall>x. registered (nodes r x) = 0" by (rule settled_rep [OF s(1)]) blast
  have "\<not> dead_slot (c_os p) (slots r i)" for i
  proof
    assume d: "dead_slot (c_os p) (slots r i)"
    then have u: "state (slots r i) = SLOT_USED" "slot_pid (slots r i) \<noteq> 0" by (simp_all add: dead_slot_def)
    moreover have "i \<noteq> 0" using u region_reserved [OF R] by (auto simp: reserved_slot_def)
    ultimately have "i \<in> (\<lambda>h. h AND INDEX_MASK) ` dom (nt_table r)" using bij_betw_imp_surj_on [OF dom_table [OF s(1)]] by blast
    then obtain h where h: "t h \<noteq> None" "h AND INDEX_MASK = i" using s(2) by auto
    with owned_used [OF o h(1)] d lapsed_dead [of "slots r i" "c_os p"] have "survivors (c_os p) own own h = None" "own h \<noteq> None"
      by (simp_all add: survivors_def)
    with a show False by simp
  qed
  with g have "nobody_dead (c_os p) r" by (simp add: nobody_dead_def dead_node_def)
  then have "nobody_dead (c_os p) (lock_mark (c_os p) r)" using nobody_dead_cong [of "lock_mark (c_os p) r" r] by simp
  then have "sweep_dead (c_os p) r = Some (Inr 0, guard_drop (lock_mark (c_os p) r))"
    by (simp add: sweep_dead_def with_lock_undisturbed [OF os] sweep_dead_idle)
  with owned_locked [OF o] show "\<exists>r1. sweep_dead (c_os p) r = Some (Inr 0, r1) \<and> owned n t own r1" by blast
qed

text \<open>Closing an object.\<close>

lemma serves_close [serve_rules]:
  assumes p: "calm p" and h: "t h \<noteq> None" and k: "serves n (t(h := None)) (own(h := None)) m t' own' (K True)"
  shows "serves (Suc n) t own m t' own' (\<lambda>r. Option.bind (close (c_os p) r h) (case_prod K))"
proof (rule serves_step [where K = K and x = True, OF _ k])
  fix r assume o: "owned (Suc n) t own r"
  then have s: "settled (Suc n) r" "nt_table r = t" by (simp_all add: owned_def)
  note i = owned_slot [OF o h]
  obtain F where R: "region_rep r (\<lambda>_. []) F" and f: "\<forall>x. \<not> node_held r F x" by (rule settled_rep [OF s(1)])
  obtain r' where r': "close (c_os p) r h = Some (True, r')" "region_rep r' ((\<lambda>_. [])(h AND INDEX_MASK := [])) F"
    "state (slots r' (h AND INDEX_MASK)) = SLOT_FREE"
    "generation (slots r' (h AND INDEX_MASK)) = generation (slots r (h AND INDEX_MASK)) + 1"
    "\<forall>j. j \<noteq> h AND INDEX_MASK \<longrightarrow> bare r' j = bare r j" "node_fresh (header r') = node_fresh (header r)"
    by (rule close_run [OF calm_os(1) [OF p] R i]) blast
  have n: "settled n r'" "nt_table r' = t(h := None)"
    using freed_settled [OF s(1) i(1) vacant_same [OF r'(2) f r'(6)] r'(3-5)] s(2) by simp_all
  have "own_table r' h' = (own(h := None)) h'" for h'
  proof (cases "h' = h \<or> t h' = None")
    case True
    with n(2) o show ?thesis by (auto simp: own_table_def owned_def)
  next
    case False
    then have "h' AND INDEX_MASK \<noteq> h AND INDEX_MASK" using owned_slot(1) [OF o, of h'] slot_inj [OF _ i(1), of h'] by auto
    with r'(5) have b: "bare r' (h' AND INDEX_MASK) = bare r (h' AND INDEX_MASK)" by blast
    note bs = bare_sel(4,5,8) [of r' "h' AND INDEX_MASK"] bare_sel(4,5,8) [of r "h' AND INDEX_MASK"]
    have "own_table r' h' = own_table r h'"
      using False n(2) s(2) bs unfolding b by (simp add: own_table_def shelf_def)
    with False o show ?thesis by (simp add: owned_def)
  qed
  with r'(1) n show "\<exists>r1. close (c_os p) r h = Some (True, r1) \<and> owned n (t(h := None)) (own(h := None)) r1"
    by (simp add: owned_def fun_eq_iff)
qed

text \<open>After the object is gone.\<close>

lemma serves_test_holders_gone:
  assumes p: "calm p" and h: "t h = None" "h AND INDEX_MASK \<noteq> 0" and k: "serves n t own m t' own' (K None)"
  shows "serves n t own m t' own' (\<lambda>r. Option.bind (test_holders (c_os p) r h) (case_prod K))"
proof (rule serves_step [where K = K and x = None, OF _ k])
  fix r assume o: "owned n t own r"
  then have "slot r h = None" using nt_table_valid [of n r h] h by (simp add: owned_def)
  then have "test_holders (c_os p) r h = Some (None, guard_drop (lock_mark (c_os p) r))"
    by (auto simp: test_holders_def with_lock_undisturbed [OF calm_os(1) [OF p]])
  with owned_locked [OF o] show "\<exists>r1. test_holders (c_os p) r h = Some (None, r1) \<and> owned n t own r1" by blast
qed

lemma serves_retain_gone:
  assumes p: "calm p" and h: "t h = None" "h AND INDEX_MASK \<noteq> 0" and k: "serves n t own m t' own' (K (Inl Invalid))"
  shows "serves n t own m t' own' (\<lambda>r. Option.bind (retain (c_os p) r h) (case_prod K))"
proof (rule serves_step [where K = K and x = "Inl Invalid", OF _ k])
  fix r assume o: "owned n t own r"
  then have "slot r h = None" using nt_table_valid [of n r h] h by (simp add: owned_def)
  then have "retain (c_os p) r h = Some (Inl Invalid, guard_drop (lock_mark (c_os p) r))"
    using h(2) by (simp add: retain_def holder_op_def with_lock_undisturbed [OF calm_os(1) [OF p]])
  with owned_locked [OF o] show "\<exists>r1. retain (c_os p) r h = Some (Inl Invalid, r1) \<and> owned n t own r1" by blast
qed

lemma serves_test_holders [serve_rules]:
  assumes "calm p" "h AND INDEX_MASK \<noteq> 0" "case own h of None \<Rightarrow> t h = None \<and> serves n t own m t' own' (K None)
    | Some v \<Rightarrow> t h \<noteq> None \<and> serves n t own m t' own' (K (Some (shown (snd v))))"
  shows "serves n t own m t' own' (\<lambda>r. Option.bind (test_holders (c_os p) r h) (case_prod K))"
  using assms serves_test_holders_some [where p = p and K = K] serves_test_holders_gone [where p = p and K = K]
  by (auto split: option.splits)

lemma serves_retain [serve_rules]:
  assumes "calm p" "h AND INDEX_MASK \<noteq> 0" "case own h of None \<Rightarrow> t h = None \<and> serves n t own m t' own' (K (Inl Invalid))
    | Some (pid, v) \<Rightarrow> t h \<noteq> None \<and> serves n t (own(h \<mapsto> (pid, on_shelf holder_add (getpid (c_os p)) v))) m t' own' (K (Inr ()))"
  shows "serves n t own m t' own' (\<lambda>r. Option.bind (retain (c_os p) r h) (case_prod K))"
  using assms serves_retain_some [where p = p and K = K] serves_retain_gone [where p = p and K = K]
  by (auto split: option.splits)

text \<open>Whether a handle can be read is a matter of the table.\<close>

lemma serves_readable_event [serve_rules]:
  assumes "case t h of Some (NtEvent man sg) \<Rightarrow> serves n t own m t' own' K | _ \<Rightarrow> False"
  shows "serves n t own m t' own' (\<lambda>r. if \<not> isl (read_event r h) then K r else None)"
  using assms read_table(3) by (auto simp: serves_def owned_def split: option.splits nt_object.splits)

lemma serves_unreadable_event [serve_rules]:
  assumes h: "t h = None" "h AND INDEX_MASK \<noteq> 0" and k: "serves n t own m t' own' K"
  shows "serves n t own m t' own' (\<lambda>r. if isl (read_event r h) then K r else None)"
  unfolding serves_def
proof (intro allI impI)
  fix r assume o: "owned n t own r"
  then have "slot r h = None" using nt_table_valid [of n r h] h by (simp add: owned_def)
  then have "isl (read_event r h)" using h(2) by (simp add: read_event_def slot_of_type_def)
  with k o show "\<exists>r'. (if isl (read_event r h) then K r else None) = Some r' \<and> owned m t' own' r'"
    by (auto simp: serves_def)
qed

text \<open>Every region at rest has owners.\<close>

lemma serves_settled:
  assumes "\<And>own. dom own = dom t \<Longrightarrow> serves n t own m t' own f" "settled n r" "nt_table r = t"
  obtains r' where "f r = Some r'" "settled m r'" "nt_table r' = t'" "own_table r' = own_table r"
proof -
  have "dom (own_table r) = dom t" using assms(3) by (auto simp: own_table_def dom_def)
  then show ?thesis
    by (rule servesD [OF assms(1)]) (use assms(2,3) that in \<open>auto simp: owned_def\<close>)
qed

end
