(* ===== verification/Soak_Tests.thy ===== *)
theory Soak_Tests
  imports Sequential_Tests Owners
begin

text \<open>
  The soak tests of \<^verbatim>\<open>soak.rs\<close> about the lists of holders and about handles that outlive their
  creator, executed on tables and owners. \<open>trigger_sweeps\<close> is the loop of timed waits that the tests
  use to make sweeps happen; that it sweeps is proved.
\<close>

subsection \<open>Waits that make sweeps happen\<close>

primrec trigger_waits :: "(nat \<Rightarrow> Caller) \<Rightarrow> u32 \<Rightarrow> u32 \<Rightarrow> nat \<Rightarrow> Thread \<Rightarrow> Region \<Rightarrow> (Thread \<times> Region) option" where
  "trigger_waits p ev me 0 t r = Some (t, r)"
| "trigger_waits p ev me (Suc k) t r = do {
     (_, t1, r1) \<leftarrow> wait_any (c_os (p k)) (c_envs (p k)) (c_cfg (p k)) (c_debug (p k)) (c_start (p k)) t r [ev] me
       (Some (from_millis 1)) 0;
     trigger_waits p ev me k t1 r1
   }"

definition trigger_sweeps :: "(nat \<Rightarrow> Caller) \<Rightarrow> u32 \<Rightarrow> u32 \<Rightarrow> nat \<Rightarrow> Thread \<Rightarrow> Region \<Rightarrow> (Thread \<times> Region) option" where
  "trigger_sweeps p ev me calls t r = trigger_waits p ev me calls t (test_reset_sweep_clock r)"

text \<open>
  What the caller of a wait of length \<open>d\<close> meets: nobody else, the processes of \<open>alive\<close>, and time for at
  least one sleep before its deadline.
\<close>

definition pacing_for :: "nat \<Rightarrow> u32 \<Rightarrow> (u32 \<Rightarrow> bool) \<Rightarrow> Caller \<Rightarrow> bool" where
  "pacing_for d me alive p \<longleftrightarrow> undisturbed (c_os p) \<and> (\<forall>j. sweeping me alive (c_cfg p) (c_envs p j)) \<and>
     now_ns (c_envs p 0) < c_start p + d \<and> (\<exists>m. c_start p + d \<le> now_ns (c_envs p m))"

definition pacing :: "u32 \<Rightarrow> (u32 \<Rightarrow> bool) \<Rightarrow> Caller \<Rightarrow> bool" where
  "pacing = pacing_for (from_millis 1)"

lemma trigger_waits_swept:
  assumes p: "\<forall>k. pacing me (pid_alive os) (p k)" and me: "me \<noteq> 0"
    and h: "waitable_handles r [ev]" "taken r [ev] me False" "wanted_alive os r [ev]"
  shows "vacant s \<Longrightarrow> bare s = purged os r \<or> unswept r s \<and> gate t < calls \<Longrightarrow>
    \<exists>t' s'. trigger_waits p ev me calls t s = Some (t', s') \<and> vacant s' \<and> bare s' = purged os r"
proof (induction calls arbitrary: t s)
  case (Suc k)
  obtain m where p': "undisturbed (c_os (p k))" "\<forall>j. sweeping me (pid_alive os) (c_cfg (p k)) (c_envs (p k) j)"
    "now_ns (c_envs (p k) 0) < c_start (p k) + from_millis 1" "c_start (p k) + from_millis 1 \<le> now_ns (c_envs (p k) m)"
    using p unfolding pacing_def pacing_for_def by blast
  have one: "[ev] \<noteq> []" "length [ev] \<le> MAX_WAIT_COUNT" "distinct [ev]" "from_millis 1 \<noteq> 0"
    by (simp_all add: MAX_WAIT_COUNT_def from_millis_def)
  have "\<exists>t1 s1. wait (c_os (p k)) (c_envs (p k)) (c_cfg (p k)) (c_debug (p k)) (c_start (p k)) t s [ev] me
      (Some (from_millis 1)) False 0 = Some (Returned Timeout, t1, s1) \<and> vacant s1 \<and>
      (bare s1 = purged os r \<or> unswept r s1 \<and> gate t1 < k)"
    using Suc.prems(2)
  proof
    assume b: "bare s = purged os r"
    have e: "\<forall>j. restful me s (c_envs (p k) j) \<and> asleep (c_envs (p k) j) = id"
      using swept_restful [OF p'(2) [rule_format] b] p'(2) by (simp add: sweeping_def)
    have hs: "waitable_handles s [ev]" "taken s [ev] me False" using h wanted_purged [OF b h(3)] by simp_all
    obtain t1 s1 where "wait (c_os (p k)) (c_envs (p k)) (c_cfg (p k)) (c_debug (p k)) (c_start (p k)) t s [ev] me
      (Some (from_millis 1)) False 0 = Some (Returned Timeout, t1, s1)" "vacant s1" "bare s1 = bare s"
      by (rule wait_times_out [OF p'(1) Suc.prems(1) me one(1-3) hs e p'(4)])
    with b show ?thesis by auto
  next
    assume u: "unswept r s \<and> gate t < Suc k"
    then have b: "bare s = bare r" by (simp add: unswept_def)
    have hs: "waitable_handles s [ev]" "taken s [ev] me False" using h bare_facts [OF b] by simp_all
    obtain t1 s1 where "wait (c_os (p k)) (c_envs (p k)) (c_cfg (p k)) (c_debug (p k)) (c_start (p k)) t s [ev] me
      (Some (from_millis 1)) False 0 = Some (Returned Timeout, t1, s1)" "vacant s1"
      "bare s1 = purged os r \<or> unswept r s1 \<and> gate t1 < gate t"
      by (rule wait_sweeps_or_counts [OF p'(1) Suc.prems(1) me one(1-3) hs h(3) p'(2) _ one(4) p'(3,4)]) (use u in blast)
    with u show ?thesis by fastforce
  qed
  then obtain t1 s1 where w: "wait (c_os (p k)) (c_envs (p k)) (c_cfg (p k)) (c_debug (p k)) (c_start (p k)) t s [ev] me
      (Some (from_millis 1)) False 0 = Some (Returned Timeout, t1, s1)" "vacant s1"
    "bare s1 = purged os r \<or> unswept r s1 \<and> gate t1 < k" by blast
  from Suc.IH [OF w(2,3)] w(1) show ?case by (simp add: wait_any_def)
qed simp

lemma trigger_sweeps_swept:
  assumes p: "\<forall>k. pacing me (pid_alive os) (p k)" and me: "me \<noteq> 0" and v: "vacant r"
    and h: "waitable_handles r [ev]" "taken r [ev] me False" "wanted_alive os r [ev]" and c: "256 \<le> calls"
  obtains t' r' where "trigger_sweeps p ev me calls t r = Some (t', r')" "vacant r'" "bare r' = purged os r"
proof -
  let ?r = "test_reset_sweep_clock r"
  have "at_rest r ?r" by (simp add: at_rest_def test_reset_sweep_clock_def core_def)
  then have "vacant ?r" "bare ?r = bare r" using at_rest_vacant v at_rest_bare by blast+
  moreover have "gate t < calls" using gate_bound [of t] c by simp
  ultimately have "\<exists>t' s'. trigger_waits p ev me calls t ?r = Some (t', s') \<and> vacant s' \<and> bare s' = purged os r"
    by (intro trigger_waits_swept [OF p me h]) (simp_all add: unswept_def test_reset_sweep_clock_def)
  with that show ?thesis by (auto simp: trigger_sweeps_def)
qed

lemma owned_waitable:
  assumes o: "owned n t own r" and me: "me \<noteq> 0" and t: "case t ev of Some (NtEvent man sg) \<Rightarrow> \<not> sg | _ \<Rightarrow> False"
    and v: "case own ev of Some v \<Rightarrow> \<not> lapsed os v | None \<Rightarrow> False"
  shows "waitable_handles r [ev]" "taken r [ev] me False" "wanted_alive os r [ev]"
proof -
  obtain man v where ev: "t ev = Some (NtEvent man False)" "own ev = Some v" "\<not> lapsed os v"
    using t v by (auto split: option.splits nt_object.splits)
  have s: "settled n r" "nt_table r = t" using o by (simp_all add: owned_def)
  have i: "slot r ev = Some (ev AND INDEX_MASK)" "ev AND INDEX_MASK \<noteq> 0" using owned_slot [OF o] ev(1) by auto
  show "waitable_handles r [ev]"
    using settled_used [OF s(1), of "ev AND INDEX_MASK"] i by (auto simp: waitable_handles_def slot_Some_iff)
  show "taken r [ev] me False"
    using satisfied_table [of r ev me] i ev(1) s(2) by (auto simp: taken_def nt_acquirable_def)
  show "wanted_alive os r [ev]"
    using owned_used [OF o, of ev] ev lapsed_dead by (auto simp: wanted_alive_def)
qed

lemma serves_trigger_sweeps:
  assumes p: "\<forall>k. pacing me (pid_alive os) (p k)" and me: "me \<noteq> 0" and c: "256 \<le> calls"
    and t: "case t ev of Some (NtEvent man sg) \<Rightarrow> \<not> sg | _ \<Rightarrow> False"
    and v: "case own ev of Some v \<Rightarrow> \<not> lapsed os v | None \<Rightarrow> False"
    and k: "\<And>th. serves n (survivors os own t) (survivors os own own) m t' own' (K th)"
  shows "serves (Suc n) t own m t' own' (\<lambda>r. Option.bind (trigger_sweeps p ev me calls th r) (case_prod K))"
  unfolding serves_def
proof (intro allI impI)
  fix r assume o: "owned (Suc n) t own r"
  then have s: "settled (Suc n) r" "nt_table r = t" by (simp_all add: owned_def)
  obtain th' r1 where r1: "trigger_sweeps p ev me calls th r = Some (th', r1)" "vacant r1" "bare r1 = purged os r"
    by (rule trigger_sweeps_swept [OF p me settled_vacant [OF s(1)] owned_waitable [OF o me t v] c])
  from servesD [OF k owned_purged [OF o r1(2,3)]] obtain r' where "K th' r1 = Some r'" "owned m t' own' r'" .
  with r1(1) show "\<exists>r'. Option.bind (trigger_sweeps p ev me calls th r) (case_prod K) = Some r' \<and> owned m t' own' r'"
    by simp
qed

subsection \<open>The tests\<close>

definition soak_holder_bookkeeping :: "(nat \<Rightarrow> Caller) \<Rightarrow> Region \<Rightarrow> Region option" where
  "soak_holder_bookkeeping p r = do {
     (x, r) \<leftarrow> create_event (c_os (p 0)) r False False;
     h \<leftarrow> unwrap x;
     (v, r) \<leftarrow> test_holders (c_os (p 1)) r h;
     l \<leftarrow> v;
     assert_that (snd l = []);
     (x, r) \<leftarrow> retain (c_os (p 2)) r h;
     assert_that (x = Inr ());
     (v, r) \<leftarrow> test_holders (c_os (p 3)) r h;
     l \<leftarrow> v;
     assert_that (snd l = [getpid (c_os (p 0))]);
     (x, r) \<leftarrow> retain (c_os (p 4)) r h;
     assert_that (x = Inr ());
     (v, r) \<leftarrow> test_holders (c_os (p 5)) r h;
     l \<leftarrow> v;
     assert_that (snd l = [getpid (c_os (p 0))]);
     (x, r) \<leftarrow> release (c_os (p 6)) r h;
     assert_that (x = Inr ());
     (v, r) \<leftarrow> test_holders (c_os (p 7)) r h;
     l \<leftarrow> v;
     assert_that (snd l = []);
     (x, r) \<leftarrow> release (c_os (p 8)) r h;
     assert_that (x = Inr ());
     (x, r) \<leftarrow> retain (c_os (p 9)) r h;
     assert_that (x = Inr ());
     (x, r) \<leftarrow> close (c_os (p 10)) r h;
     assert_that x;
     (v, r) \<leftarrow> test_holders (c_os (p 11)) r h;
     assert_that (v = None);
     (x, r) \<leftarrow> retain (c_os (p 12)) r h;
     assert_that (isl x);
     Some r
   }"

text \<open>
  The relayed handle. \<open>child1\<close> and \<open>child2\<close> are the processes that are forked to create an object and
  exit; the pipe hands the handle on as it is. The printed lines are left out.
\<close>

definition soak_relayed_handle_after_creator_death ::
  "u32 \<Rightarrow> Caller \<Rightarrow> Caller \<Rightarrow> (nat \<Rightarrow> Caller) \<Rightarrow> (nat \<Rightarrow> nat \<Rightarrow> Caller) \<Rightarrow> Thread \<Rightarrow> Region \<Rightarrow> Region option" where
  "soak_relayed_handle_after_creator_death me child1 child2 p q th r = do {
     (x, r) \<leftarrow> create_event (c_os (p 0)) r False False;
     trigger \<leftarrow> unwrap x;
     (x, r) \<leftarrow> create_event (c_os child1) r False False;
     relayed \<leftarrow> unwrap x;
     (th, r) \<leftarrow> trigger_sweeps (q 0) trigger me 512 th r;
     (x, r) \<leftarrow> create_event (c_os child2) r False False;
     kept \<leftarrow> unwrap x;
     (x, r) \<leftarrow> retain (c_os (p 1)) r kept;
     assert_that (x = Inr ());
     (th, r) \<leftarrow> trigger_sweeps (q 1) trigger me 512 th r;
     assert_that (\<not> isl (read_event r kept));
     (x, r) \<leftarrow> event_set (c_os (p 2)) r kept;
     unwrap x;
     (x, r) \<leftarrow> release (c_os (p 3)) r kept;
     unwrap x;
     (th, r) \<leftarrow> trigger_sweeps (q 2) trigger me 512 th r;
     assert_that (isl (read_event r kept));
     (_, r) \<leftarrow> close (c_os (p 4)) r trigger;
     Some r
   }"

lemma shelf_once:
  "on_shelf holder_add me empty_shelf = (1, (replicate MAX_HOLDERS 0)[0 := me])"
  "on_shelf holder_add me (1, (replicate MAX_HOLDERS 0)[0 := me]) = (1, (replicate MAX_HOLDERS 0)[0 := me])"
  "on_shelf holder_remove me (1, (replicate MAX_HOLDERS 0)[0 := me]) = empty_shelf"
  "on_shelf holder_remove me empty_shelf = empty_shelf"
  "shown empty_shelf = (0, [])"
  "shown (1, (replicate MAX_HOLDERS 0)[0 := me]) = (1, [me])"
  by (simp_all add: on_shelf_def shown_def shelf_def empty_shelf_def holder_add_def holder_remove_def Let_def
        MAX_HOLDERS_num HOLDER_OVERFLOW_def numeral_eq_Suc)

lemma soak_holder_bookkeeping_serves:
  assumes "\<forall>k. calm (p k) \<and> getpid (c_os (p k)) = me" "card (dom t) < 16383" "dom own = dom t"
  shows "serves (Suc n) t own n t own (soak_holder_bookkeeping p)"
proof -
  have "t h = None \<Longrightarrow> own h = None" for h using assms(3) by (auto simp: domIff)
  then show ?thesis
    unfolding soak_holder_bookkeeping_def using assms
    by - (rule serve_rules; (simp add: shelf_once fun_upd_idem split: if_split_asm)?)+
qed

lemma soak_relayed_serves:
  assumes p: "\<forall>k. calm (p k) \<and> getpid (c_os (p k)) = me" "calm child1" "calm child2"
    and q: "\<forall>i k. pacing me (pid_alive os) (q i k)" and me: "pid_alive os me"
    and dead: "\<not> pid_alive os (getpid (c_os child1))" "\<not> pid_alive os (getpid (c_os child2))"
    and room: "card (dom t) < 16381" and t: "\<forall>h. own h = None \<longleftrightarrow> t h = None" "\<forall>h v. own h = Some v \<longrightarrow> \<not> lapsed os v"
  shows "serves (Suc (Suc (Suc (Suc n)))) t own n t own (soak_relayed_handle_after_creator_death me child1 child2 p q th)"
proof -
  note s = survivors_all [OF t]
  have l: "\<not> lapsed os (me, v)" "lapsed os (getpid (c_os child1), empty_shelf)" "\<not> lapsed os (x, 1, (replicate MAX_HOLDERS 0)[0 := me])"
    "lapsed os (getpid (c_os child2), empty_shelf)" for v x
    using me dead p calm_os(2) by (auto simp: lapsed_def shelf_once) (simp_all add: empty_shelf_def)
  have m: "me \<noteq> 0" using me by (auto simp: pid_alive_def)
  show ?thesis
    unfolding soak_relayed_handle_after_creator_death_def using room
    by - (rule serve_rules serves_trigger_sweeps [where os = os];
       (simp add: shelf_once survivors_upd s l m p q t card_insert_if domIff fun_upd_idem split: if_split_asm)?)+
qed

subsection \<open>Properties\<close>

text \<open>
  Dead objects do not stay. A thread that makes 256 timed waits or more, each of which times out,
  makes a sweep: whatever the count of its waits was and whatever else it does, afterwards every
  object is freed whose creator and holders are dead, every other object is as it was, and nobody
  waits.
\<close>

theorem timed_waits_sweep:
  assumes "\<forall>k. pacing me (pid_alive os) (p k)" "me \<noteq> 0" "vacant r"
    and "waitable_handles r [ev]" "taken r [ev] me False" "wanted_alive os r [ev]" "256 \<le> calls"
  shows "\<exists>t' r'. trigger_sweeps p ev me calls t r = Some (t', r') \<and> vacant r' \<and>
    (\<forall>i. bare r' i = (if dead_slot os (slots r i) then freed_slot (bare r i) else bare r i))"
proof -
  obtain t' r' where "trigger_sweeps p ev me calls t r = Some (t', r')" "vacant r'" "bare r' = purged os r"
    by (rule trigger_sweeps_swept [OF assms])
  then show ?thesis by (simp add: purged_def)
qed

definition pacing_caller :: Caller where
  "pacing_caller = (quiet_caller 7)\<lparr>c_envs := sweeping_round\<rparr>"

lemma pacing_caller_for: "0 < d \<Longrightarrow> pacing_for d 7 (pid_alive after_death) pacing_caller"
proof -
  assume d: "0 < d"
  have "sweeping 7 (pid_alive after_death) (c_cfg pacing_caller) (c_envs pacing_caller j)" for j
    using lone_sweeping_round [of j]
    by (auto simp: sweeping_def pacing_caller_def sweeping_round_def quiet_round_def quiet_caller_def pid_alive_def fun_eq_iff
        read_config_def sweep_interval_ns_def env_uint_def word_le_nat_alt)
  moreover have "undisturbed (c_os pacing_caller)" by (simp add: pacing_caller_def quiet_caller_def)
  moreover have "now_ns (c_envs pacing_caller 0) < c_start pacing_caller + d" "c_start pacing_caller + d \<le> now_ns (c_envs pacing_caller d)"
    using d by (simp_all add: pacing_caller_def quiet_caller_def sweeping_round_def quiet_round_def)
  ultimately show ?thesis unfolding pacing_for_def by blast
qed

lemma pacing_caller: "pacing 7 (pid_alive after_death) pacing_caller"
  unfolding pacing_def by (rule pacing_caller_for) (simp add: from_millis_def)

theorem timed_waits_sweep_witness:
  "\<exists>t' r'. trigger_sweeps (\<lambda>_. pacing_caller) 1 7 256 new_thread with_orphan = Some (t', r') \<and> vacant r' \<and>
     bare r' 1 = bare with_orphan 1 \<and> bare r' 2 = freed_slot (bare with_orphan 2)"
proof -
  have i: "idx (1::u32) = 1" by (simp add: INDEX_MASK_num)
  have w: "waitable_handles with_orphan [1]" by (simp add: waitable_handles_def waitable_def)
  have t: "taken with_orphan [1] 7 False"
    by (simp add: taken_def i wait_satisfied_def abs_object_def abs_event_def pack_event_def nt_wait_def type_consts)
  have al: "wanted_alive after_death with_orphan [1]" by (simp add: wanted_alive_def i)
  have p: "\<forall>k::nat. pacing 7 (pid_alive after_death) pacing_caller" by (simp add: pacing_caller)
  from timed_waits_sweep [OF p _ with_orphan_vacant w t al, of 256 new_thread] show ?thesis by auto
qed

text \<open>
  C18: a handle that is passed on outlives its creator just when it is held. The soak test
  \<^verbatim>\<open>soak_relayed_handle_after_creator_death\<close>, in any region at rest without dead objects and with room
  for two: an object of a process that has exited goes with the next sweeps; one that the test's
  process has retained can still be read and set after them, goes after it is released, and at the
  end the objects are what they were before.
\<close>

theorem relayed_handle_kept:
  assumes "\<forall>k. calm (p k) \<and> getpid (c_os (p k)) = me" "calm child1" "calm child2"
    and "\<forall>i k. pacing me (pid_alive os) (q i k)" "pid_alive os me"
    and "\<not> pid_alive os (getpid (c_os child1))" "\<not> pid_alive os (getpid (c_os child2))"
    and s: "settled (n + 4) r" and "card (dom (nt_table r)) < 16381" and d: "\<forall>i. \<not> dead_slot os (slots r i)"
  shows "\<exists>r'. soak_relayed_handle_after_creator_death me child1 child2 p q th r = Some r' \<and>
     settled n r' \<and> nt_table r' = nt_table r \<and> own_table r' = own_table r"
proof -
  have o: "owned (n + 4) (nt_table r) (own_table r) r" using s by (simp add: owned_def)
  have "serves (Suc (Suc (Suc (Suc n)))) (nt_table r) (own_table r) n (nt_table r) (own_table r)
      (soak_relayed_handle_after_creator_death me child1 child2 p q th)"
    by (rule soak_relayed_serves [where os = os]) (use assms undead_owners [OF s d] in simp_all)
  with o show ?thesis by (auto simp: numeral_eq_Suc owned_def elim!: servesD)
qed

theorem relayed_handle_kept_witness:
  "\<exists>r'. soak_relayed_handle_after_creator_death 7 (quiet_caller 42) (quiet_caller 42) (\<lambda>_. (quiet_caller 7)\<lparr>c_os := after_death\<rparr>)
     (\<lambda>_ _. pacing_caller) new_thread fresh_region = Some r' \<and> settled 0 r' \<and> nt_table r' = Map.empty"
proof -
  have p: "\<forall>k::nat. calm ((quiet_caller 7)\<lparr>c_os := after_death\<rparr>) \<and> getpid (c_os ((quiet_caller 7)\<lparr>c_os := after_death\<rparr>)) = 7"
    "calm (quiet_caller 42)"
    by (simp_all add: calm_def quiet_caller_def) (simp add: quiet_os_def)
  have q: "\<forall>(i::nat) (k::nat). pacing 7 (pid_alive after_death) pacing_caller" by (simp add: pacing_caller)
  have a: "pid_alive after_death 7" "\<not> pid_alive after_death (getpid (c_os (quiet_caller 42)))"
    by (simp_all add: quiet_caller_def quiet_os_def)
  have s: "settled (0 + 4) fresh_region" "card (dom (nt_table fresh_region)) < 16381" "\<forall>i. \<not> dead_slot after_death (slots fresh_region i)"
    by (simp_all add: fresh_settled fresh_table) (simp add: dead_slot_def fresh_region_def init_region_def zero_region_def)
  from relayed_handle_kept [OF p(1) p(2) p(2) q a(1) a(2) a(2) s] show ?thesis by (auto simp: fresh_table)
qed

end
