(* ===== verification/Sweep_Tests.thy ===== *)
theory Sweep_Tests
  imports Soak_Tests
begin

text \<open>
  Waits that sweep, in the unit tests of \<^verbatim>\<open>lib.rs\<close> and in the simulation of a crashed helper of
  \<^verbatim>\<open>engine_sim.rs\<close>, and the simulations of threads that pace themselves by waits.
\<close>

subsection \<open>One wait that sweeps\<close>

lemma reset_owned: "owned n t own r \<Longrightarrow> owned n t own (test_reset_sweep_clock r)"
proof -
  let ?r = "test_reset_sweep_clock r"
  assume o: "owned n t own r"
  have a: "at_rest r ?r" by (simp add: at_rest_def test_reset_sweep_clock_def core_def)
  have "settled n ?r" using o a settled_bare [of n r ?r] at_rest_vacant at_rest_bare settled_vacant by (auto simp: owned_def)
  moreover have sl: "slots ?r = slots r" by (simp add: test_reset_sweep_clock_def)
  moreover have "nt_table ?r = nt_table r" by (simp add: nt_table_def fun_eq_iff slot_def Let_def sl)
  ultimately show ?thesis using o own_table_cong [of ?r r] by (simp add: owned_def)
qed

lemma wait_sweeps_owned:
  assumes p: "pacing_for d me (pid_alive os) p" "gate (c_thread p) = 0" and me: "me \<noteq> 0" and d: "d \<noteq> 0"
    and t: "case t ev of Some (NtEvent man sg) \<Rightarrow> \<not> sg | _ \<Rightarrow> False"
    and v: "case own ev of Some v \<Rightarrow> \<not> lapsed os v | None \<Rightarrow> False" and o: "owned (Suc n) t own r" and z: "sweep_ns (header r) = 0"
  obtains r' where "call_wait_any p r [ev] me (Some d) = Some (Returned Timeout, r')"
    "owned n (survivors os own t) (survivors os own own) r'" "0 < test_sweep_clock_ns r'"
proof -
  obtain m where e: "undisturbed (c_os p)" "\<forall>j. sweeping me (pid_alive os) (c_cfg p) (c_envs p j)"
      "now_ns (c_envs p 0) < c_start p + d" "c_start p + d \<le> now_ns (c_envs p m)"
    using p(1) unfolding pacing_for_def by blast
  note w = owned_waitable [OF o me t v]
  have al: "pid_alive (sweep_os (c_envs p j)) = pid_alive os" for j using e(2) by (simp add: sweeping_def)
  have y: "wanted_alive (sweep_os (c_envs p 0)) r [ev]"
    using w(3) dead_slot_pids [OF al [of 0]] by (simp add: wanted_alive_def)
  have l: "\<forall>j. lone me (c_envs p j) \<and> asleep (c_envs p j) = id \<and>
      pid_alive (sweep_os (c_envs p j)) = pid_alive (sweep_os (c_envs p 0))" using e(2) by (simp add: sweeping_def)
  have due: "sweep_due (sweep_os (c_envs p 0)) (c_cfg p) (c_thread p) (stamp r)"
    using sweeping_due [OF e(2) [rule_format, of 0] p(2)] z by simp
  have c: "\<forall>j. 0 < locked_clock_ns (sweep_os (c_envs p j))"
  proof
    fix j
    have "cfg_sweep_interval (c_cfg p) \<noteq> 0" "cfg_sweep_interval (c_cfg p) \<le> locked_clock_ns (sweep_os (c_envs p j))"
      using e(2) by (simp_all add: sweeping_def)
    then show "0 < locked_clock_ns (sweep_os (c_envs p j))" by (metis word_gt_0 word_le_0_iff)
  qed
  obtain t' r' where "wait (c_os p) (c_envs p) (c_cfg p) (c_debug p) (c_start p) (c_thread p) r [ev] me (Some d) False 0 =
      Some (Returned Timeout, t', r')" "vacant r'" "bare r' = purged (sweep_os (c_envs p 0)) r" "0 < stamp r'"
    by (rule wait_purges [where C = "\<lambda>s. 0 < s", OF e(1) settled_vacant me _ _ _ w(1,2) y l d e(3,4) due c])
      (use o in \<open>auto simp: owned_def MAX_WAIT_COUNT_def\<close>)
  with that owned_purged [OF o, of r' os] purged_pids [OF al [of 0]] show ?thesis
    by (auto simp: call_wait_any_def wait_any_def test_sweep_clock_ns_def)
qed

lemma reset_clock: "sweep_ns (header (test_reset_sweep_clock r)) = 0"
  by (simp add: test_reset_sweep_clock_def)

lemma serves_wait_sweeps:
  assumes p: "pacing_for d me (pid_alive os) p" "gate (c_thread p) = 0" and me: "me \<noteq> 0" and d: "d \<noteq> 0"
    and t: "case t ev of Some (NtEvent man sg) \<Rightarrow> \<not> sg | _ \<Rightarrow> False"
    and v: "case own ev of Some v \<Rightarrow> \<not> lapsed os v | None \<Rightarrow> False"
    and k: "serves n (survivors os own t) (survivors os own own) m t' own' (K (Returned Timeout))"
  shows "serves (Suc n) t own m t' own' (\<lambda>r. Option.bind (call_wait_any p (test_reset_sweep_clock r) [ev] me (Some d)) (case_prod K))"
proof (rule serves_step [where K = K and x = "Returned Timeout", OF _ k])
  fix r assume o: "owned (Suc n) t own r"
  show "\<exists>r1. call_wait_any p (test_reset_sweep_clock r) [ev] me (Some d) = Some (Returned Timeout, r1) \<and>
      owned n (survivors os own t) (survivors os own own) r1"
    by (rule wait_sweeps_owned [OF p me d t v reset_owned [OF o] reset_clock]) blast
qed

text \<open>A wait that sweeps has set the clock.\<close>

lemma serves_wait_claims:
  assumes p: "pacing_for d me (pid_alive os) p" "gate (c_thread p) = 0" and me: "me \<noteq> 0" and d: "d \<noteq> 0"
    and t: "case t ev of Some (NtEvent man sg) \<Rightarrow> \<not> sg | _ \<Rightarrow> False"
    and v: "case own ev of Some v \<Rightarrow> \<not> lapsed os v | None \<Rightarrow> False"
    and k: "serves n (survivors os own t) (survivors os own own) m t' own' K"
  shows "serves (Suc n) t own m t' own' (\<lambda>r. Option.bind (call_wait_any p (test_reset_sweep_clock r) [ev] me (Some d))
    (\<lambda>(x, r). if x = Returned Timeout then if 0 < test_sweep_clock_ns r then K r else None else None))"
  unfolding serves_def
proof (intro allI impI)
  fix r assume o: "owned (Suc n) t own r"
  obtain r1 where r1: "call_wait_any p (test_reset_sweep_clock r) [ev] me (Some d) = Some (Returned Timeout, r1)"
    "owned n (survivors os own t) (survivors os own own) r1" "0 < test_sweep_clock_ns r1"
    by (rule wait_sweeps_owned [OF p me d t v reset_owned [OF o] reset_clock])
  with servesD [OF k r1(2)] show "\<exists>r'. Option.bind (call_wait_any p (test_reset_sweep_clock r) [ev] me (Some d))
      (\<lambda>(x, r). if x = Returned Timeout then if 0 < test_sweep_clock_ns r then K r else None else None) = Some r' \<and> owned m t' own' r'"
    by auto
qed

definition auto_sweep_claims_interval_when_nothing_dead :: "u32 \<Rightarrow> (nat \<Rightarrow> Caller) \<Rightarrow> Region \<Rightarrow> Region option" where
  "auto_sweep_claims_interval_when_nothing_dead me p r = do {
     (x, r) \<leftarrow> create_event (c_os (p 0)) r False False;
     h \<leftarrow> unwrap x;
     (x, r) \<leftarrow> call_wait_any (p 1) (test_reset_sweep_clock r) [h] me (Some (from_millis 10));
     assert_that (x = Returned Timeout);
     assert_that (0 < test_sweep_clock_ns r);
     (x, r) \<leftarrow> close (c_os (p 2)) r h;
     assert_that x;
     Some r
   }"

definition auto_sweep_reaps_dead_creator :: "u32 \<Rightarrow> Caller \<Rightarrow> (nat \<Rightarrow> Caller) \<Rightarrow> Region \<Rightarrow> Region option" where
  "auto_sweep_reaps_dead_creator me child p r = do {
     (x, r) \<leftarrow> create_event (c_os (p 0)) r False False;
     mine \<leftarrow> unwrap x;
     (x, r) \<leftarrow> create_event (c_os child) r False False;
     unwrap x;
     (x, r) \<leftarrow> call_wait_any (p 1) (test_reset_sweep_clock r) [mine] me (Some (from_millis 10));
     assert_that (x = Returned Timeout);
     (x, r) \<leftarrow> sweep_dead (c_os (p 2)) r;
     freed \<leftarrow> unwrap x;
     assert_that (freed = 0);
     (x, r) \<leftarrow> close (c_os (p 3)) r mine;
     assert_that x;
     Some r
   }"

text \<open>\<open>os\<close> is what the sweeps ask of the processes, the same for the explicit sweep and the one of the wait.\<close>

lemma auto_sweep_claims_serves:
  assumes p: "calm (p 0)" "calm (p 2)" "getpid (c_os (p 0)) = me" and w: "pacing_for (from_millis 10) me (pid_alive os) (p 1)" "gate (c_thread (p 1)) = 0"
    and me: "pid_alive os me" and room: "card (dom t) < 16383"
    and t: "\<forall>h. own h = None \<longleftrightarrow> t h = None" "\<forall>h v. own h = Some v \<longrightarrow> \<not> lapsed os v"
  shows "serves (Suc (Suc n)) t own n t own (auto_sweep_claims_interval_when_nothing_dead me p)"
proof -
  note s = survivors_all [OF t]
  have l: "\<not> lapsed os (me, v)" "me \<noteq> 0" "from_millis 10 \<noteq> 0" for v using me by (auto simp: lapsed_def pid_alive_def from_millis_def)
  have w': "pacing_for (from_millis 10) me (pid_alive os) (p (Suc 0))" "gate (c_thread (p (Suc 0))) = 0" using w by simp_all
  show ?thesis
    unfolding auto_sweep_claims_interval_when_nothing_dead_def using room
    by - (rule serve_rules serves_wait_claims [where os = os];
      (simp add: survivors_upd s l p w' t card_insert_if domIff fun_upd_idem split: if_split_asm)?)+
qed

lemma auto_sweep_reaps_serves:
  assumes p: "calm (p 0)" "calm (p 3)" "calm child" "getpid (c_os (p 0)) = me"
    and w: "pacing_for (from_millis 10) me (pid_alive (c_os (p 2))) (p 1)" "gate (c_thread (p 1)) = 0"
    and me: "pid_alive (c_os (p 2)) me" "\<not> pid_alive (c_os (p 2)) (getpid (c_os child))" and os: "undisturbed (c_os (p 2))" and room: "card (dom t) < 16382"
    and t: "\<forall>h. own h = None \<longleftrightarrow> t h = None" "\<forall>h v. own h = Some v \<longrightarrow> \<not> lapsed (c_os (p 2)) v"
  shows "serves (Suc (Suc n)) t own n t own (auto_sweep_reaps_dead_creator me child p)"
proof -
  note s = survivors_all [OF t]
  have l: "\<not> lapsed (c_os (p 2)) (me, v)" "me \<noteq> 0" "from_millis 10 \<noteq> 0" "lapsed (c_os (p 2)) (getpid (c_os child), empty_shelf)" for v
    using me calm_os(2) [OF p(3)] by (auto simp: lapsed_def pid_alive_def from_millis_def shelf_once) (simp add: empty_shelf_def)
  have w': "pacing_for (from_millis 10) me (pid_alive (c_os (p 2))) (p (Suc 0))" "gate (c_thread (p (Suc 0))) = 0" using w by simp_all
  show ?thesis
    unfolding auto_sweep_reaps_dead_creator_def using room
    by - (rule serve_rules serves_wait_sweeps [where os = "c_os (p 2)"] serves_sweep_dead;
      (simp add: survivors_upd s l p w' os t card_insert_if domIff fun_upd_idem split: if_split_asm)?)+
qed

subsection \<open>A helper process that crashed\<close>

text \<open>
  \<^verbatim>\<open>sim_sweep_hitch\<close>: \<open>child\<close> leaves 500 events behind, the caller paces itself by 1000 timed waits,
  creates and closes 500 events, and sweeps twice. The result is what it prints: how many objects the
  sweeps freed. The times are left out.
\<close>

definition sim_sweep_hitch ::
  "u32 \<Rightarrow> (nat \<Rightarrow> Caller) \<Rightarrow> (nat \<Rightarrow> Caller) \<Rightarrow> (nat \<Rightarrow> nat \<Rightarrow> Caller) \<Rightarrow> (nat \<Rightarrow> Caller) \<Rightarrow> Thread \<Rightarrow> Region \<Rightarrow>
   ((u32 \<times> u32) \<times> Region) option" where
  "sim_sweep_hitch me child p q w th r = do {
     (_, r) \<leftarrow> create_events child 500 r;
     (x, r) \<leftarrow> create_event (c_os (p 0)) r False False;
     never \<leftarrow> unwrap x;
     (_, r) \<leftarrow> trigger_sweeps w never me 1000 th r;
     r \<leftarrow> iterate 500 (\<lambda>k r. do {
       (x, r) \<leftarrow> create_event (c_os (q k 0)) r False False;
       case x of Inl _ \<Rightarrow> Some r
       | Inr h \<Rightarrow> do { (_, r) \<leftarrow> close (c_os (q k 1)) r h; Some r } }) r;
     (x, r) \<leftarrow> sweep_dead (c_os (p 1)) r;
     (y, r) \<leftarrow> sweep_dead (c_os (p 2)) r;
     (_, r) \<leftarrow> close (c_os (p 3)) r never;
     Some ((case_sum (\<lambda>_. 0) id x, case_sum (\<lambda>_. 0) id y), r)
   }"

definition with_owners :: "u32 list \<Rightarrow> u32 \<Rightarrow> own_table \<Rightarrow> own_table" where
  "with_owners hs pid own h = (if h \<in> set hs then Some (pid, empty_shelf) else own h)"

lemma serves_create_events:
  assumes p: "\<forall>k. calm (p k) \<and> getpid (c_os (p k)) = pid"
  shows "card (dom t) + c \<le> 16383 \<Longrightarrow>
    (\<And>hs. length hs = c \<Longrightarrow> \<forall>h\<in>set hs. t h = None \<Longrightarrow> card (dom (with_events hs t)) = card (dom t) + c \<Longrightarrow>
      serves n (with_events hs t) (with_owners hs pid own) m t' own' (K hs)) \<Longrightarrow>
    serves n t own m t' own' (\<lambda>r. Option.bind (create_events p c r) (case_prod K))"
proof (induction c arbitrary: t own K)
  case 0
  have "with_events [] t = t" "with_owners [] pid own = own" by (simp_all add: with_events_def with_owners_def fun_eq_iff)
  with 0(2) [of "[]"] show ?case by simp
next
  case (Suc c)
  have "serves n t own m t' own' (\<lambda>r. Option.bind (create_event (c_os (p c)) r False False) (case_prod (\<lambda>x r.
      Option.bind (unwrap x) (\<lambda>h. Option.bind (create_events p c r) (case_prod (\<lambda>hs r. K (h # hs) r))))))"
  proof (rule serves_create_event)
    fix h assume h: "t h = None"
    then have d: "card (dom (t(h \<mapsto> NtEvent False False))) = Suc (card (dom t))" by simp
    then have room: "card (dom (t(h \<mapsto> NtEvent False False))) + c \<le> 16383" using Suc.prems(1) by simp
    have "serves n (t(h \<mapsto> NtEvent False False)) (own(h \<mapsto> (pid, empty_shelf))) m t' own'
        (\<lambda>r. Option.bind (create_events p c r) (case_prod (\<lambda>hs r. K (h # hs) r)))"
    proof (rule Suc.IH [OF room])
      fix hs assume hs: "length hs = c" "\<forall>h'\<in>set hs. (t(h \<mapsto> NtEvent False False)) h' = None"
        "card (dom (with_events hs (t(h \<mapsto> NtEvent False False)))) = card (dom (t(h \<mapsto> NtEvent False False))) + c"
      then have "\<forall>h'\<in>set hs. t h' = None" by (force split: if_splits)
      moreover have e: "with_events hs (t(h \<mapsto> NtEvent False False)) = with_events (h # hs) t"
        "with_owners hs pid (own(h \<mapsto> (pid, empty_shelf))) = with_owners (h # hs) pid own"
        by (auto simp: with_events_def with_owners_def fun_eq_iff)
      ultimately show "serves n (with_events hs (t(h \<mapsto> NtEvent False False))) (with_owners hs pid (own(h \<mapsto> (pid, empty_shelf)))) m t' own' (K (h # hs))"
        using Suc.prems(2) [of "h # hs"] hs d h by simp
    qed
    then show "serves n (t(h \<mapsto> NtEvent False False)) (own(h \<mapsto> (getpid (c_os (p c)), empty_shelf))) m t' own' (\<lambda>r. Option.bind (unwrap (Inr h)) (\<lambda>h.
      Option.bind (create_events p c r) (case_prod (\<lambda>hs r. K (h # hs) r))))" using p by simp
  qed (use p Suc.prems(1) in simp_all)
  then show ?case by (simp add: case_prod_unfold Option.bind_assoc)
qed

lemma survivors_with:
  assumes "lapsed os (pid, empty_shelf)" "\<forall>h\<in>set hs. t h = None" "\<forall>h. own h = None \<longleftrightarrow> t h = None" "\<forall>h v. own h = Some v \<longrightarrow> \<not> lapsed os v"
  shows "survivors os (with_owners hs pid own) (with_events hs t) = t" "survivors os (with_owners hs pid own) (with_owners hs pid own) = own"
proof -
  have "survivors os (with_owners hs pid own) (with_events hs t) h = t h" "survivors os (with_owners hs pid own) (with_owners hs pid own) h = own h" for h
  proof -
    have "h \<in> set hs \<Longrightarrow> t h = None \<and> own h = None" using assms(2,3) by simp
    moreover have "own h = None \<Longrightarrow> t h = None" using assms(3) by simp
    ultimately show "survivors os (with_owners hs pid own) (with_events hs t) h = t h"
      "survivors os (with_owners hs pid own) (with_owners hs pid own) h = own h"
      using assms(1,4) by (auto simp: survivors_def with_owners_def with_events_def split: option.split)
  qed
  then show "survivors os (with_owners hs pid own) (with_events hs t) = t" "survivors os (with_owners hs pid own) (with_owners hs pid own) = own" by blast+
qed

text \<open>A loop whose rounds cost a generation each.\<close>

lemma serves_iterate:
  "\<forall>k<c. serves (Suc k + n) t own (k + n) t own (body k) \<Longrightarrow> serves (c + n) t own n t own (iterate c body)"
proof (induction c)
  case (Suc c)
  have "serves (Suc c + n) t own n t own (\<lambda>r. Option.bind (body c r) (iterate c body))"
    by (rule serves_bind) (use Suc in simp_all)
  then show ?case by simp
qed (simp add: serves_def)

lemma serves_loop:
  assumes "\<And>k. serves (Suc k + n) t own (k + n) t own (body k)" "serves n t own m t' own' K"
  shows "serves (c + n) t own m t' own' (\<lambda>r. Option.bind (iterate c body r) K)"
  by (rule serves_bind [OF serves_iterate assms(2)]) (use assms(1) in blast)

lemma sim_sweep_hitch_serves:
  assumes child: "\<forall>k. calm (child k) \<and> getpid (c_os (child k)) = pid" and p: "\<forall>k. calm (p k) \<and> getpid (c_os (p k)) = me"
    and q: "\<forall>k j. calm (q k j) \<and> getpid (c_os (q k j)) = me" and w: "\<forall>k. pacing me (pid_alive os) (w k)"
    and alive: "\<forall>k. pid_alive (c_os (p k)) = pid_alive os" "pid_alive os me" "\<not> pid_alive os pid"
    and room: "card (dom t) + 502 \<le> 16383"
    and t: "\<forall>h. own h = None \<longleftrightarrow> t h = None" "\<forall>h v. own h = Some v \<longrightarrow> \<not> lapsed os v"
  shows "serves (Suc (500 + Suc n)) t own n t own
    (\<lambda>r. Option.bind (sim_sweep_hitch me child p q w th r) (\<lambda>(v, r). if v = (0, 0) then Some r else None))"
proof -
  have pid: "pid \<noteq> 0" "me \<noteq> 0" using child calm_os(2) alive(2) by (auto simp: pid_alive_def)
  have la: "lapsed (c_os (p k)) = lapsed os" for k by (simp add: lapsed_def alive(1) fun_eq_iff)
  then have sa: "survivors (c_os (p k)) O' O' = survivors os O' O'" for k and O' :: own_table by (intro ext) (simp add: survivors_def split: option.split)
  have l: "\<not> lapsed os (me, v)" "lapsed os (pid, empty_shelf)" for v
    using alive(2,3) pid by (auto simp: lapsed_def shelf_once) (simp add: empty_shelf_def)
  note sw = survivors_with [OF l(2) _ t] and s = survivors_all [OF t]
  let ?sweeps = "\<lambda>h r. Option.bind (sweep_dead (c_os (p 1)) r) (\<lambda>(x, r). Option.bind (sweep_dead (c_os (p 2)) r) (\<lambda>(y, r).
        Option.bind (close (c_os (p 3)) r h) (\<lambda>(_, r). if (case_sum (\<lambda>_. 0) id x, case_sum (\<lambda>_. 0) id y) = (0 :: u32, 0 :: u32) then Some r else None)))"
  let ?round = "\<lambda>k r. Option.bind (create_event (c_os (q k 0)) r False False) (\<lambda>(x, r).
       case x of Inl _ \<Rightarrow> Some r | Inr h \<Rightarrow> Option.bind (close (c_os (q k 1)) r h) (\<lambda>(_, r). Some r))"
  have after: "serves (Suc n) (t(h \<mapsto> NtEvent False False)) (own(h \<mapsto> (me, empty_shelf))) n t own (?sweeps h)"
    if h: "t h = None" for h
  proof -
    have sv: "survivors (c_os (p k)) (own(h \<mapsto> (me, empty_shelf))) (own(h \<mapsto> (me, empty_shelf))) = own(h \<mapsto> (me, empty_shelf))" for k
      unfolding sa by (simp add: survivors_upd s l)
    show ?thesis
      by (rule serves_sweep_dead serve_rules; (simp add: sv p calm_os t h fun_upd_idem)?)+
  qed
  have loop: "serves (500 + Suc n) (t(h \<mapsto> NtEvent False False)) (own(h \<mapsto> (me, empty_shelf))) n t own
      (\<lambda>r. Option.bind (iterate 500 ?round r) (?sweeps h))" if h: "t h = None" for h
  proof (rule serves_loop [OF _ after [OF h]])
    fix k
    show "serves (Suc k + Suc n) (t(h \<mapsto> NtEvent False False)) (own(h \<mapsto> (me, empty_shelf))) (k + Suc n)
        (t(h \<mapsto> NtEvent False False)) (own(h \<mapsto> (me, empty_shelf))) (?round k)"
      using h room by - (rule serve_rules; (simp add: q t fun_upd_idem split: if_split_asm)?)+
  qed
  have waits: "serves (Suc (500 + Suc n)) ((with_events hs t)(h \<mapsto> NtEvent False False)) ((with_owners hs pid own)(h \<mapsto> (me, empty_shelf))) n t own
      (\<lambda>r. Option.bind (trigger_sweeps w h me 1000 th r) (\<lambda>(_, r). Option.bind (iterate 500 ?round r) (?sweeps h)))"
    if hs: "\<forall>h\<in>set hs. t h = None" and h: "with_events hs t h = None" for hs h
  proof (rule serves_trigger_sweeps [where os = os])
    fix th
    have "t h = None" using h by (simp add: with_events_def split: if_splits)
    from loop [OF this] show "serves (500 + Suc n)
        (survivors os ((with_owners hs pid own)(h \<mapsto> (me, empty_shelf))) ((with_events hs t)(h \<mapsto> NtEvent False False)))
        (survivors os ((with_owners hs pid own)(h \<mapsto> (me, empty_shelf))) ((with_owners hs pid own)(h \<mapsto> (me, empty_shelf)))) n t own
        (\<lambda>r. Option.bind (iterate 500 ?round r) (?sweeps h))"
      by (simp only: survivors_upd sw [OF hs] l if_False)
  qed (use w pid l in simp_all)
  show ?thesis
    unfolding sim_sweep_hitch_def Option.bind_assoc prod.case_distrib [where h = "\<lambda>x. Option.bind x f" for f] Option.bind.bind_lunit prod.case
  proof (rule serves_create_events [OF child], goal_cases)
    case (2 hs)
    show ?case
    proof (rule serves_create_event)
      fix h assume "with_events hs t h = None"
      from waits [OF 2(2) this] p show "serves (Suc (500 + Suc n)) ((with_events hs t)(h \<mapsto> NtEvent False False))
          ((with_owners hs pid own)(h \<mapsto> (getpid (c_os (p 0)), empty_shelf))) n t own
          (\<lambda>r. Option.bind (unwrap (Inr h)) (\<lambda>h. Option.bind (trigger_sweeps w h me 1000 th r)
            (\<lambda>(_, r). Option.bind (iterate 500 ?round r) (?sweeps h))))" by (simp add: unwrap_def)
    qed (use p room 2(3) in simp_all)
  qed (use room in simp)
qed

subsection \<open>The tests that run in one thread, together\<close>

lemma soak_holder_bookkeeping_passes:
  assumes "\<forall>k. peaceful (p k) \<and> getpid (c_os (p k)) = me" "card (dom t) < 16383"
  shows "passes (Suc n) t n t (soak_holder_bookkeeping p)"
  unfolding passes_def
proof (intro allI impI, elim conjE)
  fix r assume "settled (Suc n) r" "nt_table r = t"
  then show "\<exists>r'. soak_holder_bookkeeping p r = Some r' \<and> settled n r' \<and> nt_table r' = t"
    by (rule serves_settled [OF soak_holder_bookkeeping_serves, rotated 3]) (use assms in auto)
qed

definition sequential_tests ::
  "u32 \<Rightarrow> (nat \<Rightarrow> nat \<Rightarrow> Caller) \<Rightarrow> (nat \<Rightarrow> nat \<Rightarrow> nat \<Rightarrow> Caller) \<Rightarrow> (nat \<Rightarrow> nat \<Rightarrow> nat) \<Rightarrow> (nat \<Rightarrow> nat) \<Rightarrow> (Region \<Rightarrow> Region option) list" where
  "sequential_tests me p q now start = [
     perf_wait_signaled_event (p 0) (q 0 0), perf_event_set_reset_no_waiters (p 1) (q 1),
     perf_sem_acquire_release_uncontended (p 2) (q 2 0), check_canaries me (p 3), sim_primitive_costs me (p 4) (q 4),
     sim_wait_only_pacing me (p 5) (q 5 0) (now 0) (start 0),
     sim_vsync_pacing me (p 6) (q 6 0) (now 1) (q 6 1) (now 2) (start 1) (start 2), soak_holder_bookkeeping (p 7),
     bench_2_signaled_fastpath (p 8) (q 8)]"

subsection \<open>Properties\<close>

text \<open>
  C17: the performance tests, simulations and soak tests that run in one thread pass. On every region
  at rest with room for four more objects they hold all their assertions over all their rounds,
  however the clock goes, return, and leave the objects as they found them.
\<close>

theorem sequential_tests_pass:
  assumes "\<forall>i k. peaceful (p i k) \<and> getpid (c_os (p i k)) = me" "\<forall>i j k. peaceful (q i j k)" "me \<noteq> 0"
    and "settled (16 + n) r" "card (dom (nt_table r)) < 16380"
  shows "\<exists>r'. run_tests (sequential_tests me p q now start) r = Some r' \<and> settled n r' \<and> nt_table r' = nt_table r"
proof -
  define t where "t = nt_table r"
  have room: "card (dom t) < 16380" "card (dom t) < 16381" "card (dom t) < 16383" using assms(5) by (simp_all add: t_def)
  have p: "\<forall>k. peaceful (p i k)" "\<forall>k. peaceful (p i k) \<and> getpid (c_os (p i k)) = me" for i using assms(1) by simp_all
  have q: "\<forall>j k. peaceful (q i j k)" "\<forall>k. peaceful (q i j k)" for i j using assms(2) by simp_all
  let ?costs = "[1, 1, 1, 3, 4, 1, 1, 1, 3]"
  have "\<forall>(c, f)\<in>set (zip ?costs (sequential_tests me p q now start)). \<forall>n. passes (c + n) t n t f"
    using perf_wait_signaled_event_passes [OF p(1) q(2) room(3)] perf_event_set_reset_no_waiters_passes [OF p(1) q(1) room(3)]
      perf_sem_acquire_release_uncontended_passes [OF p(1) q(2) room(3)] check_canaries_passes [OF p(1) room(2) assms(3)]
      sim_primitive_costs_passes [OF p(1) q(1) room(1) assms(3)] sim_pacing_passes [OF p(1) q(2) q(2) room(3) assms(3)]
      soak_holder_bookkeeping_passes [OF p(2) room(3)] bench_2_signaled_fastpath_passes [OF p(1) q(1) room(2)]
    by (simp add: sequential_tests_def eval_nat_numeral)
  from run_tests_passes [OF this, of n] have "passes (16 + n) t n t (run_tests (sequential_tests me p q now start))"
    by (simp add: sequential_tests_def)
  then show ?thesis using assms(4) unfolding t_def by (rule passesD) blast+
qed

theorem sequential_tests_pass_witness:
  "\<exists>r'. run_tests (sequential_tests 7 (\<lambda>_ _. quiet_caller 7) (\<lambda>_ _ _. quiet_caller 7) (\<lambda>_ k. k) (\<lambda>_. 0)) fresh_region = Some r' \<and>
     settled 0 r' \<and> nt_table r' = Map.empty"
proof -
  have p: "\<forall>(i::nat) (k::nat). peaceful (quiet_caller 7) \<and> getpid (c_os (quiet_caller 7)) = 7" "\<forall>(i::nat) (j::nat) (k::nat). peaceful (quiet_caller 7)"
    by (simp_all add: peaceful_quiet) (simp add: quiet_caller_def quiet_os_def)
  have s: "(7::u32) \<noteq> 0" "settled (16 + 0) fresh_region" "card (dom (nt_table fresh_region)) < 16380"
    by (simp_all add: fresh_settled fresh_table)
  from sequential_tests_pass [OF p s, of "\<lambda>_ k. k" "\<lambda>_. 0"] show ?thesis by (simp add: fresh_table)
qed

text \<open>
  Ordinary waits do the cleaning. The unit tests \<^verbatim>\<open>auto_sweep_claims_interval_when_nothing_dead\<close> and
  \<^verbatim>\<open>auto_sweep_reaps_dead_creator\<close> one after the other, in any region at rest without dead objects and
  with room: the wait of the first sets the time of the last sweep although it finds nothing; the
  wait of the second frees the object of the dead child, so that the sweep after it finds nothing;
  the objects are in the end what they were, with the same creators and holders.
\<close>

theorem waits_clean_up:
  assumes p: "calm (p 0)" "calm (p 2)" "getpid (c_os (p 0)) = me" "pacing_for (from_millis 10) me (pid_alive (c_os (q 2))) (p 1)" "gate (c_thread (p 1)) = 0"
    and q: "calm (q 0)" "calm (q 2)" "calm (q 3)" "calm child" "getpid (c_os (q 0)) = me"
      "pacing_for (from_millis 10) me (pid_alive (c_os (q 2))) (q 1)" "gate (c_thread (q 1)) = 0"
    and "pid_alive (c_os (q 2)) me" "\<not> pid_alive (c_os (q 2)) (getpid (c_os child))"
    and s: "settled (n + 4) r" and room: "card (dom (nt_table r)) < 16382" and d: "\<forall>i. \<not> dead_slot (c_os (q 2)) (slots r i)"
  shows "\<exists>r1 r2. auto_sweep_claims_interval_when_nothing_dead me p r = Some r1 \<and> auto_sweep_reaps_dead_creator me child q r1 = Some r2 \<and>
    settled n r2 \<and> nt_table r2 = nt_table r \<and> own_table r2 = own_table r"
proof -
  note o = undead_owners [OF s d]
  have o1: "owned (Suc (Suc (n + 2))) (nt_table r) (own_table r) r" using s by (simp add: owned_def numeral_eq_Suc)
  have "serves (Suc (Suc (n + 2))) (nt_table r) (own_table r) (n + 2) (nt_table r) (own_table r) (auto_sweep_claims_interval_when_nothing_dead me p)"
    by (rule auto_sweep_claims_serves [where os = "c_os (q 2)"]) (use assms o in simp_all)
  from servesD [OF this o1] obtain r1 where r1: "auto_sweep_claims_interval_when_nothing_dead me p r = Some r1"
    "owned (Suc (Suc n)) (nt_table r) (own_table r) r1" by auto
  have "serves (Suc (Suc n)) (nt_table r) (own_table r) n (nt_table r) (own_table r) (auto_sweep_reaps_dead_creator me child q)"
    by (rule auto_sweep_reaps_serves) (use assms o calm_os in simp_all)
  from servesD [OF this r1(2)] r1(1) show ?thesis by (auto simp: owned_def)
qed

definition test_caller :: "nat \<Rightarrow> Caller" where
  "test_caller k = (if k = 1 then pacing_caller else (quiet_caller 7)\<lparr>c_os := after_death\<rparr>)"

lemma calm_test: "k \<noteq> 1 \<Longrightarrow> calm (test_caller k)" "k \<noteq> 1 \<Longrightarrow> c_os (test_caller k) = after_death" "calm (quiet_caller 42)"
  "getpid (c_os (quiet_caller 42)) = 42"
  by (simp_all add: test_caller_def calm_def quiet_caller_def) (simp_all add: quiet_os_def)

lemma fresh_undead: "settled n fresh_region \<Longrightarrow> \<forall>i. \<not> dead_slot os (slots fresh_region i)"
  by (simp add: dead_slot_def fresh_region_def init_region_def zero_region_def)

theorem waits_clean_up_witness:
  "\<exists>r1 r2. auto_sweep_claims_interval_when_nothing_dead 7 test_caller fresh_region = Some r1 \<and>
     auto_sweep_reaps_dead_creator 7 (quiet_caller 42) test_caller r1 = Some r2 \<and> settled 0 r2 \<and> nt_table r2 = Map.empty"
proof -
  have w: "pacing_for (from_millis 10) 7 (pid_alive (c_os (test_caller 2))) (test_caller 1)" "gate (c_thread (test_caller 1)) = 0"
    using pacing_caller_for [of "from_millis 10"]
    by (simp_all add: calm_test(2) from_millis_def) (simp_all add: test_caller_def pacing_caller_def quiet_caller_def new_thread_def gate_def)
  have a: "pid_alive (c_os (test_caller 2)) 7" "\<not> pid_alive (c_os (test_caller 2)) (getpid (c_os (quiet_caller 42)))"
    "getpid (c_os (test_caller 0)) = 7"
    by (simp_all add: calm_test(2,4))
  have s: "settled (0 + 4) fresh_region" by (simp add: fresh_settled)
  have t: "card (dom (nt_table fresh_region)) < 16382" by (simp add: fresh_table)
  from waits_clean_up [OF calm_test(1) calm_test(1) a(3) w calm_test(1) calm_test(1) calm_test(1) calm_test(3) a(3) w a(1,2) s t fresh_undead [OF s]]
  show ?thesis by (auto simp: fresh_table)
qed

text \<open>
  What the simulation of a crashed helper process measures. On any region at rest without dead
  objects and with room for 502, \<^verbatim>\<open>sim_sweep_hitch\<close> runs to its end and leaves objects, creators and holders
  as they were; all 500 objects of the helper are freed by the sweeps of the pacing waits, so that
  both explicit sweeps, the \<open>reaping pass\<close> and its repetition, free none.
\<close>

theorem crashed_helper_swept:
  assumes "\<forall>k. calm (child k) \<and> getpid (c_os (child k)) = pid" "\<forall>k. calm (p k) \<and> getpid (c_os (p k)) = me"
    and "\<forall>k j. calm (q k j) \<and> getpid (c_os (q k j)) = me" "\<forall>k. pacing me (pid_alive os) (w k)"
    and "\<forall>k. pid_alive (c_os (p k)) = pid_alive os" "pid_alive os me" "\<not> pid_alive os pid"
    and s: "settled (502 + n) r" and room: "card (dom (nt_table r)) + 502 \<le> 16383" and d: "\<forall>i. \<not> dead_slot os (slots r i)"
  shows "\<exists>r'. sim_sweep_hitch me child p q w th r = Some ((0, 0), r') \<and>
    settled n r' \<and> nt_table r' = nt_table r \<and> own_table r' = own_table r"
proof -
  have o: "owned (Suc (500 + Suc n)) (nt_table r) (own_table r) r" using s by (simp add: owned_def)
  from servesD [OF sim_sweep_hitch_serves [OF assms(1-7) room undead_owners [OF s d]] o]
  obtain r' where "Option.bind (sim_sweep_hitch me child p q w th r) (\<lambda>(v, r). if v = (0, 0) then Some r else None) = Some r'"
    "owned n (nt_table r) (own_table r) r'" .
  then show ?thesis by (auto simp: owned_def bind_eq_Some_conv split: if_splits)
qed

theorem crashed_helper_swept_witness:
  "\<exists>r'. sim_sweep_hitch 7 (\<lambda>_. quiet_caller 42) (\<lambda>_. test_caller 0) (\<lambda>_ _. test_caller 0) (\<lambda>_. pacing_caller) new_thread fresh_region =
     Some ((0, 0), r') \<and> settled 0 r' \<and> nt_table r' = Map.empty"
proof -
  have c: "\<forall>k::nat. calm (quiet_caller 42) \<and> getpid (c_os (quiet_caller 42)) = 42"
    "\<forall>k::nat. calm (test_caller 0) \<and> getpid (c_os (test_caller 0)) = 7" "\<forall>(k::nat) (j::nat). calm (test_caller 0) \<and> getpid (c_os (test_caller 0)) = 7"
    "\<forall>k::nat. pacing 7 (pid_alive after_death) pacing_caller" "\<forall>k::nat. pid_alive (c_os (test_caller 0)) = pid_alive after_death"
    by (simp_all add: calm_test pacing_caller)
  have a: "pid_alive after_death 7" "\<not> pid_alive after_death 42" by simp_all
  have s: "settled (502 + 0) fresh_region" by (simp add: fresh_settled)
  have t: "card (dom (nt_table fresh_region)) + 502 \<le> 16383" by (simp add: fresh_table)
  from crashed_helper_swept [OF c a s t fresh_undead [OF s]] show ?thesis by (auto simp: fresh_table)
qed

end
