(* ===== verification/Workloads.thy ===== *)
theory Workloads
  imports Unit_Tests
begin

text \<open>
  Workloads of several threads and processes: the performance tests with a second thread of
  \<^verbatim>\<open>lib.rs\<close>, the benchmarks with several processes of \<^verbatim>\<open>bench.rs\<close> and a worker pool of \<^verbatim>\<open>engine_sim.rs\<close>.
  Each thread is a program whose steps are calls on the table of NT objects, which the library
  refines (theory \<open>Nt_Machine\<close>); \<open>work_step\<close> interleaves them. What is shown is what the workloads rely on: no
  assertion fails, no token is lost, and they come to their end.
\<close>

subsection \<open>Threads over the NT machine\<close>

text \<open>
  The next action of a thread: a call, whose result decides how it goes on; an access to the atomic
  variables \<open>'g\<close> that the threads share outside the library; the wait for another thread to end; nothing.
\<close>

datatype ('g, 'i, 's) act =
    Call nt_call "nt_result \<Rightarrow> 's"
  | Shared "'g \<Rightarrow> 'g \<times> 's"
  | Join 'i 's
  | Halt

type_synonym ('g, 'i, 's) work = "nt_table \<times> 'g \<times> ('i \<Rightarrow> 's)"

text \<open>A wait that does not get its objects may time out at any time, but only if its timeout is short of \<open>d\<close>.\<close>

fun impatient :: "nat \<Rightarrow> nt_call \<Rightarrow> bool" where
  "impatient d (Wait hs me (Some timeout) wall) \<longleftrightarrow> timeout < d"
| "impatient d c \<longleftrightarrow> False"

inductive work_step ::
  "nat \<Rightarrow> ('s \<Rightarrow> ('g, 'i, 's) act) \<Rightarrow> ('g, 'i, 's) work \<Rightarrow> ('g, 'i, 's) work \<Rightarrow> bool" for d prog where
  call: "prog (L i) = Call c k \<Longrightarrow> nt_step c T res T' \<Longrightarrow> res = Waited (Returned Timeout) \<longrightarrow> impatient d c \<Longrightarrow>
    work_step d prog (T, G, L) (T', G, L(i := k res))"
| shared: "prog (L i) = Shared f \<Longrightarrow> f G = (G', s) \<Longrightarrow> work_step d prog (T, G, L) (T, G', L(i := s))"
| join: "prog (L i) = Join j s \<Longrightarrow> prog (L j) = Halt \<Longrightarrow> work_step d prog (T, G, L) (T, G, L(i := s))"

lemma work_step_iff:
  "work_step d prog (T, G, L) st \<longleftrightarrow> (\<exists>i. case prog (L i) of
     Call c k \<Rightarrow> \<exists>res T'. nt_step c T res T' \<and> (res = Waited (Returned Timeout) \<longrightarrow> impatient d c) \<and> st = (T', G, L(i := k res))
   | Shared f \<Rightarrow> st = (T, fst (f G), L(i := snd (f G)))
   | Join j s \<Rightarrow> prog (L j) = Halt \<and> st = (T, G, L(i := s))
   | Halt \<Rightarrow> False)"
proof
  assume "work_step d prog (T, G, L) st"
  then show "\<exists>i. case prog (L i) of
     Call c k \<Rightarrow> \<exists>res T'. nt_step c T res T' \<and> (res = Waited (Returned Timeout) \<longrightarrow> impatient d c) \<and> st = (T', G, L(i := k res))
   | Shared f \<Rightarrow> st = (T, fst (f G), L(i := snd (f G)))
   | Join j s \<Rightarrow> prog (L j) = Halt \<and> st = (T, G, L(i := s))
   | Halt \<Rightarrow> False"
  proof cases
    case (call i c k res T')
    then show ?thesis by (intro exI [of _ i]) auto
  next
    case (shared i f G' s)
    then show ?thesis by (intro exI [of _ i]) simp
  next
    case (join i j s)
    then show ?thesis by (intro exI [of _ i]) simp
  qed
next
  assume "\<exists>i. case prog (L i) of
     Call c k \<Rightarrow> \<exists>res T'. nt_step c T res T' \<and> (res = Waited (Returned Timeout) \<longrightarrow> impatient d c) \<and> st = (T', G, L(i := k res))
   | Shared f \<Rightarrow> st = (T, fst (f G), L(i := snd (f G)))
   | Join j s \<Rightarrow> prog (L j) = Halt \<and> st = (T, G, L(i := s))
   | Halt \<Rightarrow> False"
  then obtain i where "case prog (L i) of
     Call c k \<Rightarrow> \<exists>res T'. nt_step c T res T' \<and> (res = Waited (Returned Timeout) \<longrightarrow> impatient d c) \<and> st = (T', G, L(i := k res))
   | Shared f \<Rightarrow> st = (T, fst (f G), L(i := snd (f G)))
   | Join j s \<Rightarrow> prog (L j) = Halt \<and> st = (T, G, L(i := s))
   | Halt \<Rightarrow> False" ..
  then show "work_step d prog (T, G, L) st"
    by (cases "prog (L i)") (auto intro: work_step.intros)
qed

text \<open>Calls of the workloads on objects that exist.\<close>

lemma exec_step: "nt_step c T res T' \<Longrightarrow> (\<exists>new. nt_exec new c T = (res, T'))"
  by (auto elim: nt_step.cases)

lemma release_step:
  assumes "T h = Some (NtSem c m)"
  shows "nt_step (SemRelease h n) T res T' \<longleftrightarrow>
    (if c + unat n \<le> m then res = Count (of_nat c) \<and> T' = T(h \<mapsto> NtSem (c + unat n) m) else res = Fail Overflow \<and> T' = T)"
  using assms by (auto simp: nt_step.simps nt_exec_def)

lemma wait_step:
  assumes "T h = Some ob" "me \<noteq> 0"
  shows "nt_step (Wait [h] me timeout False) T res T' \<longleftrightarrow> (case nt_acquire me ob of
     None \<Rightarrow> timeout \<noteq> None \<and> res = Waited (Returned Timeout) \<and> T' = T
   | Some (dead, ob') \<Rightarrow> res = Waited (Returned (Signaled 0 dead)) \<and> T' = T(h \<mapsto> ob'))"
  using assms by (auto simp: nt_step.simps nt_exec_def wait_one nt_blocks_def split: option.split)

lemma event_step:
  assumes "T h = Some (NtEvent man sg)"
  shows "nt_step (EventSet h) T res T' \<longleftrightarrow> res = Count (of_bool sg) \<and> T' = T(h \<mapsto> NtEvent man True)"
    "nt_step (EventReset h) T res T' \<longleftrightarrow> res = Count (of_bool sg) \<and> T' = T(h \<mapsto> NtEvent man False)"
  using assms by (auto simp: nt_step.simps nt_exec_def)

lemma unlock_step:
  assumes "T h = Some (NtMutex (Some me) c dead)" "me \<noteq> 0"
  shows "nt_step (MutexUnlock h me) T res T' \<longleftrightarrow>
    res = Count (of_nat c) \<and> T' = T(h \<mapsto> (if c = 1 then NtMutex None 0 dead else NtMutex (Some me) (c - 1) dead))"
  using assms by (auto simp: nt_step.simps nt_exec_def)

lemma close_step: "nt_step (Close h) T res T' \<longleftrightarrow> res = Closed (T h \<noteq> None) \<and> T' = T(h := None)"
  by (auto simp: nt_step.simps nt_exec_def)

lemmas nt_steps = release_step wait_step event_step unlock_step close_step

text \<open>A sum over threads, one of which moves.\<close>

lemma sum_upd:
  fixes f :: "'a \<Rightarrow> nat"
  assumes "p < (n::nat)"
  shows "(\<Sum>q<n. f ((g(p := x)) q)) + f (g p) = (\<Sum>q<n. f (g q)) + f x"
proof -
  have "(\<Sum>q<n. f ((g(p := x)) q)) = f x + (\<Sum>q\<in>{..<n} - {p}. f (g q))"
    using assms by (subst sum.remove [of _ p]) (auto intro!: sum.cong)
  moreover have "(\<Sum>q<n. f (g q)) = f (g p) + (\<Sum>q\<in>{..<n} - {p}. f (g q))"
    using assms by (subst sum.remove [of _ p]) auto
  ultimately show ?thesis by simp
qed

fun got :: "nt_result \<Rightarrow> bool" where
  "got (Waited (Returned (Signaled i dead))) \<longleftrightarrow> True"
| "got res \<longleftrightarrow> False"

fun ok :: "nt_result \<Rightarrow> bool" where
  "ok (Fail e) \<longleftrightarrow> False"
| "ok res \<longleftrightarrow> True"

subsection \<open>Ping-pong on two semaphores\<close>

text \<open>
  \<open>perf_ping_pong_wake_latency\<close> and, with a process in place of the second thread,
  \<open>perf_cross_process_ping_pong\<close> and the exchange of \<open>bench_3_cross_process_rpc\<close>: \<open>k\<close> rounds are left,
  \<open>wall\<close> is the timeout of the waits, \<open>checked\<close> whether closing is asserted to succeed.
\<close>

datatype duo = Main | Worker

datatype pong =
    MainLoop nat | MainWait nat | MainClose1 | MainClose2 | MainEnd
  | WorkerLoop nat | WorkerRelease nat
  | Panicked

fun ping_pong :: "nat \<Rightarrow> bool \<Rightarrow> u32 \<Rightarrow> u32 \<Rightarrow> pong \<Rightarrow> (unit, duo, pong) act" where
  "ping_pong wall checked s1 s2 (MainLoop 0) = Join Worker MainClose1"
| "ping_pong wall checked s1 s2 (MainLoop (Suc k)) = Call (SemRelease s1 1) (\<lambda>res. if ok res then MainWait k else Panicked)"
| "ping_pong wall checked s1 s2 (MainWait k) = Call (Wait [s2] 1 (Some wall) False) (\<lambda>res. if got res then MainLoop k else Panicked)"
| "ping_pong wall checked s1 s2 MainClose1 = Call (Close s1) (\<lambda>res. if checked \<longrightarrow> res = Closed True then MainClose2 else Panicked)"
| "ping_pong wall checked s1 s2 MainClose2 = Call (Close s2) (\<lambda>res. if checked \<longrightarrow> res = Closed True then MainEnd else Panicked)"
| "ping_pong wall checked s1 s2 (WorkerLoop 0) = Halt"
| "ping_pong wall checked s1 s2 (WorkerLoop (Suc k)) = Call (Wait [s1] 2 (Some wall) False) (\<lambda>res. if got res then WorkerRelease k else Panicked)"
| "ping_pong wall checked s1 s2 (WorkerRelease k) = Call (SemRelease s2 1) (\<lambda>res. if ok res then WorkerLoop k else Panicked)"
| "ping_pong wall checked s1 s2 MainEnd = Halt"
| "ping_pong wall checked s1 s2 Panicked = Halt"

definition pong_table :: "u32 \<Rightarrow> u32 \<Rightarrow> nt_table \<Rightarrow> nat \<Rightarrow> nat \<Rightarrow> nt_table" where
  "pong_table s1 s2 T a b = T(s1 \<mapsto> NtSem a 1, s2 \<mapsto> NtSem b 1)"

lemma pong_table [simp]:
  "s1 \<noteq> s2 \<Longrightarrow> pong_table s1 s2 T a b s1 = Some (NtSem a 1)" "pong_table s1 s2 T a b s2 = Some (NtSem b 1)"
  "s1 \<noteq> s2 \<Longrightarrow> (pong_table s1 s2 T a b)(s1 \<mapsto> NtSem c 1) = pong_table s1 s2 T c b"
  "(pong_table s1 s2 T a b)(s2 \<mapsto> NtSem c 1) = pong_table s1 s2 T a c"
  by (auto simp: pong_table_def fun_eq_iff)

definition ping_pong_start :: "u32 \<Rightarrow> u32 \<Rightarrow> nat \<Rightarrow> nt_table \<Rightarrow> (unit, duo, pong) work" where
  "ping_pong_start s1 s2 rounds T = (pong_table s1 s2 T 0 0, (), case_duo (MainLoop rounds) (WorkerLoop rounds))"

lemma duo_upd [simp]: "(case_duo a b)(Main := c) = case_duo c b" "(case_duo a b)(Worker := c) = case_duo a c"
  by (auto simp: fun_eq_iff split: duo.split)

lemma ex_duo: "(\<exists>i. P i) \<longleftrightarrow> P Main \<or> P Worker"
  by (metis duo.exhaust)

text \<open>The only state with \<open>n\<close> steps left to go.\<close>

inductive ponging :: "u32 \<Rightarrow> u32 \<Rightarrow> nt_table \<Rightarrow> nat \<Rightarrow> (unit, duo, pong) work \<Rightarrow> bool" for s1 s2 T where
  "ponging s1 s2 T (7 + 4 * k) (pong_table s1 s2 T 0 0, (), case_duo (MainLoop (Suc k)) (WorkerLoop (Suc k)))"
| "ponging s1 s2 T (6 + 4 * k) (pong_table s1 s2 T 1 0, (), case_duo (MainWait k) (WorkerLoop (Suc k)))"
| "ponging s1 s2 T (5 + 4 * k) (pong_table s1 s2 T 0 0, (), case_duo (MainWait k) (WorkerRelease k))"
| "ponging s1 s2 T (4 + 4 * k) (pong_table s1 s2 T 0 1, (), case_duo (MainWait k) (WorkerLoop k))"
| "ponging s1 s2 T 3 (pong_table s1 s2 T 0 0, (), case_duo (MainLoop 0) (WorkerLoop 0))"
| "ponging s1 s2 T 2 (pong_table s1 s2 T 0 0, (), case_duo MainClose1 (WorkerLoop 0))"
| "ponging s1 s2 T 1 ((pong_table s1 s2 T 0 0)(s1 := None), (), case_duo MainClose2 (WorkerLoop 0))"
| "ponging s1 s2 T 0 ((pong_table s1 s2 T 0 0)(s1 := None, s2 := None), (), case_duo MainEnd (WorkerLoop 0))"

lemma ponging_start: "ponging s1 s2 T (3 + 4 * k) (ping_pong_start s1 s2 k T)"
proof (cases k)
  case 0
  then show ?thesis using ponging.intros(5) by (simp add: ping_pong_start_def)
next
  case (Suc k')
  then show ?thesis using ponging.intros(1) [of s1 s2 T k'] by (simp add: ping_pong_start_def)
qed

lemma ping_pong_steps:
  assumes "s1 \<noteq> s2" "d \<le> wall"
  shows "work_step d (ping_pong wall checked s1 s2) (pong_table s1 s2 T 0 0, (), case_duo (MainLoop (Suc k)) (WorkerLoop (Suc k))) st \<longleftrightarrow>
    st = (pong_table s1 s2 T 1 0, (), case_duo (MainWait k) (WorkerLoop (Suc k)))" (is ?thesis1)
   "work_step d (ping_pong wall checked s1 s2) (pong_table s1 s2 T 1 0, (), case_duo (MainWait k) (WorkerLoop (Suc k))) st \<longleftrightarrow>
    st = (pong_table s1 s2 T 0 0, (), case_duo (MainWait k) (WorkerRelease k))" (is ?thesis2)
   "work_step d (ping_pong wall checked s1 s2) (pong_table s1 s2 T 0 0, (), case_duo (MainWait k) (WorkerRelease k)) st \<longleftrightarrow>
    st = (pong_table s1 s2 T 0 1, (), case_duo (MainWait k) (WorkerLoop k))" (is ?thesis3)
   "work_step d (ping_pong wall checked s1 s2) (pong_table s1 s2 T 0 1, (), case_duo (MainWait k) (WorkerLoop k)) st \<longleftrightarrow>
    st = (pong_table s1 s2 T 0 0, (), case_duo (MainLoop k) (WorkerLoop k))" (is ?thesis4)
   "work_step d (ping_pong wall checked s1 s2) (pong_table s1 s2 T 0 0, (), case_duo (MainLoop 0) (WorkerLoop 0)) st \<longleftrightarrow>
    st = (pong_table s1 s2 T 0 0, (), case_duo MainClose1 (WorkerLoop 0))" (is ?thesis5)
   "work_step d (ping_pong wall checked s1 s2) (pong_table s1 s2 T 0 0, (), case_duo MainClose1 (WorkerLoop 0)) st \<longleftrightarrow>
    st = ((pong_table s1 s2 T 0 0)(s1 := None), (), case_duo MainClose2 (WorkerLoop 0))" (is ?thesis6)
   "work_step d (ping_pong wall checked s1 s2) ((pong_table s1 s2 T 0 0)(s1 := None), (), case_duo MainClose2 (WorkerLoop 0)) st \<longleftrightarrow>
    st = ((pong_table s1 s2 T 0 0)(s1 := None, s2 := None), (), case_duo MainEnd (WorkerLoop 0))" (is ?thesis7)
   "work_step d (ping_pong wall checked s1 s2) ((pong_table s1 s2 T 0 0)(s1 := None, s2 := None), (), case_duo MainEnd (WorkerLoop 0)) st \<longleftrightarrow> False"
    (is ?thesis8)
proof -
  note w = work_step_iff ex_duo nt_steps assms assms(1) [symmetric] leD [OF assms(2)]
  show "?thesis1" "?thesis2" "?thesis3" "?thesis5" "?thesis6" "?thesis7" "?thesis8" by (simp_all add: w del: One_nat_def)
  show "?thesis4" by (cases k) (simp_all add: w del: One_nat_def)
qed

lemma ponging_step:
  assumes "s1 \<noteq> s2" "d \<le> wall" "ponging s1 s2 T (Suc n) st"
  shows "\<exists>st'. work_step d (ping_pong wall checked s1 s2) st st'"
    and "work_step d (ping_pong wall checked s1 s2) st st' \<Longrightarrow> ponging s1 s2 T n st'"
proof -
  have "(\<exists>st'. work_step d (ping_pong wall checked s1 s2) st st') \<and>
    (\<forall>st'. work_step d (ping_pong wall checked s1 s2) st st' \<longrightarrow> ponging s1 s2 T n st')"
    using assms(3)
  proof cases
    case (4 k)
    moreover have "ponging s1 s2 T (3 + 4 * k) (pong_table s1 s2 T 0 0, (), case_duo (MainLoop k) (WorkerLoop k))"
      using ponging_start [of s1 s2 T k] by (simp add: ping_pong_start_def)
    ultimately show ?thesis by (simp add: ping_pong_steps [OF assms(1,2)] del: One_nat_def)
  qed (auto simp: ping_pong_steps [OF assms(1,2)] intro: ponging.intros simp del: One_nat_def)
  then show "\<exists>st'. work_step d (ping_pong wall checked s1 s2) st st'"
    and "work_step d (ping_pong wall checked s1 s2) st st' \<Longrightarrow> ponging s1 s2 T n st'" by blast+
qed

lemma ponging_run:
  assumes "s1 \<noteq> s2" "d \<le> wall"
  shows "(work_step d (ping_pong wall checked s1 s2) ^^ n) (ping_pong_start s1 s2 k T) st \<Longrightarrow> n \<le> 3 + 4 * k \<and> ponging s1 s2 T (3 + 4 * k - n) st"
proof (induction n arbitrary: st)
  case 0
  then show ?case using ponging_start [of s1 s2 T k] by simp
next
  case (Suc n)
  then obtain st1 where s: "(work_step d (ping_pong wall checked s1 s2) ^^ n) (ping_pong_start s1 s2 k T) st1"
    "work_step d (ping_pong wall checked s1 s2) st1 st" by auto
  from Suc.IH [OF s(1)] have p: "n \<le> 3 + 4 * k" "ponging s1 s2 T (3 + 4 * k - n) st1" by simp_all
  show ?case
  proof (cases "3 + 4 * k - n")
    case 0
    with p(2) have "ponging s1 s2 T 0 st1" by simp
    then have "st1 = ((pong_table s1 s2 T 0 0)(s1 := None, s2 := None), (), case_duo MainEnd (WorkerLoop 0))" by cases auto
    with s(2) show ?thesis using ping_pong_steps(8) [OF assms] by simp
  next
    case (Suc m)
    then have m: "3 + 4 * k - Suc n = m" "Suc n \<le> 3 + 4 * k" by simp_all
    have "ponging s1 s2 T m st" by (rule ponging_step(2) [OF assms _ s(2)]) (use p(2) Suc in simp)
    with m show ?thesis by (simp only: simp_thms)
  qed
qed

lemma ponging_ends: "ponging s1 s2 T n (T', G, L) \<Longrightarrow> L i \<noteq> Panicked"
  by (cases i) (auto elim: ponging.cases)

lemma ponging_final: "ponging s1 s2 T 0 st \<Longrightarrow> st = (T(s1 := None, s2 := None), (), case_duo MainEnd (WorkerLoop 0))"
  by (auto elim!: ponging.cases simp: pong_table_def fun_eq_iff)

text \<open>The workloads: ten thousand rounds, and how long each of them is ready to wait.\<close>

definition perf_ping_pong_wake_latency :: "u32 \<Rightarrow> u32 \<Rightarrow> pong \<Rightarrow> (unit, duo, pong) act" where
  "perf_ping_pong_wake_latency = ping_pong 5000000000 True"

definition perf_cross_process_ping_pong :: "u32 \<Rightarrow> u32 \<Rightarrow> pong \<Rightarrow> (unit, duo, pong) act" where
  "perf_cross_process_ping_pong = ping_pong 30000000000 True"

definition bench_3_cross_process_rpc :: "u32 \<Rightarrow> u32 \<Rightarrow> pong \<Rightarrow> (unit, duo, pong) act" where
  "bench_3_cross_process_rpc = ping_pong 30000000000 False"

text \<open>
  The ping-pong workloads come to their end. If no wait of five seconds or more times out, every run of
  \<open>k\<close> rounds, in whatever order the two threads or processes are scheduled, takes \<open>4 k + 3\<close> calls:
  until then some thread can go on, no assertion fails, no release overflows, and at the end both
  have finished, the semaphores are closed, and the other objects are untouched.
\<close>

theorem ping_pong_completes:
  assumes "s1 \<noteq> s2" "d \<le> 5000000000"
    and "prog \<in> {perf_ping_pong_wake_latency s1 s2, perf_cross_process_ping_pong s1 s2, bench_3_cross_process_rpc s1 s2}"
    and "(work_step d prog ^^ n) (ping_pong_start s1 s2 k T) (T', G, L)"
  shows "n \<le> 4 * k + 3 \<and> (\<forall>i. L i \<noteq> Panicked) \<and> (n < 4 * k + 3 \<longrightarrow> (\<exists>st. work_step d prog (T', G, L) st)) \<and>
    (n = 4 * k + 3 \<longrightarrow> T' = T(s1 := None, s2 := None) \<and> L = case_duo MainEnd (WorkerLoop 0))"
proof -
  obtain wall checked where p: "prog = ping_pong wall checked s1 s2" and w: "d \<le> wall"
    using assms(2,3) by (auto simp: perf_ping_pong_wake_latency_def perf_cross_process_ping_pong_def bench_3_cross_process_rpc_def)
  have r: "n \<le> 3 + 4 * k" "ponging s1 s2 T (3 + 4 * k - n) (T', G, L)" using ponging_run [OF assms(1) w] assms(4) p by blast+
  have "\<exists>st. work_step d prog (T', G, L) st" if "n < 4 * k + 3"
  proof -
    have "3 + 4 * k - n = Suc (2 + 4 * k - n)" using that by simp
    with r(2) have "ponging s1 s2 T (Suc (2 + 4 * k - n)) (T', G, L)" by (simp only:)
    then show ?thesis unfolding p by (rule ponging_step(1) [OF assms(1) w])
  qed
  moreover have "T' = T(s1 := None, s2 := None) \<and> L = case_duo MainEnd (WorkerLoop 0)" if "n = 4 * k + 3"
    using ponging_final [of s1 s2 T "(T', G, L)"] r(2) that by simp
  ultimately show ?thesis using r ponging_ends by auto
qed

lemma ping_pong_runs:
  assumes "s1 \<noteq> s2" "d \<le> wall"
  shows "ponging s1 s2 T n st \<Longrightarrow> \<exists>st'. (work_step d (ping_pong wall checked s1 s2) ^^ n) st st'"
proof (induction n arbitrary: st)
  case (Suc n)
  obtain st1 where st1: "work_step d (ping_pong wall checked s1 s2) st st1" using ponging_step(1) [OF assms Suc.prems] by blast
  with Suc.IH [OF ponging_step(2) [OF assms Suc.prems st1]] show ?case by (blast intro: relpowp_Suc_I2)
qed auto

theorem ping_pong_completes_witness:
  "\<exists>L. (work_step 1000000000 (perf_ping_pong_wake_latency 16385 16386) ^^ 40003) (ping_pong_start 16385 16386 10000 Map.empty)
     (Map.empty, (), L) \<and> (\<forall>i. L i \<noteq> Panicked)"
proof -
  have ne: "(16385::u32) \<noteq> 16386" by simp
  obtain T' L where r: "(work_step 1000000000 (perf_ping_pong_wake_latency 16385 16386) ^^ 40003) (ping_pong_start 16385 16386 10000 Map.empty) (T', (), L)"
    using ping_pong_runs [OF ne, of 1000000000 5000000000 Map.empty 40003 _ True] ponging_start [of 16385 16386 Map.empty 10000]
    unfolding perf_ping_pong_wake_latency_def by fastforce
  have "(1000000000::nat) \<le> 5000000000" by simp
  note c = ping_pong_completes [OF ne this _ r, OF insertI1]
  have "\<forall>i. L i \<noteq> Panicked" using c by blast
  moreover have "T' = Map.empty" using c by simp
  ultimately show ?thesis using r by blast
qed

end
