(* ===== verification/Text.thy ===== *)
theory Text
  imports Spin
begin

text \<open>
  Strings as the code makes and takes them apart: decimal numbers, joining and splitting at a
  character, lines, and the trimming functions of the standard library that \<^verbatim>\<open>bench.rs\<close> uses, with the
  lemmas that take apart what was put together.
\<close>

subsection \<open>Decimal numbers\<close>

fun decimal :: "nat \<Rightarrow> string" where
  "decimal n = (if n < 10 then [char_of (48 + n)] else decimal (n div 10) @ [char_of (48 + n mod 10)])"

declare decimal.simps [simp del]

lemma decimal_small: "n < 10 \<Longrightarrow> decimal n = [char_of (48 + n)]"
  by (subst decimal.simps) simp

lemma decimal_large: "10 \<le> n \<Longrightarrow> decimal n = decimal (n div 10) @ [char_of (48 + n mod 10)]"
  by (subst decimal.simps) simp

definition is_digit :: "char \<Rightarrow> bool" where
  "is_digit c \<longleftrightarrow> digit c \<noteq> None"

lemma digit_char [simp]: "d < 10 \<Longrightarrow> digit (char_of (48 + d :: nat)) = Some d"
  by (simp add: digit_def Let_def of_char_of)

lemma decimal_digits: "\<forall>c\<in>set (decimal n). is_digit c"
  by (induction n rule: decimal.induct) (subst decimal.simps, simp add: is_digit_def)

lemma decimal_nonempty [simp]: "decimal n \<noteq> []"
  by (subst decimal.simps) simp

lemma parse_digits_append:
  "parse_digits limit acc (xs @ ys) = Option.bind (parse_digits limit acc xs) (\<lambda>a. parse_digits limit a ys)"
  by (induction xs arbitrary: acc) (auto split: option.split)

lemma parse_decimal: "n \<le> limit \<Longrightarrow> parse_digits limit 0 (decimal n) = Some n"
proof (induction n rule: decimal.induct)
  case (1 n)
  show ?case
  proof (cases "n < 10")
    case True
    with 1(2) show ?thesis by (subst decimal.simps) simp
  next
    case False
    have "parse_digits limit 0 (decimal (n div 10)) = Some (n div 10)" using 1 False by simp
    with False 1(2) show ?thesis by (subst decimal.simps) (simp add: parse_digits_append)
  qed
qed

lemma digit_plus: "\<not> is_digit (CHR ''+'')"
  by (simp add: is_digit_def digit_def)

lemma parse_uint_decimal [simp]: "n \<le> limit \<Longrightarrow> parse_uint limit (decimal n) = Some n"
  using decimal_digits [of n] digit_plus parse_decimal [of n limit]
  by (cases "decimal n") (auto simp: parse_uint_def Let_def)

subsection \<open>Hexadecimal numbers\<close>

fun hex :: "nat \<Rightarrow> string" where
  "hex n = (if n < 16 then [char_of (if n < 10 then 48 + n else 87 + n)]
     else hex (n div 16) @ hex (n mod 16))"

declare hex.simps [simp del]

text \<open>The formats \<^verbatim>\<open>{:#x}\<close> and \<^verbatim>\<open>{:#010x}\<close>.\<close>

definition show_hex :: "nat \<Rightarrow> string" where
  "show_hex n = ''0x'' @ hex n"

definition show_hex10 :: "nat \<Rightarrow> string" where
  "show_hex10 n = ''0x'' @ replicate (8 - length (hex n)) (CHR ''0'') @ hex n"

definition show_bool :: "bool \<Rightarrow> string" where
  "show_bool b = (if b then ''true'' else ''false'')"

lemma hex_small: "n < 10 \<Longrightarrow> hex n = [char_of (48 + n)]" "10 \<le> n \<Longrightarrow> n < 16 \<Longrightarrow> hex n = [char_of (87 + n)]"
  by (subst hex.simps; simp)+

lemma hex_large: "16 \<le> n \<Longrightarrow> hex n = hex (n div 16) @ hex (n mod 16)"
  by (subst hex.simps) simp

subsection \<open>Joining and splitting\<close>

fun join_with :: "char \<Rightarrow> string list \<Rightarrow> string" where
  "join_with c [] = []"
| "join_with c [s] = s"
| "join_with c (s # ss) = s @ c # join_with c ss"

text \<open>\<open>str::split\<close>: there is one part more than there are separators.\<close>

fun split_at :: "char \<Rightarrow> string \<Rightarrow> string list" where
  "split_at c [] = [[]]"
| "split_at c (x # xs) = (if x = c then [] # split_at c xs else (x # hd (split_at c xs)) # tl (split_at c xs))"

lemma split_at_nonempty [simp]: "split_at c s \<noteq> []"
  by (cases s) simp_all

lemma split_at_plain: "c \<notin> set s \<Longrightarrow> split_at c s = [s]"
  by (induction s) auto

lemma split_at_append: "c \<notin> set s \<Longrightarrow> split_at c (s @ c # r) = s # split_at c r"
  by (induction s) auto

lemma split_join: "ss \<noteq> [] \<Longrightarrow> \<forall>s\<in>set ss. c \<notin> set s \<Longrightarrow> split_at c (join_with c ss) = ss"
  by (induction c ss rule: join_with.induct) (auto simp: split_at_plain split_at_append)

end
