(* ===== verification/Process_Exchange.thy ===== *)
theory Process_Exchange
  imports Workloads Text
begin

text \<open>
  The benchmarks of many processes of \<^verbatim>\<open>bench.rs\<close>: children that are forked
  (\<open>bench_5_multi_process_contention\<close>) or executed (\<open>bench_6_multi_process_exec\<close>, whose worker is
  \<open>bench_7_worker_exec\<close>) contend for one mutex and exchange requests and answers with their parent, who plays the wineserver.
  The state of the parent counts its rounds of polling, the answers it has given, the child it is at,
  and whether this round has made progress.
\<close>

subsection \<open>The programs\<close>

datatype phase =
    Starting | Looping nat | Locked nat | Sending nat | Receiving nat | Setting nat | Resetting nat

datatype mp =
    Child nat phase
  | Firing | Polling nat nat nat bool | Answering nat nat nat bool | Reaping nat nat | Closing nat
  | Failed

datatype mp_thread = Parent | Proc nat

text \<open>The handles: the event that starts the children, the mutex, the event of all, and the two semaphores of each child.\<close>

record Channels =
  start_ev :: u32
  mtx :: u32
  shared_ev :: u32
  ping :: "nat \<Rightarrow> u32"
  pong :: "nat \<Rightarrow> u32"

text \<open>The first semaphore of a child is the one it releases; children with odd numbers have them swapped.\<close>

definition channel :: "Channels \<Rightarrow> nat \<Rightarrow> u32 \<times> u32" where
  "channel c p = (if p mod 2 = 1 then (pong c p, ping c p) else (ping c p, pong c p))"

definition owner_of :: "nat \<Rightarrow> u32" where
  "owner_of p = 1000 + of_nat p"

fun mp_worker_loop :: "Channels \<Rightarrow> nat \<Rightarrow> nat \<Rightarrow> phase \<Rightarrow> (unit, mp_thread, mp) act" where
  "mp_worker_loop c iters p Starting = Call (Wait [start_ev c] 1 (Some 30000000000) False) (\<lambda>_. Child p (Looping iters))"
| "mp_worker_loop c iters p (Looping 0) = Halt"
| "mp_worker_loop c iters p (Looping (Suc k)) = Call (Wait [mtx c] (owner_of p) (Some 30000000000) False)
     (\<lambda>res. if got res then Child p (Locked k) else Child p (Sending k))"
| "mp_worker_loop c iters p (Locked k) = Call (MutexUnlock (mtx c) (owner_of p)) (\<lambda>res. if ok res then Child p (Sending k) else Failed)"
| "mp_worker_loop c iters p (Sending k) = Call (SemRelease (fst (channel c p)) 1) (\<lambda>res. if ok res then Child p (Receiving k) else Failed)"
| "mp_worker_loop c iters p (Receiving k) = Call (Wait [snd (channel c p)] (owner_of p) (Some 30000000000) False) (\<lambda>_. Child p (Setting k))"
| "mp_worker_loop c iters p (Setting k) = Call (EventSet (shared_ev c)) (\<lambda>res. if ok res then Child p (Resetting k) else Failed)"
| "mp_worker_loop c iters p (Resetting k) = Call (EventReset (shared_ev c)) (\<lambda>res. if ok res then Child p (Looping k) else Failed)"

text \<open>
  The parent. \<open>late n\<close> says whether the deadline has passed after the \<open>n\<close>th round of polling. When it
  stops polling it waits for the children, one after the other, and asserts that every request was given.
\<close>

definition reap :: "nat \<Rightarrow> nat \<Rightarrow> nat \<Rightarrow> nat \<Rightarrow> mp" where
  "reap procs target p given =
     (if p < procs then Reaping p given else if given = target then Closing given else Failed)"

definition turn :: "nat \<Rightarrow> nat \<Rightarrow> nat \<Rightarrow> nat \<Rightarrow> mp" where
  "turn procs target n given = (if given < target then Polling n given 0 False else reap procs target 0 given)"

definition next_poll :: "(nat \<Rightarrow> bool) \<Rightarrow> nat \<Rightarrow> nat \<Rightarrow> nat \<Rightarrow> nat \<Rightarrow> nat \<Rightarrow> bool \<Rightarrow> mp" where
  "next_poll late procs target n given p progressed =
     (if Suc p < procs then Polling n given (Suc p) progressed
      else if \<not> progressed \<and> late n then reap procs target 0 given
      else turn procs target (Suc n) given)"

fun exchange :: "Channels \<Rightarrow> (nat \<Rightarrow> bool) \<Rightarrow> nat \<Rightarrow> nat \<Rightarrow> mp \<Rightarrow> (unit, mp_thread, mp) act" where
  "exchange c late procs iters (Child p ph) = mp_worker_loop c iters p ph"
| "exchange c late procs iters Firing = Call (EventSet (start_ev c))
     (\<lambda>res. if ok res then turn procs (procs * iters) 0 0 else Failed)"
| "exchange c late procs iters (Polling n given p progressed) =
     Call (Wait [fst (channel c p)] 1 (Some 1000000) False)
       (\<lambda>res. if got res then Answering n given p progressed
         else next_poll late procs (procs * iters) n given p progressed)"
| "exchange c late procs iters (Answering n given p progressed) =
     Call (SemRelease (snd (channel c p)) 1)
       (\<lambda>res. if ok res then next_poll late procs (procs * iters) n (Suc given) p True else Failed)"
| "exchange c late procs iters (Reaping p given) = Join (Proc p) (reap procs (procs * iters) (Suc p) given)"
| "exchange c late procs iters (Closing given) = Halt"
| "exchange c late procs iters Failed = Halt"

text \<open>The benchmarks: four processes each.\<close>

definition bench_5_multi_process_contention :: "Channels \<Rightarrow> (nat \<Rightarrow> bool) \<Rightarrow> mp \<Rightarrow> (unit, mp_thread, mp) act" where
  "bench_5_multi_process_contention c late = exchange c late 4 2000"

definition bench_6_multi_process_exec :: "Channels \<Rightarrow> (nat \<Rightarrow> bool) \<Rightarrow> mp \<Rightarrow> (unit, mp_thread, mp) act" where
  "bench_6_multi_process_exec c late = exchange c late 4 6000"

subsection \<open>Handles in the environment of a worker\<close>

text \<open>
  An executed worker gets the handles as text; \<open>worker_channels\<close> is what it makes of the numbers, and
  \<open>bench_7_worker_exec\<close> its program once \<^verbatim>\<open>init\<close> has attached the region, \<open>None\<close> where it panics.
\<close>

definition handle_text :: "Channels \<Rightarrow> nat \<Rightarrow> string" where
  "handle_text c procs = join_with (CHR '','') (map (\<lambda>h. decimal (unat h))
     ([start_ev c, mtx c, shared_ev c] @ map (ping c) [0..<procs] @ map (pong c) [0..<procs]))"

fun all_some :: "'a option list \<Rightarrow> 'a list option" where
  "all_some [] = Some []"
| "all_some (None # xs) = None"
| "all_some (Some x # xs) = map_option ((#) x) (all_some xs)"

definition read_handles :: "string \<Rightarrow> u32 list option" where
  "read_handles text = all_some (map (\<lambda>s. map_option of_nat (parse_uint (2 ^ 32 - 1) s)) (split_at (CHR '','') text))"

definition worker_channels :: "u32 list \<Rightarrow> Channels" where
  "worker_channels h = (let procs = (length h - 3) div 2 in
     \<lparr>start_ev = h ! 0, mtx = h ! 1, shared_ev = h ! 2, ping = (\<lambda>p. h ! (3 + p)), pong = (\<lambda>p. h ! (3 + procs + p))\<rparr>)"

definition bench_7_worker_exec :: "string \<Rightarrow> string \<Rightarrow> string \<Rightarrow> (phase \<Rightarrow> (unit, mp_thread, mp) act) option" where
  "bench_7_worker_exec number iters handles = do {
     p \<leftarrow> parse_uint (2 ^ 32 - 1) number;
     n \<leftarrow> parse_uint (2 ^ 64 - 1) iters;
     h \<leftarrow> read_handles handles;
     if length h < 3 \<or> (length h - 3) div 2 \<le> p then None else Some (mp_worker_loop (worker_channels h) n p)
   }"

lemma all_some_map: "\<forall>x\<in>set xs. f x = Some (g x) \<Longrightarrow> all_some (map f xs) = Some (map g xs)"
  by (induction xs) auto

lemma read_handle_text:
  "read_handles (handle_text c procs) = Some ([start_ev c, mtx c, shared_ev c] @ map (ping c) [0..<procs] @ map (pong c) [0..<procs])"
    (is "_ = Some ?hs")
proof -
  have "CHR '','' \<notin> set (decimal n)" for n
    using decimal_digits [of n] by (auto simp: is_digit_def digit_def)
  then have "split_at (CHR '','') (handle_text c procs) = map (\<lambda>h. decimal (unat h)) ?hs"
    unfolding handle_text_def by (intro split_join) auto
  moreover have "parse_uint (2 ^ 32 - 1) (decimal (unat h)) = Some (unat h)" for h :: u32
    by (rule parse_uint_decimal) (use unsigned_less [of h, where 'a = nat] in simp)
  ultimately show ?thesis
    by (simp only: read_handles_def map_map comp_def option.map) (subst all_some_map [where g = id]; simp)
qed

lemma worker_loop_cong:
  "start_ev c' = start_ev c \<Longrightarrow> mtx c' = mtx c \<Longrightarrow> shared_ev c' = shared_ev c \<Longrightarrow> ping c' p = ping c p \<Longrightarrow> pong c' p = pong c p \<Longrightarrow>
    mp_worker_loop c' iters p ph = mp_worker_loop c iters p ph"
  by (cases "(c, iters, p, ph)" rule: mp_worker_loop.cases) (simp_all add: channel_def)

subsection \<open>The invariant\<close>

definition channels_ok :: "Channels \<Rightarrow> nat \<Rightarrow> bool" where
  "channels_ok c procs \<longleftrightarrow> start_ev c \<noteq> mtx c \<and> start_ev c \<noteq> shared_ev c \<and> mtx c \<noteq> shared_ev c \<and> procs < 2 ^ 31 \<and>
     (\<forall>p<procs. {ping c p, pong c p} \<inter> {start_ev c, mtx c, shared_ev c} = {} \<and>
       (\<forall>q<procs. ping c p \<noteq> pong c q \<and> (ping c p = ping c q \<longrightarrow> p = q) \<and> (pong c p = pong c q \<longrightarrow> p = q)))"

lemma channels_apart:
  assumes "channels_ok c procs" "p < procs" "q < procs"
  shows "fst (channel c p) = fst (channel c q) \<longleftrightarrow> p = q" "snd (channel c p) = snd (channel c q) \<longleftrightarrow> p = q"
    "fst (channel c p) \<noteq> snd (channel c q)" "snd (channel c p) \<noteq> fst (channel c q)"
    "owner_of p = owner_of q \<longleftrightarrow> p = q" "owner_of p \<noteq> 0"
proof -
  have d: "ping c p \<noteq> pong c q" "ping c q \<noteq> pong c p" "ping c p = ping c q \<longleftrightarrow> p = q" "pong c p = pong c q \<longleftrightarrow> p = q"
    using assms unfolding channels_ok_def by blast+
  from d show "fst (channel c p) = fst (channel c q) \<longleftrightarrow> p = q" "snd (channel c p) = snd (channel c q) \<longleftrightarrow> p = q"
    "fst (channel c p) \<noteq> snd (channel c q)" "snd (channel c p) \<noteq> fst (channel c q)"
    by (auto simp: channel_def)
  have u: "unat (owner_of p) = 1000 + p" if "p < procs" for p
    using assms(1) that by (simp add: owner_of_def unat_add_u32 unat_of_nat channels_ok_def)
  show "owner_of p = owner_of q \<longleftrightarrow> p = q" using u [OF assms(2)] u [OF assms(3)] by (simp add: word_unat_eq_iff)
  show "owner_of p \<noteq> 0" using u [OF assms(2)] by (auto simp: word_unat_eq_iff)
qed

lemma channels_fixed: "channels_ok c procs \<Longrightarrow> start_ev c \<noteq> mtx c" "channels_ok c procs \<Longrightarrow> start_ev c \<noteq> shared_ev c"
    "channels_ok c procs \<Longrightarrow> mtx c \<noteq> shared_ev c"
  by (simp_all add: channels_ok_def)

lemma channel_own:
  assumes "channels_ok c procs" "p < procs"
  shows "fst (channel c p) \<noteq> start_ev c" "fst (channel c p) \<noteq> mtx c" "fst (channel c p) \<noteq> shared_ev c"
    "snd (channel c p) \<noteq> start_ev c" "snd (channel c p) \<noteq> mtx c" "snd (channel c p) \<noteq> shared_ev c"
  using assms by (auto simp: channels_ok_def channel_def)

fun left :: "nat \<Rightarrow> phase \<Rightarrow> nat" where
  "left iters Starting = iters"
| "left iters (Looping k) = k"
| "left iters (Locked k) = Suc k"
| "left iters (Sending k) = Suc k"
| "left iters (Receiving k) = Suc k"
| "left iters (Setting k) = k"
| "left iters (Resetting k) = k"

fun locked :: "phase \<Rightarrow> bool" where
  "locked (Locked k) \<longleftrightarrow> True"
| "locked ph \<longleftrightarrow> False"

fun receiving :: "phase \<Rightarrow> bool" where
  "receiving (Receiving k) \<longleftrightarrow> True"
| "receiving ph \<longleftrightarrow> False"

fun answering :: "mp \<Rightarrow> nat \<Rightarrow> bool" where
  "answering (Answering n a q progressed) p \<longleftrightarrow> q = p"
| "answering s p \<longleftrightarrow> False"

fun answers :: "mp \<Rightarrow> nat" where
  "answers (Polling n a p progressed) = a"
| "answers (Answering n a p progressed) = a"
| "answers (Reaping p a) = a"
| "answers (Closing a) = a"
| "answers s = 0"

fun parent_ok :: "nat \<Rightarrow> nat \<Rightarrow> (nat \<Rightarrow> phase) \<Rightarrow> mp \<Rightarrow> bool" where
  "parent_ok procs iters ph Firing \<longleftrightarrow> True"
| "parent_ok procs iters ph (Polling n a p progressed) \<longleftrightarrow> p < procs"
| "parent_ok procs iters ph (Answering n a p progressed) \<longleftrightarrow> p < procs"
| "parent_ok procs iters ph (Reaping p a) \<longleftrightarrow> p < procs \<and> (\<forall>q<p. ph q = Looping 0)"
| "parent_ok procs iters ph (Closing a) \<longleftrightarrow> a = procs * iters \<and> (\<forall>q<procs. ph q = Looping 0)"
| "parent_ok procs iters ph s \<longleftrightarrow> False"

text \<open>
  \<open>exchanging\<close>: in which phase each child is, how many requests and answers lie in its channel, who
  holds the mutex. A child that waits for its answer has one request, answer or parent that is about to answer; every other
  child has none. What was given and what is left add up, but for the answers not yet taken.
\<close>

definition exchanging ::
  "Channels \<Rightarrow> nat \<Rightarrow> nat \<Rightarrow> (nat \<Rightarrow> phase) \<Rightarrow> (nat \<Rightarrow> nat) \<Rightarrow> (nat \<Rightarrow> nat) \<Rightarrow> nat option \<Rightarrow> nt_table \<Rightarrow> (mp_thread \<Rightarrow> mp) \<Rightarrow> bool" where
  "exchanging c procs iters ph r s own T L \<longleftrightarrow>
     (\<forall>p. L (Proc p) = Child p (ph p)) \<and> (\<forall>p\<ge>procs. ph p = Looping 0) \<and>
     (\<exists>sg. T (start_ev c) = Some (NtEvent True sg)) \<and> (\<exists>sg. T (shared_ev c) = Some (NtEvent False sg)) \<and>
     T (mtx c) = Some (case own of None \<Rightarrow> NtMutex None 0 False | Some p \<Rightarrow> NtMutex (Some (owner_of p)) 1 False) \<and>
     (\<forall>p<procs. locked (ph p) \<longleftrightarrow> own = Some p) \<and> (\<forall>p. own = Some p \<longrightarrow> p < procs) \<and>
     (\<forall>p<procs. T (fst (channel c p)) = Some (NtSem (r p) 1) \<and> T (snd (channel c p)) = Some (NtSem (s p) 1) \<and>
        r p + s p + of_bool (answering (L Parent) p) = of_bool (receiving (ph p))) \<and>
     parent_ok procs iters ph (L Parent) \<and>
     answers (L Parent) + (\<Sum>p<procs. left iters (ph p)) = procs * iters + (\<Sum>p<procs. s p)"

lemma parent_ok_upd: "p < procs \<Longrightarrow> ph p \<noteq> Looping 0 \<Longrightarrow> parent_ok procs iters ph st \<Longrightarrow> parent_ok procs iters (ph(p := x)) st"
  by (cases st) auto

text \<open>One child moves on: what there is to check of its own channel and of the mutex.\<close>

lemma child_moves:
  assumes e: "exchanging c procs iters ph r s own T L" and p: "p < procs" "ph p \<noteq> Looping 0"
    and t: "\<exists>sg. T' (start_ev c) = Some (NtEvent True sg)" "\<exists>sg. T' (shared_ev c) = Some (NtEvent False sg)"
      "T' (mtx c) = Some (case own' of None \<Rightarrow> NtMutex None 0 False | Some p \<Rightarrow> NtMutex (Some (owner_of p)) 1 False)"
    and m: "locked x \<longleftrightarrow> own' = Some p" "\<And>q. q \<noteq> p \<Longrightarrow> own' = Some q \<longleftrightarrow> own = Some q"
    and o: "\<And>q. q < procs \<Longrightarrow> q \<noteq> p \<Longrightarrow> T' (fst (channel c q)) = T (fst (channel c q)) \<and> T' (snd (channel c q)) = T (snd (channel c q))"
    and n: "T' (fst (channel c p)) = Some (NtSem r' 1)" "T' (snd (channel c p)) = Some (NtSem s' 1)"
      "r' + s' + of_bool (answering (L Parent) p) = of_bool (receiving x)" "left iters (ph p) + s' = left iters x + s p"
  shows "exchanging c procs iters (ph(p := x)) (r(p := r')) (s(p := s')) own' T' (L(Proc p := Child p x))"
proof -
  have "locked ((ph(p := x)) q) \<longleftrightarrow> own' = Some q" if "q < procs" for q
    using e m that by (auto simp: exchanging_def)
  moreover have "own' = Some q \<longrightarrow> q < procs" for q using e m(2) [of q] p(1) by (cases "q = p") (auto simp: exchanging_def)
  moreover have "T' (fst (channel c q)) = Some (NtSem ((r(p := r')) q) 1) \<and> T' (snd (channel c q)) = Some (NtSem ((s(p := s')) q) 1) \<and>
      (r(p := r')) q + (s(p := s')) q + of_bool (answering (L Parent) q) = of_bool (receiving ((ph(p := x)) q))" if "q < procs" for q
    using e n o [of q] that by (auto simp: exchanging_def)
  moreover have "answers (L Parent) + (\<Sum>q<procs. left iters ((ph(p := x)) q)) = procs * iters + (\<Sum>q<procs. (s(p := s')) q)"
  proof -
    have "answers (L Parent) + (\<Sum>p<procs. left iters (ph p)) = procs * iters + (\<Sum>p<procs. s p)" using e by (simp add: exchanging_def)
    with sum_upd [OF p(1), of "left iters" ph x] sum_upd [OF p(1), of "\<lambda>x. x" s s'] n(4) show ?thesis by linarith
  qed
  moreover have "parent_ok procs iters (ph(p := x)) (L Parent)" using e p by (intro parent_ok_upd) (simp_all add: exchanging_def)
  ultimately show ?thesis
    unfolding exchanging_def using e p(1) t by (auto simp: exchanging_def)
qed

lemma exchangingD:
  assumes e: "exchanging c procs iters ph r s own T L"
  shows "L (Proc p) = Child p (ph p)" "\<exists>sg. T (start_ev c) = Some (NtEvent True sg)" "\<exists>sg. T (shared_ev c) = Some (NtEvent False sg)"
    "T (mtx c) = Some (case own of None \<Rightarrow> NtMutex None 0 False | Some p \<Rightarrow> NtMutex (Some (owner_of p)) 1 False)"
    "p < procs \<Longrightarrow> locked (ph p) \<longleftrightarrow> own = Some p"
    "p < procs \<Longrightarrow> T (fst (channel c p)) = Some (NtSem (r p) 1)" "p < procs \<Longrightarrow> T (snd (channel c p)) = Some (NtSem (s p) 1)"
    "p < procs \<Longrightarrow> r p + s p + of_bool (answering (L Parent) p) = of_bool (receiving (ph p))"
    "own = Some q \<Longrightarrow> q < procs"
  using e unfolding exchanging_def by simp_all

lemma child_step:
  assumes c: "channels_ok c procs" and d: "d \<le> 30000000000" and e: "exchanging c procs iters ph r s own T L"
    and a: "mp_worker_loop c iters p (ph p) = Call call k" "nt_step call T res T'" "res = Waited (Returned Timeout) \<longrightarrow> impatient d call"
  shows "\<exists>ph' r' s' own'. exchanging c procs iters ph' r' s' own' T' (L(Proc p := k res))"
proof -
  have p: "p < procs" "ph p \<noteq> Looping 0" using e a(1) by (cases "p < procs"; auto simp: exchanging_def)+
  note A = channels_apart [OF c] and O = channel_own [OF c] 
  note O1 = channel_own [OF c p(1)] channels_fixed [OF c]
  obtain sg sg' where ev: "T (start_ev c) = Some (NtEvent True sg)" "T (shared_ev c) = Some (NtEvent False sg')"
    using exchangingD(2,3) [OF e] by blast
  note t = exchangingD(4) [OF e] exchangingD(5-8) [OF e p(1)] ev
  show ?thesis
  proof (cases "ph p")
    case Starting
    then have "T' = T(start_ev c \<mapsto> NtEvent True True) \<and> k res = Child p (Looping iters)"
      using a ev d by (auto simp: nt_steps split: if_splits)
    moreover have "exchanging c procs iters (ph(p := Looping iters)) (r(p := r p)) (s(p := s p)) own (T(start_ev c \<mapsto> NtEvent True True)) (L(Proc p := Child p (Looping iters)))"
      by (rule child_moves [OF e p]) (use t O O1 Starting in auto)
    ultimately show ?thesis by auto
  next
    case (Looping n)
    then obtain m where n: "n = Suc m" using p(2) by (cases n) auto
    show ?thesis
    proof (cases own)
      case None
      have "T' = T(mtx c \<mapsto> NtMutex (Some (owner_of p)) 1 False) \<and> k res = Child p (Locked m)"
        using a t None Looping n A(6) [OF p(1) p(1)] by (auto simp: nt_steps)
      moreover have "exchanging c procs iters (ph(p := Locked m)) (r(p := r p)) (s(p := s p)) (Some p) (T(mtx c \<mapsto> NtMutex (Some (owner_of p)) 1 False)) (L(Proc p := Child p (Locked m)))"
        by (rule child_moves [OF e p]) (use t O O1 Looping n None in auto)
      ultimately show ?thesis by auto
    next
      case (Some q)
      have q: "q < procs" "owner_of q \<noteq> owner_of p" using exchangingD(9) [OF e Some] t(2) Looping Some A(5) [OF p(1), of q] by auto
      have "False" using a t Some Looping n d A(6) [OF p(1) p(1)] q(2) by (auto simp: nt_steps)
      then show ?thesis ..
    qed
  next
    case (Locked n)
    then have own: "own = Some p" using t(2) by simp
    have "T' = T(mtx c \<mapsto> NtMutex None 0 False) \<and> k res = Child p (Sending n)"
      using a t Locked own A(6) [OF p(1) p(1)] by (auto simp: nt_steps)
    moreover have "exchanging c procs iters (ph(p := Sending n)) (r(p := r p)) (s(p := s p)) None (T(mtx c \<mapsto> NtMutex None 0 False)) (L(Proc p := Child p (Sending n)))"
      by (rule child_moves [OF e p]) (use t O O1 Locked own in auto)
    ultimately show ?thesis by auto
  next
    case (Sending n)
    then have z: "r p = 0" "s p = 0" "\<not> answering (L Parent) p" using t(5) by simp_all
    have "T' = T(fst (channel c p) \<mapsto> NtSem 1 1) \<and> k res = Child p (Receiving n)"
      using a t Sending z by (auto simp: nt_steps)
    moreover have "exchanging c procs iters (ph(p := Receiving n)) (r(p := 1)) (s(p := 0)) own (T(fst (channel c p) \<mapsto> NtSem 1 1)) (L(Proc p := Child p (Receiving n)))"
      by (rule child_moves [OF e p]; use t O1 in \<open>simp add: A O O [THEN not_sym] p Sending z\<close>)
    ultimately show ?thesis by auto
  next
    case (Receiving n)
    then have z: "s p = 0 \<or> s p = 1 \<and> r p = 0 \<and> \<not> answering (L Parent) p" using t(5) by (cases "s p") auto
    have z: "s p = 1" "r p = 0" "\<not> answering (L Parent) p" using z a t Receiving d A(6) [OF p(1) p(1)] by (auto simp: nt_steps)
    have "T' = T(snd (channel c p) \<mapsto> NtSem 0 1) \<and> k res = Child p (Setting n)"
      using a t Receiving z A(6) [OF p(1) p(1)] by (auto simp: nt_steps)
    moreover have "exchanging c procs iters (ph(p := Setting n)) (r(p := 0)) (s(p := 0)) own (T(snd (channel c p) \<mapsto> NtSem 0 1)) (L(Proc p := Child p (Setting n)))"
      by (rule child_moves [OF e p]; use t O1 in \<open>simp add: A O O [THEN not_sym] p Receiving z\<close>)
    ultimately show ?thesis by auto
  next
    case (Setting n)
    have "T' = T(shared_ev c \<mapsto> NtEvent False True) \<and> k res = Child p (Resetting n)"
      using a t Setting by (auto simp: nt_steps)
    moreover have "exchanging c procs iters (ph(p := Resetting n)) (r(p := r p)) (s(p := s p)) own (T(shared_ev c \<mapsto> NtEvent False True)) (L(Proc p := Child p (Resetting n)))"
      by (rule child_moves [OF e p]) (use t O O1 Setting in auto)
    ultimately show ?thesis by auto
  next
    case (Resetting n)
    have "T' = T(shared_ev c \<mapsto> NtEvent False False) \<and> k res = Child p (Looping n)"
      using a t Resetting by (auto simp: nt_steps)
    moreover have "exchanging c procs iters (ph(p := Looping n)) (r(p := r p)) (s(p := s p)) own (T(shared_ev c \<mapsto> NtEvent False False)) (L(Proc p := Child p (Looping n)))"
      by (rule child_moves [OF e p]) (use t O O1 Resetting in auto)
    ultimately show ?thesis by auto
  qed
qed

text \<open>The parent moves on.\<close>

lemma parent_moves:
  assumes e: "exchanging c procs iters ph r s own T L"
    and t: "\<exists>sg. T' (start_ev c) = Some (NtEvent True sg)" "\<exists>sg. T' (shared_ev c) = Some (NtEvent False sg)" "T' (mtx c) = T (mtx c)"
    and o: "\<And>q. q < procs \<Longrightarrow> T' (fst (channel c q)) = Some (NtSem (r' q) 1) \<and> T' (snd (channel c q)) = Some (NtSem (s' q) 1) \<and>
      r' q + s' q + of_bool (answering x q) = of_bool (receiving (ph q))"
    and x: "parent_ok procs iters ph x" "answers x + (\<Sum>q<procs. s q) = answers (L Parent) + (\<Sum>q<procs. s' q)"
  shows "exchanging c procs iters ph r' s' own T' (L(Parent := x))"
  using e t o x unfolding exchanging_def by auto

lemma reap_first: "0 < procs \<Longrightarrow> reap procs target 0 given = Reaping 0 given"
  by (simp add: reap_def)

lemma turn_simps:
  assumes "procs = 0 \<longrightarrow> given = 0"
  shows "parent_ok procs iters ph (turn procs (procs * iters) n given)" "answers (turn procs (procs * iters) n given) = given"
    "\<not> answering (turn procs (procs * iters) n given) q"
  using assms by (cases "procs = 0"; simp add: turn_def reap_def; fail)+

lemma next_poll_simps:
  assumes "p < procs"
  shows "parent_ok procs iters ph (next_poll late procs (procs * iters) n given p progressed)"
    "answers (next_poll late procs (procs * iters) n given p progressed) = given"
    "\<not> answering (next_poll late procs (procs * iters) n given p progressed) q"
  using assms turn_simps [of procs given iters] by (simp_all add: next_poll_def reap_first)

lemma parent_step:
  assumes c: "channels_ok c procs" and e: "exchanging c procs iters ph r s own T L"
    and a: "exchange c late procs iters (L Parent) = Call call k" "nt_step call T res T'"
  shows "\<exists>r' s'. exchanging c procs iters ph r' s' own T' (L(Parent := k res))"
proof -
  obtain sg sg' where ev: "T (start_ev c) = Some (NtEvent True sg)" "T (shared_ev c) = Some (NtEvent False sg')"
    using exchangingD(2,3) [OF e] by blast
  note A = channels_apart [OF c] and O = channel_own [OF c] and B = channels_fixed [OF c] and t = exchangingD [OF e]
  have ok: "parent_ok procs iters ph (L Parent)" using e by (simp add: exchanging_def)
  show ?thesis
  proof (cases "L Parent")
    case (Child q x)
    with ok show ?thesis by simp
  next
    case Firing
    have z: "procs = 0 \<longrightarrow> (0::nat) = 0" by simp
    have "T' = T(start_ev c \<mapsto> NtEvent True True) \<and> k res = turn procs (procs * iters) 0 0"
      using a ev Firing by (auto simp: nt_steps)
    moreover have "exchanging c procs iters ph r s own (T(start_ev c \<mapsto> NtEvent True True)) (L(Parent := turn procs (procs * iters) 0 0))"
      by (rule parent_moves [OF e]; use ev t Firing in \<open>simp add: exI [of "\<lambda>b. b" True] turn_simps [OF z] B B [THEN not_sym] O O [THEN not_sym]\<close>)
    ultimately show ?thesis by auto
  next
    case (Polling n given p progressed)
    then have p: "p < procs" using ok by simp
    have na: "\<not> answering (L Parent) q" for q using Polling by simp
    show ?thesis
    proof (cases "r p")
      case 0
      then have "T' = T \<and> k res = next_poll late procs (procs * iters) n given p progressed"
        using a t(6) [OF p] Polling by (auto simp: nt_steps)
      moreover have "exchanging c procs iters ph r s own T (L(Parent := next_poll late procs (procs * iters) n given p progressed))"
        by (rule parent_moves [OF e]; use ev t Polling na in \<open>simp add: next_poll_simps [OF p]\<close>)
      ultimately show ?thesis by auto
    next
      case (Suc m)
      then have m: "m = 0" "s p = 0" "receiving (ph p)" using t(8) [OF p] by (cases "receiving (ph p)"; simp)+
      have "T' = T(fst (channel c p) \<mapsto> NtSem 0 1) \<and> k res = Answering n given p progressed"
        using a t(6) [OF p] Polling Suc m by (auto simp: nt_steps)
      moreover have "exchanging c procs iters ph (r(p := 0)) s own (T(fst (channel c p) \<mapsto> NtSem 0 1)) (L(Parent := Answering n given p progressed))"
        by (rule parent_moves [OF e]; use ev t Polling na in \<open>simp add: m p A B B [THEN not_sym] O O [THEN not_sym]\<close>)
      ultimately show ?thesis by auto
    qed
  next
    case (Answering n given p progressed)
    then have p: "p < procs" using ok by simp
    have m: "r p = 0" "s p = 0" "receiving (ph p)" using t(8) [OF p] Answering by (cases "receiving (ph p)"; simp)+
    have rest: "r q + s q = of_bool (receiving (ph q))" if "q < procs" "q \<noteq> p" for q using t(8) [of q] that Answering by simp
    have "T' = T(snd (channel c p) \<mapsto> NtSem 1 1) \<and> k res = next_poll late procs (procs * iters) n (Suc given) p True"
      using a t(7) [OF p] Answering m by (auto simp: nt_steps)
    moreover have "exchanging c procs iters ph r (s(p := 1)) own (T(snd (channel c p) \<mapsto> NtSem 1 1))
        (L(Parent := next_poll late procs (procs * iters) n (Suc given) p True))"
      using sum_upd [OF p, of "\<lambda>x. x" s 1]
      by - (rule parent_moves [OF e]; use ev t(1-7,9) Answering in \<open>simp add: rest m p A next_poll_simps [OF p] B B [THEN not_sym] O O [THEN not_sym]\<close>)
    ultimately show ?thesis by auto
  qed (use a in simp_all)
qed

lemma parent_joins:
  assumes e: "exchanging c procs iters ph r s own T L" and j: "exchange c late procs iters (L Parent) = Join j x" "exchange c late procs iters (L j) = Halt"
  shows "exchanging c procs iters ph r s own T (L(Parent := x))"
proof -
  have ok: "parent_ok procs iters ph (L Parent)" using e by (simp add: exchanging_def)
  obtain p given where P: "L Parent = Reaping p given" "j = Proc p" "x = reap procs (procs * iters) (Suc p) given"
    using j(1) ok by (cases "L Parent") auto
  have p: "p < procs" "\<forall>q<p. ph q = Looping 0" using ok P(1) by simp_all
  have "mp_worker_loop c iters p (ph p) = Halt" using j(2) P(2) exchangingD(1) [OF e, of p] by simp
  then have "ph p = Looping 0" by (cases "(c, iters, p, ph p)" rule: mp_worker_loop.cases) auto
  then have f: "\<forall>q<Suc p. ph q = Looping 0" using p(2) less_Suc_eq by auto
  have all: "given = procs * iters \<and> (\<forall>q<procs. ph q = Looping 0)" if "\<not> Suc p < procs"
  proof -
    have l: "\<forall>q<procs. ph q = Looping 0" using f p(1) that by (metis Suc_lessI less_SucI linorder_neqE_nat)
    then have "\<forall>q<procs. s q = 0" using exchangingD(8) [OF e] P(1) by force
    with l show ?thesis using e P(1) by (simp add: exchanging_def)
  qed
  have "parent_ok procs iters ph x \<and> answers x = given \<and> (\<forall>q. \<not> answering x q)"
    using all f by (auto simp: P(3) reap_def)
  with P(1) show ?thesis
    by (intro parent_moves [OF e]; use exchangingD [OF e] in simp)
qed

subsection \<open>Runs\<close>

definition exchange_table :: "Channels \<Rightarrow> nat \<Rightarrow> nt_table \<Rightarrow> nt_table" where
  "exchange_table c procs T h =
     (if h = start_ev c then Some (NtEvent True False) else if h = mtx c then Some (NtMutex None 0 False)
      else if h = shared_ev c then Some (NtEvent False False)
      else if \<exists>p<procs. h = ping c p \<or> h = pong c p then Some (NtSem 0 1) else T h)"

definition exchange_start :: "Channels \<Rightarrow> nat \<Rightarrow> nt_table \<Rightarrow> (unit, mp_thread, mp) work" where
  "exchange_start c procs T = (exchange_table c procs T, (),
     case_mp_thread Firing (\<lambda>p. Child p (if p < procs then Starting else Looping 0)))"

lemma exchanging_start:
  assumes "channels_ok c procs"
  shows "exchanging c procs iters (\<lambda>p. if p < procs then Starting else Looping 0) (\<lambda>_. 0) (\<lambda>_. 0) None (exchange_table c procs T)
    (case_mp_thread Firing (\<lambda>p. Child p (if p < procs then Starting else Looping 0)))"
proof -
  have "exchange_table c procs T (fst (channel c p)) = Some (NtSem 0 1)" "exchange_table c procs T (snd (channel c p)) = Some (NtSem 0 1)"
    if "p < procs" for p
    using channel_own [OF assms that] that by (auto simp: exchange_table_def channel_def)
  moreover have "(\<Sum>p<procs. left iters (if p < procs then Starting else Looping 0)) = procs * iters" by simp
  ultimately show ?thesis
    using channels_fixed [OF assms] by (auto simp: exchanging_def exchange_table_def)
qed

lemma exchanging_step:
  assumes c: "channels_ok c procs" and d: "d \<le> 30000000000" and e: "exchanging c procs iters ph r s own T L"
    and w: "work_step d (exchange c late procs iters) (T, G, L) (T', G', L')"
  shows "\<exists>ph r s own. exchanging c procs iters ph r s own T' L'"
  using w
proof cases
  case (call i call k res)
  show ?thesis
  proof (cases i)
    case Parent
    with call parent_step [OF c e, of late call k res T'] show ?thesis by auto
  next
    case (Proc p)
    with call exchangingD(1) [OF e, of p] child_step [OF c d e, of p call k res T'] show ?thesis by auto
  qed
next
  case (shared i f s)
  have "mp_worker_loop c iters p ph' \<noteq> Shared f" for p ph'
    by (cases "(c, iters, p, ph')" rule: mp_worker_loop.cases) auto
  then have "exchange c late procs iters st \<noteq> Shared f" for st by (cases st) auto
  with shared show ?thesis by blast
next
  case (join i j st)
  show ?thesis
  proof (cases i)
    case Parent
    with join parent_joins [OF e] show ?thesis by blast
  next
    case (Proc p)
    have "mp_worker_loop c iters p ph' \<noteq> Join j st" for ph'
      by (cases "(c, iters, p, ph')" rule: mp_worker_loop.cases) auto
    with join Proc exchangingD(1) [OF e, of p] show ?thesis by simp
  qed
qed

lemma exchanging_run:
  assumes "channels_ok c procs" "d \<le> 30000000000"
    and "(work_step d (exchange c late procs iters))\<^sup>*\<^sup>* (exchange_start c procs T) st"
  shows "\<exists>ph r s own. exchanging c procs iters ph r s own (fst st) (snd (snd st))"
  using assms(3)
proof induction
  case base
  then show ?case using exchanging_start [OF assms(1)] by (fastforce simp: exchange_start_def)
next
  case (step st1 st2)
  then show ?case using exchanging_step [OF assms(1,2)] by (cases st1; cases st2) fastforce
qed

subsection \<open>Properties\<close>


definition four_channels :: Channels where
  "four_channels = \<lparr>start_ev = 16385, mtx = 16386, shared_ev = 16387, ping = (\<lambda>p. 16400 + of_nat p), pong = (\<lambda>p. 16500 + of_nat p)\<rparr>"

lemma four_channels: "channels_ok four_channels 4"
proof -
  have "p < 4 \<longleftrightarrow> p = 0 \<or> p = 1 \<or> p = 2 \<or> p = 3" for p :: nat by auto
  then show ?thesis by (auto simp: channels_ok_def four_channels_def)
qed

text \<open>The parent fires, the first two children start, and the first of them takes the mutex.\<close>

lemma call_first:
  assumes "prog (L i) = Call c k" "nt_step c T res T'" "res \<noteq> Waited (Returned Timeout)"
    "(work_step d prog)\<^sup>*\<^sup>* (T', G, L(i := k res)) st"
  shows "(work_step d prog)\<^sup>*\<^sup>* (T, G, L) st"
  using assms by (blast intro: converse_rtranclp_into_rtranclp work_step.call)

lemma four_run:
  "\<exists>T' L. (work_step 30000000000 (exchange four_channels (\<lambda>_. False) 4 2000))\<^sup>*\<^sup>* (exchange_start four_channels 4 T) (T', (), L) \<and>
     L (Proc 0) = Child 0 (Locked 1999) \<and> L (Proc 1) = Child 1 (Looping 2000) \<and> L Parent = Polling 0 0 0 False"
proof -
  define c where "c = four_channels"
  define t0 where "t0 = exchange_table c 4 T"
  define t1 where "t1 = t0(start_ev c \<mapsto> NtEvent True True)"
  define t2 where "t2 = t1(mtx c \<mapsto> NtMutex (Some (owner_of 0)) 1 False)"
  define l0 where "l0 = case_mp_thread Firing (\<lambda>p. Child p (if p < 4 then Starting else Looping 0))"
  let ?l = "l0(Parent := Polling 0 0 0 False, Proc 0 := Child 0 (Looping 2000), Proc 1 := Child 1 (Looping 2000), Proc 0 := Child 0 (Locked 1999))"
  have t: "t0 (start_ev c) = Some (NtEvent True False)" "t0 (mtx c) = Some (NtMutex None 0 False)" "mtx c \<noteq> start_ev c" "owner_of 0 \<noteq> 0"
    by (simp_all add: t0_def c_def exchange_table_def four_channels_def owner_of_def)
  have t1: "t1 (start_ev c) = Some (NtEvent True True)" "t1 (mtx c) = Some (NtMutex None 0 False)" using t by (simp_all add: t1_def)
  have s: "t1(start_ev c \<mapsto> NtEvent True True) = t1" by (simp add: t1_def)
  have fires: "nt_step (EventSet (start_ev c)) t0 (Count 0) t1" using t by (simp add: nt_steps t1_def)
  have starts: "nt_step (Wait [start_ev c] 1 (Some 30000000000) False) t1 (Waited (Returned (Signaled 0 False))) t1" by (simp add: nt_steps t1 s)
  have locks: "nt_step (Wait [mtx c] (owner_of 0) (Some 30000000000) False) t1 (Waited (Returned (Signaled 0 False))) t2"
    using t by (simp add: nt_steps t1 t2_def)
  have k: "mp_worker_loop c 2000 0 (Looping 2000) = Call (Wait [mtx c] (owner_of 0) (Some 30000000000) False)
      (\<lambda>res. if got res then Child 0 (Locked 1999) else Child 0 (Sending 1999))"
    using mp_worker_loop.simps(3) [of c 2000 0 1999] by simp
  have "(work_step 30000000000 (exchange c (\<lambda>_. False) 4 2000))\<^sup>*\<^sup>* (t0, (), l0) (t2, (), ?l)"
    apply (rule call_first [OF _ fires, where i = Parent and k = "\<lambda>res. if ok res then turn 4 (4 * 2000) 0 0 else Failed"], simp add: l0_def, simp)
    apply (rule call_first [OF _ starts, where i = "Proc 0" and k = "\<lambda>_. Child 0 (Looping 2000)"], simp add: l0_def, simp)
    apply (rule call_first [OF _ starts, where i = "Proc 1" and k = "\<lambda>_. Child 1 (Looping 2000)"], simp add: l0_def, simp)
    apply (rule call_first [OF _ locks, where i = "Proc 0" and k = "\<lambda>res. if got res then Child 0 (Locked 1999) else Child 0 (Sending 1999)"], simp add: k, simp)
    apply (simp add: turn_def)
    done
  moreover have "?l (Proc 0) = Child 0 (Locked 1999)" "?l (Proc 1) = Child 1 (Looping 2000)" "?l Parent = Polling 0 0 0 False" by simp_all
  ultimately show ?thesis unfolding exchange_start_def c_def [symmetric] t0_def [symmetric] l0_def [symmetric]
    by (intro exI [of _ t2] exI [of _ ?l] conjI)
qed


text \<open>
  A worker that is executed runs the same program as a forked child: for every number of a
  child, what it reads from the environment are the handles of the parent, and its channel is the channel of the parent
  for that child.
\<close>

theorem worker_gets_channels:
  assumes "p < procs" "procs \<le> 2 ^ 32" "iters < 2 ^ 64"
  shows "\<exists>prog. bench_7_worker_exec (decimal p) (decimal iters) (handle_text c procs) = Some prog \<and>
    (\<forall>ph. prog ph = mp_worker_loop c iters p ph)"
proof -
  let ?h = "[start_ev c, mtx c, shared_ev c] @ map (ping c) [0..<procs] @ map (pong c) [0..<procs]"
  have "mp_worker_loop (worker_channels ?h) iters p ph = mp_worker_loop c iters p ph" for ph
    by (rule worker_loop_cong) (use assms(1) in \<open>simp_all add: worker_channels_def Let_def nth_append\<close>)
  with assms show ?thesis
    by (simp add: bench_7_worker_exec_def read_handle_text)
qed

theorem worker_gets_channels_witness:
  "\<exists>prog. bench_7_worker_exec ''3'' ''6000'' ''16385,16386,16387,16400,16401,16402,16403,16500,16501,16502,16503'' = Some prog \<and>
     (\<forall>ph. prog ph = mp_worker_loop four_channels 6000 3 ph)"
proof -
  have t: "decimal 3 = ''3''" "decimal 6000 = ''6000''"
    "handle_text four_channels 4 = ''16385,16386,16387,16400,16401,16402,16403,16500,16501,16502,16503''"
    by (simp_all add: handle_text_def four_channels_def upt_rec decimal_small decimal_large char_of_def bit_0)
  have b: "(3::nat) < 4" "(4::nat) \<le> 2 ^ 32" "(6000::nat) < 2 ^ 64" by simp_all
  from worker_gets_channels [OF b, of four_channels] show ?thesis unfolding t .
qed

end
