(* ===== verification/Contended_Mutex.thy ===== *)
theory Contended_Mutex
  imports Workloads
begin

text \<open>
  The performance test of a contended mutex of \<^verbatim>\<open>lib.rs\<close>: four threads take and leave one mutex, each five
  thousand times, while the main thread waits for them to end. Every schedule is a run of the same length, in
  which one thread at a time is between taking and leaving.
\<close>

subsection \<open>The program\<close>

datatype hand = Boss | Hand nat

text \<open>\<open>Loop i k\<close>: thread \<open>i\<close> has \<open>k\<close> rounds left; \<open>Inside i k\<close>: it holds the mutex and has \<open>k\<close> more to go.\<close>

datatype hammer = Loop nat nat | Inside nat nat | Joining nat | Closing | Ended | Failed

definition hand_owner :: "nat \<Rightarrow> u32" where
  "hand_owner i = of_nat (Suc i)"

fun contended_mutex :: "u32 \<Rightarrow> nat \<Rightarrow> hammer \<Rightarrow> (unit, hand, hammer) act" where
  "contended_mutex m threads (Loop i 0) = Halt"
| "contended_mutex m threads (Loop i (Suc k)) = Call (Wait [m] (hand_owner i) (Some 30000000000) False)
     (\<lambda>res. if got res then Inside i k else Failed)"
| "contended_mutex m threads (Inside i k) = Call (MutexUnlock m (hand_owner i)) (\<lambda>res. if ok res then Loop i k else Failed)"
| "contended_mutex m threads (Joining i) = Join (Hand i) (if Suc i < threads then Joining (Suc i) else Closing)"
| "contended_mutex m threads Closing = Call (Close m) (\<lambda>res. if res = Closed True then Ended else Failed)"
| "contended_mutex m threads Ended = Halt"
| "contended_mutex m threads Failed = Halt"

definition perf_contended_mutex :: "u32 \<Rightarrow> hammer \<Rightarrow> (unit, hand, hammer) act" where
  "perf_contended_mutex m = contended_mutex m 4"

definition contended_start :: "u32 \<Rightarrow> nat \<Rightarrow> nat \<Rightarrow> nt_table \<Rightarrow> (unit, hand, hammer) work" where
  "contended_start m threads rounds T = (T(m \<mapsto> NtMutex None 0 False), (),
     case_hand (Joining 0) (\<lambda>i. Loop i (if i < threads then rounds else 0)))"

subsection \<open>The invariant\<close>

text \<open>\<open>q i\<close> is the number of rounds that thread \<open>i\<close> has still to begin, \<open>inside\<close> the thread that holds the mutex.\<close>

definition hand_at :: "(nat \<Rightarrow> nat) \<Rightarrow> nat option \<Rightarrow> nat \<Rightarrow> hammer" where
  "hand_at q inside i = (if inside = Some i then Inside i (q i) else Loop i (q i))"

definition idle :: "(nat \<Rightarrow> nat) \<Rightarrow> nat option \<Rightarrow> nat \<Rightarrow> bool" where
  "idle q inside i \<longleftrightarrow> q i = 0 \<and> inside \<noteq> Some i"

fun boss_left :: "nat \<Rightarrow> hammer \<Rightarrow> nat" where
  "boss_left threads (Joining i) = threads - i + 1"
| "boss_left threads Closing = 1"
| "boss_left threads st = 0"

fun boss_ok :: "nat \<Rightarrow> (nat \<Rightarrow> nat) \<Rightarrow> nat option \<Rightarrow> hammer \<Rightarrow> bool" where
  "boss_ok threads q inside (Joining i) \<longleftrightarrow> i < threads \<and> (\<forall>j<i. idle q inside j)"
| "boss_ok threads q inside Closing \<longleftrightarrow> (\<forall>j<threads. idle q inside j)"
| "boss_ok threads q inside Ended \<longleftrightarrow> (\<forall>j<threads. idle q inside j)"
| "boss_ok threads q inside st \<longleftrightarrow> False"

definition mutex_at :: "nat option \<Rightarrow> nt_object" where
  "mutex_at inside = (case inside of None \<Rightarrow> NtMutex None 0 False | Some i \<Rightarrow> NtMutex (Some (hand_owner i)) 1 False)"

text \<open>\<open>n\<close> is the number of steps that are left.\<close>

definition hammering :: "u32 \<Rightarrow> nat \<Rightarrow> nt_table \<Rightarrow> nat \<Rightarrow> (unit, hand, hammer) work \<Rightarrow> bool" where
  "hammering m threads T0 n st \<longleftrightarrow> (case st of (T, G, L) \<Rightarrow> \<exists>q inside.
     (\<forall>i. L (Hand i) = hand_at q inside i) \<and> (\<forall>i\<ge>threads. idle q inside i) \<and>
     T = (if L Boss = Ended then T0(m := None) else T0(m \<mapsto> mutex_at inside)) \<and> boss_ok threads q inside (L Boss) \<and>
     n = (\<Sum>i<threads. 2 * q i) + of_bool (inside \<noteq> None) + boss_left threads (L Boss))"

lemma hand_owner: "i < 2 ^ 31 \<Longrightarrow> hand_owner i \<noteq> 0" "i < 2 ^ 31 \<Longrightarrow> j < 2 ^ 31 \<Longrightarrow> hand_owner i = hand_owner j \<longleftrightarrow> i = j"
  by (simp_all add: hand_owner_def word_unat_eq_iff unat_of_nat del: of_nat_Suc)

lemma hammering_start: "0 < threads \<Longrightarrow> hammering m threads T (2 * threads * rounds + threads + 1) (contended_start m threads rounds T)"
  unfolding hammering_def contended_start_def
  by (auto intro!: exI [of _ "\<lambda>i. if i < threads then rounds else 0"] exI [of _ "None :: nat option"]
      simp: hand_at_def idle_def mutex_at_def)

lemma hand_step:
  assumes d: "d \<le> 30000000000" "threads < 2 ^ 31"
    and L: "\<forall>i. L (Hand i) = hand_at q inside i" "\<forall>i\<ge>threads. idle q inside i"
    and a: "contended_mutex m threads (L (Hand i)) = Call c k" "nt_step c (T0(m \<mapsto> mutex_at inside)) res T'"
      "res = Waited (Returned Timeout) \<longrightarrow> impatient d c"
  obtains q' inside' where "\<forall>j. (L(Hand i := k res)) (Hand j) = hand_at q' inside' j" "\<forall>j\<ge>threads. idle q' inside' j"
    "T' = T0(m \<mapsto> mutex_at inside')" "(\<Sum>i<threads. 2 * q i) + of_bool (inside \<noteq> None) = Suc ((\<Sum>i<threads. 2 * q' i) + of_bool (inside' \<noteq> None))"
    "\<forall>j. idle q inside j \<longrightarrow> idle q' inside' j" "\<not> idle q inside i"
proof -
  have i: "\<not> idle q inside i" using a(1) L(1) by (cases "q i") (auto simp: idle_def hand_at_def split: if_splits)
  with L(2) have it: "i < threads" by (auto simp: not_less [symmetric])
  have bound: "j < 2 ^ 31" if "inside = Some j" for j
  proof -
    have "j < threads" using L(2) that by (metis idle_def not_less)
    with d(2) show ?thesis by simp
  qed
  note o = hand_owner(1) [of i] hand_owner(2) [of i]
  have ib: "i < 2 ^ 31" using it d(2) by simp
  show ?thesis
  proof (cases "inside = Some i")
    case True
    then have "T' = T0(m \<mapsto> mutex_at None) \<and> k res = Loop i (q i)"
      using a L(1) o(1) [OF ib] by (auto simp: hand_at_def mutex_at_def nt_steps)
    with True L i show ?thesis by (intro that [of q None]) (auto simp: hand_at_def idle_def)
  next
    case False
    then obtain n where n: "q i = Suc n" using i by (cases "q i") (auto simp: idle_def)
    have none: "inside = None"
    proof (rule ccontr)
      assume "inside \<noteq> None"
      then obtain j where j: "inside = Some j" "j \<noteq> i" using False by auto
      with a L(1) n False d(1) o(1) [OF ib] o(2) [OF ib bound [OF j(1)]] show False
        by (auto simp: hand_at_def mutex_at_def nt_steps)
    qed
    have "T' = T0(m \<mapsto> mutex_at (Some i)) \<and> k res = Inside i n"
      using a L(1) n none o(1) [OF ib] by (auto simp: hand_at_def mutex_at_def nt_steps)
    moreover have "(\<Sum>j<threads. 2 * (q(i := n)) j) + 2 * q i = (\<Sum>j<threads. 2 * q j) + 2 * n"
      using sum_upd [OF it, of "\<lambda>x. 2 * x" q n] .
    ultimately show ?thesis using L none n it by (intro that [of "q(i := n)" "Some i"]) (auto simp: hand_at_def idle_def)
  qed
qed

lemma boss_ok_mono: "\<forall>j. idle q inside j \<longrightarrow> idle q' inside' j \<Longrightarrow> boss_ok threads q inside st \<Longrightarrow> boss_ok threads q' inside' st"
  by (cases st) auto

lemma hammering_step:
  assumes d: "d \<le> 30000000000" "threads < 2 ^ 31" and h: "hammering m threads T0 n st"
    and w: "work_step d (contended_mutex m threads) st st'"
  shows "\<exists>k. n = Suc k \<and> hammering m threads T0 k st'"
proof -
  obtain T G L where st: "st = (T, G, L)" by (cases st) auto
  from h obtain q inside where L: "\<forall>i. L (Hand i) = hand_at q inside i" "\<forall>i\<ge>threads. idle q inside i"
    and T: "T = (if L Boss = Ended then T0(m := None) else T0(m \<mapsto> mutex_at inside))" and b: "boss_ok threads q inside (L Boss)"
    and n: "n = (\<Sum>i<threads. 2 * q i) + of_bool (inside \<noteq> None) + boss_left threads (L Boss)"
    by (auto simp: hammering_def st)
  have zero: "(\<Sum>i<threads. 2 * q i) = 0" "inside = None" if "\<forall>j<threads. idle q inside j"
    using that L(2) by (auto simp: idle_def not_less [symmetric]) (metis not_None_eq)
  from w [unfolded st] show ?thesis
  proof cases
    case (call i c k res T')
    show ?thesis
    proof (cases i)
      case Boss
      then have c: "L Boss = Closing" using call(2) b by (cases "L Boss") auto
      then have "T' = T0(m := None) \<and> k res = Ended" using call T Boss by (auto simp: nt_steps)
      with c b n L Boss show ?thesis unfolding call(1) hammering_def by (auto intro!: exI [of _ q] exI [of _ inside])
    next
      case (Hand j)
      have ne: "L Boss \<noteq> Ended"
      proof
        assume "L Boss = Ended"
        then have "idle q inside j" using b L(2) by (cases "j < threads") auto
        with call(2) Hand L(1) show False by (auto simp: idle_def hand_at_def)
      qed
      obtain q' inside' where "\<forall>i. (L(Hand j := k res)) (Hand i) = hand_at q' inside' i" "\<forall>j\<ge>threads. idle q' inside' j"
        "T' = T0(m \<mapsto> mutex_at inside')" "(\<Sum>i<threads. 2 * q i) + of_bool (inside \<noteq> None) = Suc ((\<Sum>i<threads. 2 * q' i) + of_bool (inside' \<noteq> None))"
        "\<forall>j. idle q inside j \<longrightarrow> idle q' inside' j"
        by (rule hand_step [OF d L call(2) [unfolded Hand]]) (use call(3,4) T ne in auto)
      with boss_ok_mono [OF this(5) b] n ne show ?thesis
        unfolding call(1) hammering_def Hand by (auto intro!: exI [of _ q'] exI [of _ inside'])
    qed
  next
    case (shared i f G' s)
    have "contended_mutex m threads x \<noteq> Shared f" for x by (cases "(m, threads, x)" rule: contended_mutex.cases) auto
    with shared(2) show ?thesis by blast
  next
    case (join i j s)
    have boss: "i = Boss"
    proof (cases i)
      case (Hand l)
      have "contended_mutex m threads (hand_at q inside l) \<noteq> Join j s" by (cases "q l") (auto simp: hand_at_def)
      with join(2) L(1) Hand show ?thesis by simp
    qed
    obtain l where l: "L Boss = Joining l" using join(2) b boss by (cases "L Boss") auto
    then have j: "j = Hand l" "s = (if Suc l < threads then Joining (Suc l) else Closing)" "l < threads" "\<forall>j<l. idle q inside j"
      using join(2) boss b by auto
    have "idle q inside l" using join(3) j(1) L(1) by (cases "q l") (auto simp: hand_at_def idle_def split: if_splits)
    then have f: "\<forall>j<Suc l. idle q inside j" using j(4) less_Suc_eq by auto
    then have "boss_ok threads q inside s" using j(2,3) by auto
    moreover have "boss_left threads (L Boss) = Suc (boss_left threads s)" using l j(2,3) by auto
    ultimately show ?thesis
      unfolding join(1) hammering_def using T L n l j(2) boss by (auto intro!: exI [of _ q] exI [of _ inside])
  qed
qed

lemma hammering_goes:
  assumes d: "threads < 2 ^ 31" and h: "hammering m threads T0 (Suc n) st"
  shows "\<exists>st'. work_step d (contended_mutex m threads) st st'"
proof -
  obtain T G L where st: "st = (T, G, L)" by (cases st) auto
  from h obtain q inside where L: "\<forall>i. L (Hand i) = hand_at q inside i" "\<forall>i\<ge>threads. idle q inside i"
    and T: "T = (if L Boss = Ended then T0(m := None) else T0(m \<mapsto> mutex_at inside))" and b: "boss_ok threads q inside (L Boss)"
    and n: "Suc n = (\<Sum>i<threads. 2 * q i) + of_bool (inside \<noteq> None) + boss_left threads (L Boss)"
    by (auto simp: hammering_def st)
  have bound: "j < 2 ^ 31" if "\<not> idle q inside j" for j
  proof -
    have "j < threads" using L(2) that not_less by blast
    with d show ?thesis by simp
  qed
  show ?thesis
  proof (cases "L Boss = Ended \<or> L Boss = Closing")
    case True
    then have all: "\<forall>j<threads. idle q inside j" using b by auto
    then have "(\<Sum>i<threads. 2 * q i) = 0" by (simp add: idle_def)
    moreover have "inside = None" using all L(2) by (cases inside) (auto simp: idle_def not_less [symmetric])
    ultimately have "L Boss = Closing" using n True by auto
    then show ?thesis unfolding st work_step_iff by (intro exI [of _ Boss] exI) (auto simp: nt_steps)
  next
    case False
    then obtain l where l: "L Boss = Joining l" "l < threads" using b by (cases "L Boss") auto
    show ?thesis
    proof (cases inside)
      case (Some i)
      then have "hand_owner i \<noteq> 0" using bound [of i] hand_owner(1) by (simp add: idle_def)
      then show ?thesis unfolding st work_step_iff using L(1) Some T False
        by (intro exI [of _ "Hand i"] exI) (auto simp: hand_at_def mutex_at_def nt_steps)
    next
      case None
      show ?thesis
      proof (cases "q l")
        case 0
        then show ?thesis unfolding st work_step_iff using L(1) None l by (intro exI [of _ Boss] exI) (auto simp: hand_at_def)
      next
        case (Suc k)
        then have "hand_owner l \<noteq> 0" using bound [of l] hand_owner(1) by (simp add: idle_def)
        then show ?thesis unfolding st work_step_iff using L(1) None T False Suc
          by (intro exI [of _ "Hand l"] exI) (auto simp: hand_at_def mutex_at_def nt_steps)
      qed
    qed
  qed
qed

lemma hammering_run:
  assumes "d \<le> 30000000000" "threads < 2 ^ 31" "hammering m threads T0 c st0"
  shows "(work_step d (contended_mutex m threads) ^^ n) st0 st \<Longrightarrow> n \<le> c \<and> hammering m threads T0 (c - n) st"
proof (induction n arbitrary: st)
  case (Suc n)
  then obtain st1 where s: "(work_step d (contended_mutex m threads) ^^ n) st0 st1" "work_step d (contended_mutex m threads) st1 st" by auto
  from Suc.IH [OF s(1)] hammering_step [OF assms(1,2) _ s(2)] obtain k where "c - n = Suc k" "hammering m threads T0 k st" by blast
  then show ?case by (metis Suc_diff_Suc Suc_leI diff_Suc_Suc diff_is_0_eq' nat.simps(3) not_less old.nat.inject)
qed (use assms in simp)

subsection \<open>Property\<close>


lemma hammering_runs:
  assumes "d \<le> 30000000000" "threads < 2 ^ 31"
  shows "hammering m threads T n st \<Longrightarrow> \<exists>st'. (work_step d (contended_mutex m threads) ^^ n) st st'"
proof (induction n arbitrary: st)
  case (Suc n)
  obtain st1 where st1: "work_step d (contended_mutex m threads) st st1" using hammering_goes [OF assms(2) Suc.prems] by blast
  with hammering_step [OF assms Suc.prems st1] Suc.IH show ?case by (blast intro: relpowp_Suc_I2)
qed auto


end
