(* ===== verification/Worker_Pools.thy ===== *)
theory Worker_Pools
  imports Workloads
begin

text \<open>
  The engines of \<^verbatim>\<open>engine_sim.rs\<close> that hand work to a pool of threads: the frame graph of Unreal (\<open>sim_ue45_frame_graph\<close>,
  with a render thread) and the worker pool of Godot (\<open>sim_godot_worker_pool\<close>, without). The game thread posts the
  tasks of a frame on one semaphore and collects their completions from another; at the end it sets a flag, wakes
  the workers, joins all threads and closes the objects. All threads lock the queue under the same owner.
\<close>

subsection \<open>The programs\<close>

datatype pool_thread = Game | Worker nat | Render

text \<open>
  Where a thread is. The game thread counts the frames that are left, this one included, and the tasks of the frame
  that it has still to post or to collect.
\<close>

datatype pool_pc =
    WCheck | WWait | WLock | WUnlock | WRelease
  | RCheck | RWait | RSet
  | Lock nat nat | Unlock nat nat | Post nat nat | Collect nat nat | Go nat | Pace nat
  | Stop | Wake | WakeRender | Joining nat | JoinRender | Closing "u32 list"
  | Out

text \<open>\<open>p_ue\<close> tells Unreal from Godot; \<open>p_spare f\<close> is the time that is left to the end of the frame.\<close>

record Pool =
  p_job :: u32
  p_done :: u32
  p_queue :: u32
  p_go :: u32
  p_fence :: u32
  p_me :: u32
  p_tasks :: nat
  p_workers :: nat
  p_ue :: bool
  p_spare :: "nat \<Rightarrow> nat"

definition p_handles :: "Pool \<Rightarrow> u32 list" where
  "p_handles p = [p_job p, p_done p, p_queue p] @ (if p_ue p then [p_go p, p_fence p] else [])"

definition joining :: "Pool \<Rightarrow> nat \<Rightarrow> pool_pc" where
  "joining p w = (if w < p_workers p then Joining w else if p_ue p then JoinRender else Closing (p_handles p))"

text \<open>Where the game thread goes on; both engines have tasks in every frame.\<close>

definition frame :: "Pool \<Rightarrow> nat \<Rightarrow> pool_pc" where
  "frame p f = (if f = 0 then Stop else Lock f (p_tasks p))"

definition collect :: "Pool \<Rightarrow> nat \<Rightarrow> nat \<Rightarrow> pool_pc" where
  "collect p f k = (if 0 < k then Collect f k else if p_ue p then Go f
     else if p_spare p f = 0 then frame p (f - 1) else Pace f)"

definition post :: "Pool \<Rightarrow> nat \<Rightarrow> nat \<Rightarrow> pool_pc" where
  "post p f k = (if 0 < k then Lock f k else collect p f (p_tasks p))"

fun pool :: "Pool \<Rightarrow> pool_pc \<Rightarrow> (bool, pool_thread, pool_pc) act" where
  "pool p WCheck = Shared (\<lambda>stop. (stop, if stop then Out else WWait))"
| "pool p WWait = Call (Wait [p_job p] (p_me p) (Some 50000000) False)
     (\<lambda>res. if got res then WLock else if res = Waited (Returned Timeout) then WCheck else Out)"
| "pool p WLock = Call (Wait [p_queue p] (p_me p) None False) (\<lambda>_. WUnlock)"
| "pool p WUnlock = Call (MutexUnlock (p_queue p) (p_me p)) (\<lambda>_. WRelease)"
| "pool p WRelease = Call (SemRelease (p_done p) 1) (\<lambda>_. WCheck)"
| "pool p RCheck = Shared (\<lambda>stop. (stop, if stop then Out else RWait))"
| "pool p RWait = Call (Wait [p_go p] (p_me p) (Some 50000000) False)
     (\<lambda>res. if got res then RSet else if res = Waited (Returned Timeout) then RCheck else Out)"
| "pool p RSet = Call (EventSet (p_fence p)) (\<lambda>_. RCheck)"
| "pool p (Lock f k) = Call (Wait [p_queue p] (p_me p) None False) (\<lambda>_. Unlock f k)"
| "pool p (Unlock f k) = Call (MutexUnlock (p_queue p) (p_me p)) (\<lambda>_. Post f k)"
| "pool p (Post f k) = Call (SemRelease (p_job p) 1) (\<lambda>_. post p f (k - 1))"
| "pool p (Collect f k) = Call (Wait [p_done p] (p_me p) None False) (\<lambda>_. collect p f (k - 1))"
| "pool p (Go f) = Call (EventSet (p_go p)) (\<lambda>_. Pace f)"
| "pool p (Pace f) = Call (Wait [if p_ue p then p_fence p else p_done p] (p_me p) (Some (p_spare p f)) False) (\<lambda>_. frame p (f - 1))"
| "pool p Stop = Shared (\<lambda>_. (True, Wake))"
| "pool p Wake = Call (SemRelease (p_job p) (of_nat (p_workers p))) (\<lambda>_. if p_ue p then WakeRender else joining p 0)"
| "pool p WakeRender = Call (EventSet (p_go p)) (\<lambda>_. joining p 0)"
| "pool p (Joining w) = Join (Worker w) (joining p (Suc w))"
| "pool p JoinRender = Join Render (Closing (p_handles p))"
| "pool p (Closing []) = Halt"
| "pool p (Closing (h # hs)) = Call (Close h) (\<lambda>_. Closing hs)"
| "pool p Out = Halt"

definition ue_pool :: "Pool \<Rightarrow> Pool" where
  "ue_pool p = p\<lparr>p_ue := True, p_tasks := 8, p_workers := 3\<rparr>"

definition godot_pool :: "Pool \<Rightarrow> Pool" where
  "godot_pool p = p\<lparr>p_ue := False, p_tasks := 6, p_workers := 3\<rparr>"

definition sim_ue45_frame_graph :: "Pool \<Rightarrow> pool_pc \<Rightarrow> (bool, pool_thread, pool_pc) act" where
  "sim_ue45_frame_graph p = pool (ue_pool p)"

definition sim_godot_worker_pool :: "Pool \<Rightarrow> pool_pc \<Rightarrow> (bool, pool_thread, pool_pc) act" where
  "sim_godot_worker_pool p = pool (godot_pool p)"

definition pool_table :: "Pool \<Rightarrow> nt_table \<Rightarrow> nt_table" where
  "pool_table p T h =
     (if h = p_job p \<or> h = p_done p then Some (NtSem 0 64) else if h = p_queue p then Some (NtMutex None 0 False)
      else if p_ue p \<and> (h = p_go p \<or> h = p_fence p) then Some (NtEvent False False) else T h)"

definition pool_start :: "Pool \<Rightarrow> nat \<Rightarrow> nt_table \<Rightarrow> (bool, pool_thread, pool_pc) work" where
  "pool_start p frames T = (pool_table p T, False,
     case_pool_thread (frame p frames) (\<lambda>w. if w < p_workers p then WCheck else Out) (if p_ue p then RCheck else Out))"

subsection \<open>The invariant\<close>

fun working :: "bool \<Rightarrow> pool_pc \<Rightarrow> bool" where
  "working stop Out \<longleftrightarrow> stop"
| "working stop st \<longleftrightarrow> st \<in> {WCheck, WWait, WLock, WUnlock, WRelease}"

fun rendering :: "bool \<Rightarrow> pool_pc \<Rightarrow> bool" where
  "rendering stop Out \<longleftrightarrow> stop"
| "rendering stop st \<longleftrightarrow> st \<in> {RCheck, RWait, RSet}"

text \<open>A worker between taking a task and its completion; a thread in the critical section of the queue.\<close>

definition busy :: "pool_pc \<Rightarrow> nat" where
  "busy st = of_bool (st \<in> {WLock, WUnlock, WRelease})"

fun holds :: "pool_pc \<Rightarrow> nat" where
  "holds WUnlock = 1"
| "holds (Unlock f k) = 1"
| "holds st = 0"

text \<open>The tasks that are posted and not collected.\<close>

fun owed :: "Pool \<Rightarrow> pool_pc \<Rightarrow> nat" where
  "owed p (Lock f k) = p_tasks p - k"
| "owed p (Unlock f k) = p_tasks p - k"
| "owed p (Post f k) = p_tasks p - k"
| "owed p (Collect f k) = k"
| "owed p WakeRender = p_workers p"
| "owed p (Joining w) = p_workers p"
| "owed p JoinRender = p_workers p"
| "owed p st = 0"

fun game_ok :: "Pool \<Rightarrow> bool \<Rightarrow> (nat \<Rightarrow> pool_pc) \<Rightarrow> pool_pc \<Rightarrow> pool_pc \<Rightarrow> bool" where
  "game_ok p stop W R (Lock f k) \<longleftrightarrow> \<not> stop \<and> 0 < f \<and> 0 < k \<and> k \<le> p_tasks p"
| "game_ok p stop W R (Unlock f k) \<longleftrightarrow> \<not> stop \<and> 0 < f \<and> 0 < k \<and> k \<le> p_tasks p"
| "game_ok p stop W R (Post f k) \<longleftrightarrow> \<not> stop \<and> 0 < f \<and> 0 < k \<and> k \<le> p_tasks p"
| "game_ok p stop W R (Collect f k) \<longleftrightarrow> \<not> stop \<and> 0 < f \<and> 0 < k \<and> k \<le> p_tasks p"
| "game_ok p stop W R (Go f) \<longleftrightarrow> \<not> stop \<and> 0 < f \<and> p_ue p"
| "game_ok p stop W R (Pace f) \<longleftrightarrow> \<not> stop \<and> 0 < f"
| "game_ok p stop W R Stop \<longleftrightarrow> \<not> stop"
| "game_ok p stop W R Wake \<longleftrightarrow> stop"
| "game_ok p stop W R WakeRender \<longleftrightarrow> stop \<and> p_ue p"
| "game_ok p stop W R (Joining w) \<longleftrightarrow> stop \<and> w < p_workers p \<and> (\<forall>v<w. W v = Out)"
| "game_ok p stop W R JoinRender \<longleftrightarrow> stop \<and> p_ue p \<and> (\<forall>v<p_workers p. W v = Out)"
| "game_ok p stop W R (Closing hs) \<longleftrightarrow> stop \<and> (\<forall>v<p_workers p. W v = Out) \<and> R = Out"
| "game_ok p stop W R st \<longleftrightarrow> False"

definition mutex_of :: "u32 \<Rightarrow> nat \<Rightarrow> nt_object" where
  "mutex_of me c = NtMutex (if c = 0 then None else Some me) c False"

definition objects :: "Pool \<Rightarrow> nat \<Rightarrow> nat \<Rightarrow> nat \<Rightarrow> nt_table \<Rightarrow> bool" where
  "objects p J D c T \<longleftrightarrow> T (p_job p) = Some (NtSem J 64) \<and> T (p_done p) = Some (NtSem D 64) \<and> T (p_queue p) = Some (mutex_of (p_me p) c) \<and>
     (p_ue p \<longrightarrow> (\<exists>s. T (p_go p) = Some (NtEvent False s)) \<and> (\<exists>s. T (p_fence p) = Some (NtEvent False s)))"

definition held :: "Pool \<Rightarrow> (nat \<Rightarrow> pool_pc) \<Rightarrow> pool_pc \<Rightarrow> nat" where
  "held p W G = (\<Sum>w<p_workers p. holds (W w)) + holds G"

definition tokens :: "Pool \<Rightarrow> (nat \<Rightarrow> pool_pc) \<Rightarrow> pool_pc \<Rightarrow> nt_table \<Rightarrow> bool" where
  "tokens p W G T \<longleftrightarrow> (\<exists>J D. objects p J D (held p W G) T \<and> J + D + (\<Sum>w<p_workers p. busy (W w)) = owed p G)"

fun shop :: "Pool \<Rightarrow> (nat \<Rightarrow> pool_pc) \<Rightarrow> pool_pc \<Rightarrow> nt_table \<Rightarrow> bool" where
  "shop p W (Closing hs) T \<longleftrightarrow> set hs \<subseteq> set (p_handles p) \<and> (\<forall>h\<in>set (p_handles p) - set hs. T h = None)"
| "shop p W G T \<longleftrightarrow> tokens p W G T"

definition pooling :: "Pool \<Rightarrow> nt_table \<Rightarrow> nt_table \<Rightarrow> bool \<Rightarrow> (nat \<Rightarrow> pool_pc) \<Rightarrow> pool_pc \<Rightarrow> pool_pc \<Rightarrow> bool" where
  "pooling p T0 T stop W R G \<longleftrightarrow>
     (\<forall>w<p_workers p. working stop (W w)) \<and> (\<forall>w\<ge>p_workers p. W w = Out) \<and> (if p_ue p then rendering stop R else R = Out) \<and>
     game_ok p stop W R G \<and> (\<forall>h. h \<notin> set (p_handles p) \<longrightarrow> T h = T0 h) \<and> shop p W G T"

definition pool_ok :: "Pool \<Rightarrow> bool" where
  "pool_ok p \<longleftrightarrow> p_me p \<noteq> 0 \<and> 0 < p_tasks p \<and> p_tasks p \<le> 64 \<and> 0 < p_workers p \<and> p_workers p \<le> 64 \<and> distinct (p_handles p)"

lemma pool_okD:
  assumes "pool_ok p"
  shows "p_me p \<noteq> 0" "0 < p_tasks p" "p_tasks p \<le> 64" "0 < p_workers p" "p_workers p \<le> 64"
    "p_job p \<noteq> p_done p" "p_done p \<noteq> p_job p" "p_job p \<noteq> p_queue p" "p_queue p \<noteq> p_job p" "p_done p \<noteq> p_queue p" "p_queue p \<noteq> p_done p"
    "p_ue p \<Longrightarrow> p_go p \<notin> {p_job p, p_done p, p_queue p, p_fence p}" "p_ue p \<Longrightarrow> p_fence p \<notin> {p_job p, p_done p, p_queue p, p_go p}"
  using assms by (auto simp: pool_ok_def p_handles_def)

lemma thread_upd [simp]:
  "(case_pool_thread G W R)(Game := x) = case_pool_thread x W R" "(case_pool_thread G W R)(Worker w := x) = case_pool_thread G (W(w := x)) R"
  "(case_pool_thread G W R)(Render := x) = case_pool_thread G W x"
  by (auto simp: fun_eq_iff split: pool_thread.split)

lemma thread_eq [simp]: "case_pool_thread G W R = case_pool_thread G' W' R' \<longleftrightarrow> G = G' \<and> W = W' \<and> R = R'"
proof
  assume e: "case_pool_thread G W R = case_pool_thread G' W' R'"
  have "W w = W' w" for w using fun_cong [OF e, of "Worker w"] by simp
  then show "G = G' \<and> W = W' \<and> R = R'" using fun_cong [OF e, of Game] fun_cong [OF e, of Render] by auto
qed simp

lemma mutex_of_acquire: "c < 2 ^ 31 - 1 \<Longrightarrow> nt_acquire me (mutex_of me c) = Some (False, mutex_of me (Suc c))"
  by (cases c) (simp_all add: mutex_of_def)

lemma mutex_of_wait:
  assumes "T h = Some (mutex_of me c)" "me \<noteq> 0" "c < 2 ^ 31 - 1"
  shows "nt_step (Wait [h] me timeout False) T res T' \<longleftrightarrow> res = Waited (Returned (Signaled 0 False)) \<and> T' = T(h \<mapsto> mutex_of me (Suc c))"
  using assms(2) by (simp add: wait_step [where T = T and h = h, OF assms(1)] mutex_of_acquire [OF assms(3)])

lemma mutex_of_unlock:
  assumes "T h = Some (mutex_of me (Suc c))" "me \<noteq> 0"
  shows "nt_step (MutexUnlock h me) T res T' \<longleftrightarrow> res = Count (of_nat (Suc c)) \<and> T' = T(h \<mapsto> mutex_of me c)"
proof -
  have "T h = Some (NtMutex (Some me) (Suc c) False)" using assms(1) by (simp add: mutex_of_def)
  from unlock_step [where T = T and h = h, OF this assms(2)] show ?thesis by (auto simp: mutex_of_def)
qed

lemma shop_tokens: "\<forall>hs. G \<noteq> Closing hs \<Longrightarrow> shop p W G T \<longleftrightarrow> tokens p W G T"
  by (cases G) auto

lemma busy_simps [simp]: "busy WCheck = 0" "busy WWait = 0" "busy WLock = 1" "busy WUnlock = 1" "busy WRelease = 1" "busy Out = 0"
  by (simp_all add: busy_def)

subsection \<open>Steps of the workers and of the render thread\<close>

lemma game_ok_worker: "game_ok p stop W R G \<Longrightarrow> W w \<noteq> Out \<Longrightarrow> \<forall>hs. G \<noteq> Closing hs \<Longrightarrow> game_ok p stop (W(w := x)) R G"
  by (cases G) auto

text \<open>A worker moves on: its tokens, its levels of the mutex and the objects.\<close>

lemma worker_moves:
  assumes s: "pooling p T0 T stop W R G" and w: "w < p_workers p" "\<forall>hs. G \<noteq> Closing hs" and x: "working stop x" and nc: "W w \<noteq> Out"
    and o: "objects p J D (held p W G) T" "J + D + (\<Sum>w<p_workers p. busy (W w)) = owed p G"
    and o': "\<And>c. c + holds (W w) = held p W G + holds x \<Longrightarrow> objects p J' D' c T'" "J' + D' + busy x = J + D + busy (W w)"
    and T: "\<forall>h. h \<notin> set (p_handles p) \<longrightarrow> T' h = T h"
  shows "pooling p T0 T' stop (W(w := x)) R G"
proof -
  have h: "held p (W(w := x)) G + holds (W w) = held p W G + holds x"
    using sum_upd [OF w(1), of holds W x] by (simp add: held_def)
  have "J' + D' + (\<Sum>v<p_workers p. busy ((W(w := x)) v)) = owed p G"
    using sum_upd [OF w(1), of busy W x] o(2) o'(2) by simp
  then have "tokens p (W(w := x)) G T'" using o'(1) [OF h] by (auto simp: tokens_def)
  moreover have "game_ok p stop (W(w := x)) R G"
    using s nc w(2) by (intro game_ok_worker) (simp_all add: pooling_def)
  ultimately show ?thesis
    using s w x T by (auto simp: pooling_def shop_tokens)
qed

lemma pooling_tokens:
  assumes "pooling p T0 T stop W R G" "\<forall>hs. G \<noteq> Closing hs"
  obtains J D where "objects p J D (held p W G) T" "J + D + (\<Sum>w<p_workers p. busy (W w)) = owed p G"
  using assms by (auto simp: pooling_def shop_tokens tokens_def)

lemma held_small: "held p W G \<le> p_workers p + 1"
proof -
  have "holds st \<le> 1" for st by (cases st) auto
  then have "(\<Sum>w<p_workers p. holds (W w)) \<le> p_workers p" "holds G \<le> 1"
    using sum_mono [of "{..<p_workers p}" "\<lambda>w. holds (W w)" "\<lambda>_. 1"] by auto
  then show ?thesis by (simp add: held_def)
qed

lemma held_worker: "w < p_workers p \<Longrightarrow> holds (W w) \<le> held p W G"
  using member_le_sum [of w "{..<p_workers p}" "\<lambda>w. holds (W w)"] by (simp add: held_def)

lemma owed_small: "pool_ok p \<Longrightarrow> game_ok p stop W R G \<Longrightarrow> owed p G \<le> 64"
  using pool_okD [of p] by (cases G) auto

text \<open>A worker that has not ended has not seen the game thread close.\<close>

lemma not_closing: "pooling p T0 T stop W R G \<Longrightarrow> W w \<noteq> Out \<Longrightarrow> w < p_workers p \<and> (\<forall>hs. G \<noteq> Closing hs)"
proof -
  assume s: "pooling p T0 T stop W R G" and w: "W w \<noteq> Out"
  have "w < p_workers p" using s w unfolding pooling_def by (meson not_le)
  moreover have "G \<noteq> Closing hs" for hs
  proof
    assume "G = Closing hs"
    then have "\<forall>v<p_workers p. W v = Out" using s by (simp add: pooling_def)
    with w \<open>w < p_workers p\<close> show False by simp
  qed
  ultimately show ?thesis by blast
qed

lemma busy_worker: "w < p_workers p \<Longrightarrow> busy (W w) \<le> (\<Sum>w<p_workers p. busy (W w))"
  by (rule member_le_sum) auto

lemma worker_step:
  assumes ok: "pool_ok p" and s: "pooling p T0 T stop W R G"
    and a: "pool p (W w) = Call c k" "nt_step c T res T'"
  shows "pooling p T0 T' stop (W(w := k res)) R G"
proof -
  note P = pool_okD [OF ok]
  have nc: "W w \<noteq> Out" using a(1) by auto
  note n = not_closing [OF s this]
  have w: "w < p_workers p" "\<forall>hs. G \<noteq> Closing hs" using n by auto
  have wk: "working stop (W w)" using s w(1) by (simp add: pooling_def)
  obtain J D where o: "objects p J D (held p W G) T" "J + D + (\<Sum>w<p_workers p. busy (W w)) = owed p G"
    by (rule pooling_tokens [OF s w(2)])
  have g: "game_ok p stop W R G" using s by (simp add: pooling_def)
  have small: "held p W G < 2 ^ 31 - 1" using held_small [of p W G] P(5) by simp
  have t: "T (p_job p) = Some (NtSem J 64)" "T (p_done p) = Some (NtSem D 64)" "T (p_queue p) = Some (mutex_of (p_me p) (held p W G))"
    using o(1) by (simp_all add: objects_def)
  note M = worker_moves [OF s w _ nc o]
  have hs: "p_job p \<in> set (p_handles p)" "p_done p \<in> set (p_handles p)" "p_queue p \<in> set (p_handles p)" by (simp_all add: p_handles_def)
  show ?thesis
  proof (cases "W w")
    case WWait
    show ?thesis
    proof (cases J)
      case 0
      have "T' = T \<and> k res = WCheck" using a t(1) 0 P(1) by (auto simp: WWait wait_step)
      then show ?thesis by (auto intro!: M [of WCheck J D] simp: WWait o)
    next
      case (Suc m)
      have "T' = T(p_job p \<mapsto> NtSem m 64) \<and> k res = WLock" using a t(1) Suc P(1) by (auto simp: WWait wait_step)
      then show ?thesis using o(1) P hs by (auto intro!: M [of WLock m D] simp: WWait Suc objects_def)
    qed
  next
    case WLock
    have "T' = T(p_queue p \<mapsto> mutex_of (p_me p) (Suc (held p W G))) \<and> k res = WUnlock"
      using a mutex_of_wait [where T = T and h = "p_queue p", OF t(3) P(1) small] by (auto simp: WLock)
    then show ?thesis using o(1) P hs by (auto intro!: M [of WUnlock J D] simp: WLock objects_def)
  next
    case WUnlock
    obtain c where c: "held p W G = Suc c" using held_worker [OF w(1), of W G] WUnlock by (cases "held p W G") auto
    have "T' = T(p_queue p \<mapsto> mutex_of (p_me p) c) \<and> k res = WRelease"
      using a mutex_of_unlock [where T = T and h = "p_queue p", OF t(3) [unfolded c] P(1)] by (auto simp: WUnlock)
    then show ?thesis using o(1) P hs by (auto intro!: M [of WRelease J D] simp: WUnlock c objects_def)
  next
    case WRelease
    have "Suc D \<le> 64" using o(2) busy_worker [OF w(1), of W] owed_small [OF ok g] WRelease by simp
    then have "T' = T(p_done p \<mapsto> NtSem (Suc D) 64) \<and> k res = WCheck"
      using a t(2) by (auto simp: WRelease release_step)
    then show ?thesis using o(1) P hs by (auto intro!: M [of WCheck J "Suc D"] simp: WRelease objects_def)
  qed (use a wk nc in auto)
qed

lemma worker_checks:
  assumes s: "pooling p T0 T stop W R G" and w: "W w = WCheck"
  shows "pooling p T0 T stop (W(w := if stop then Out else WWait)) R G"
proof -
  have nc: "W w \<noteq> Out" using w by simp
  have n: "w < p_workers p" "\<forall>hs. G \<noteq> Closing hs" using not_closing [OF s nc] by auto
  obtain J D where o: "objects p J D (held p W G) T" "J + D + (\<Sum>w<p_workers p. busy (W w)) = owed p G"
    by (rule pooling_tokens [OF s n(2)])
  show ?thesis by (rule worker_moves [OF s n _ nc o, of _ J D]) (use w o in auto)
qed

lemma render_moves:
  assumes s: "pooling p T0 T stop W R G" and R: "R \<noteq> Out" "rendering stop x"
    and T: "\<And>J D c. objects p J D c T \<Longrightarrow> objects p J D c T'" "\<forall>h. h \<notin> set (p_handles p) \<longrightarrow> T' h = T h"
  shows "pooling p T0 T' stop W x G"
proof -
  have n: "\<forall>hs. G \<noteq> Closing hs" using s R(1) by (auto simp: pooling_def)
  then have "game_ok p stop W R G \<longleftrightarrow> game_ok p stop W x G" by (cases G) auto
  moreover have "tokens p W G T \<Longrightarrow> tokens p W G T'" using T(1) by (fastforce simp: tokens_def)
  ultimately show ?thesis using s R T(2) n by (auto simp: pooling_def shop_tokens split: if_splits)
qed

lemma render_step:
  assumes ok: "pool_ok p" and s: "pooling p T0 T stop W R G" and a: "pool p R = Call c k" "nt_step c T res T'"
  shows "pooling p T0 T' stop W (k res) G"
proof -
  note P = pool_okD [OF ok]
  have R: "R \<noteq> Out" using a(1) by auto
  then have ue: "p_ue p" "rendering stop R" using s by (auto simp: pooling_def split: if_splits)
  have n: "\<forall>hs. G \<noteq> Closing hs" using s R by (auto simp: pooling_def)
  obtain J D where o: "objects p J D (held p W G) T" by (rule pooling_tokens [OF s n])
  then obtain sg sf where t: "T (p_go p) = Some (NtEvent False sg)" "T (p_fence p) = Some (NtEvent False sf)"
    using ue(1) by (auto simp: objects_def)
  have hs: "p_go p \<in> set (p_handles p)" "p_fence p \<in> set (p_handles p)" using ue(1) by (simp_all add: p_handles_def)
  show ?thesis
  proof (cases R)
    case RWait
    then consider "T' = T" "k res = RCheck" | "T' = T(p_go p \<mapsto> NtEvent False False)" "k res = RSet"
      using a t(1) P(1) by (cases sg) (auto simp: wait_step)
    then show ?thesis
    proof cases
      case 1
      then show ?thesis by (auto intro!: render_moves [OF s R])
    next
      case 2
      then show ?thesis using P(12,13) ue(1) hs by (auto intro!: render_moves [OF s R] simp: objects_def)
    qed
  next
    case RSet
    then have "T' = T(p_fence p \<mapsto> NtEvent False True) \<and> k res = RCheck" using a event_step(1) [where T = T and h = "p_fence p", OF t(2)] by (auto simp: RSet)
    then show ?thesis using P(12,13) ue(1) hs by (auto intro!: render_moves [OF s R] simp: objects_def)
  qed (use a ue in auto)
qed

lemma render_checks:
  assumes "pooling p T0 T stop W RCheck G"
  shows "pooling p T0 T stop W (if stop then Out else RWait) G"
  by (rule render_moves [OF assms]) auto

subsection \<open>Steps of the game thread\<close>

lemma game_moves:
  assumes "pooling p T0 T stop W R G" "stop \<longrightarrow> stop'" "game_ok p stop' W R x" "shop p W x T'"
    and "\<forall>h. h \<notin> set (p_handles p) \<longrightarrow> T' h = T h"
  shows "pooling p T0 T' stop' W R x"
proof -
  have "working stop st \<Longrightarrow> working stop' st" "rendering stop st \<Longrightarrow> rendering stop' st" for st
    using assms(2) by (cases st; auto)+
  then show ?thesis using assms by (auto simp: pooling_def)
qed

lemma tokensI: "objects p J D (held p W G) T \<Longrightarrow> J + D + (\<Sum>w<p_workers p. busy (W w)) = owed p G \<Longrightarrow> tokens p W G T"
  by (auto simp: tokens_def)

lemma at_frame: "pool_ok p \<Longrightarrow> game_ok p False W R (frame p f)" "owed p (frame p f) = 0" "holds (frame p f) = 0" "frame p f \<noteq> Closing hs"
  using pool_okD(2) [of p] by (auto simp: frame_def)

lemma at_collect:
  assumes "pool_ok p" "0 < f" "k \<le> p_tasks p"
  shows "game_ok p False W R (collect p f k)" "owed p (collect p f k) = k" "holds (collect p f k) = 0" "collect p f k \<noteq> Closing hs"
  using assms at_frame by (auto simp: collect_def)

lemma at_post:
  assumes "pool_ok p" "0 < f" "k \<le> p_tasks p"
  shows "game_ok p False W R (post p f k)" "owed p (post p f k) = p_tasks p - k" "holds (post p f k) = 0" "post p f k \<noteq> Closing hs"
  using assms at_collect [of p f "p_tasks p"] by (auto simp: post_def)

lemma at_joining: "pool_ok p \<Longrightarrow> joining p 0 = Joining 0"
  using pool_okD(4) by (auto simp: joining_def)

lemma held_game: "held p W G + holds x = held p W x + holds G"
  by (simp add: held_def)

lemma game_step:
  assumes ok: "pool_ok p" and s: "pooling p T0 T stop W R G" and a: "pool p G = Call c k" "nt_step c T res T'"
    and t: "res = Waited (Returned Timeout) \<longrightarrow> impatient d c"
  shows "pooling p T0 T' stop W R (k res)"
proof (cases "\<exists>hs. G = Closing hs")
  case True
  then obtain h hs where G: "G = Closing (h # hs)" using a(1) by (metis act.distinct(5) neq_Nil_conv pool.simps(20))
  then have "T' = T(h := None) \<and> k res = Closing hs" using a by (auto simp: close_step)
  then show ?thesis using s G by (auto simp: pooling_def)
next
  case False
  then have n: "\<forall>hs. G \<noteq> Closing hs" by blast
  note P = pool_okD [OF ok]
  have g: "game_ok p stop W R G" using s by (simp add: pooling_def)
  obtain J D where o: "objects p J D (held p W G) T" "J + D + (\<Sum>w<p_workers p. busy (W w)) = owed p G"
    by (rule pooling_tokens [OF s n])
  have small: "held p W G < 2 ^ 31 - 1" using held_small [of p W G] P(5) by simp
  have T: "T (p_job p) = Some (NtSem J 64)" "T (p_done p) = Some (NtSem D 64)" "T (p_queue p) = Some (mutex_of (p_me p) (held p W G))"
    using o(1) by (simp_all add: objects_def)
  have ev: "p_ue p \<Longrightarrow> \<exists>s. T (p_go p) = Some (NtEvent False s)" "p_ue p \<Longrightarrow> \<exists>s. T (p_fence p) = Some (NtEvent False s)"
    using o(1) by (simp_all add: objects_def)
  have hs: "p_job p \<in> set (p_handles p)" "p_done p \<in> set (p_handles p)" "p_queue p \<in> set (p_handles p)"
    "p_ue p \<Longrightarrow> p_go p \<in> set (p_handles p)" "p_ue p \<Longrightarrow> p_fence p \<in> set (p_handles p)" by (simp_all add: p_handles_def)
  have M: "pooling p T0 T'' stop W R x"
    if "game_ok p stop W R x" "\<forall>hs. x \<noteq> Closing hs" "objects p J' D' (held p W x) T''" "J' + D' + (\<Sum>w<p_workers p. busy (W w)) = owed p x"
      "\<forall>h. h \<notin> set (p_handles p) \<longrightarrow> T'' h = T h" for x J' D' T''
    using that by (intro game_moves [OF s]) (auto simp: shop_tokens intro: tokensI)
  show ?thesis
  proof (cases G)
    case (Lock f j)
    have e: "T' = T(p_queue p \<mapsto> mutex_of (p_me p) (Suc (held p W G)))" "k res = Unlock f j"
      using a mutex_of_wait [where T = T and h = "p_queue p", OF T(3) P(1) small] by (auto simp: Lock)
    have "held p W (Unlock f j) = Suc (held p W G)" by (simp add: held_def Lock)
    then show ?thesis unfolding e by (intro M [of _ J D]) (use o g P hs in \<open>auto simp: Lock objects_def\<close>)
  next
    case (Unlock f j)
    obtain c' where c: "held p W G = Suc c'" by (cases "held p W G") (auto simp: held_def Unlock)
    have e: "T' = T(p_queue p \<mapsto> mutex_of (p_me p) c')" "k res = Post f j"
      using a mutex_of_unlock [where T = T and h = "p_queue p", OF T(3) [unfolded c] P(1)] by (auto simp: Unlock)
    have "held p W (Post f j) = c'" using c by (simp add: held_def Unlock)
    then show ?thesis unfolding e by (intro M [of _ J D]) (use o g P hs in \<open>auto simp: Unlock objects_def\<close>)
  next
    case (Post f j)
    then have f: "\<not> stop" "0 < f" "0 < j" "j \<le> p_tasks p" using g by simp_all
    then have "j - 1 \<le> p_tasks p" by simp
    note x = at_post [OF ok f(2) this]
    have "Suc J \<le> 64" using o(2) f P(3) Post by simp
    then have e: "T' = T(p_job p \<mapsto> NtSem (Suc J) 64)" "k res = post p f (j - 1)"
      using a release_step [where T = T and h = "p_job p", OF T(1)] by (auto simp: Post)
    have "held p W (post p f (j - 1)) = held p W G" using held_game [of p W G "post p f (j - 1)"] x(3) Post by simp
    then show ?thesis unfolding e by (intro M [of _ "Suc J" D]) (use o f P hs x in \<open>auto simp: Post objects_def\<close>)
  next
    case (Collect f j)
    then have f: "\<not> stop" "0 < f" "0 < j" "j \<le> p_tasks p" using g by simp_all
    then have "j - 1 \<le> p_tasks p" by simp
    note x = at_collect [OF ok f(2) this]
    have "D \<noteq> 0" using a wait_step [where T = T and h = "p_done p", OF T(2) P(1)] by (cases D) (auto simp: Collect)
    then obtain D' where D: "D = Suc D'" by (cases D) auto
    have e: "T' = T(p_done p \<mapsto> NtSem D' 64)" "k res = collect p f (j - 1)"
      using a wait_step [where T = T and h = "p_done p", OF T(2) P(1)] by (auto simp: Collect D)
    have "held p W (collect p f (j - 1)) = held p W G" using held_game [of p W G "collect p f (j - 1)"] x(3) Collect by simp
    then show ?thesis unfolding e by (intro M [of _ J D']) (use o f P hs x in \<open>auto simp: Collect D objects_def\<close>)
  next
    case (Go f)
    then have f: "\<not> stop" "0 < f" "p_ue p" using g by simp_all
    obtain sg where sg: "T (p_go p) = Some (NtEvent False sg)" using ev(1) f(3) by blast
    have e: "T' = T(p_go p \<mapsto> NtEvent False True)" "k res = Pace f"
      using a event_step(1) [where T = T and h = "p_go p", OF sg] by (auto simp: Go)
    have "held p W (Pace f) = held p W G" by (simp add: held_def Go)
    then show ?thesis unfolding e by (intro M [of _ J D]) (use o f P hs in \<open>auto simp: Go objects_def\<close>)
  next
    case (Pace f)
    then have f: "\<not> stop" "0 < f" using g by simp_all
    have z: "J = 0" "D = 0" using o(2) Pace by simp_all
    have h: "held p W (frame p (f - 1)) = held p W G" using held_game [of p W G "frame p (f - 1)"] at_frame(3) [of p "f - 1"] Pace by simp
    have k: "k res = frame p (f - 1)" using a(1) Pace by auto
    note x = at_frame(1) [OF ok] at_frame(2-)
    show ?thesis
    proof (cases "T' = T")
      case True
      show ?thesis unfolding k True by (intro M [of _ J D]) (use o f x h in \<open>auto simp: Pace\<close>)
    next
      case False
      have ue: "p_ue p"
        using a wait_step [where T = T and h = "p_done p", OF T(2) P(1)] False by (cases "p_ue p") (auto simp: Pace z)
      then obtain sf where sf: "T (p_fence p) = Some (NtEvent False sf)" using ev(2) by blast
      have e: "T' = T(p_fence p \<mapsto> NtEvent False False)"
        using a wait_step [where T = T and h = "p_fence p", OF sf P(1)] False ue by (cases sf) (auto simp: Pace)
      show ?thesis unfolding k e by (intro M [of _ J D]) (use o f ue P hs x h in \<open>auto simp: Pace objects_def\<close>)
    qed
  next
    case Wake
    then have f: "stop" using g by simp
    have z: "J = 0" using o(2) Wake by simp
    have u: "unat (of_nat (p_workers p) :: u32) = p_workers p" using P(5) by (simp add: unat_of_nat)
    have e: "T' = T(p_job p \<mapsto> NtSem (p_workers p) 64)" "k res = (if p_ue p then WakeRender else Joining 0)"
      using a release_step [where T = T and h = "p_job p", OF T(1)] P(5) at_joining [OF ok] by (auto simp: Wake z u)
    have "held p W (if p_ue p then WakeRender else Joining 0) = held p W G" by (simp add: held_def Wake)
    then show ?thesis unfolding e by (intro M [of _ "p_workers p" D]) (use o f z P hs in \<open>auto simp: Wake objects_def\<close>)
  next
    case WakeRender
    then have f: "stop" "p_ue p" using g by simp_all
    obtain sg where sg: "T (p_go p) = Some (NtEvent False sg)" using ev(1) f(2) by blast
    have e: "T' = T(p_go p \<mapsto> NtEvent False True)" "k res = Joining 0"
      using a event_step(1) [where T = T and h = "p_go p", OF sg] at_joining [OF ok] by (auto simp: WakeRender)
    have "held p W (Joining 0) = held p W G" by (simp add: held_def WakeRender)
    then show ?thesis unfolding e by (intro M [of _ J D]) (use o f P hs in \<open>auto simp: WakeRender objects_def\<close>)
  qed (use a g n in auto)
qed

subsection \<open>Runs\<close>

lemma closing_act [simp]: "pool p (Closing hs) \<noteq> Shared f" "pool p (Closing hs) \<noteq> Join i x"
  by (cases hs; simp)+

lemma game_stops:
  assumes "pooling p T0 T stop W R Stop"
  shows "pooling p T0 T True W R Wake"
proof -
  have "tokens p W Stop T" using assms by (simp add: pooling_def)
  then have "tokens p W Wake T" by (simp add: tokens_def held_def)
  then show ?thesis by (intro game_moves [OF assms]) simp_all
qed

lemma game_joins:
  assumes ok: "pool_ok p" and s: "pooling p T0 T stop W R G" and j: "pool p G = Join i x"
    "pool p (case_pool_thread G W R i) = Halt"
  shows "pooling p T0 T stop W R x"
proof -
  have g: "game_ok p stop W R G" using s by (simp add: pooling_def)
  have n: "\<forall>hs. G \<noteq> Closing hs" using j(1) by auto
  obtain J D where o: "objects p J D (held p W G) T" "J + D + (\<Sum>w<p_workers p. busy (W w)) = owed p G"
    by (rule pooling_tokens [OF s n])
  have out: "st = Out" if "pool p st = Halt" "working stop st \<or> rendering stop st" for st using that by (cases st) auto
  consider (w) w where "G = Joining w" "x = joining p (Suc w)" "i = Worker w" | (r) "G = JoinRender" "x = Closing (p_handles p)" "i = Render"
    using j(1) g by (cases G) auto
  then show ?thesis
  proof cases
    case w
    have l: "w < p_workers p" "\<forall>v<w. W v = Out" "stop" using g w by simp_all
    have "working stop (W w)" using s l(1) by (simp add: pooling_def)
    then have "W w = Out" using out [of "W w"] j(2) w(3) by simp
    then have all: "\<forall>v<Suc w. W v = Out" using l(2) less_Suc_eq by auto
    have rest: "\<forall>v<p_workers p. W v = Out" if "\<not> Suc w < p_workers p" using all that by (meson not_less less_le_trans)
    have "R = Out" if "\<not> p_ue p" using s that by (simp add: pooling_def)
    moreover have "tokens p W (joining p (Suc w)) T" if "joining p (Suc w) \<noteq> Closing (p_handles p)"
      using that o w by (intro tokensI [of p J D]) (auto simp: joining_def held_def)
    ultimately show ?thesis unfolding w(2)
      by (intro game_moves [OF s]) (use l all rest in \<open>auto simp: joining_def\<close>)
  next
    case r
    have "rendering stop R" using s r(1) g by (auto simp: pooling_def split: if_splits)
    then have "R = Out" using out [of R] j(2) r(3) by simp
    then show ?thesis unfolding r(2) by (intro game_moves [OF s]) (use r g in auto)
  qed
qed

lemma pooling_step:
  assumes ok: "pool_ok p" and s: "pooling p T0 T stop W R G"
    and w: "work_step d (pool p) (T, stop, case_pool_thread G W R) (T', stop', L')"
  shows "\<exists>W' R' G'. L' = case_pool_thread G' W' R' \<and> pooling p T0 T' stop' W' R' G'"
  using w
proof cases
  case (call i c k res)
  then show ?thesis
    using game_step [OF ok s, of c k res T' d] worker_step [OF ok s, of _ c k res T'] render_step [OF ok s, of c k res T']
    by (cases i) fastforce+
next
  case (shared i f st)
  note sh = this
  show ?thesis
  proof (cases i)
    case Game
    then have "G = Stop" using sh(3) s by (cases G) (auto simp: pooling_def)
    with sh Game game_stops [of p T0 T stop W R] s show ?thesis by fastforce
  next
    case (Worker w)
    have "w < p_workers p \<or> W w = Out" using s by (auto simp: pooling_def not_le [symmetric])
    then have "W w = WCheck" using sh(3) Worker s by (cases "W w") (auto simp: pooling_def)
    with sh Worker worker_checks [OF s, of w] show ?thesis by fastforce
  next
    case Render
    then have "R = RCheck" using sh(3) s by (cases R) (auto simp: pooling_def split: if_splits)
    with sh Render render_checks [of p T0 T stop W G] s show ?thesis by fastforce
  qed
next
  case (join i j st)
  show ?thesis
  proof (cases i)
    case Game
    with join game_joins [OF ok s, of j st] show ?thesis by fastforce
  next
    case (Worker w)
    have "w < p_workers p \<or> W w = Out" using s by (auto simp: pooling_def not_le [symmetric])
    with join Worker s show ?thesis by (cases "W w") (auto simp: pooling_def)
  next
    case Render
    with join s show ?thesis by (cases R) (auto simp: pooling_def split: if_splits)
  qed
qed

subsection \<open>Progress\<close>

text \<open>\<open>togo\<close> bounds what is left to do when the right thread moves.\<close>

fun wt :: "bool \<Rightarrow> pool_pc \<Rightarrow> nat" where
  "wt stop WCheck = 1"
| "wt stop WWait = (if stop then 2 else 0)"
| "wt stop WRelease = 2"
| "wt stop WUnlock = 3"
| "wt stop WLock = 4"
| "wt stop st = 0"

fun rt :: "bool \<Rightarrow> pool_pc \<Rightarrow> nat" where
  "rt True RCheck = 1"
| "rt True RSet = 2"
| "rt True RWait = 3"
| "rt stop st = 0"

fun game_left :: "Pool \<Rightarrow> pool_pc \<Rightarrow> nat" where
  "game_left p (Lock f k) = (f - 1) * (4 * p_tasks p + 4) + p_tasks p + 3 * k + 15 + p_workers p"
| "game_left p (Unlock f k) = (f - 1) * (4 * p_tasks p + 4) + p_tasks p + 3 * k + 14 + p_workers p"
| "game_left p (Post f k) = (f - 1) * (4 * p_tasks p + 4) + p_tasks p + 3 * k + 13 + p_workers p"
| "game_left p (Collect f k) = (f - 1) * (4 * p_tasks p + 4) + k + 14 + p_workers p"
| "game_left p (Go f) = (f - 1) * (4 * p_tasks p + 4) + 14 + p_workers p"
| "game_left p (Pace f) = (f - 1) * (4 * p_tasks p + 4) + 13 + p_workers p"
| "game_left p Stop = 12 + p_workers p"
| "game_left p Wake = 11 + p_workers p"
| "game_left p WakeRender = 10 + p_workers p"
| "game_left p (Joining w) = 7 + (p_workers p - w)"
| "game_left p JoinRender = 7"
| "game_left p (Closing hs) = length hs"
| "game_left p st = 0"

definition jobs :: "Pool \<Rightarrow> nt_table \<Rightarrow> nat" where
  "jobs p T = (case T (p_job p) of Some (NtSem c m) \<Rightarrow> c | _ \<Rightarrow> 0)"

definition togo :: "Pool \<Rightarrow> nt_table \<Rightarrow> bool \<Rightarrow> (nat \<Rightarrow> pool_pc) \<Rightarrow> pool_pc \<Rightarrow> pool_pc \<Rightarrow> nat" where
  "togo p T stop W R G = (5 * p_workers p + 10) * game_left p G + 5 * jobs p T + (\<Sum>w<p_workers p. wt stop (W w)) + rt stop R"

lemma worker_progress:
  assumes ok: "pool_ok p" and s: "pooling p T0 T stop W R G" and d: "50000000 < d"
    and w: "W w \<noteq> Out" "W w = WWait \<longrightarrow> 0 < jobs p T \<or> stop"
  shows "\<exists>T' x. work_step d (pool p) (T, stop, case_pool_thread G W R) (T', stop, case_pool_thread G (W(w := x)) R) \<and>
    togo p T' stop (W(w := x)) R G < togo p T stop W R G"
proof -
  note P = pool_okD [OF ok]
  have n: "w < p_workers p" "\<forall>hs. G \<noteq> Closing hs" using not_closing [OF s w(1)] by auto
  obtain J D where o: "objects p J D (held p W G) T" "J + D + (\<Sum>w<p_workers p. busy (W w)) = owed p G"
    by (rule pooling_tokens [OF s n(2)])
  have small: "held p W G < 2 ^ 31 - 1" using held_small [of p W G] P(5) by simp
  have T: "T (p_job p) = Some (NtSem J 64)" "T (p_done p) = Some (NtSem D 64)" "T (p_queue p) = Some (mutex_of (p_me p) (held p W G))"
    using o(1) by (simp_all add: objects_def)
  have J: "jobs p T = J" using T(1) by (simp add: jobs_def)
  have less: "togo p T' stop (W(w := x)) R G < togo p T stop W R G" if "5 * jobs p T' + wt stop x < 5 * J + wt stop (W w)" for T' x
    using sum_upd [OF n(1), of "wt stop" W x] that by (simp add: togo_def J)
  have wk: "working stop (W w)" using s n(1) by (simp add: pooling_def)
  have go: "work_step d (pool p) (T, stop, case_pool_thread G W R) (T', stop, case_pool_thread G (W(w := k res)) R)"
    if "pool p (W w) = Call c k" "nt_step c T res T'" "res = Waited (Returned Timeout) \<longrightarrow> impatient d c" for c k res T'
    using work_step.call [of "pool p" "case_pool_thread G W R" "Worker w" c k T res T' d stop] that by simp
  show ?thesis
  proof (cases "W w")
    case WCheck
    then have "work_step d (pool p) (T, stop, case_pool_thread G W R) (T, stop, case_pool_thread G (W(w := if stop then Out else WWait)) R)"
      using work_step.shared [of "pool p" "case_pool_thread G W R" "Worker w" "\<lambda>stop. (stop, if stop then Out else WWait)" stop] by simp
    moreover have "togo p T stop (W(w := if stop then Out else WWait)) R G < togo p T stop W R G" by (rule less) (simp add: WCheck J)
    ultimately show ?thesis by blast
  next
    case WWait
    show ?thesis
    proof (cases J)
      case 0
      have "work_step d (pool p) (T, stop, case_pool_thread G W R) (T, stop, case_pool_thread G (W(w := WCheck)) R)"
        using go [of _ _ "Waited (Returned Timeout)" T] wait_step [where T = T and h = "p_job p", OF T(1) P(1)] d by (simp add: WWait 0)
      moreover have "togo p T stop (W(w := WCheck)) R G < togo p T stop W R G" by (rule less) (use w(2) in \<open>simp add: WWait J 0\<close>)
      ultimately show ?thesis by blast
    next
      case (Suc m)
      have "work_step d (pool p) (T, stop, case_pool_thread G W R) (T(p_job p \<mapsto> NtSem m 64), stop, case_pool_thread G (W(w := WLock)) R)"
        using go [of _ _ "Waited (Returned (Signaled 0 False))" "T(p_job p \<mapsto> NtSem m 64)"] wait_step [where T = T and h = "p_job p", OF T(1) P(1)]
        by (simp add: WWait Suc)
      moreover have "togo p (T(p_job p \<mapsto> NtSem m 64)) stop (W(w := WLock)) R G < togo p T stop W R G"
        by (rule less) (simp add: WWait Suc jobs_def)
      ultimately show ?thesis by blast
    qed
  next
    case WLock
    let ?T = "T(p_queue p \<mapsto> mutex_of (p_me p) (Suc (held p W G)))"
    have "work_step d (pool p) (T, stop, case_pool_thread G W R) (?T, stop, case_pool_thread G (W(w := WUnlock)) R)"
      using go [of _ _ "Waited (Returned (Signaled 0 False))" ?T] mutex_of_wait [where T = T and h = "p_queue p", OF T(3) P(1) small] by (simp add: WLock)
    moreover have "togo p ?T stop (W(w := WUnlock)) R G < togo p T stop W R G" by (rule less) (use P T in \<open>simp add: WLock jobs_def\<close>)
    ultimately show ?thesis by blast
  next
    case WUnlock
    obtain c where c: "held p W G = Suc c" using held_worker [OF n(1), of W G] WUnlock by (cases "held p W G") auto
    let ?T = "T(p_queue p \<mapsto> mutex_of (p_me p) c)"
    have "work_step d (pool p) (T, stop, case_pool_thread G W R) (?T, stop, case_pool_thread G (W(w := WRelease)) R)"
      using go [of _ _ "Count (of_nat (Suc c))" ?T] mutex_of_unlock [where T = T and h = "p_queue p", OF T(3) [unfolded c] P(1)] by (simp add: WUnlock)
    moreover have "togo p ?T stop (W(w := WRelease)) R G < togo p T stop W R G" by (rule less) (use P T in \<open>simp add: WUnlock jobs_def\<close>)
    ultimately show ?thesis by blast
  next
    case WRelease
    have g: "game_ok p stop W R G" using s by (simp add: pooling_def)
    have D: "Suc D \<le> 64" using o(2) busy_worker [OF n(1), of W] owed_small [OF ok g] WRelease by simp
    let ?T = "T(p_done p \<mapsto> NtSem (Suc D) 64)"
    have "work_step d (pool p) (T, stop, case_pool_thread G W R) (?T, stop, case_pool_thread G (W(w := WCheck)) R)"
      using go [of _ _ "Count (of_nat D)" ?T] release_step [where T = T and h = "p_done p", OF T(2)] D by (simp add: WRelease)
    moreover have "togo p ?T stop (W(w := WCheck)) R G < togo p T stop W R G" by (rule less) (use P T in \<open>simp add: WRelease jobs_def\<close>)
    ultimately show ?thesis by blast
  qed (use wk w(1) in auto)
qed

lemma render_progress:
  assumes ok: "pool_ok p" and s: "pooling p T0 T True W R G" and d: "50000000 < d" and R: "R \<noteq> Out"
  shows "\<exists>T' x. work_step d (pool p) (T, True, case_pool_thread G W R) (T', True, case_pool_thread G W x) \<and>
    togo p T' True W x G < togo p T True W R G"
proof -
  note P = pool_okD [OF ok]
  have ue: "p_ue p" "rendering True R" using s R by (auto simp: pooling_def split: if_splits)
  have n: "\<forall>hs. G \<noteq> Closing hs" using s R by (auto simp: pooling_def)
  obtain J D where o: "objects p J D (held p W G) T" by (rule pooling_tokens [OF s n])
  then obtain sg sf where t: "T (p_go p) = Some (NtEvent False sg)" "T (p_fence p) = Some (NtEvent False sf)"
    using ue(1) by (auto simp: objects_def)
  have less: "togo p T' True W x G < togo p T True W R G" if "rt True x < rt True R" "jobs p T' = jobs p T" for T' x
    using that by (simp add: togo_def)
  have go: "work_step d (pool p) (T, True, case_pool_thread G W R) (T', True, case_pool_thread G W (k res))"
    if "pool p R = Call c k" "nt_step c T res T'" "res = Waited (Returned Timeout) \<longrightarrow> impatient d c" for c k res T'
    using work_step.call [of "pool p" "case_pool_thread G W R" Render c k T res T' d True] that by simp
  show ?thesis
  proof (cases R)
    case RCheck
    then have "work_step d (pool p) (T, True, case_pool_thread G W R) (T, True, case_pool_thread G W Out)"
      using work_step.shared [of "pool p" "case_pool_thread G W R" Render "\<lambda>stop. (stop, if stop then Out else RWait)" True] by simp
    moreover have "togo p T True W Out G < togo p T True W R G" by (rule less) (simp_all add: RCheck)
    ultimately show ?thesis by blast
  next
    case RWait
    show ?thesis
    proof (cases sg)
      case False
      have "work_step d (pool p) (T, True, case_pool_thread G W R) (T, True, case_pool_thread G W RCheck)"
        using go [of _ _ "Waited (Returned Timeout)" T] wait_step [where T = T and h = "p_go p", OF t(1) P(1)] d by (simp add: RWait False)
      moreover have "togo p T True W RCheck G < togo p T True W R G" by (rule less) (simp_all add: RWait)
      ultimately show ?thesis by blast
    next
      case True
      let ?T = "T(p_go p \<mapsto> NtEvent False False)"
      have "work_step d (pool p) (T, True, case_pool_thread G W R) (?T, True, case_pool_thread G W RSet)"
        using go [of _ _ "Waited (Returned (Signaled 0 False))" ?T] wait_step [where T = T and h = "p_go p", OF t(1) P(1)] by (simp add: RWait True)
      moreover have "togo p ?T True W RSet G < togo p T True W R G" by (rule less) (use P(12) [OF ue(1)] in \<open>auto simp: RWait jobs_def\<close>)
      ultimately show ?thesis by blast
    qed
  next
    case RSet
    let ?T = "T(p_fence p \<mapsto> NtEvent False True)"
    have "work_step d (pool p) (T, True, case_pool_thread G W R) (?T, True, case_pool_thread G W RCheck)"
      using go [of _ _ "Count (of_bool sf)" ?T] event_step(1) [where T = T and h = "p_fence p", OF t(2)] by (simp add: RSet)
    moreover have "togo p ?T True W RCheck G < togo p T True W R G" by (rule less) (use P(13) [OF ue(1)] in \<open>auto simp: RSet jobs_def\<close>)
    ultimately show ?thesis by blast
  qed (use ue R in auto)
qed

lemma left_frame: "game_left p (frame p f) \<le> f * (4 * p_tasks p + 4) + 12 + p_workers p"
  by (cases f) (simp_all add: frame_def)

lemma left_collect: "game_left p (collect p f k) \<le> (f - 1) * (4 * p_tasks p + 4) + k + 14 + p_workers p"
  using left_frame [of p "f - 1"] by (simp add: collect_def)

lemma left_post: "game_left p (post p f k) \<le> (f - 1) * (4 * p_tasks p + 4) + p_tasks p + 3 * k + 15 + p_workers p - of_bool (k = 0)"
  using left_collect [of p f "p_tasks p"] by (simp add: post_def)

lemma step_cost: "(5 * w + 10) * (12 + w) = (5 * w + 10) * (11 + w) + (5 * w + 10 :: nat)"
  by (simp add: algebra_simps)

lemma game_progress:
  assumes ok: "pool_ok p" and s: "pooling p T0 T stop W R G" and d: "50000000 < d" "\<forall>f. p_spare p f < d" and G: "G \<noteq> Closing []"
  shows "\<exists>T' stop' W' R' G'. work_step d (pool p) (T, stop, case_pool_thread G W R) (T', stop', case_pool_thread G' W' R') \<and>
    togo p T' stop' W' R' G' < togo p T stop W R G"
proof -
  let ?goal = "\<exists>T' stop' W' R' G'. work_step d (pool p) (T, stop, case_pool_thread G W R) (T', stop', case_pool_thread G' W' R') \<and>
    togo p T' stop' W' R' G' < togo p T stop W R G"
  note P = pool_okD [OF ok]
  have g: "game_ok p stop W R G" using s by (simp add: pooling_def)
  have worker: ?goal if "W w \<noteq> Out" "W w = WWait \<longrightarrow> 0 < jobs p T \<or> stop" for w
    using worker_progress [OF ok s d(1) that] by blast
  have less: "togo p T' stop W R x < togo p T stop W R G" if "game_left p x < game_left p G" "jobs p T' \<le> jobs p T + p_workers p + 1" for T' x
  proof -
    have "(5 * p_workers p + 10) * Suc (game_left p x) \<le> (5 * p_workers p + 10) * game_left p G" using that(1) by (intro mult_le_mono) auto
    then show ?thesis using that(2) by (simp add: togo_def)
  qed
  have go: ?goal if "pool p G = Call c k" "nt_step c T res T'" "res = Waited (Returned Timeout) \<longrightarrow> impatient d c"
    "game_left p (k res) < game_left p G" "jobs p T' \<le> jobs p T + p_workers p + 1" for c k res T'
  proof -
    have "work_step d (pool p) (T, stop, case_pool_thread G W R) (T', stop, case_pool_thread (k res) W R)"
      using work_step.call [of "pool p" "case_pool_thread G W R" Game c k T res T' d stop] that(1-3) by simp
    with less [OF that(4,5)] show ?thesis by blast
  qed
  show ?goal
  proof (cases "\<exists>hs. G = Closing hs")
    case True
    then obtain h hs where "G = Closing (h # hs)" using G by (metis neq_Nil_conv)
    then show ?thesis by (intro go [of _ _ "Closed (T h \<noteq> None)" "T(h := None)"]) (auto simp: close_step jobs_def)
  next
    case False
    then have n: "\<forall>hs. G \<noteq> Closing hs" by blast
    obtain J D where o: "objects p J D (held p W G) T" "J + D + (\<Sum>w<p_workers p. busy (W w)) = owed p G"
      by (rule pooling_tokens [OF s n])
    have small: "held p W G < 2 ^ 31 - 1" using held_small [of p W G] P(5) by simp
    have T: "T (p_job p) = Some (NtSem J 64)" "T (p_done p) = Some (NtSem D 64)" "T (p_queue p) = Some (mutex_of (p_me p) (held p W G))"
      using o(1) by (simp_all add: objects_def)
    have ev: "p_ue p \<Longrightarrow> \<exists>s. T (p_go p) = Some (NtEvent False s)" "p_ue p \<Longrightarrow> \<exists>s. T (p_fence p) = Some (NtEvent False s)"
      using o(1) by (simp_all add: objects_def)
    have J: "jobs p T = J" using T(1) by (simp add: jobs_def)
    show ?thesis
    proof (cases G)
      case (Lock f j)
      show ?thesis
        by (rule go [OF pool.simps(9) [of p f j, folded Lock], of "Waited (Returned (Signaled 0 False))" "T(p_queue p \<mapsto> mutex_of (p_me p) (Suc (held p W G)))"])
          (use P mutex_of_wait [where T = T and h = "p_queue p", OF T(3) P(1) small] in \<open>simp_all add: Lock jobs_def\<close>)
    next
      case (Unlock f j)
      obtain c' where c: "held p W G = Suc c'" by (cases "held p W G") (auto simp: held_def Unlock)
      show ?thesis
        by (rule go [OF pool.simps(10) [of p f j, folded Unlock], of "Count (of_nat (Suc c'))" "T(p_queue p \<mapsto> mutex_of (p_me p) c')"])
          (use P mutex_of_unlock [where T = T and h = "p_queue p", OF T(3) [unfolded c] P(1)] in \<open>simp_all add: Unlock jobs_def\<close>)
    next
      case (Post f j)
      then have f: "0 < f" "0 < j" "j \<le> p_tasks p" using g by simp_all
      have "Suc J \<le> 64" using o(2) f P(3) Post by simp
      moreover have "game_left p (post p f (j - 1)) < game_left p G" using left_post [of p f "j - 1"] f by (cases "j = 1") (simp_all add: Post)
      ultimately show ?thesis
        by (intro go [OF pool.simps(11) [of p f j, folded Post], of "Count (of_nat J)" "T(p_job p \<mapsto> NtSem (Suc J) 64)"])
          (use release_step [where T = T and h = "p_job p", OF T(1)] in \<open>simp_all add: Post J\<close>, simp add: jobs_def)
    next
      case (Collect f j)
      then have f: "\<not> stop" "0 < f" "0 < j" "j \<le> p_tasks p" using g by simp_all
      show ?thesis
      proof (cases D)
        case (Suc D')
        have "game_left p (collect p f (j - 1)) < game_left p G" using left_collect [of p f "j - 1"] f by (simp add: Collect)
        then show ?thesis
          by (intro go [OF pool.simps(12) [of p f j, folded Collect], of "Waited (Returned (Signaled 0 False))" "T(p_done p \<mapsto> NtSem D' 64)"])
            (use P wait_step [where T = T and h = "p_done p", OF T(2) P(1)] in \<open>simp_all add: Collect Suc jobs_def\<close>)
      next
        case 0
        show ?thesis
        proof (cases "\<exists>w<p_workers p. busy (W w) \<noteq> 0")
          case True
          then obtain w where "busy (W w) \<noteq> 0" by blast
          then show ?thesis by (intro worker [of w]) (auto simp: busy_def split: if_splits)
        next
          case False
          then have "J = j" using o(2) 0 by (simp add: Collect)
          moreover have "working False (W 0)" using s P(4) f(1) by (auto simp: pooling_def)
          ultimately show ?thesis by (intro worker [of 0]) (use f J in auto)
        qed
      qed
    next
      case (Go f)
      then obtain sg where sg: "T (p_go p) = Some (NtEvent False sg)" "p_ue p" using ev(1) g by auto
      show ?thesis
        by (rule go [OF pool.simps(13) [of p f, folded Go], of "Count (of_bool sg)" "T(p_go p \<mapsto> NtEvent False True)"])
          (use P(12) sg event_step(1) [where T = T and h = "p_go p", OF sg(1)] in \<open>auto simp: Go jobs_def\<close>)
    next
      case (Pace f)
      then have f: "0 < f" using g by simp
      have l: "game_left p (frame p (f - 1)) < game_left p G" using left_frame [of p "f - 1"] by (simp add: Pace)
      have sp: "p_spare p f < d" using d(2) by simp
      have z: "D = 0" using o(2) by (simp add: Pace)
      show ?thesis
      proof (cases "p_ue p")
        case False
        then show ?thesis
          by (intro go [OF pool.simps(14) [of p f, folded Pace], of "Waited (Returned Timeout)" T])
            (use l sp wait_step [where T = T and h = "p_done p", OF T(2) P(1)] in \<open>simp_all add: Pace z\<close>)
      next
        case True
        then obtain sf where sf: "T (p_fence p) = Some (NtEvent False sf)" using ev(2) by blast
        note w = wait_step [where T = T and h = "p_fence p", OF sf P(1)]
        show ?thesis
        proof (cases sf)
          case False
          then show ?thesis by (intro go [OF pool.simps(14) [of p f, folded Pace], of "Waited (Returned Timeout)" T]) (use l sp w True in \<open>simp_all add: Pace\<close>)
        next
          case sf: True
          then show ?thesis
            by (intro go [OF pool.simps(14) [of p f, folded Pace], of "Waited (Returned (Signaled 0 False))" "T(p_fence p \<mapsto> NtEvent False False)"])
              (use l w True P(13) in \<open>auto simp: Pace jobs_def\<close>)
        qed
      qed
    next
      case Stop
      have st: "\<not> stop" using g by (simp add: Stop)
      have "wt True x \<le> wt False x + 2" for x by (cases x) auto
      then have "(\<Sum>w<p_workers p. wt True (W w)) \<le> (\<Sum>w<p_workers p. wt False (W w) + 2)" by (intro sum_mono) auto
      then have "(\<Sum>w<p_workers p. wt True (W w)) \<le> (\<Sum>w<p_workers p. wt False (W w)) + 2 * p_workers p" by (simp add: sum.distrib del: add_2_eq_Suc')
      moreover have "rt True R \<le> 3" by (cases R) auto
      ultimately have "togo p T True W R Wake < togo p T stop W R G"
        using st step_cost [of "p_workers p"] by (simp add: togo_def Stop)
      moreover have "work_step d (pool p) (T, stop, case_pool_thread G W R) (T, True, case_pool_thread Wake W R)"
        using work_step.shared [of "pool p" "case_pool_thread G W R" Game "\<lambda>_. (True, Wake)" stop True Wake d T] by (simp add: Stop)
      ultimately show ?thesis by blast
    next
      case Wake
      have z: "J = 0" using o(2) by (simp add: Wake)
      have u: "unat (of_nat (p_workers p) :: u32) = p_workers p" using P(5) by (simp add: unat_of_nat)
      show ?thesis
        by (rule go [OF pool.simps(16) [of p, folded Wake], of "Count 0" "T(p_job p \<mapsto> NtSem (p_workers p) 64)"])
          (use P(5) at_joining [OF ok] release_step [where T = T and h = "p_job p", OF T(1)] in \<open>simp_all add: Wake z u J\<close>, simp add: jobs_def)
    next
      case WakeRender
      then obtain sg where sg: "T (p_go p) = Some (NtEvent False sg)" "p_ue p" using ev(1) g by auto
      show ?thesis
        by (rule go [OF pool.simps(17) [of p, folded WakeRender], of "Count (of_bool sg)" "T(p_go p \<mapsto> NtEvent False True)"])
          (use P(12) sg at_joining [OF ok] event_step(1) [where T = T and h = "p_go p", OF sg(1)] in \<open>auto simp: WakeRender jobs_def\<close>)
    next
      case (Joining w)
      then have w: "w < p_workers p" "stop" using g by simp_all
      show ?thesis
      proof (cases "W w = Out")
        case True
        then have "work_step d (pool p) (T, stop, case_pool_thread G W R) (T, stop, case_pool_thread (joining p (Suc w)) W R)"
          using work_step.join [of "pool p" "case_pool_thread G W R" Game "Worker w"] by (simp add: Joining)
        moreover have "game_left p (joining p (Suc w)) < game_left p G" using w by (auto simp: joining_def Joining p_handles_def)
        then have "togo p T stop W R (joining p (Suc w)) < togo p T stop W R G" by (rule less) simp
        ultimately show ?thesis by blast
      qed (use worker w in blast)
    next
      case JoinRender
      show ?thesis
      proof (cases "R = Out")
        case True
        then have "work_step d (pool p) (T, stop, case_pool_thread G W R) (T, stop, case_pool_thread (Closing (p_handles p)) W R)"
          using work_step.join [of "pool p" "case_pool_thread G W R" Game Render] by (simp add: JoinRender)
        moreover have "game_left p (Closing (p_handles p)) < game_left p G" by (simp add: JoinRender p_handles_def)
        then have "togo p T stop W R (Closing (p_handles p)) < togo p T stop W R G" by (rule less) simp
        ultimately show ?thesis by blast
      next
        case False
        have st: "stop = True" using g by (simp add: JoinRender)
        from render_progress [OF ok s [unfolded st] d(1) False] show ?thesis unfolding st by blast
      qed
    qed (use g n in auto)
  qed
qed

subsection \<open>Property\<close>

lemma pooling_start:
  assumes ok: "pool_ok p"
  shows "pooling p T (pool_table p T) False (\<lambda>w. if w < p_workers p then WCheck else Out) (if p_ue p then RCheck else Out) (frame p frames)"
proof -
  note P = pool_okD [OF ok]
  let ?W = "\<lambda>w. if w < p_workers p then WCheck else Out"
  have "objects p 0 0 (held p ?W (frame p frames)) (pool_table p T)"
    using P(6-13) at_frame(3) [of p frames] by (auto simp: objects_def pool_table_def held_def mutex_of_def)
  then have "tokens p ?W (frame p frames) (pool_table p T)"
    by (rule tokensI) (simp add: at_frame)
  moreover have "\<forall>h. h \<notin> set (p_handles p) \<longrightarrow> pool_table p T h = T h" by (auto simp: pool_table_def p_handles_def)
  ultimately show ?thesis
    using at_frame(1) [OF ok] at_frame(4) by (auto simp: pooling_def shop_tokens)
qed

lemma pooling_run:
  assumes "pool_ok p" "(work_step d (pool p))\<^sup>*\<^sup>* (T, stop, case_pool_thread G W R) st" "pooling p T0 T stop W R G"
  shows "\<exists>T' stop' W' R' G'. st = (T', stop', case_pool_thread G' W' R') \<and> pooling p T0 T' stop' W' R' G'"
  using assms(2)
proof induction
  case base
  then show ?case using assms(3) by blast
next
  case (step st1 st2)
  then obtain T1 stop1 W1 R1 G1 where "st1 = (T1, stop1, case_pool_thread G1 W1 R1)" "pooling p T0 T1 stop1 W1 R1 G1" by blast
  moreover obtain T2 stop2 L2 where "st2 = (T2, stop2, L2)" by (cases st2)
  ultimately show ?case using pooling_step [OF assms(1), of T0 T1 stop1 W1 R1 G1 d T2 stop2 L2] step.hyps(2) by blast
qed

lemma pooling_ends:
  assumes ok: "pool_ok p" and d: "50000000 < d" "\<forall>f. p_spare p f < d"
  shows "pooling p T0 T stop W R G \<Longrightarrow> \<exists>T' stop' W' R'. (work_step d (pool p))\<^sup>*\<^sup>* (T, stop, case_pool_thread G W R)
     (T', stop', case_pool_thread (Closing []) W' R') \<and> pooling p T0 T' stop' W' R' (Closing [])"
proof (induction "togo p T stop W R G" arbitrary: T stop W R G rule: less_induct)
  case less
  show ?case
  proof (cases "G = Closing []")
    case False
    obtain T1 stop1 W1 R1 G1 where s1: "work_step d (pool p) (T, stop, case_pool_thread G W R) (T1, stop1, case_pool_thread G1 W1 R1)"
      "togo p T1 stop1 W1 R1 G1 < togo p T stop W R G"
      using game_progress [OF ok less.prems d False] by blast
    have p1: "pooling p T0 T1 stop1 W1 R1 G1" using pooling_step [OF ok less.prems s1(1)] by auto
    obtain T' stop' W' R' where r: "(work_step d (pool p))\<^sup>*\<^sup>* (T1, stop1, case_pool_thread G1 W1 R1) (T', stop', case_pool_thread (Closing []) W' R')"
      "pooling p T0 T' stop' W' R' (Closing [])"
      using less.hyps [OF s1(2) p1] by blast
    then show ?thesis using converse_rtranclp_into_rtranclp [of "work_step d (pool p)", OF s1(1) r(1)] by blast
  qed (use less.prems in blast)
qed

text \<open>
  C25: the worker pools never get stuck. Whatever the number of frames, the schedule, the timeouts and the time that is left in
  the frames: at every moment of a run of either engine the tasks that the game thread has posted and not yet collected
  are in one of the semaphores or with a worker, and the queue's mutex counts the threads that are
  in its critical section, since they all lock it as one owner; and from there the run can be brought to its end, where
  all threads have ended, the objects are closed and other objects are untouched.
\<close>

theorem pools_never_stuck:
  assumes "(q, prog) \<in> {(ue_pool p, sim_ue45_frame_graph p), (godot_pool p, sim_godot_worker_pool p)}" "pool_ok q"
    and "50000000 < d" "\<forall>f. p_spare p f < d" "(work_step d prog)\<^sup>*\<^sup>* (pool_start q frames T) (T', stop, L)"
  shows "((\<forall>hs. L Game \<noteq> Closing hs) \<longrightarrow> tokens q (\<lambda>w. L (Worker w)) (L Game) T') \<and>
    (\<exists>T'' L'. (work_step d prog)\<^sup>*\<^sup>* (T', stop, L) (T'', True, L') \<and> L' Game = Closing [] \<and> (\<forall>i. i \<noteq> Game \<longrightarrow> L' i = Out) \<and>
      T'' = (\<lambda>h. if h \<in> set (p_handles q) then None else T h))"
proof -
  have q: "prog = pool q" "\<forall>f. p_spare q f < d"
    using assms(1,4) by (auto simp: sim_ue45_frame_graph_def sim_godot_worker_pool_def ue_pool_def godot_pool_def)
  obtain W R G where L: "L = case_pool_thread G W R" and s: "pooling q T T' stop W R G"
    using pooling_run [OF assms(2) assms(5) [unfolded q(1) pool_start_def] pooling_start [OF assms(2)]] by blast
  have "tokens q W G T'" if "\<forall>hs. G \<noteq> Closing hs" using s that by (simp add: pooling_def shop_tokens)
  moreover obtain T'' stop' W' R' where e: "(work_step d (pool q))\<^sup>*\<^sup>* (T', stop, case_pool_thread G W R) (T'', stop', case_pool_thread (Closing []) W' R')"
    "pooling q T T'' stop' W' R' (Closing [])"
    using pooling_ends [OF assms(2,3) q(2) s] by blast
  have w: "W' w = Out" for w using e(2) by (cases "w < p_workers q") (auto simp: pooling_def)
  have "stop'" "R' = Out" "T'' = (\<lambda>h. if h \<in> set (p_handles q) then None else T h)"
    using e(2) by (auto simp: pooling_def)
  moreover from this(2) w have "\<forall>i. i \<noteq> Game \<longrightarrow> case_pool_thread (Closing []) W' R' i = Out" by (auto split: pool_thread.split)
  ultimately show ?thesis using e(1) unfolding q(1) L by (intro conjI exI [of _ T''] exI [of _ "case_pool_thread (Closing []) W' R'"]) auto
qed

definition small_pool :: Pool where
  "small_pool = \<lparr>p_job = 16385, p_done = 16386, p_queue = 16387, p_go = 16388, p_fence = 16389, p_me = 42, p_tasks = 1, p_workers = 1,
     p_ue = False, p_spare = (\<lambda>f. 1000000)\<rparr>"

text \<open>The start of the frame graph: the game thread locks the queue.\<close>

theorem pools_never_stuck_witness:
  "\<exists>T' L. (work_step 60000000 (sim_ue45_frame_graph small_pool))\<^sup>*\<^sup>* (pool_start (ue_pool small_pool) 400 Map.empty) (T', False, L) \<and>
     L Game = Unlock 400 8 \<and> (\<exists>T'' L'. (work_step 60000000 (sim_ue45_frame_graph small_pool))\<^sup>*\<^sup>* (T', False, L) (T'', True, L') \<and>
       L' Game = Closing [] \<and> T'' = Map.empty)"
proof -
  let ?q = "ue_pool small_pool"
  have ok: "pool_ok ?q" by (simp add: pool_ok_def ue_pool_def small_pool_def p_handles_def)
  have d: "(50000000::nat) < 60000000" "\<forall>f. p_spare small_pool f < 60000000" by (simp_all add: small_pool_def)
  obtain T0 L0 where s: "pool_start ?q 400 Map.empty = (T0, False, L0)" "L0 Game = Lock 400 8" "T0 (p_queue ?q) = Some (mutex_of (p_me ?q) 0)"
    by (simp add: pool_start_def frame_def ue_pool_def pool_table_def small_pool_def mutex_of_def)
  have m: "p_me ?q \<noteq> 0" by (simp add: ue_pool_def small_pool_def)
  obtain T1 where "nt_step (Wait [p_queue ?q] (p_me ?q) None False) T0 (Waited (Returned (Signaled 0 False))) T1"
    using mutex_of_wait [where T = T0 and h = "p_queue ?q", OF s(3) m] by auto
  then have "work_step 60000000 (sim_ue45_frame_graph small_pool) (pool_start ?q 400 Map.empty) (T1, False, L0(Game := Unlock 400 8))"
    unfolding s(1) sim_ue45_frame_graph_def
    using work_step.call [of "pool ?q" L0 Game "Wait [p_queue ?q] (p_me ?q) None False" "\<lambda>_. Unlock 400 8"] s(2) by simp
  then have r: "(work_step 60000000 (sim_ue45_frame_graph small_pool))\<^sup>*\<^sup>* (pool_start ?q 400 Map.empty) (T1, False, L0(Game := Unlock 400 8))" by simp
  from pools_never_stuck [OF insertI1 ok d r] obtain T2 L2 where "(work_step 60000000 (sim_ue45_frame_graph small_pool))\<^sup>*\<^sup>* (T1, False, L0(Game := Unlock 400 8)) (T2, True, L2)"
    "L2 Game = Closing []" "T2 = Map.empty" by auto
  moreover have "(L0(Game := Unlock 400 8)) Game = Unlock 400 8" by simp
  ultimately show ?thesis using r by blast
qed

end
