(* ===== verification/Node_Set.thy ===== *)
theory Node_Set
  imports Wait
begin

text \<open>
  The set of nodes that a wait holds is an array of fixed size on its stack; theory \<open>Wait\<close> has a list in its place.
  Here the array is modelled as it is, with the panics of an index out of range as \<open>None\<close>, and shown to be
  the list for every wait that the library accepts.
\<close>

record NodeSet =
  ns_idx :: "u32 list"
  ns_len :: nat

definition ns_new :: NodeSet where
  "ns_new = \<lparr>ns_idx = replicate (MAX_WAIT_COUNT + 1) 0, ns_len = 0\<rparr>"

definition ns_push :: "NodeSet \<Rightarrow> u32 \<Rightarrow> NodeSet option" where
  "ns_push s v = (if ns_len s < length (ns_idx s) then Some \<lparr>ns_idx = (ns_idx s)[ns_len s := v], ns_len = ns_len s + 1\<rparr> else None)"

definition ns_is_empty :: "NodeSet \<Rightarrow> bool" where
  "ns_is_empty s \<longleftrightarrow> ns_len s = 0"

definition ns_clear :: "NodeSet \<Rightarrow> NodeSet" where
  "ns_clear s = s\<lparr>ns_len := 0\<rparr>"

definition ns_iter :: "NodeSet \<Rightarrow> u32 list option" where
  "ns_iter s = (if ns_len s \<le> length (ns_idx s) then Some (take (ns_len s) (ns_idx s)) else None)"

text \<open>Indexing looks at the array, not at the length of the set.\<close>

definition ns_index :: "NodeSet \<Rightarrow> nat \<Rightarrow> u32 option" where
  "ns_index s i = (if i < length (ns_idx s) then Some (ns_idx s ! i) else None)"

text \<open>The loop of a wait that allocates its nodes.\<close>

fun ns_alloc :: "Os \<Rightarrow> nat \<Rightarrow> Region \<Rightarrow> NodeSet \<Rightarrow> ((bool \<times> NodeSet) \<times> Region) option" where
  "ns_alloc os 0 r s = Some ((True, s), r)"
| "ns_alloc os (Suc n) r s =
     (case node_alloc os r of
        (Some i, r1) \<Rightarrow> Option.bind (ns_push s i) (ns_alloc os n r1)
      | (None, r1) \<Rightarrow> Some ((False, s), r1))"

definition ns_rep :: "NodeSet \<Rightarrow> u32 list \<Rightarrow> bool" where
  "ns_rep s ns \<longleftrightarrow> length (ns_idx s) = MAX_WAIT_COUNT + 1 \<and> ns_len s = length ns \<and> length ns \<le> MAX_WAIT_COUNT + 1 \<and> take (ns_len s) (ns_idx s) = ns"

lemma ns_rep_new: "ns_rep ns_new []"
  by (simp add: ns_rep_def ns_new_def)

lemma ns_rep_push:
  assumes "ns_rep s ns" "length ns \<le> MAX_WAIT_COUNT"
  shows "\<exists>s'. ns_push s v = Some s' \<and> ns_rep s' (ns @ [v])"
  using assms by (auto simp: ns_rep_def ns_push_def take_Suc_conv_app_nth)

lemma ns_rep_use:
  assumes "ns_rep s ns"
  shows "ns_is_empty s \<longleftrightarrow> ns = []" "ns_iter s = Some ns" "ns_rep (ns_clear s) []" "i < length ns \<Longrightarrow> ns_index s i = Some (ns ! i)"
  using assms by (auto simp: ns_rep_def ns_is_empty_def ns_iter_def ns_clear_def ns_index_def)

lemma ns_alloc_rep:
  "ns_rep s ns \<Longrightarrow> length ns + n \<le> MAX_WAIT_COUNT + 1 \<Longrightarrow>
    \<exists>s'. ns_alloc os n r s = Some ((fst (fst (alloc_nodes os n r ns)), s'), snd (alloc_nodes os n r ns)) \<and>
      ns_rep s' (snd (fst (alloc_nodes os n r ns)))"
proof (induction n arbitrary: r s ns)
  case (Suc n)
  obtain x r1 where x: "node_alloc os r = (x, r1)" by fastforce
  show ?case
  proof (cases x)
    case (Some i)
    obtain s1 where s1: "ns_push s i = Some s1" "ns_rep s1 (ns @ [i])"
      using ns_rep_push [OF Suc.prems(1), of i] Suc.prems(2) by auto
    with Suc.IH [OF s1(2), of r1] Suc.prems(2) show ?thesis by (simp add: x Some)
  qed (use Suc.prems in \<open>simp add: x\<close>)
qed simp

text \<open>
  The node set of a wait never overflows and is the list that the model has in its place. For every
  number of handles that the library accepts, with the alert or without, allocating the nodes neither panics
  nor differs from the allocation into a list; iterating, indexing below the number of nodes,
  asking whether it is empty and clearing are those of the list.
\<close>

theorem node_set_is_list:
  assumes "n \<le> MAX_WAIT_COUNT + 1" "alloc_nodes os n r [] = ((ok, ns), r')"
  shows "\<exists>s. ns_alloc os n r ns_new = Some ((ok, s), r') \<and> ns_iter s = Some ns \<and> (ns_is_empty s \<longleftrightarrow> ns = []) \<and>
    (\<forall>i<length ns. ns_index s i = Some (ns ! i)) \<and> ns_iter (ns_clear s) = Some []"
proof -
  obtain s where "ns_alloc os n r ns_new = Some ((ok, s), r')" "ns_rep s ns"
    using ns_alloc_rep [OF ns_rep_new, of n os r] assms by auto
  then show ?thesis using ns_rep_use [of s ns] ns_rep_use(2) [of "ns_clear s" "[]"] by simp
qed

theorem node_set_is_list_witness:
  "\<exists>s r'. ns_alloc (quiet_os 7) 2 fresh_region ns_new = Some ((True, s), r') \<and> ns_iter s = Some [0, 1]"
proof -
  have c: "\<not> NODE_COUNT \<le> 1" "NODE_COUNT \<noteq> 0" by (simp_all add: NODE_COUNT_def word_le_nat_alt)
  have "alloc_nodes (quiet_os 7) (Suc (Suc 0)) fresh_region [] =
      ((True, [0, 1]), snd (alloc_nodes (quiet_os 7) (Suc (Suc 0)) fresh_region []))"
    by (simp add: node_alloc_def c)
  from node_set_is_list [OF _ this] show ?thesis by (simp add: MAX_WAIT_COUNT_def numeral_2_eq_2) blast
qed

end
