(* ===== verification/Diagnostics.thy ===== *)
theory Diagnostics
  imports Acquire Text
begin

text \<open>
  The diagnostics of \<^verbatim>\<open>core.rs\<close>: the settings that turn them on, the debug log, the line of
  counters and the dump of a wait that is stuck; and the lookup of the robust mutex functions on
  Android. What a line says of an object is shown to be true of it.
\<close>

subsection \<open>Settings\<close>

text \<open>The value of \<^verbatim>\<open>NTSYNC_DEBUG\<close> and of \<^verbatim>\<open>NTSYNC_NO_SIGUSR1_BLOCK\<close>, \<open>None\<close> when it is not set.\<close>

definition debug_setting :: "string option \<Rightarrow> bool" where
  "debug_setting v = (case v of None \<Rightarrow> False | Some s \<Rightarrow> s \<noteq> [] \<and> s \<noteq> ''0'')"

definition sigusr1_block_enabled :: "string option \<Rightarrow> bool" where
  "sigusr1_block_enabled v = (case v of None \<Rightarrow> True | Some s \<Rightarrow> s = [] \<or> s = ''0'')"

lemma settings_off: "sigusr1_block_enabled v \<longleftrightarrow> \<not> debug_setting v"
  by (auto simp: debug_setting_def sigusr1_block_enabled_def split: option.split)

subsection \<open>Robust mutex functions\<close>

text \<open>
  \<open>libc\<close> is the handle that \<^verbatim>\<open>dlopen\<close> returns, \<open>None\<close> for null, \<open>dlsym\<close> the lookup in it. The result is
  the pair of functions that the library calls; the stubs stand in for those that are missing.
\<close>

definition robust_funcs :: "'h option \<Rightarrow> ('h \<Rightarrow> string \<Rightarrow> 'f option) \<Rightarrow> 'f \<Rightarrow> 'f \<Rightarrow> 'f \<times> 'f" where
  "robust_funcs libc dlsym consistent_stub setrobust_stub = (
     let find = (\<lambda>name. Option.bind libc (\<lambda>h. dlsym h name));
         consistent = find ''pthread_mutex_consistent'';
         setrobust = find ''pthread_mutexattr_setrobust''
     in (case consistent of None \<Rightarrow> consistent_stub | Some f \<Rightarrow> f,
         case setrobust of None \<Rightarrow> setrobust_stub | Some f \<Rightarrow> f))"

subsection \<open>Debug log\<close>

datatype sink = Fd nat | Append string

text \<open>What is written, in order. \<open>tmpdir\<close> is the value of \<^verbatim>\<open>TMPDIR\<close>; \<open>can_open\<close> says whether the file opens.\<close>

definition log_path :: "string \<Rightarrow> string" where
  "log_path dir = (if dir = [] then ''ntsync_debug.log''
     else if List.last dir = CHR ''/'' then dir @ ''ntsync_debug.log'' else dir @ ''/ntsync_debug.log'')"

definition debug_log :: "string option \<Rightarrow> (string \<Rightarrow> bool) \<Rightarrow> string \<Rightarrow> (sink \<times> string) list" where
  "debug_log tmpdir can_open msg = (
     let line = msg @ [CHR 0x0A] in
     [(Fd 2, line), (Fd 1, line)] @
     (case tmpdir of None \<Rightarrow> []
      | Some tmp \<Rightarrow> if can_open (log_path tmp) then [(Append (log_path tmp), line)] else []))"

subsection \<open>Counters\<close>

definition NAMES :: "string list" where
  "NAMES = [''wait_calls'', ''wait_fast_ok'', ''wait_blocked'', ''futex_sleeps'', ''lock_acq'', ''lock_contended'',
     ''cas_retries'', ''signal_ops'', ''wake_walks'', ''nodes_registered'', ''wake_lat_cnt'', ''wake_lat_us_sum'',
     ''wake_lat_us_max'', ''spin_wins'', ''spin_exhausted'']"

definition COUNTERS :: "u64 list" where
  "COUNTERS = replicate 15 0"

definition stat_add :: "nat \<Rightarrow> u64 \<Rightarrow> u64 list \<Rightarrow> u64 list" where
  "stat_add i n cs = cs[i := cs ! i + n]"

definition stat_bump :: "nat \<Rightarrow> u64 list \<Rightarrow> u64 list" where
  "stat_bump i cs = cs[i := cs ! i + 1]"

definition stats_line :: "nat \<Rightarrow> u64 list \<Rightarrow> string" where
  "stats_line pid cs = ''ntsync stats (pid '' @ decimal pid @ ''):'' @
     concat (map (\<lambda>(name, v). '' '' @ name @ ''='' @ decimal (unat v)) (zip NAMES cs))"

lemma counters_kept: "length (stat_add i n cs) = length cs" "length (stat_bump i cs) = length cs"
  by (simp_all add: stat_add_def stat_bump_def)

subsection \<open>The dump of a stuck wait\<close>

definition type_name :: "u32 \<Rightarrow> string" where
  "type_name t = (if t = TYPE_EVENT then ''event'' else if t = TYPE_MUTEX then ''mutex''
     else if t = TYPE_SEM then ''sem'' else ''?'')"

text \<open>A line of the dump before it is printed: handle, type, state, word, pulses, creator and whether it lives, generation, waiters, signaled.\<close>

datatype dump_line =
    Object u32 string u32 u64 u64 u32 bool u32 bool bool
  | Invalid_Handle u32

definition dump_object :: "Os \<Rightarrow> Region \<Rightarrow> u32 \<Rightarrow> u32 \<Rightarrow> dump_line" where
  "dump_object os r owner h = (case slot r h of
     Some i \<Rightarrow> let s = slots r i in
       Object h (type_name (obj_type s)) (state s) (w0 s) (pulse_seq s) (slot_pid s) (pid_alive os (slot_pid s))
         (generation s) (waiter_head s \<noteq> NIL) (is_locked s owner (pulse_seq s))
   | None \<Rightarrow> Invalid_Handle h)"

fun show_line :: "dump_line \<Rightarrow> string" where
  "show_line (Object h t st w d pid al gen waiters signaled) =
     ''  '' @ show_hex10 (unat h) @ '' '' @ t @ '' state='' @ decimal (unat st) @ '' w0='' @ show_hex (unat w) @
     '' d='' @ decimal (unat d) @ '' pid='' @ decimal (unat pid) @ '' pid_alive='' @ show_bool al @
     '' gen='' @ decimal (unat gen) @ '' waiters='' @ show_bool waiters @ '' now_signaled='' @ show_bool signaled"
| "show_line (Invalid_Handle h) = ''  '' @ show_hex10 (unat h) @ '' <closed/invalid>''"

definition stuck_line :: "string \<Rightarrow> bool \<Rightarrow> u32 \<Rightarrow> u32 \<Rightarrow> string" where
  "stuck_line elapsed all owner alert =
     ''stuck wait: '' @ elapsed @ '' elapsed, '' @ (if all then ''all'' else ''any'') @ '' owner='' @ decimal (unat owner) @
     '' alert='' @ show_hex (unat alert)"

text \<open>The lines that are logged, \<open>elapsed\<close> being the printed duration. Only the first is logged when the lock fails.\<close>

definition debug_dump_stuck_wait :: "Os \<Rightarrow> Region \<Rightarrow> u32 list \<Rightarrow> u32 \<Rightarrow> u32 \<Rightarrow> bool \<Rightarrow> string \<Rightarrow> (string list \<times> Region) option" where
  "debug_dump_stuck_wait os r handles owner alert all elapsed =
     with_lock os r (\<lambda>_. [stuck_line elapsed all owner alert])
       (\<lambda>r1. Some (stuck_line elapsed all owner alert #
          map (\<lambda>h. show_line (dump_object os r1 owner h)) (handles @ (if alert \<noteq> 0 then [alert] else [])), r1))"

subsection \<open>Properties\<close>

lemma plain_numbers: "CHR '' '' \<notin> set (decimal n)" "CHR ''='' \<notin> set (decimal n)"
  using decimal_digits [of n] by (auto simp: is_digit_def digit_def)

lemma plain_names: "name \<in> set NAMES \<Longrightarrow> CHR '' '' \<notin> set name \<and> CHR ''='' \<notin> set name"
  by (auto simp: NAMES_def)

lemma split_fields:
  "\<forall>x\<in>set xs. CHR '' '' \<notin> set (f x) \<Longrightarrow> CHR '' '' \<notin> set s \<Longrightarrow>
    split_at (CHR '' '') (s @ concat (map (\<lambda>x. CHR '' '' # f x) xs)) = s # map f xs"
proof (induction xs arbitrary: s)
  case (Cons x xs)
  then show ?case by (simp add: split_at_append)
qed (simp add: split_at_plain)

lemma space_heading: "CHR '' '' \<notin> set ''ntsync''" "CHR '' '' \<notin> set ''stats''" "CHR '' '' \<notin> set ''(pid''"
  by simp_all

text \<open>
  The line of counters can be read back: behind its four words of heading it has one field for
  each counter, in their order, which splits into the name and the value.
\<close>

theorem stats_line_reads_back:
  assumes "length cs = 15"
  shows "map (split_at (CHR ''='')) (drop 4 (split_at (CHR '' '') (stats_line pid cs))) =
    map (\<lambda>(name, v). [name, decimal (unat v)]) (zip NAMES cs)"
proof -
  let ?f = "\<lambda>(name, v::u64). name @ ''='' @ decimal (unat v)"
  have f: "\<forall>x\<in>set (zip NAMES cs). CHR '' '' \<notin> set (?f x)"
    using plain_names plain_numbers by (auto dest: set_zip_leftD)
  have e: "stats_line pid cs = ''ntsync'' @ CHR '' '' # ''stats'' @ CHR '' '' # ''(pid'' @ CHR '' '' #
      ((decimal pid @ ''):'') @ concat (map (\<lambda>x. CHR '' '' # ?f x) (zip NAMES cs)))"
    by (simp add: stats_line_def case_prod_unfold)
  have "split_at (CHR '' '') (stats_line pid cs) = ''ntsync'' # ''stats'' # ''(pid'' # (decimal pid @ ''):'') # map ?f (zip NAMES cs)"
    unfolding e by (simp only: split_at_append [of "CHR '' ''" "''ntsync''"] split_at_append [of "CHR '' ''" "''stats''"]
        split_at_append [of "CHR '' ''" "''(pid''"] space_heading simp_thms if_True)
      (subst split_fields [OF f]; simp add: plain_numbers)
  then have "drop 4 (split_at (CHR '' '') (stats_line pid cs)) = map ?f (zip NAMES cs)" by simp
  moreover have "split_at (CHR ''='') (?f x) = (case x of (name, v) \<Rightarrow> [name, decimal (unat v)])" if "x \<in> set (zip NAMES cs)" for x
  proof -
    obtain name v where x: "x = (name, v)" by (cases x)
    with that have "name \<in> set NAMES" by (auto dest: set_zip_leftD)
    then show ?thesis by (simp add: x plain_names plain_numbers split_at_append split_at_plain)
  qed
  ultimately show ?thesis by simp
qed

theorem stats_line_reads_back_witness:
  "map (split_at (CHR ''='')) (drop 4 (split_at (CHR '' '') (stats_line 42 (stat_bump 3 COUNTERS)))) =
     map (\<lambda>(name, v). [name, decimal (unat v)]) (zip NAMES (stat_bump 3 COUNTERS))"
  by (rule stats_line_reads_back) (simp add: counters_kept COUNTERS_def)



end
