(* ===== verification/Bench_Report.thy ===== *)
theory Bench_Report
  imports Init Text "HOL-Library.List_Lexorder" "HOL-Library.Char_ord"
begin

text \<open>
  What the benchmarks of \<^verbatim>\<open>bench.rs\<close> collect and keep: figures read from \<^verbatim>\<open>/proc\<close>, the metrics of a
  sample, and the results in a file that a later run compares with. Text is ASCII here; numbers are 64-bit words
  that wrap, as in the release build that the benchmarks ask for.
\<close>

subsection \<open>Text functions of the standard library\<close>

definition whitespace :: "char \<Rightarrow> bool" where
  "whitespace c \<longleftrightarrow> c \<in> {CHR '' '', CHR 0x09, CHR 0x0A, CHR 0x0B, CHR 0x0C, CHR 0x0D}"

definition trim_while :: "(char \<Rightarrow> bool) \<Rightarrow> string \<Rightarrow> string" where
  "trim_while P s = rev (dropWhile P (rev (dropWhile P s)))"

definition trim :: "string \<Rightarrow> string" where
  "trim = trim_while whitespace"

definition trim_end :: "char \<Rightarrow> string \<Rightarrow> string" where
  "trim_end c s = rev (dropWhile (\<lambda>x. x = c) (rev s))"

fun drop_prefixes :: "string \<Rightarrow> string \<Rightarrow> string" where
  "drop_prefixes p s = (if p \<noteq> [] \<and> s \<noteq> [] \<and> take (length p) s = p then drop_prefixes p (drop (length p) s) else s)"

declare drop_prefixes.simps [simp del]

text \<open>\<^verbatim>\<open>trim_end_matches\<close> of a string takes off every repetition of it.\<close>

definition trim_end_all :: "string \<Rightarrow> string \<Rightarrow> string" where
  "trim_end_all p s = rev (drop_prefixes (rev p) (rev s))"

definition split_once :: "char \<Rightarrow> string \<Rightarrow> (string \<times> string) option" where
  "split_once c s = (if c \<in> set s then Some (takeWhile (\<lambda>x. x \<noteq> c) s, tl (dropWhile (\<lambda>x. x \<noteq> c) s)) else None)"

definition strip_cr :: "string \<Rightarrow> string" where
  "strip_cr s = (if s \<noteq> [] \<and> List.last s = CHR 0x0D then butlast s else s)"

definition text_lines :: "string \<Rightarrow> string list" where
  "text_lines s = (let ls = split_at (CHR 0x0A) s in
     map strip_cr (if List.last ls = [] then butlast ls else ls))"

definition contains :: "string \<Rightarrow> string \<Rightarrow> bool" where
  "contains p s \<longleftrightarrow> (\<exists>k\<le>length s. take (length p) (drop k s) = p)"

definition starts_with :: "string \<Rightarrow> string \<Rightarrow> bool" where
  "starts_with p s \<longleftrightarrow> take (length p) s = p"

function words :: "string \<Rightarrow> string list" where
  "words s = (let s1 = dropWhile whitespace s in
     if s1 = [] then [] else takeWhile (\<lambda>c. \<not> whitespace c) s1 # words (dropWhile (\<lambda>c. \<not> whitespace c) s1))"
  by pat_completeness auto

termination
proof (relation "measure length")
  fix s s1 assume s1: "s1 = dropWhile whitespace s" "s1 \<noteq> []"
  then have "\<not> whitespace (hd s1)" using hd_dropWhile [of whitespace s] by simp
  then have "dropWhile (\<lambda>c. \<not> whitespace c) s1 = dropWhile (\<lambda>c. \<not> whitespace c) (tl s1)" using s1(2) by (cases s1) simp_all
  then have "length (dropWhile (\<lambda>c. \<not> whitespace c) s1) \<le> length (tl s1)" by (simp only:) (rule length_dropWhile_le)
  moreover have "length s1 \<le> length s" by (simp add: s1(1) length_dropWhile_le)
  ultimately have "length (dropWhile (\<lambda>c. \<not> whitespace c) s1) < length s" using s1(2) by (cases s1) simp_all
  then show "(dropWhile (\<lambda>c. \<not> whitespace c) s1, s) \<in> measure length" by simp
qed simp

declare words.simps [simp del]

subsection \<open>Memory figures\<close>

text \<open>\<^verbatim>\<open>proc_rss_kb\<close> on the text of \<^verbatim>\<open>/proc/self/status\<close>: the first line that starts with \<^verbatim>\<open>VmRSS:\<close> decides.\<close>

fun proc_rss_kb :: "string list \<Rightarrow> nat" where
  "proc_rss_kb [] = 0"
| "proc_rss_kb (line # lines) =
     (if starts_with ''VmRSS:'' line then
        case parse_uint (2 ^ 64 - 1) (trim (trim_end_all '' kB'' (trim (drop 6 line)))) of Some n \<Rightarrow> n | None \<Rightarrow> 0
      else proc_rss_kb lines)"

record Mapped =
  in_region :: bool
  rss :: u64
  shared_dirty :: u64
  private_dirty :: u64

definition kb :: "string \<Rightarrow> u64" where
  "kb line = (let ws = words line in
     if 1 < length ws then case parse_uint (2 ^ 64 - 1) (ws ! 1) of Some n \<Rightarrow> of_nat n | None \<Rightarrow> 0 else 0)"

definition smaps_line :: "string \<Rightarrow> string \<Rightarrow> Mapped \<Rightarrow> Mapped" where
  "smaps_line stem line m =
     (if CHR ''-'' \<in> set line \<and> CHR ''/'' \<in> set line then m\<lparr>in_region := contains stem line\<rparr>
      else if \<not> in_region m then m
      else if starts_with ''Rss:'' line then m\<lparr>rss := rss m + kb line\<rparr>
      else if starts_with ''Shared_Dirty:'' line then m\<lparr>shared_dirty := shared_dirty m + kb line\<rparr>
      else if starts_with ''Private_Dirty:'' line then m\<lparr>private_dirty := private_dirty m + kb line\<rparr>
      else m)"

text \<open>
  \<open>listing\<close> has the names and sizes in the directory of temporary files, \<open>smaps\<close> the text of
  \<^verbatim>\<open>/proc/self/smaps\<close>, each \<open>None\<close> where it cannot be read.
\<close>

definition shm_stats :: "(string \<times> u64 option) list option \<Rightarrow> string option \<Rightarrow> string \<Rightarrow> u64 \<times> u64 \<times> u64 \<times> u64" where
  "shm_stats listing smaps stem = (
     let file_bytes = (case listing of None \<Rightarrow> 0
           | Some es \<Rightarrow> foldl (\<lambda>bytes (name, len). if contains stem name then (case len of Some n \<Rightarrow> n | None \<Rightarrow> 0) else bytes) 0 es);
         m0 = \<lparr>in_region = False, rss = 0, shared_dirty = 0, private_dirty = 0\<rparr>;
         m = (case smaps of None \<Rightarrow> m0 | Some text \<Rightarrow> fold (smaps_line stem) (text_lines text) m0)
     in (file_bytes, rss m, shared_dirty m, private_dirty m))"

subsection \<open>Samples\<close>

record Sample =
  wall_us :: u64
  cpu_us :: u64
  ops :: u64
  nvcsw :: u64
  nivcsw :: u64

definition metrics :: "Sample \<Rightarrow> (string \<times> u64) list" where
  "metrics s = (let n = max (ops s) 1 in
     [(''ops'', ops s), (''wall_us'', wall_us s), (''cpu_us'', cpu_us s), (''cpu_ns_per_op'', cpu_us s * 1000 div n),
      (''cpu_ratio_pct'', cpu_us s * 100 div max (wall_us s) 1), (''voluntary_ctxsw'', nvcsw s),
      (''involuntary_ctxsw'', nivcsw s), (''ctxsw_per_kop'', nvcsw s * 1000 div n)])"

subsection \<open>The file of results\<close>

text \<open>A tree map is the list of its entries in the order of their keys.\<close>

type_synonym results = "(string \<times> u64) list"

fun put :: "string \<Rightarrow> u64 \<Rightarrow> results \<Rightarrow> results" where
  "put k v [] = [(k, v)]"
| "put k v ((k1, v1) # m) = (if k < k1 then (k, v) # (k1, v1) # m else if k = k1 then (k, v) # m else (k1, v1) # put k v m)"

text \<open>The format \<^verbatim>\<open>{:?}\<close> of a string.\<close>

definition escape :: "char \<Rightarrow> string" where
  "escape c = (if c = CHR 0x22 then [CHR 0x5C, CHR 0x22] else if c = CHR 0x5C then [CHR 0x5C, CHR 0x5C]
     else if c = CHR 0x0A then [CHR 0x5C, CHR ''n''] else if c = CHR 0x0D then [CHR 0x5C, CHR ''r'']
     else if c = CHR 0x09 then [CHR 0x5C, CHR ''t''] else if c = CHR 0x00 then [CHR 0x5C, CHR ''0'']
     else if of_char c < (32::nat) \<or> of_char c = (127::nat) then CHR 0x5C # ''u{'' @ hex (of_char c) @ ''}'' else [c])"

definition quoted :: "string \<Rightarrow> string" where
  "quoted s = CHR 0x22 # concat (map escape s) @ [CHR 0x22]"

fun json_lines :: "results \<Rightarrow> string" where
  "json_lines [] = []"
| "json_lines ((k, v) # m) =
     ''  '' @ quoted k @ '': '' @ decimal (unat v) @ (if m = [] then [] else '','') @ [CHR 0x0A] @ json_lines m"

definition to_json :: "results \<Rightarrow> string" where
  "to_json m = ''{'' @ [CHR 0x0A] @ json_lines m @ ''}'' @ [CHR 0x0A]"

definition from_line :: "string \<Rightarrow> results \<Rightarrow> results" where
  "from_line line m = (case split_once (CHR '':'') (trim_end (CHR '','') (trim line)) of
     None \<Rightarrow> m
   | Some (k, v) \<Rightarrow> (case parse_uint (2 ^ 64 - 1) (trim v) of
       None \<Rightarrow> m
     | Some n \<Rightarrow> put (trim_while (\<lambda>c. c = CHR 0x22) (trim k)) (of_nat n) m))"

definition from_json :: "string \<Rightarrow> results" where
  "from_json text = fold from_line (text_lines text) []"

datatype target = Baseline | Latest

text \<open>\<open>mode\<close> is the value of \<^verbatim>\<open>NTSYNC_BENCH_BASELINE\<close>; the result is what has been recorded so far, and the file that is written.\<close>

definition record_results :: "string option \<Rightarrow> string \<Rightarrow> (string \<times> u64) list \<Rightarrow> results \<Rightarrow> results \<times> target \<times> string" where
  "record_results mode bench figures results =
     (let g = fold (\<lambda>(k, v). put (bench @ ''.'' @ k) v) figures results
      in (g, if mode = Some ''write'' then Baseline else Latest, to_json g))"

subsection \<open>The stem of the region file\<close>

definition shm_stem :: "nat \<Rightarrow> string" where
  "shm_stem pid = ''ntsync-bench-'' @ decimal pid"

text \<open>The last component of a path, \<open>None\<close> where there is none or it is the parent directory.\<close>

definition file_name :: "string \<Rightarrow> string option" where
  "file_name path = (let cs = filter (\<lambda>c. c \<noteq> [] \<and> c \<noteq> ''.'') (split_at (CHR ''/'') path) in
     if cs = [] \<or> List.last cs = ''..'' then None else Some (List.last cs))"

definition shm_stem_from_path :: "string \<Rightarrow> string" where
  "shm_stem_from_path path = hd (split_at (CHR ''.'') (case file_name path of Some n \<Rightarrow> n | None \<Rightarrow> []))"

subsection \<open>Reading back what was written\<close>

lemma dropWhile_stays: "xs = [] \<or> \<not> P (hd xs) \<Longrightarrow> dropWhile P xs = xs"
  by (cases xs) auto

lemma trim_while_middle:
  assumes "\<forall>c\<in>set a. P c" "\<forall>c\<in>set b. P c" "s = [] \<or> \<not> P (hd s) \<and> \<not> P (List.last s)"
  shows "trim_while P (a @ s @ b) = s"
proof (cases "s = []")
  case True
  then show ?thesis using assms(1,2) by (simp add: trim_while_def dropWhile_append2) (auto simp: dropWhile_eq_Nil_conv dest: set_dropWhileD)
next
  case False
  then have "dropWhile P (s @ b) = s @ b" "dropWhile P (rev s) = rev s"
    using assms(3) by (intro dropWhile_stays; simp add: hd_rev)+
  moreover have "dropWhile P (a @ s @ b) = dropWhile P (s @ b)" "dropWhile P (rev b @ rev s) = dropWhile P (rev s)"
    using assms(1,2) by (intro dropWhile_append2; simp)+
  ultimately show ?thesis by (simp add: trim_while_def)
qed

lemma trim_end_stays: "s = [] \<or> List.last s \<noteq> c \<Longrightarrow> trim_end c s = s"
  by (simp add: trim_end_def dropWhile_stays hd_rev)

lemma trim_end_one: "s \<noteq> [] \<Longrightarrow> List.last s \<noteq> c \<Longrightarrow> trim_end c (s @ [c]) = s"
  by (simp add: trim_end_def dropWhile_stays hd_rev)

lemma split_once_at: "c \<notin> set s \<Longrightarrow> split_once c (s @ c # r) = Some (s, r)"
  by (induction s) (auto simp: split_once_def)

lemma text_lines_concat:
  assumes "\<forall>l\<in>set ls. CHR 0x0A \<notin> set l"
  shows "text_lines (concat (map (\<lambda>l. l @ [CHR 0x0A]) ls)) = map strip_cr ls"
proof -
  have "split_at (CHR 0x0A) (concat (map (\<lambda>l. l @ [CHR 0x0A]) ls)) = ls @ [[]]" if "\<forall>l\<in>set ls. CHR 0x0A \<notin> set l" for ls
    using that by (induction ls) (simp_all add: split_at_append)
  with assms show ?thesis by (simp add: text_lines_def)
qed

text \<open>Keys without quotes, colons, backslashes and control characters.\<close>

definition plain :: "string \<Rightarrow> bool" where
  "plain k \<longleftrightarrow> (\<forall>c\<in>set k. 32 \<le> (of_char c :: nat) \<and> (of_char c :: nat) < 127 \<and> c \<notin> {CHR 0x22, CHR 0x5C, CHR '':''})"

lemma plain_append [simp]: "plain (a @ b) \<longleftrightarrow> plain a \<and> plain b"
  by (auto simp: plain_def)

lemma control_codes: "of_char (CHR 0x0A) = (10::nat)" "of_char (CHR 0x0D) = (13::nat)" "of_char (CHR 0x09) = (9::nat)" "of_char (CHR 0x00) = (0::nat)"
  by (simp_all add: of_char_def bit_0)

lemma escape_one:
  assumes "32 \<le> (of_char c :: nat)" "(of_char c :: nat) < 127" "c \<noteq> CHR 0x22" "c \<noteq> CHR 0x5C"
  shows "escape c = [c]"
proof -
  have "c \<noteq> CHR 0x0A" "c \<noteq> CHR 0x0D" "c \<noteq> CHR 0x09" "c \<noteq> CHR 0x00" using assms(1) control_codes by fastforce+
  with assms show ?thesis by (simp only: escape_def if_False) simp
qed

lemma plain_dot: "plain (CHR ''.'' # k) \<longleftrightarrow> plain k"
  by (simp add: plain_def of_char_def bit_0)

lemma escape_plain: "plain k \<Longrightarrow> concat (map escape k) = k"
  by (induction k) (simp_all add: plain_def escape_one)

lemma decimal_plain: "c \<in> set (decimal n) \<Longrightarrow> \<not> whitespace c \<and> c \<noteq> CHR '','' \<and> c \<noteq> CHR '':'' \<and> c \<noteq> CHR 0x0A \<and> c \<noteq> CHR 0x0D"
  using decimal_digits [of n] by (auto simp: is_digit_def digit_def whitespace_def)

definition sorted_keys :: "results \<Rightarrow> bool" where
  "sorted_keys m \<longleftrightarrow> sorted_wrt (<) (map fst m)"

definition entry :: "string \<Rightarrow> u64 \<Rightarrow> string" where
  "entry k v = ''  '' @ quoted k @ '': '' @ decimal (unat v)"

fun entries_of :: "results \<Rightarrow> string list" where
  "entries_of [] = []"
| "entries_of [(k, v)] = [entry k v]"
| "entries_of ((k, v) # m) = (entry k v @ '','') # entries_of m"

lemma to_json_lines: "to_json m = concat (map (\<lambda>l. l @ [CHR 0x0A]) (''{'' # entries_of m @ [''}'']))"
proof -
  have "json_lines m = concat (map (\<lambda>l. l @ [CHR 0x0A]) (entries_of m))"
    by (induction m rule: entries_of.induct) (simp_all add: entry_def)
  then show ?thesis by (simp add: to_json_def)
qed

lemma from_entry:
  assumes "plain k" "t = [] \<or> t = '',''"
  shows "from_line (entry k v @ t) m = put k v m"
proof -
  let ?d = "decimal (unat v)" and ?q = "CHR 0x22"
  have d: "?d \<noteq> []" "\<not> whitespace (List.last ?d)" "List.last ?d \<noteq> CHR '',''" using decimal_plain [of "List.last ?d" "unat v"] by auto
  have k: "\<forall>c\<in>set k. c \<noteq> CHR '':'' \<and> c \<noteq> ?q" using assms(1) by (auto simp: plain_def)
  have e: "entry k v = ''  '' @ (?q # k @ ?q # CHR '':'' # CHR '' '' # ?d)"
    using escape_plain [OF assms(1)] by (simp add: entry_def quoted_def)
  have w: "\<not> whitespace ?q" "\<not> whitespace (CHR '','')" "whitespace (CHR '' '')" by (simp_all add: whitespace_def)
  have "trim (''  '' @ (?q # k @ ?q # CHR '':'' # CHR '' '' # ?d @ t) @ []) = ?q # k @ ?q # CHR '':'' # CHR '' '' # ?d @ t"
    unfolding trim_def by (rule trim_while_middle) (use assms(2) d w in auto)
  then have "trim_end (CHR '','') (trim (entry k v @ t)) = ?q # k @ ?q # CHR '':'' # CHR '' '' # ?d"
    using assms(2) d trim_end_one [of "?q # k @ ?q # CHR '':'' # CHR '' '' # ?d" "CHR '',''"] by (auto simp: e trim_end_stays)
  moreover have "split_once (CHR '':'') ((?q # k @ [?q]) @ CHR '':'' # CHR '' '' # ?d) = Some (?q # k @ [?q], CHR '' '' # ?d)"
    by (rule split_once_at) (use k in auto)
  moreover have "trim ('' '' @ ?d @ []) = ?d"
    unfolding trim_def by (rule trim_while_middle) (use d w decimal_plain [of "hd ?d" "unat v"] in auto)
  moreover have "trim ([] @ (?q # k @ [?q]) @ []) = ?q # k @ [?q]"
    unfolding trim_def by (rule trim_while_middle) (use w in auto)
  moreover have "trim_while (\<lambda>c. c = ?q) ([?q] @ k @ [?q]) = k"
    by (rule trim_while_middle) (use k in \<open>auto simp: Ball_def\<close>)
  moreover have "parse_uint (2 ^ 64 - 1) ?d = Some (unat v)"
    by (rule parse_uint_decimal) (use unsigned_less [of v, where 'a = nat] in simp)
  ultimately show ?thesis by (simp add: from_line_def)
qed

lemma from_entries: "\<forall>(k, v)\<in>set m. plain k \<Longrightarrow> fold from_line (entries_of m) acc = fold (\<lambda>(k, v). put k v) m acc"
proof (induction m arbitrary: acc rule: entries_of.induct)
  case (2 k v)
  then show ?case using from_entry [of k "[]" v acc] by simp
next
  case (3 k v p m)
  then show ?case using from_entry [of k "'',''" v acc] by simp
qed simp

lemma put_at_end: "\<forall>x\<in>set m. fst x < k \<Longrightarrow> put k v m = m @ [(k, v)]"
  by (induction m) auto

lemma put_all: "sorted_keys (acc @ m) \<Longrightarrow> fold (\<lambda>(k, v). put k v) m acc = acc @ m"
proof (induction m arbitrary: acc)
  case (Cons x m)
  then have "put (fst x) (snd x) acc = acc @ [x]"
    by (subst put_at_end) (auto simp: sorted_keys_def sorted_wrt_append)
  with Cons.IH [of "acc @ [x]"] Cons.prems show ?case by (simp add: case_prod_unfold)
qed simp

lemma results_back:
  assumes "sorted_keys m" "\<forall>(k, v)\<in>set m. plain k"
  shows "from_json (to_json m) = m"
proof -
  have nl: "CHR 0x0A \<notin> set (entry k v)" "List.last (entry k v) \<noteq> CHR 0x0D" if "plain k" for k v
  proof -
    have "CHR 0x0A \<notin> set k"
    proof
      assume "CHR 0x0A \<in> set k"
      then have "32 \<le> (of_char (CHR 0x0A) :: nat)" using that unfolding plain_def by blast
      then show False unfolding control_codes by simp
    qed
    then show "CHR 0x0A \<notin> set (entry k v)" using decimal_plain [of "CHR 0x0A"] by (auto simp: entry_def quoted_def escape_plain that)
    show "List.last (entry k v) \<noteq> CHR 0x0D" using decimal_plain [of "List.last (decimal (unat v))" "unat v"] by (auto simp: entry_def)
  qed
  have "\<forall>l\<in>set (entries_of m). CHR 0x0A \<notin> set l \<and> strip_cr l = l" using assms(2)
    by (induction m rule: entries_of.induct) (auto simp: nl strip_cr_def)
  then have "text_lines (to_json m) = ''{'' # entries_of m @ [''}'']"
    unfolding to_json_lines by (subst text_lines_concat) (auto simp: strip_cr_def intro: map_idI)
  moreover have "from_line ''{'' a = a" "from_line ''}'' a = a" for a
    by (simp_all add: from_line_def trim_def trim_while_def trim_end_def whitespace_def split_once_def)
  ultimately show ?thesis
    using from_entries [OF assms(2), of "[]"] put_all [of "[]" m] assms(1) by (simp add: from_json_def)
qed

lemma put_set: "fst ` set (put k v m) = insert k (fst ` set m)"
  by (induction m rule: put.induct) auto

lemma put_sorted: "sorted_keys m \<Longrightarrow> sorted_keys (put k v m)"
proof (induction k v m rule: put.induct)
  case (2 k v k1 v1 m)
  then show ?case
    using put_set [of k v m] by (auto simp: sorted_keys_def simp flip: set_map)
qed (simp add: sorted_keys_def)

lemma map_of_put: "sorted_keys m \<Longrightarrow> map_of (put k v m) = (map_of m)(k \<mapsto> v)"
proof (induction k v m rule: put.induct)
  case (2 k v k1 v1 m)
  then have "k < k1 \<Longrightarrow> map_of m k = None" by (force simp: sorted_keys_def map_of_eq_None_iff)
  with 2 show ?case by (auto simp: sorted_keys_def fun_eq_iff)
qed simp

lemma plain_keys: "(\<forall>(k, v)\<in>set m. plain k) \<longleftrightarrow> (\<forall>k\<in>fst ` set m. plain k)"
  by force

lemma recorded:
  "sorted_keys m \<Longrightarrow> \<forall>k\<in>fst ` set m. plain k \<Longrightarrow> \<forall>k\<in>fst ` set figs. plain (f k) \<Longrightarrow>
    sorted_keys (fold (\<lambda>(k, v). put (f k) v) figs m) \<and> (\<forall>k\<in>fst ` set (fold (\<lambda>(k, v). put (f k) v) figs m). plain k) \<and>
    map_of (fold (\<lambda>(k, v). put (f k) v) figs m) = fold (\<lambda>(k, v) t. t(f k \<mapsto> v)) figs (map_of m)"
proof (induction figs arbitrary: m)
  case (Cons x figs)
  obtain k v where x: "x = (k, v)" by (cases x)
  have m: "sorted_keys (put (f k) v m)" "\<forall>k\<in>fst ` set (put (f k) v m). plain k" "\<forall>k\<in>fst ` set figs. plain (f k)"
    using Cons.prems put_sorted by (simp_all add: x put_set)
  show ?case
    unfolding x fold_simps prod.case map_of_put [OF Cons.prems(1), symmetric] by (rule Cons.IH [OF m])
qed simp

subsection \<open>Properties\<close>

text \<open>
  C33: what a benchmark records is what a later run reads. When names are free of quotes, colons, backslashes and
  control characters, the file that is written after a benchmark reads back as all results of
  the process so far, those of the benchmark included and the others unchanged.
\<close>

theorem results_read_back:
  assumes "sorted_keys results" "\<forall>k\<in>fst ` set results. plain k" "plain bench" "\<forall>k\<in>fst ` set figures. plain k"
    and "record_results mode bench figures results = (g, target, text)"
  shows "from_json text = g \<and> map_of g = fold (\<lambda>(k, v) t. t(bench @ ''.'' @ k \<mapsto> v)) figures (map_of results)"
proof -
  have f: "\<forall>k\<in>fst ` set figures. plain (bench @ ''.'' @ k)" using assms(3,4) by (simp add: plain_dot)
  have r: "g = fold (\<lambda>(k, v). put (bench @ ''.'' @ k) v) figures results" "text = to_json g"
    using assms(5) by (auto simp: record_results_def Let_def)
  show ?thesis using recorded [OF assms(1,2) f] results_back [of g] by (simp add: r plain_keys)
qed

theorem results_read_back_witness:
  "from_json (to_json [(''rpc.ops'', 10000), (''rpc.wall_us'', 812)]) = [(''rpc.ops'', 10000), (''rpc.wall_us'', 812)]"
proof -
  have p: "plain ''rpc''" "\<forall>k\<in>fst ` set [(''wall_us'', 812::u64), (''ops'', 10000)]. plain k"
    by (simp_all add: plain_def of_char_def bit_0)
  have r: "record_results None ''rpc'' [(''wall_us'', 812), (''ops'', 10000)] [] =
      ([(''rpc.ops'', 10000), (''rpc.wall_us'', 812)], Latest, to_json [(''rpc.ops'', 10000), (''rpc.wall_us'', 812)])"
    by (simp add: record_results_def less_char_def Let_def)
  show ?thesis using results_read_back [OF _ _ p r] by (simp add: sorted_keys_def)
qed

text \<open>Words of a line of \<^verbatim>\<open>smaps\<close>.\<close>

lemma words_skip: "whitespace c \<Longrightarrow> words (c # s) = words s"
  by (subst (1 2) words.simps) simp

lemma words_take:
  assumes "w \<noteq> []" "\<forall>c\<in>set w. \<not> whitespace c" "whitespace c"
  shows "words (w @ c # s) = w # words (c # s)"
proof -
  have "dropWhile whitespace (w @ c # s) = w @ c # s" using assms by (intro dropWhile_stays) auto
  moreover have "takeWhile (\<lambda>c. \<not> whitespace c) (w @ c # s) = w" "dropWhile (\<lambda>c. \<not> whitespace c) (w @ c # s) = c # s"
    using assms by (simp_all add: takeWhile_append2 dropWhile_append2)
  ultimately show ?thesis using assms(1) by (subst words.simps) (simp add: Let_def)
qed

lemma kb_line:
  assumes "w \<noteq> []" "\<forall>c\<in>set w. \<not> whitespace c" "n < 2 ^ 64"
  shows "kb (w @ '' '' @ decimal n @ '' kB'') = of_nat n"
proof -
  have s: "whitespace (CHR '' '')" by (simp add: whitespace_def)
  have "words (decimal n @ CHR '' '' # ''kB'') = decimal n # words (CHR '' '' # ''kB'')"
    by (rule words_take) (use decimal_plain s in auto)
  moreover have "words (w @ CHR '' '' # decimal n @ CHR '' '' # ''kB'') = w # words (CHR '' '' # decimal n @ CHR '' '' # ''kB'')"
    by (rule words_take) (use assms s in auto)
  moreover have "parse_uint (2 ^ 64 - 1) (decimal n) = Some n" by (rule parse_uint_decimal) (use assms(3) in simp)
  ultimately show ?thesis by (simp add: kb_def Let_def words_skip [OF s])
qed

text \<open>
  The figures for the region include the anonymous mappings that follow it. A heading of \<^verbatim>\<open>smaps\<close> without
  a path does not end the region for \<^verbatim>\<open>shm_stats\<close>, so that the resident memory of the mapping is added to that of
  the region.
\<close>

theorem anonymous_mapping_counted:
  assumes "in_region m" "CHR ''/'' \<notin> set heading"
    and "\<forall>p\<in>{''Rss:'', ''Shared_Dirty:'', ''Private_Dirty:''}. \<not> starts_with p heading" "n < 2 ^ 64"
  shows "rss (fold (smaps_line stem) [heading, ''Rss: '' @ decimal n @ '' kB''] m) = rss m + of_nat n"
proof -
  have "kb (''Rss:'' @ '' '' @ decimal n @ '' kB'') = of_nat n" by (rule kb_line) (use assms(4) in \<open>auto simp: whitespace_def\<close>)
  moreover have "CHR ''-'' \<notin> set (''Rss: '' @ decimal n @ '' kB'')"
    using decimal_digits [of n] by (auto simp: is_digit_def digit_def)
  ultimately show ?thesis using assms(1-3) by (simp add: smaps_line_def starts_with_def)
qed

text \<open>A region of 12 kB followed by 4096 kB of heap.\<close>

theorem anonymous_mapping_counted_witness:
  "(let m = \<lparr>in_region = True, rss = 12, shared_dirty = 0, private_dirty = 0\<rparr>;
        heading = ''7f0000000000-7f0000400000 rw-p 00000000 00:00 0''
    in rss (fold (smaps_line ''ntsync-bench-1'') [heading, ''Rss: 4096 kB''] m)) = 4108"
proof -
  let ?m = "\<lparr>in_region = True, rss = 12, shared_dirty = 0, private_dirty = 0\<rparr>"
  have d: "decimal 4096 = ''4096''" by (simp add: decimal_small decimal_large char_of_def bit_0)
  have "rss (fold (smaps_line ''ntsync-bench-1'') [''7f0000000000-7f0000400000 rw-p 00000000 00:00 0'', ''Rss: '' @ decimal 4096 @ '' kB''] ?m)
      = rss ?m + of_nat 4096"
    by (rule anonymous_mapping_counted) (simp_all add: starts_with_def)
  then show ?thesis by (simp add: d)
qed

lemma split_at_twice: "c \<in> set s \<Longrightarrow> tl (split_at c s) \<noteq> []"
  by (induction s) auto

lemma split_at_component: "c \<notin> set s \<Longrightarrow> List.last (split_at c (dir @ c # s)) = s"
proof (induction dir)
  case (Cons a dir)
  with split_at_twice [of c "dir @ c # s"] show ?case by (simp add: last_tl)
qed (simp add: split_at_plain)

lemma contains_prefix: "contains p (p @ s)"
  by (auto simp: contains_def intro!: exI [of _ 0])

text \<open>
  An executed worker looks for the region of its parent. From the path in its environment, in any directory, it makes the
  stem of the parent, and the file that \<^verbatim>\<open>init\<close> opens for the path has the stem in its name.
\<close>

theorem worker_finds_stem:
  fixes dir pid
  defines "path \<equiv> dir @ ''/'' @ shm_stem pid @ ''.shm''"
  shows "shm_stem_from_path path = shm_stem pid \<and>
    (\<exists>f. file_name (versioned_path path) = Some f \<and> contains (shm_stem pid) f)"
proof -
  have p: "CHR ''/'' \<notin> set (shm_stem pid)" "CHR ''.'' \<notin> set (shm_stem pid)"
    using decimal_digits [of pid] by (auto simp: shm_stem_def is_digit_def digit_def)
  have fn: "file_name (dir @ ''/'' @ shm_stem pid @ t) = Some (shm_stem pid @ t)" if "CHR ''/'' \<notin> set t" for t
  proof -
    have l: "List.last (split_at (CHR ''/'') (dir @ CHR ''/'' # (shm_stem pid @ t))) = shm_stem pid @ t"
      by (rule split_at_component) (use p that in simp)
    obtain cs where cs: "split_at (CHR ''/'') (dir @ CHR ''/'' # (shm_stem pid @ t)) = cs @ [shm_stem pid @ t]"
      using l append_butlast_last_id [OF split_at_nonempty] by metis
    show ?thesis using cs by (simp add: file_name_def Let_def shm_stem_def)
  qed
  have "shm_stem_from_path path = shm_stem pid"
    using fn [of "''.shm''"] p(2) by (simp add: path_def shm_stem_from_path_def split_at_append [of "CHR ''.''" "shm_stem pid" "''shm''", simplified])
  moreover have "versioned_path path = dir @ ''/'' @ shm_stem pid @ ''.v10.shm''"
    by (simp add: path_def versioned_path_def rsplit_once_def Let_def show_VERSION)
  ultimately show ?thesis using fn [of "''.v10.shm''"] contains_prefix by simp
qed

end
